(* ===== verification/Prelude.thy ===== *)
theory Prelude
  imports Main "HOL-Library.Multiset" "HOL-Library.Monad_Syntax"
begin

text \<open>
  The vocabulary every component of the development shares.

  \<^item> A C++ execution that has no defined result (an out-of-bounds array access, a signed
    overflow) is \<open>None\<close>; a loop that does not end is \<open>None\<close> as well. So \<open>f x = Some y\<close> says
    that the code returns, that it touches no memory outside its arrays, and that it returns
    \<open>y\<close>. The code is written in the option monad (\<open>do\<close> blocks).
  \<^item> \<open>unsigned int\<close> values are natural numbers below \<open>U32 = 2 ^ 32\<close>; the operations that can
    wrap around are \<open>uadd\<close>, \<open>usub\<close> and \<open>umul\<close>, with the reduction written out.
  \<^item> Arrays are lists; \<open>aget\<close> and \<open>aput\<close> check the index.
  \<^item> \<open>for_range\<close> is the counting loop \<open>for (i = a; i < b; i++)\<close> whose body leaves \<open>i\<close> and \<open>b\<close>
    alone.
  \<^item> \<open>ok m Q\<close> is total correctness (the code returns and the result satisfies \<open>Q\<close>); its
    simplification rules compute weakest preconditions.
\<close>

section \<open>Unsigned 32-bit arithmetic\<close>

type_synonym u32 = nat

abbreviation U32 :: nat where "U32 \<equiv> 4294967296"

definition uadd :: "u32 \<Rightarrow> u32 \<Rightarrow> u32" where
  "uadd a b = (a + b) mod U32"

definition usub :: "u32 \<Rightarrow> u32 \<Rightarrow> u32" where
  "usub a b = (a + (U32 - b mod U32)) mod U32"

definition umul :: "u32 \<Rightarrow> u32 \<Rightarrow> u32" where
  "umul a b = (a * b) mod U32"

named_theorems wrap_simps \<open>the unsigned operations where no wrap-around happens\<close>

lemma uadd_exact [wrap_simps]: "a + b < U32 \<Longrightarrow> uadd a b = a + b"
  by (simp add: uadd_def)

lemma umul_exact [wrap_simps]: "a * b < U32 \<Longrightarrow> umul a b = a * b"
  by (simp add: umul_def)

lemma usub_exact [wrap_simps]:
  assumes "b \<le> a" "a < U32" shows "usub a b = a - b"
proof -
  have "a + (U32 - b mod U32) = (a - b) + U32" using assms by simp
  then have "usub a b = (a - b + U32) mod U32" by (simp only: usub_def)
  also have "\<dots> = a - b" using assms by (subst mod_add_self2) simp
  finally show ?thesis .
qed

lemma usub_wraps: "a < b \<Longrightarrow> b < U32 \<Longrightarrow> usub a b = U32 - (b - a)"
  by (simp add: usub_def)

lemma uadd_1 [wrap_simps]: "Suc i < U32 \<Longrightarrow> uadd i 1 = Suc i" "Suc i < U32 \<Longrightarrow> uadd i (Suc 0) = Suc i"
  by (simp_all add: uadd_exact)

lemma usub_1 [wrap_simps]: "0 < i \<Longrightarrow> i < U32 \<Longrightarrow> usub i 1 = i - 1" "0 < i \<Longrightarrow> i < U32 \<Longrightarrow> usub i (Suc 0) = i - Suc 0"
  by (simp_all add: usub_exact Suc_leI)

lemma uadd_less: "uadd a b < U32"
  by (simp add: uadd_def)

lemma usub_less: "usub a b < U32"
  by (simp add: usub_def)

section \<open>Total correctness of option-valued code\<close>

definition ok :: "'a option \<Rightarrow> ('a \<Rightarrow> bool) \<Rightarrow> bool" where
  "ok m Q \<longleftrightarrow> (case m of None \<Rightarrow> False | Some x \<Rightarrow> Q x)"

lemma ok_None [simp]: "ok None Q \<longleftrightarrow> False"
  by (simp add: ok_def)

lemma ok_Some [simp]: "ok (Some x) Q \<longleftrightarrow> Q x"
  by (simp add: ok_def)

lemma ok_bind [simp]: "ok (Option.bind m f) Q \<longleftrightarrow> ok m (\<lambda>x. ok (f x) Q)"
  by (cases m) simp_all

lemma ok_if [simp]: "ok (if b then m else n) Q \<longleftrightarrow> (if b then ok m Q else ok n Q)"
  by simp

lemma ok_let [simp]: "ok (Let a f) Q \<longleftrightarrow> (let x = a in ok (f x) Q)"
  by (simp add: Let_def)

lemma ok_case_prod [simp]: "ok (case p of (a, b) \<Rightarrow> f a b) Q \<longleftrightarrow> (case p of (a, b) \<Rightarrow> ok (f a b) Q)"
  by (cases p) simp

lemma ok_iff: "ok m Q \<longleftrightarrow> (\<exists>x. m = Some x \<and> Q x)"
  by (cases m) simp_all

lemma okI [intro?]: "m = Some x \<Longrightarrow> Q x \<Longrightarrow> ok m Q"
  by simp

lemma okE: "ok m Q \<Longrightarrow> (\<And>x. m = Some x \<Longrightarrow> Q x \<Longrightarrow> P) \<Longrightarrow> P"
  by (auto simp: ok_iff)

lemma ok_mono: "ok m P \<Longrightarrow> (\<And>x. P x \<Longrightarrow> Q x) \<Longrightarrow> ok m Q"
  by (auto simp: ok_iff)

lemma ok_SomeD: "ok m Q \<Longrightarrow> m = Some x \<Longrightarrow> Q x"
  by simp

section \<open>Arrays\<close>

definition aget :: "'a list \<Rightarrow> nat \<Rightarrow> 'a option" where
  "aget xs i = (if i < length xs then Some (xs ! i) else None)"

definition aput :: "'a list \<Rightarrow> nat \<Rightarrow> 'a \<Rightarrow> 'a list option" where
  "aput xs i v = (if i < length xs then Some (xs[i := v]) else None)"

lemma ok_aget [simp]: "ok (aget xs i) Q \<longleftrightarrow> i < length xs \<and> Q (xs ! i)"
  by (simp add: aget_def)

lemma ok_aput [simp]: "ok (aput xs i v) Q \<longleftrightarrow> i < length xs \<and> Q (xs[i := v])"
  by (simp add: aput_def)

lemma aget_in [simp]: "i < length xs \<Longrightarrow> aget xs i = Some (xs ! i)"
  by (simp add: aget_def)

lemma aput_in [simp]: "i < length xs \<Longrightarrow> aput xs i v = Some (xs[i := v])"
  by (simp add: aput_def)

lemma aget_out [simp]: "length xs \<le> i \<Longrightarrow> aget xs i = None"
  by (simp add: aget_def)

lemma aput_out [simp]: "length xs \<le> i \<Longrightarrow> aput xs i v = None"
  by (simp add: aput_def)

section \<open>Counting loops\<close>

fun mfold :: "('a \<Rightarrow> 's \<Rightarrow> 's option) \<Rightarrow> 'a list \<Rightarrow> 's \<Rightarrow> 's option" where
  "mfold f [] s = Some s"
| "mfold f (x # xs) s = do { s' \<leftarrow> f x s; mfold f xs s' }"

definition for_range :: "nat \<Rightarrow> nat \<Rightarrow> (nat \<Rightarrow> 's \<Rightarrow> 's option) \<Rightarrow> 's \<Rightarrow> 's option" where
  "for_range a b body = mfold body [a..<b]"

lemma mfold_append: "mfold f (xs @ ys) s = do { s' \<leftarrow> mfold f xs s; mfold f ys s' }"
  by (induction xs arbitrary: s) (auto split: Option.bind_splits)

lemma ok_mfold:
  assumes "P [] s"
    and "\<And>pre x post s. xs = pre @ x # post \<Longrightarrow> P pre s \<Longrightarrow> ok (f x s) (P (pre @ [x]))"
  shows "ok (mfold f xs s) (P xs)"
  using assms
proof (induction xs arbitrary: s rule: rev_induct)
  case Nil then show ?case by simp
next
  case (snoc x xs)
  have "ok (mfold f xs s) (P xs)"
    by (rule snoc.IH) (use snoc.prems in auto)
  moreover have "P xs t \<Longrightarrow> ok (f x t) (P (xs @ [x]))" for t
    using snoc.prems(2)[of xs x "[]" t] by simp
  ultimately have "ok (mfold f xs s) (\<lambda>t. ok (f x t) (P (xs @ [x])))"
    by (rule ok_mono)
  then show ?case by (simp add: mfold_append)
qed

lemma ok_for_range:
  assumes "P a s" "a \<le> b"
    and "\<And>i s. a \<le> i \<Longrightarrow> i < b \<Longrightarrow> P i s \<Longrightarrow> ok (body i s) (P (Suc i))"
  shows "ok (for_range a b body s) (P b)"
proof -
  have "ok (mfold body [a..<b] s) (\<lambda>t. P (a + length [a..<b]) t)"
  proof (rule ok_mfold[where P = "\<lambda>pre. P (a + length pre)"])
    show "P (a + length []) s" using assms(1) by simp
    fix pre x post t
    assume eq: "[a..<b] = pre @ x # post" and P: "P (a + length pre) t"
    have x: "x = a + length pre" and lt: "length pre < length [a..<b]"
      using arg_cong[OF eq, of "\<lambda>l. l ! length pre"] arg_cong[OF eq, of length] by auto
    show "ok (body x t) (P (a + length (pre @ [x])))"
      using assms(3)[of x t] P x lt by simp
  qed
  then show ?thesis using assms(2) by (simp add: for_range_def)
qed

lemma mfold_cong:
  "xs = ys \<Longrightarrow> (\<And>x s. x \<in> set ys \<Longrightarrow> f x s = g x s) \<Longrightarrow> mfold f xs s = mfold g ys s"
  by (induction ys arbitrary: xs s) (auto intro!: Option.bind_cong)

lemma mfold_map: "mfold f (map g xs) s = mfold (f \<circ> g) xs s"
  by (induction xs arbitrary: s) (auto intro!: Option.bind_cong)

lemma mfold_concat: "mfold f (concat xss) s = mfold (mfold f) xss s"
  by (induction xss arbitrary: s) (auto simp: mfold_append intro!: Option.bind_cong)

text \<open>A body that never fails: the loop is a plain fold.\<close>

lemma mfold_Some: "(\<And>x s. x \<in> set xs \<Longrightarrow> f x s = Some (g x s)) \<Longrightarrow> mfold f xs s = Some (fold g xs s)"
  by (induction xs arbitrary: s) auto

section \<open>Slices of arrays\<close>

definition slice :: "'a list \<Rightarrow> nat \<Rightarrow> nat \<Rightarrow> 'a list" where
  "slice xs a b = take (b - a) (drop a xs)"

lemma slice_empty [simp]: "b \<le> a \<Longrightarrow> slice xs a b = []"
  by (simp add: slice_def)

lemma length_slice [simp]: "length (slice xs a b) = min b (length xs) - a"
  by (simp add: slice_def min_def) arith

lemma slice_step: "a < b \<Longrightarrow> b \<le> length xs \<Longrightarrow> slice xs a b = xs ! a # slice xs (Suc a) b"
proof -
  assume "a < b" "b \<le> length xs"
  then have "drop a xs = xs ! a # drop (Suc a) xs" "b - a = Suc (b - Suc a)"
    by (simp_all add: Cons_nth_drop_Suc)
  then show ?thesis by (simp add: slice_def)
qed

lemma slice_snoc: "a \<le> b \<Longrightarrow> b < length xs \<Longrightarrow> slice xs a (Suc b) = slice xs a b @ [xs ! b]"
  by (simp add: slice_def Suc_diff_le take_Suc_conv_app_nth)

lemma nth_slice [simp]: "a + i < b \<Longrightarrow> b \<le> length xs \<Longrightarrow> slice xs a b ! i = xs ! (a + i)"
  by (simp add: slice_def)

lemma slice_0 [simp]: "slice xs 0 b = take b xs"
  by (simp add: slice_def)

lemma slice_full: "length xs \<le> b \<Longrightarrow> slice xs a b = drop a xs"
  by (simp add: slice_def)

lemma slice_split: "a \<le> b \<Longrightarrow> b \<le> c \<Longrightarrow> slice xs a b @ slice xs b c = slice xs a c"
proof -
  assume h: "a \<le> b" "b \<le> c"
  have "take (c - b) (drop b xs) = take (c - b) (drop (b - a) (drop a xs))" using h by simp
  moreover have "c - a = (b - a) + (c - b)" using h by simp
  ultimately show ?thesis by (simp only: slice_def take_add)
qed

lemma slice_update_out: "i < a \<or> b \<le> i \<Longrightarrow> slice (xs[i := v]) a b = slice xs a b"
  by (rule nth_equalityI) (auto simp: slice_def nth_list_update)

lemma slice_map: "slice (map f xs) a b = map f (slice xs a b)"
  by (simp add: slice_def take_map drop_map)

lemma slice_zip: "slice (zip xs ys) a b = zip (slice xs a b) (slice ys a b)"
  by (simp add: slice_def take_zip drop_zip)

lemma set_slice: "b \<le> length xs \<Longrightarrow> set (slice xs a b) = {xs ! i |i. a \<le> i \<and> i < b}"
proof (intro set_eqI iffI)
  fix x assume b: "b \<le> length xs" and "x \<in> set (slice xs a b)"
  then obtain i where "i < length (slice xs a b)" "x = slice xs a b ! i"
    by (auto simp: in_set_conv_nth)
  then show "x \<in> {xs ! i |i. a \<le> i \<and> i < b}"
    using b by (auto intro!: exI[of _ "a + i"])
next
  fix x assume b: "b \<le> length xs" and "x \<in> {xs ! i |i. a \<le> i \<and> i < b}"
  then obtain i where i: "x = xs ! i" "a \<le> i" "i < b" by blast
  then have "slice xs a b ! (i - a) = x" "i - a < length (slice xs a b)" using b by auto
  then show "x \<in> set (slice xs a b)" by (metis nth_mem)
qed

lemma take_slice_drop:
  "a \<le> b \<Longrightarrow> take a xs @ slice xs a b @ drop b xs = xs"
  by (metis append_assoc append_take_drop_id le0 slice_0 slice_split)

text \<open>The loop \<open>for (i = a; i < b; i++) xs[i] = f(i)\<close>.\<close>

lemma for_range_fill:
  assumes "b \<le> length xs" "a \<le> b"
  shows "for_range a b (\<lambda>i s. aput s i (f i)) xs = Some (take a xs @ map f [a..<b] @ drop b xs)"
proof -
  have "ok (for_range a b (\<lambda>i s. aput s i (f i)) xs)
     (\<lambda>s. s = take a xs @ map f [a..<b] @ drop b xs)"
  proof (rule ok_for_range[where P = "\<lambda>i s. s = take a xs @ map f [a..<i] @ drop i xs"])
    show "xs = take a xs @ map f [a..<a] @ drop a xs" by simp
  next
    fix i s assume "a \<le> i" "i < b" and s: "s = take a xs @ map f [a..<i] @ drop i xs"
    then have "drop i xs = xs ! i # drop (Suc i) xs" using assms by (simp add: Cons_nth_drop_Suc)
    then show "ok (aput s i (f i)) (\<lambda>s. s = take a xs @ map f [a..<Suc i] @ drop (Suc i) xs)"
      using \<open>a \<le> i\<close> \<open>i < b\<close> assms s by (simp add: list_update_append)
  qed (rule assms)
  then show ?thesis by (auto simp: ok_iff)
qed

section \<open>Counting loops over arrays\<close>

lemma slice_eq_map_nth: "b \<le> length xs \<Longrightarrow> slice xs a b = map ((!) xs) [a..<b]"
  by (rule nth_equalityI) auto

lemma for_range_slice:
  assumes "b \<le> length xs" and "\<And>i s. a \<le> i \<Longrightarrow> i < b \<Longrightarrow> body i s = f (xs ! i) s"
  shows "for_range a b body s = mfold f (slice xs a b) s"
  unfolding for_range_def slice_eq_map_nth[OF assms(1)] mfold_map
  by (rule mfold_cong) (auto simp: assms(2))

lemma for_range_nth:
  assumes "\<And>i s. i < length xs \<Longrightarrow> body i s = f (xs ! i) s" "n = length xs"
  shows "for_range 0 n body s = mfold f xs s"
  using for_range_slice[of n xs 0 body f s] assms by simp

text \<open>\<open>for (i = 0; i < n; i++) cnt[xs[i]]++\<close>\<close>

lemma count_all:
  assumes "\<And>x. x \<in> set xs \<Longrightarrow> x < n" "length xs < U32"
  shows "mfold (\<lambda>x c. do { k \<leftarrow> aget c x; aput c x (uadd k 1) }) xs (replicate n 0) =
    Some (map (count_list xs) [0..<n])"
proof -
  have "ok (mfold (\<lambda>x c. do { k \<leftarrow> aget c x; aput c x (uadd k 1) }) xs (replicate n 0))
    (\<lambda>c. c = map (count_list xs) [0..<n])"
  proof (rule ok_mfold[where P = "\<lambda>ys c. c = map (count_list ys) [0..<n]"])
    show "replicate n 0 = map (count_list []) [0..<n]" by (intro nth_equalityI) auto
    fix pre x post c assume xs: "xs = pre @ x # post" and c: "c = map (count_list pre) [0..<n]"
    have x: "x < n" using assms(1) xs by simp
    have "count_list pre x \<le> length pre" by (rule count_le_length)
    then have "count_list pre x + 1 < U32" using assms(2) xs by simp
    moreover have "(map (count_list pre) [0..<n])[x := Suc (count_list pre x)] = map (count_list (pre @ [x])) [0..<n]"
      using x by (intro nth_equalityI) (auto simp: nth_list_update)
    ultimately show "ok (do { k \<leftarrow> aget c x; aput c x (uadd k 1) }) (\<lambda>c. c = map (count_list (pre @ [x])) [0..<n])"
      using x c by (simp add: uadd_exact)
  qed
  then show ?thesis by (auto simp: ok_iff)
qed

end
