(* ===== verification/Stdio.thy ===== *)
theory Stdio
  imports Prelude "HOL-Library.Char_ord"
begin

text \<open>
  The C library functions the programs read and write their files with. A text file that is open for
  reading is the string that is left of it.
  \<^item> \<open>scan_d\<close> is \<open>fscanf(fp, "%d", &x)\<close> for a 32-bit \<open>x\<close>: it passes over white space, reads an optional
    sign and digits, and stores the two's complement bits. The result has no value where \<open>fscanf\<close>
    returns \<open>0\<close> or \<open>EOF\<close> (\<open>x\<close> is unchanged then). A number outside the range of \<open>int\<close> is undefined
    behaviour and so \<open>None\<close>.
  \<^item> \<open>feof(fp)\<close> after a call of \<open>fscanf\<close> says that nothing is left: a conversion stops at the first
    character it does not use, and it meets the end of the file where there is none.
  \<^item> \<open>print_d\<close> is the conversion \<open>%d\<close> of \<open>fprintf\<close> for a 32-bit argument, \<open>to_string\<close> is \<open>std::to_string\<close>.
  \<^item> \<open>le_bytes\<close> is \<open>fwrite\<close> of an \<open>unsigned int\<close> on a little-endian machine, \<open>of_le_bytes\<close> is \<open>fread\<close>.
\<close>

section \<open>Characters\<close>

definition is_digit :: "char \<Rightarrow> bool" where
  "is_digit c \<longleftrightarrow> 48 \<le> (of_char c :: nat) \<and> (of_char c :: nat) \<le> 57"

definition is_space :: "char \<Rightarrow> bool" where
  "is_space c \<longleftrightarrow> (of_char c :: nat) = 32 \<or> 9 \<le> (of_char c :: nat) \<and> (of_char c :: nat) \<le> 13"

definition digit_val :: "char \<Rightarrow> nat" where
  "digit_val c = of_char c - 48"

definition digit_char :: "nat \<Rightarrow> char" where
  "digit_char d = char_of (48 + d)"

definition newline :: char where "newline = CHR 0x0A"

lemma digit_char [simp]:
  assumes "d < 10" shows "is_digit (digit_char d)" "digit_val (digit_char d) = d" "\<not> is_space (digit_char d)"
proof -
  have "of_char (digit_char d) = 48 + d"
    using assms by (simp add: digit_char_def of_char_mod_256)
  then show "is_digit (digit_char d)" "digit_val (digit_char d) = d" "\<not> is_space (digit_char d)"
    using assms by (simp_all add: is_digit_def digit_val_def is_space_def)
qed

lemma space_chars [simp]: "is_space (CHR '' '')" "is_space newline" "\<not> is_digit (CHR '' '')" "\<not> is_digit newline"
  "\<not> is_digit (CHR ''-'')" "\<not> is_space (CHR ''-'')" "\<not> is_digit (CHR ''>'')"
  by (simp_all add: is_space_def is_digit_def newline_def)

lemma digit_not_sign: "is_digit c \<Longrightarrow> c \<noteq> CHR ''-'' \<and> c \<noteq> CHR ''+''"
  by (auto simp: is_digit_def)

lemma digit_not_space: "is_digit c \<Longrightarrow> \<not> is_space c"
  by (auto simp: is_digit_def is_space_def)

section \<open>Decimal numbers\<close>

fun to_string :: "nat \<Rightarrow> string" where
  "to_string n = (if n < 10 then [digit_char n] else to_string (n div 10) @ [digit_char (n mod 10)])"

declare to_string.simps [simp del]

definition decimal_value :: "string \<Rightarrow> nat" where
  "decimal_value ds = foldl (\<lambda>a c. 10 * a + digit_val c) 0 ds"

lemma to_string_digits: "\<forall>c \<in> set (to_string n). is_digit c"
proof (induction n rule: to_string.induct)
  case (1 n)
  show ?case
  proof (cases "n < 10")
    case True
    then show ?thesis by (subst to_string.simps) simp
  next
    case False
    then show ?thesis using 1 by (subst to_string.simps) simp
  qed
qed

lemma decimal_to_string [simp]: "decimal_value (to_string n) = n"
proof (induction n rule: to_string.induct)
  case (1 n)
  show ?case
  proof (cases "n < 10")
    case True
    then show ?thesis by (subst to_string.simps) (simp add: decimal_value_def)
  next
    case False
    then have "decimal_value (to_string n) = 10 * decimal_value (to_string (n div 10)) + n mod 10"
      by (subst to_string.simps) (simp add: decimal_value_def)
    then show ?thesis using 1 False by simp
  qed
qed

lemma to_string_inj: "to_string m = to_string n \<longleftrightarrow> m = n"
  by (metis decimal_to_string)

lemma to_string_Cons: "\<exists>c cs. to_string n = c # cs \<and> is_digit c"
proof (cases "to_string n")
  case Nil
  moreover have "to_string n \<noteq> []" by (subst to_string.simps) simp
  ultimately show ?thesis by simp
next
  case (Cons c cs)
  then show ?thesis using to_string_digits[of n] by auto
qed

section \<open>fscanf and fprintf\<close>

definition scan_sign :: "string \<Rightarrow> bool \<times> string" where
  "scan_sign s = (case s of
     c # cs \<Rightarrow> if c = CHR ''-'' then (True, cs) else if c = CHR ''+'' then (False, cs) else (False, s)
   | [] \<Rightarrow> (False, []))"

definition scan_d :: "string \<Rightarrow> (u32 option \<times> string) option" where
  "scan_d s = (let (neg, s') = scan_sign (dropWhile is_space s);
       ds = takeWhile is_digit s'; v = decimal_value ds in
     if ds = [] then Some (None, s')
     else if neg then (if v \<le> U32 div 2 then Some (Some (usub 0 v), dropWhile is_digit s') else None)
     else if v < U32 div 2 then Some (Some v, dropWhile is_digit s') else None)"

definition print_d :: "u32 \<Rightarrow> string" where
  "print_d v = (if v < U32 div 2 then to_string v else CHR ''-'' # to_string (U32 - v))"

lemma takeWhile_digits: "\<not> is_digit c \<Longrightarrow> takeWhile is_digit (to_string n @ c # cs) = to_string n"
  using to_string_digits[of n] by (subst takeWhile_append2) auto

lemma dropWhile_digits: "\<not> is_digit c \<Longrightarrow> dropWhile is_digit (to_string n @ c # cs) = c # cs"
  using to_string_digits[of n] by (subst dropWhile_append2) auto

text \<open>What \<open>%d\<close> writes, \<open>%d\<close> reads.\<close>

lemma scan_print:
  assumes "v < U32" "\<not> is_digit c"
  shows "scan_d (print_d v @ c # cs) = Some (Some v, c # cs)"
proof (cases "v < U32 div 2")
  case True
  obtain d ds where d: "to_string v = d # ds" "is_digit d" using to_string_Cons by blast
  then have sg: "scan_sign (dropWhile is_space (to_string v @ c # cs)) = (False, to_string v @ c # cs)"
    using digit_not_space[OF d(2)] digit_not_sign[OF d(2)] by (simp add: scan_sign_def)
  have ne: "to_string v \<noteq> []" using d(1) by simp
  show ?thesis
    unfolding scan_d_def print_d_def Let_def if_P[OF True] sg prod.case takeWhile_digits[OF assms(2)]
      dropWhile_digits[OF assms(2)] decimal_to_string using True ne by simp
next
  case False
  let ?n = "U32 - v"
  obtain d ds where d: "to_string ?n = d # ds" "is_digit d" using to_string_Cons by blast
  have sg: "scan_sign (dropWhile is_space (CHR ''-'' # to_string ?n @ c # cs)) = (True, to_string ?n @ c # cs)"
    by (simp add: scan_sign_def)
  have "usub 0 ?n = v" "?n \<le> U32 div 2" "to_string ?n \<noteq> []" using False assms d(1) by (auto simp: usub_def)
  then show ?thesis
    unfolding scan_d_def print_d_def Let_def if_not_P[OF False] append_Cons sg prod.case takeWhile_digits[OF assms(2)]
      dropWhile_digits[OF assms(2)] decimal_to_string by simp
qed

lemma scan_space: "is_space c \<Longrightarrow> scan_d (c # s) = scan_d s"
  by (simp add: scan_d_def)

lemma scan_blank: "list_all is_space s \<Longrightarrow> scan_d s = Some (None, [])"
  by (induction s) (simp_all add: scan_space, simp add: scan_d_def scan_sign_def)

section \<open>Binary files\<close>

text \<open>The bytes are numbers below 256.\<close>

definition le_bytes :: "u32 \<Rightarrow> nat list" where
  "le_bytes v = [v mod 256, v div 256 mod 256, v div 65536 mod 256, v div 16777216 mod 256]"

fun of_le_bytes :: "nat list \<Rightarrow> u32 list" where
  "of_le_bytes (a # b # c # d # bs) = (a + 256 * b + 65536 * c + 16777216 * d) # of_le_bytes bs"
| "of_le_bytes _ = []"

lemma le_value: "v < U32 \<Longrightarrow> v mod 256 + 256 * (v div 256 mod 256) + 65536 * (v div 65536 mod 256) +
    16777216 * (v div 16777216 mod 256) = v"
proof -
  assume "v < U32"
  then have "v div 16777216 mod 256 = v div 16777216" by (intro mod_less) (simp add: less_mult_imp_div_less)
  moreover have "v = v mod 256 + 256 * (v div 256)" by simp
  moreover have "v div 256 = v div 256 mod 256 + 256 * (v div 65536)"
    using mult_div_mod_eq[of 256 "v div 256"] by (simp add: div_mult2_eq[symmetric])
  moreover have "v div 65536 = v div 65536 mod 256 + 256 * (v div 16777216)"
    using mult_div_mod_eq[of 256 "v div 65536"] by (simp add: div_mult2_eq[symmetric])
  ultimately show ?thesis by linarith
qed

lemma of_le_bytes_append: "\<forall>v \<in> set vs. v < U32 \<Longrightarrow> of_le_bytes (concat (map le_bytes vs) @ bs) = vs @ of_le_bytes bs"
  by (induction vs) (simp_all add: le_bytes_def le_value)

lemma length_le_bytes [simp]: "length (le_bytes v) = 4"
  by (simp add: le_bytes_def)

lemma length_concat_le [simp]: "length (concat (map le_bytes vs)) = 4 * length vs"
  by (induction vs) auto

end
