(* ===== verification/CSR.thy ===== *)
theory CSR
  imports Prelude
begin

text \<open>
  The compressed sparse row graphs of \<open>graph.cpp\<close> (\<open>br/block_reordering\<close>, \<open>ph/pH\<close>):
  the record \<open>graph\<close>, \<open>filter\<close> (drops the vertices without an edge and renumbers the rest),
  \<open>csr_convert\<close> (edge list to CSR by counting sort) and \<open>createReverseCSR\<close>.
  The abstract side is a list of edges: \<open>bucket ps v\<close> are the targets of \<open>v\<close> in the order of
  the list, \<open>starts ps v\<close> is the number of edges whose source is below \<open>v\<close>.
\<close>

section \<open>The code\<close>

record graph =
  numVertex :: u32
  numEdges :: u32
  VI :: "u32 list"
  EI :: "u32 list"

text \<open>\<open>filter\<close>: the new source and target arrays and the number of vertices that remain.\<close>

definition filter_graph ::
  "u32 list \<Rightarrow> u32 list \<Rightarrow> u32 \<Rightarrow> u32 \<Rightarrow> (u32 list \<times> u32 list \<times> u32) option" where
  "filter_graph src dst numV numEdgesRead = do {
     exists \<leftarrow> for_range 0 numEdgesRead (\<lambda>i ex. do {
       s \<leftarrow> aget src i;
       ex' \<leftarrow> aput ex s True;
       d \<leftarrow> aget dst i;
       aput ex' d True
     }) (replicate numV False);
     (vertexMap, actualVertices) \<leftarrow> for_range 0 numV (\<lambda>i (vm, act). do {
       e \<leftarrow> aget exists i;
       if e then do { vm' \<leftarrow> aput vm i act; Some (vm', uadd act 1) } else Some (vm, act)
     }) (replicate numV 0, 0);
     (src', dst') \<leftarrow> for_range 0 numEdgesRead (\<lambda>i (src, dst). do {
       s \<leftarrow> aget src i;
       s' \<leftarrow> aget vertexMap s;
       src' \<leftarrow> aput src i s';
       d \<leftarrow> aget dst i;
       d' \<leftarrow> aget vertexMap d;
       dst' \<leftarrow> aput dst i d';
       Some (src', dst')
     }) (src, dst);
     Some (src', dst', actualVertices)
   }"

text \<open>\<open>EI[VI[a] + cnt[a]] = b; cnt[a]++\<close>, the placement step of both conversions.\<close>

definition place :: "u32 list \<Rightarrow> u32 \<Rightarrow> u32 \<Rightarrow> u32 list \<times> u32 list \<Rightarrow> (u32 list \<times> u32 list) option" where
  "place vi a b s = do {
     base \<leftarrow> aget vi a;
     c \<leftarrow> aget (snd s) a;
     ei' \<leftarrow> aput (fst s) (uadd base c) b;
     cnt' \<leftarrow> aput (snd s) a (uadd c 1);
     Some (ei', cnt')
   }"

definition csr_convert :: "u32 list \<Rightarrow> u32 list \<Rightarrow> graph \<Rightarrow> graph option" where
  "csr_convert src dst G = do {
     let n = numVertex G;
     let m = numEdges G;
     inDeg \<leftarrow> for_range 0 m (\<lambda>i deg. do {
       s \<leftarrow> aget src i;
       c \<leftarrow> aget deg s;
       aput deg s (uadd c 1)
     }) (replicate n 0);
     vi \<leftarrow> for_range 1 (n + 1) (\<lambda>i vi. do {
       p \<leftarrow> aget vi (usub i 1);
       c \<leftarrow> aget inDeg (usub i 1);
       aput vi i (uadd p c)
     }) (replicate (n + 1) 0);
     zero \<leftarrow> for_range 0 n (\<lambda>i deg. aput deg i 0) inDeg;
     (ei, cnt) \<leftarrow> for_range 0 m (\<lambda>i s. do {
       a \<leftarrow> aget src i;
       b \<leftarrow> aget dst i;
       place vi a b s
     }) (replicate m 0, zero);
     Some (G\<lparr>VI := vi, EI := ei\<rparr>)
   }"

text \<open>The end of a vertex' edge range, as every user of the CSR computes it.\<close>

definition edge_end :: "graph \<Rightarrow> u32 \<Rightarrow> u32 option" where
  "edge_end G v = (if v = usub (numVertex G) 1 then Some (numEdges G) else aget (VI G) (uadd v 1))"

definition createReverseCSR :: "graph \<Rightarrow> u32 \<Rightarrow> graph option" where
  "createReverseCSR G1 G2numVertex = do {
     let n2 = G2numVertex;
     let m = numEdges G1;
     vi \<leftarrow> for_range 0 m (\<lambda>i vi. do {
       e \<leftarrow> aget (EI G1) i;
       if e < usub n2 1 then do {
         c \<leftarrow> aget vi (uadd e 1);
         aput vi (uadd e 1) (uadd c 1)
       } else Some vi
     }) (replicate n2 0);
     vi \<leftarrow> for_range 1 n2 (\<lambda>i vi. do {
       a \<leftarrow> aget vi i;
       b \<leftarrow> aget vi (usub i 1);
       aput vi i (uadd a b)
     }) vi;
     (ei, tempId) \<leftarrow> for_range 0 (numVertex G1) (\<lambda>i s. do {
       maxId \<leftarrow> edge_end G1 i;
       j0 \<leftarrow> aget (VI G1) i;
       for_range j0 maxId (\<lambda>j s. do {
         node \<leftarrow> aget (EI G1) j;
         place vi node i s
       }) s
     }) (replicate m 0, replicate n2 0);
     Some \<lparr>numVertex = n2, numEdges = m, VI = vi, EI = ei\<rparr>
   }"

section \<open>Edge lists and buckets\<close>

definition bucket :: "(nat \<times> 'b) list \<Rightarrow> nat \<Rightarrow> 'b list" where
  "bucket ps v = map snd (filter (\<lambda>p. fst p = v) ps)"

definition starts :: "(nat \<times> 'b) list \<Rightarrow> nat \<Rightarrow> nat" where
  "starts ps v = length (filter (\<lambda>p. fst p < v) ps)"

definition csr_of :: "nat \<Rightarrow> (nat \<times> nat) list \<Rightarrow> nat list" where
  "csr_of n ps = concat (map (bucket ps) [0..<n])"

lemma bucket_simps [simp]:
  "bucket [] v = []"
  "bucket (ps @ qs) v = bucket ps v @ bucket qs v"
  "bucket ((a, b) # ps) v = (if a = v then b # bucket ps v else bucket ps v)"
  by (auto simp: bucket_def)

lemma starts_simps [simp]:
  "starts [] v = 0"
  "starts (ps @ qs) v = starts ps v + starts qs v"
  "starts ((a, b) # ps) v = (if a < v then Suc (starts ps v) else starts ps v)"
  "starts ps 0 = 0"
  by (auto simp: starts_def)

lemma starts_Suc: "starts ps (Suc v) = starts ps v + length (bucket ps v)"
  by (induction ps) (auto simp: less_Suc_eq)

lemma starts_mono: "u \<le> v \<Longrightarrow> starts ps u \<le> starts ps v"
  by (induction ps) auto

lemma starts_le: "starts ps v \<le> length ps"
  by (simp add: starts_def)

lemma starts_all: "(\<And>p. p \<in> set ps \<Longrightarrow> fst p < n) \<Longrightarrow> n \<le> v \<Longrightarrow> starts ps v = length ps"
  unfolding starts_def by (subst filter_True) fastforce+

lemma concat_slices:
  assumes "\<And>u v. u \<le> v \<Longrightarrow> st u \<le> st v"
  shows "concat (map (\<lambda>v. slice xs (st v) (st (Suc v))) [0..<n]) = slice xs (st 0) (st n)"
  using assms by (induction n) (simp_all add: slice_split)

text \<open>The placement loop fills the buckets in the order of the edge list.\<close>

lemma place_all:
  assumes ps: "\<And>p. p \<in> set ps \<Longrightarrow> fst p < n" and len: "length ps < U32"
    and vi: "n \<le> length vi" "\<And>v. v < n \<Longrightarrow> vi ! v = starts ps v" and ei: "length ei = length ps"
  shows "mfold (\<lambda>(a, b). place vi a b) ps (ei, replicate n 0) =
    Some (csr_of n ps, map (\<lambda>v. length (bucket ps v)) [0..<n])"
proof -
  let ?P = "\<lambda>qs (e, c). length e = length ps \<and> c = map (\<lambda>v. length (bucket qs v)) [0..<n] \<and>
    (\<forall>v<n. slice e (starts ps v) (starts ps v + length (bucket qs v)) = bucket qs v)"
  have "ok (mfold (\<lambda>(a, b). place vi a b) ps (ei, replicate n 0)) (?P ps)"
  proof (rule ok_mfold[where P = ?P])
    show "?P [] (ei, replicate n 0)" using ei by (simp add: map_replicate_const)
  next
    fix qs x rest s assume split: "ps = qs @ x # rest" and P: "?P qs s"
    obtain a b where x: "x = (a, b)" by force
    obtain e c where s: "s = (e, c)" by force
    have a: "a < n" using ps[of x] split x by simp
    let ?k = "length (bucket qs a)" and ?i = "starts ps a + length (bucket qs a)"
    have bnd: "starts ps v + length (bucket qs v) \<le> starts ps (Suc v)" for v
      unfolding starts_Suc by (simp add: split)
    have ia: "?i < starts ps (Suc a)" unfolding starts_Suc by (simp add: split x)
    have i: "?i < length ps" "?k < length ps"
      using ia starts_le[of ps "Suc a"] by linarith+
    have far: "?i < starts ps v \<or> starts ps v + length (bucket qs v) \<le> ?i" if "v \<noteq> a" for v
    proof (cases "v < a")
      case True
      then show ?thesis using bnd[of v] starts_mono[of "Suc v" a ps] by linarith
    next
      case False
      then show ?thesis using ia starts_mono[of "Suc a" v ps] that by linarith
    qed
    have eq: "place vi a b s = Some (e[?i := b], c[a := Suc ?k])"
      using P s a vi i ei len by (simp add: place_def uadd_exact)
    have "?P (qs @ [x]) (e[?i := b], c[a := Suc ?k])"
    proof (intro split_conv[THEN iffD2] conjI allI impI)
      show "length (e[?i := b]) = length ps" using P s by simp
      show "c[a := Suc ?k] = map (\<lambda>v. length (bucket (qs @ [x]) v)) [0..<n]"
        using P s a x by (intro nth_equalityI) (auto simp: nth_list_update)
      fix v assume v: "v < n"
      have sl: "slice e (starts ps v) (starts ps v + length (bucket qs v)) = bucket qs v"
        using P s v by simp
      show "slice (e[?i := b]) (starts ps v) (starts ps v + length (bucket (qs @ [x]) v)) =
        bucket (qs @ [x]) v"
      proof (cases "v = a")
        case True
        then show ?thesis using P s i sl x
          by (simp add: slice_snoc slice_update_out)
      next
        case False
        then show ?thesis using sl far[OF False] x by (simp add: slice_update_out)
      qed
    qed
    then show "ok ((\<lambda>(a, b). place vi a b) x s) (?P (qs @ [x]))"
      using eq x by simp
  qed
  then obtain e c where r: "mfold (\<lambda>(a, b). place vi a b) ps (ei, replicate n 0) = Some (e, c)" "?P ps (e, c)"
    by (auto simp: ok_iff)
  have "csr_of n ps = concat (map (\<lambda>v. slice e (starts ps v) (starts ps (Suc v))) [0..<n])"
    unfolding csr_of_def using r(2) by (intro arg_cong[of _ _ concat] map_cong) (simp_all add: starts_Suc)
  also have "\<dots> = slice e (starts ps 0) (starts ps n)"
    by (rule concat_slices) (rule starts_mono)
  also have "\<dots> = e" using r(2) starts_all[OF ps order.refl] by simp
  finally show ?thesis using r by simp
qed

section \<open>Graphs and their edges\<close>

definition eend :: "graph \<Rightarrow> nat \<Rightarrow> nat" where
  "eend G v = (if v = numVertex G - 1 then numEdges G else VI G ! Suc v)"

definition adj :: "graph \<Rightarrow> nat \<Rightarrow> nat list" where
  "adj G v = slice (EI G) (VI G ! v) (eend G v)"

definition edges :: "graph \<Rightarrow> (nat \<times> nat) list" where
  "edges G = concat (map (\<lambda>v. map (Pair v) (adj G v)) [0..<numVertex G])"

definition wf_csr :: "graph \<Rightarrow> bool" where
  "wf_csr G \<longleftrightarrow> 0 < numVertex G \<and> numVertex G < U32 - 1 \<and> numEdges G < U32 \<and>
     numEdges G \<le> length (EI G) \<and> numVertex G \<le> length (VI G) \<and> VI G ! 0 = 0 \<and>
     (\<forall>v < numVertex G. VI G ! v \<le> eend G v \<and> eend G v \<le> numEdges G)"

lemma wf_csrD:
  assumes "wf_csr G"
  shows "0 < numVertex G" "numVertex G < U32 - 1" "numEdges G < U32" "numEdges G \<le> length (EI G)"
    "numVertex G \<le> length (VI G)" "VI G ! 0 = 0"
    "v < numVertex G \<Longrightarrow> VI G ! v \<le> eend G v" "v < numVertex G \<Longrightarrow> eend G v \<le> numEdges G"
  using assms by (auto simp: wf_csr_def)

lemma wf_csr_eval: "wf_csr G = (0 < numVertex G \<and> numVertex G < U32 - 1 \<and> numEdges G < U32 \<and>
     numEdges G \<le> length (EI G) \<and> numVertex G \<le> length (VI G) \<and> VI G ! 0 = 0 \<and>
     list_all (\<lambda>v. VI G ! v \<le> eend G v \<and> eend G v \<le> numEdges G) [0..<numVertex G])"
  by (auto simp: wf_csr_def list_all_iff)

lemma edge_end_ok: "wf_csr G \<Longrightarrow> v < numVertex G \<Longrightarrow> edge_end G v = Some (eend G v)"
  using wf_csrD[of G] by (auto simp: edge_end_def eend_def usub_exact uadd_exact)

lemma map_fst_Pair [simp]: "map fst (map (Pair v) xs) = replicate (length xs) v" "map snd (map (Pair v) xs) = xs"
  by (induction xs) auto

lemma snd_edges: "wf_csr G \<Longrightarrow> map snd (edges G) = take (numEdges G) (EI G)"
proof -
  assume wf: "wf_csr G"
  let ?n = "numVertex G" and ?st = "\<lambda>v. if v < numVertex G then VI G ! v else numEdges G"
  have e: "eend G v = ?st (Suc v)" if "v < ?n" for v
    using that wf_csrD(1)[OF wf] by (auto simp: eend_def)
  have step: "?st v \<le> ?st (Suc v)" for v
    using wf_csrD(7,8)[OF wf, of v] e[of v] by auto
  have mono: "u \<le> v \<Longrightarrow> ?st u \<le> ?st v" for u v
    by (rule lift_Suc_mono_le[of ?st, OF step])
  have "map snd (edges G) = concat (map (\<lambda>v. slice (EI G) (?st v) (?st (Suc v))) [0..<?n])"
    unfolding edges_def adj_def map_concat by (intro arg_cong[of _ _ concat]) (auto simp: e comp_def)
  also have "\<dots> = slice (EI G) (?st 0) (?st ?n)"
    by (rule concat_slices) (rule mono)
  also have "\<dots> = take (numEdges G) (EI G)" using wf_csrD(1,6)[OF wf] by simp
  finally show ?thesis .
qed

lemma length_edges: "wf_csr G \<Longrightarrow> length (edges G) = numEdges G"
  using arg_cong[OF snd_edges, of G length] wf_csrD(4)[of G] by simp

lemma fst_edges_less: "p \<in> set (edges G) \<Longrightarrow> fst p < numVertex G"
  by (auto simp: edges_def)

lemma bucket_map_Pair: "bucket (map (Pair u) xs) v = (if u = v then xs else [])"
  by (induction xs) auto

lemma bucket_concat: "bucket (concat pss) v = concat (map (\<lambda>ps. bucket ps v) pss)"
  by (induction pss) auto

lemma bucket_edges: "v < numVertex G \<Longrightarrow> bucket (edges G) v = adj G v"
proof -
  have "concat (map (\<lambda>u. if u = v then f u else []) [0..<n]) = (if v < n then f v else [])"
    for n and f :: "nat \<Rightarrow> nat list"
    by (induction n) (auto simp: less_Suc_eq)
  then show "v < numVertex G \<Longrightarrow> bucket (edges G) v = adj G v"
    by (simp add: edges_def bucket_concat comp_def bucket_map_Pair)
qed

section \<open>csr_convert\<close>

lemma length_csr_of: "length (csr_of v ps) = starts ps v"
  by (induction v) (simp_all add: csr_of_def starts_Suc)

lemma slice_csr_of: "v < n \<Longrightarrow> slice (csr_of n ps) (starts ps v) (starts ps (Suc v)) = bucket ps v"
proof -
  assume "v < n"
  then obtain k where "n = v + Suc k" using less_imp_Suc_add by fastforce
  then have "[0..<n] = [0..<v] @ v # [Suc v..<n]"
    using upt_add_eq_append[of 0 v "Suc k"] upt_conv_Cons[of v n] by simp
  then have "csr_of n ps = csr_of v ps @ bucket ps v @ concat (map (bucket ps) [Suc v..<n])"
    by (simp add: csr_of_def)
  then show ?thesis by (simp add: slice_def length_csr_of starts_Suc)
qed

lemma length_bucket_count: "length (bucket ps v) = count_list (map fst ps) v"
  by (induction ps) auto

lemma mset_buckets:
  "mset (concat (map (\<lambda>v. map (Pair v) (bucket ps v)) [0..<n])) = filter_mset (\<lambda>p. fst p < n) (mset ps)"
proof (induction n)
  case (Suc n)
  have "map (Pair n) (bucket ps n) = filter (\<lambda>p. fst p = n) ps"
    by (induction ps) auto
  moreover have "filter_mset (\<lambda>p. fst p < Suc n) M = filter_mset (\<lambda>p. fst p < n) M + filter_mset (\<lambda>p. fst p = n) M"
    for M :: "(nat \<times> 'a) multiset"
    by (induction M) auto
  ultimately show ?case using Suc by simp
qed simp

text \<open>The graph a CSR with these arrays stands for, and its edges.\<close>

definition csr_graph :: "nat \<Rightarrow> nat \<Rightarrow> (nat \<times> nat) list \<Rightarrow> graph" where
  "csr_graph n k ps = \<lparr>numVertex = n, numEdges = length ps, VI = map (starts ps) [0..<k], EI = csr_of n ps\<rparr>"

lemma csr_graph:
  assumes "0 < n" "n < U32 - 1" "length ps < U32" "n \<le> k" "\<And>p. p \<in> set ps \<Longrightarrow> fst p < n"
  shows "wf_csr (csr_graph n k ps)" and "v < n \<Longrightarrow> adj (csr_graph n k ps) v = bucket ps v"
    and "mset (edges (csr_graph n k ps)) = mset ps"
proof -
  let ?G = "csr_graph n k ps"
  have all: "starts ps n = length ps" using starts_all[OF assms(5) order.refl] .
  have e: "eend ?G v = starts ps (Suc v)" if "v < n" for v
  proof (cases "Suc v = n")
    case True
    then show ?thesis using all by (auto simp: eend_def csr_graph_def)
  next
    case False
    then show ?thesis using that assms(4) by (auto simp: eend_def csr_graph_def simp del: upt_Suc)
  qed
  show "wf_csr ?G"
    unfolding wf_csr_def
  proof (intro conjI allI impI)
    fix v assume "v < numVertex ?G"
    then have "v < n" by (simp add: csr_graph_def)
    then show "VI ?G ! v \<le> eend ?G v" "eend ?G v \<le> numEdges ?G"
      using e starts_mono[of v "Suc v" ps] starts_le[of ps "Suc v"] assms(4) by (auto simp: csr_graph_def)
  qed (use assms in \<open>auto simp: csr_graph_def length_csr_of all\<close>)
  show ad: "adj ?G v = bucket ps v" if "v < n" for v
    using e[OF that] slice_csr_of[OF that] that assms(4) by (simp add: adj_def csr_graph_def)
  have "edges ?G = concat (map (\<lambda>v. map (Pair v) (bucket ps v)) [0..<n])"
    unfolding edges_def using ad by (intro arg_cong[of _ _ concat]) (simp add: csr_graph_def)
  then show "mset (edges ?G) = mset ps"
    using assms(5) by (simp only: mset_buckets) (auto simp: filter_mset_eq_conv)
qed

lemma prefix_sums:
  assumes n32: "n < U32" and "length ps < U32" "length vi0 = Suc n" "vi0 ! 0 = 0" "n \<le> length deg"
    "\<And>v. v < n \<Longrightarrow> deg ! v = length (bucket ps v)"
  shows "for_range 1 (n + 1) (\<lambda>i vi. do {
       p \<leftarrow> aget vi (usub i 1);
       c \<leftarrow> aget deg (usub i 1);
       aput vi i (uadd p c)
     }) vi0 = Some (map (starts ps) [0..<n + 1])"
proof -
  let ?body = "\<lambda>i vi. do { p \<leftarrow> aget vi (usub i 1); c \<leftarrow> aget deg (usub i 1); aput vi i (uadd p c) }"
  let ?P = "\<lambda>i vi. length vi = Suc n \<and> (\<forall>k<i. vi ! k = starts ps k)"
  have "ok (for_range 1 (n + 1) ?body vi0) (?P (n + 1))"
  proof (rule ok_for_range[where P = ?P])
    fix i vi assume i: "1 \<le> i" "i < n + 1" and P: "?P i vi"
    then obtain j where j: "i = Suc j" by (cases i) auto
    have "starts ps (Suc j) < U32" using starts_le[of ps "Suc j"] assms(2) by simp
    then have "uadd (vi ! j) (deg ! j) = starts ps (Suc j)"
      using P i j assms(6)[of j] by (simp add: uadd_exact starts_Suc)
    moreover have "usub i 1 = j" using i j n32 by (subst usub_exact) auto
    ultimately show "ok (?body i vi) (?P (Suc i))"
      using P i j assms by (auto simp: nth_list_update less_Suc_eq)
  qed (use assms in \<open>auto simp: less_Suc_eq\<close>)
  then obtain vi where "for_range 1 (n + 1) ?body vi0 = Some vi" "?P (n + 1) vi" by (auto simp: ok_iff)
  moreover from this have "vi = map (starts ps) [0..<n + 1]"
    by (intro nth_equalityI) (auto simp del: upt_Suc)
  ultimately show ?thesis by simp
qed

lemma csr_convert_ok:
  assumes "length src = numEdges G" "length dst = numEdges G" "numEdges G < U32" "numVertex G < U32"
    "\<And>s. s \<in> set src \<Longrightarrow> s < numVertex G"
  shows "csr_convert src dst G =
    Some (G\<lparr>VI := map (starts (zip src dst)) [0..<numVertex G + 1], EI := csr_of (numVertex G) (zip src dst)\<rparr>)"
proof -
  let ?n = "numVertex G" and ?m = "numEdges G" and ?ps = "zip src dst"
  have ps: "\<And>p. p \<in> set ?ps \<Longrightarrow> fst p < ?n" using assms(5) by (auto dest: set_zip_leftD)
  have deg: "for_range 0 ?m (\<lambda>i deg. do { s \<leftarrow> aget src i; c \<leftarrow> aget deg s; aput deg s (uadd c 1) })
      (replicate ?n 0) = Some (map (count_list src) [0..<?n])"
    by (subst for_range_nth[where xs = src and f = "\<lambda>x c. do { k \<leftarrow> aget c x; aput c x (uadd k 1) }"])
      (use assms count_all[of src ?n] in simp_all)
  have src: "src = map fst ?ps" using assms(1,2) by simp
  have vi: "for_range 1 (?n + 1) (\<lambda>i vi. do {
       p \<leftarrow> aget vi (usub i 1); c \<leftarrow> aget (map (count_list src) [0..<?n]) (usub i 1); aput vi i (uadd p c)
     }) (replicate (?n + 1) 0) = Some (map (starts ?ps) [0..<?n + 1])"
    using assms by (intro prefix_sums) (auto simp: length_bucket_count)
  have zero: "for_range 0 ?n (\<lambda>i deg. aput deg i 0) (map (count_list src) [0..<?n]) = Some (replicate ?n 0)"
    by (subst for_range_fill) (auto simp: map_replicate_const)
  have viv: "v < ?n \<Longrightarrow> map (starts ?ps) [0..<?n + 1] ! v = starts ?ps v" for v
    by (simp del: upt_Suc)
  have "for_range 0 ?m (\<lambda>i s. do { a \<leftarrow> aget src i; b \<leftarrow> aget dst i; place (map (starts ?ps) [0..<?n + 1]) a b s })
      (replicate ?m 0, replicate ?n 0) =
      mfold (\<lambda>(a, b). place (map (starts ?ps) [0..<?n + 1]) a b) ?ps (replicate ?m 0, replicate ?n 0)"
    by (rule for_range_nth) (use assms(1,2) in simp_all)
  also have "\<dots> = Some (csr_of ?n ?ps, map (\<lambda>v. length (bucket ?ps v)) [0..<?n])"
    by (rule place_all[OF ps]) (use viv assms(1-3) in simp_all)
  finally have pl: "for_range 0 ?m (\<lambda>i s. do { a \<leftarrow> aget src i; b \<leftarrow> aget dst i; place (map (starts ?ps) [0..<?n + 1]) a b s })
      (replicate ?m 0, replicate ?n 0) = Some (csr_of ?n ?ps, map (\<lambda>v. length (bucket ?ps v)) [0..<?n])" .
  show ?thesis
    unfolding csr_convert_def Let_def by (simp only: deg vi zero pl Option.bind.simps prod.case)
qed

section \<open>createReverseCSR\<close>

abbreviation rev_edges :: "graph \<Rightarrow> (nat \<times> nat) list" where
  "rev_edges G \<equiv> map prod.swap (edges G)"

lemma reverse_count:
  assumes "\<And>e. e \<in> set es \<Longrightarrow> e < n" "length es < U32" "0 < n" "n < U32"
  shows "ok (mfold (\<lambda>e vi. if e < usub n 1 then do {
         c \<leftarrow> aget vi (uadd e 1);
         aput vi (uadd e 1) (uadd c 1)
       } else Some vi) es (replicate n 0))
     (\<lambda>vi. length vi = n \<and> vi ! 0 = 0 \<and> (\<forall>v. Suc v < n \<longrightarrow> vi ! Suc v = count_list es v))"
proof (rule ok_mfold[where P = "\<lambda>es vi. length vi = n \<and> vi ! 0 = 0 \<and> (\<forall>v. Suc v < n \<longrightarrow> vi ! Suc v = count_list es v)"])
  fix pre e post vi
  assume es: "es = pre @ e # post"
    and P: "length vi = n \<and> vi ! 0 = 0 \<and> (\<forall>v. Suc v < n \<longrightarrow> vi ! Suc v = count_list pre v)"
  have e: "e < n" using assms(1) es by simp
  then have ue: "uadd e 1 = Suc e" "usub n 1 = n - 1" using assms by (simp_all add: uadd_exact usub_exact)
  have "count_list pre e \<le> length pre" by (rule count_le_length)
  then have cc: "uadd (count_list pre e) 1 = Suc (count_list pre e)" using assms(2) es by (simp add: uadd_exact)
  show "ok (if e < usub n 1 then do { c \<leftarrow> aget vi (uadd e 1); aput vi (uadd e 1) (uadd c 1) } else Some vi)
    (\<lambda>vi. length vi = n \<and> vi ! 0 = 0 \<and> (\<forall>v. Suc v < n \<longrightarrow> vi ! Suc v = count_list (pre @ [e]) v))"
  proof (cases "Suc e < n")
    case True
    then show ?thesis using P cc unfolding ue by (auto simp: nth_list_update)
  next
    case False
    then show ?thesis using P unfolding ue by auto
  qed
qed (use assms in auto)

lemma reverse_prefix:
  assumes "length ps < U32" "length vi0 = n" "0 < n" "n < U32" "vi0 ! 0 = 0"
    "\<And>v. Suc v < n \<Longrightarrow> vi0 ! Suc v = length (bucket ps v)"
  shows "for_range 1 n (\<lambda>i vi. do {
       a \<leftarrow> aget vi i;
       b \<leftarrow> aget vi (usub i 1);
       aput vi i (uadd a b)
     }) vi0 = Some (map (starts ps) [0..<n])"
proof -
  let ?body = "\<lambda>i vi. do { a \<leftarrow> aget vi i; b \<leftarrow> aget vi (usub i 1); aput vi i (uadd a b) }"
  let ?P = "\<lambda>i vi. length vi = n \<and> (\<forall>k<i. vi ! k = starts ps k) \<and> (\<forall>k. i \<le> k \<and> k < n \<longrightarrow> vi ! k = vi0 ! k)"
  have "ok (for_range 1 n ?body vi0) (?P n)"
  proof (rule ok_for_range[where P = ?P])
    fix i vi assume i: "1 \<le> i" "i < n" and P: "?P i vi"
    then obtain j where j: "i = Suc j" by (cases i) auto
    have "starts ps (Suc j) < U32" using starts_le[of ps "Suc j"] assms(1) by simp
    then have "uadd (vi ! Suc j) (vi ! j) = starts ps (Suc j)"
      using P i j assms(6)[of j] by (simp add: uadd_exact starts_Suc add.commute)
    moreover have "usub i 1 = j" using i j assms(4) by (subst usub_exact) auto
    ultimately show "ok (?body i vi) (?P (Suc i))"
      using P i j assms by (auto simp: nth_list_update less_Suc_eq)
  qed (use assms in \<open>auto simp: less_Suc_eq\<close>)
  then obtain vi where "for_range 1 n ?body vi0 = Some vi" "?P n vi" by (auto simp: ok_iff)
  moreover from this have "vi = map (starts ps) [0..<n]"
    by (intro nth_equalityI) auto
  ultimately show ?thesis by simp
qed

lemma length_rev_edges: "wf_csr G \<Longrightarrow> length (rev_edges G) = numEdges G"
  by (simp add: length_edges)

text \<open>The three loops of \<open>createReverseCSR\<close>: count the edges of every target, sum, place the sources.\<close>

lemma rev_edges_targets:
  assumes "wf_csr G" "\<And>e. e \<in> set (take (numEdges G) (EI G)) \<Longrightarrow> e < k" "p \<in> set (rev_edges G)"
  shows "fst p < k"
proof -
  have "map fst (rev_edges G) = take (numEdges G) (EI G)" using snd_edges[OF assms(1)] by (simp add: comp_def)
  then show ?thesis using assms(2,3) by (metis imageI list.set_map)
qed

lemma reverse_count_loop:
  assumes wf: "wf_csr G" and n: "0 < n" "n < U32" and ei: "\<And>e. e \<in> set (take (numEdges G) (EI G)) \<Longrightarrow> e < n"
  shows "\<exists>vi. for_range 0 (numEdges G) (\<lambda>i vi. do {
       e \<leftarrow> aget (EI G) i;
       if e < usub n 1 then do { c \<leftarrow> aget vi (uadd e 1); aput vi (uadd e 1) (uadd c 1) } else Some vi
     }) (replicate n 0) = Some vi \<and> length vi = n \<and> vi ! 0 = 0 \<and>
     (\<forall>v. Suc v < n \<longrightarrow> vi ! Suc v = length (bucket (rev_edges G) v))"
proof -
  note w = wf_csrD[OF wf]
  let ?es = "take (numEdges G) (EI G)"
  let ?f = "\<lambda>e vi. if e < usub n 1 then do { c \<leftarrow> aget vi (uadd e 1); aput vi (uadd e 1) (uadd c 1) } else Some vi"
  have fs: "map fst (rev_edges G) = ?es" using snd_edges[OF wf] by (simp add: comp_def)
  have "ok (mfold ?f ?es (replicate n 0))
     (\<lambda>vi. length vi = n \<and> vi ! 0 = 0 \<and> (\<forall>v. Suc v < n \<longrightarrow> vi ! Suc v = count_list ?es v))"
    by (rule reverse_count) (use ei n w(3,4) in auto)
  moreover have "for_range 0 (numEdges G) (\<lambda>i vi. do { e \<leftarrow> aget (EI G) i; ?f e vi }) (replicate n 0) =
    mfold ?f (slice (EI G) 0 (numEdges G)) (replicate n 0)"
    by (rule for_range_slice) (use w(4) in simp_all)
  ultimately show ?thesis unfolding length_bucket_count fs slice_0 ok_iff by auto
qed

lemma edge_end_loop:
  assumes wf: "wf_csr G"
  shows "for_range 0 (numVertex G) (\<lambda>i s. do {
       maxId \<leftarrow> edge_end G i;
       j0 \<leftarrow> aget (VI G) i;
       for_range j0 maxId (\<lambda>j s. do { node \<leftarrow> aget (EI G) j; f node i s }) s
     }) s = mfold (\<lambda>(node, i). f node i) (rev_edges G) s"
proof -
  note w = wf_csrD[OF wf]
  have "for_range 0 (numVertex G) (\<lambda>i s. do {
       maxId \<leftarrow> edge_end G i;
       j0 \<leftarrow> aget (VI G) i;
       for_range j0 maxId (\<lambda>j s. do { node \<leftarrow> aget (EI G) j; f node i s }) s
     }) s = mfold (\<lambda>i. mfold (\<lambda>node. f node i) (adj G i)) [0..<numVertex G] s"
    unfolding for_range_def[of 0]
  proof (rule mfold_cong[OF refl])
    fix i s assume "i \<in> set [0..<numVertex G]"
    then have i: "i < numVertex G" by simp
    have "for_range (VI G ! i) (eend G i) (\<lambda>j s. do { node \<leftarrow> aget (EI G) j; f node i s }) s =
      mfold (\<lambda>node. f node i) (adj G i) s"
      unfolding adj_def by (rule for_range_slice) (use w(4) w(8)[OF i] in auto)
    then show "do { maxId \<leftarrow> edge_end G i; j0 \<leftarrow> aget (VI G) i;
       for_range j0 maxId (\<lambda>j s. do { node \<leftarrow> aget (EI G) j; f node i s }) s } = mfold (\<lambda>node. f node i) (adj G i) s"
      using edge_end_ok[OF wf i] w(5) i by simp
  qed
  also have "\<dots> = mfold (\<lambda>(node, i). f node i) (rev_edges G) s"
    unfolding edges_def map_concat mfold_concat map_map mfold_map
    by (intro mfold_cong refl) (simp add: mfold_map comp_def)
  finally show ?thesis .
qed

lemma createReverseCSR_ok:
  assumes wf: "wf_csr G1" and n2: "0 < n2" "n2 < U32" and ei: "\<And>e. e \<in> set (take (numEdges G1) (EI G1)) \<Longrightarrow> e < n2"
  shows "createReverseCSR G1 n2 = Some (csr_graph n2 n2 (rev_edges G1))"
proof -
  let ?ps = "rev_edges G1" and ?m = "numEdges G1"
  let ?vi = "map (starts ?ps) [0..<n2]"
  note w = wf_csrD(3)[OF wf]
  have len: "length ?ps = ?m" by (rule length_rev_edges[OF wf])
  obtain vi0 where l1: "for_range 0 ?m (\<lambda>i vi. do {
       e \<leftarrow> aget (EI G1) i;
       if e < usub n2 1 then do { c \<leftarrow> aget vi (uadd e 1); aput vi (uadd e 1) (uadd c 1) } else Some vi
     }) (replicate n2 0) = Some vi0"
    and vi0: "length vi0 = n2" "vi0 ! 0 = 0" "\<And>v. Suc v < n2 \<Longrightarrow> vi0 ! Suc v = length (bucket ?ps v)"
    using reverse_count_loop[OF wf n2 ei] by auto
  have l2: "for_range 1 n2 (\<lambda>i vi. do { a \<leftarrow> aget vi i; b \<leftarrow> aget vi (usub i 1); aput vi i (uadd a b) }) vi0 = Some ?vi"
    by (rule reverse_prefix) (use vi0 n2 w len in simp_all)
  have l3: "mfold (\<lambda>(node, i). place ?vi node i) ?ps (replicate ?m 0, replicate n2 0) =
      Some (csr_of n2 ?ps, map (\<lambda>v. length (bucket ?ps v)) [0..<n2])"
    by (rule place_all[OF rev_edges_targets[OF wf ei]]) (use w len in simp_all)
  show ?thesis
    unfolding createReverseCSR_def Let_def l1 Option.bind.simps l2 edge_end_loop[OF wf] l3 prod.case
    by (simp only: csr_graph_def len)
qed

lemma bucket_rev_edges: "bucket (rev_edges G) p = concat (map (\<lambda>v. replicate (count_list (adj G v) p) v) [0..<numVertex G])"
proof -
  have "bucket (map (\<lambda>x. (x, v)) xs) p = replicate (count_list xs p) v" for v :: nat and xs
    by (induction xs) auto
  then show ?thesis by (simp add: edges_def map_concat bucket_concat comp_def)
qed

text \<open>The reverse graph lists \<open>v\<close> under \<open>p\<close> as often as the graph lists \<open>p\<close> under \<open>v\<close>.\<close>

lemma count_bucket_rev:
  "v < numVertex G \<Longrightarrow> count_list (bucket (rev_edges G) p) v = count_list (adj G v) p"
proof -
  have rep: "count_list (replicate k u) v = (if u = v then k else 0)" for k u
    by (induction k) auto
  have "count_list (concat (map (\<lambda>u. replicate (f u) u) [0..<n])) v = (if v < n then f v else 0)" for n f
    by (induction n) (auto simp: rep less_Suc_eq)
  then show "v < numVertex G \<Longrightarrow> ?thesis" by (simp add: bucket_rev_edges)
qed

lemma bucket_rev_less: "v \<in> set (bucket (rev_edges G) p) \<Longrightarrow> v < numVertex G"
  by (auto simp: bucket_def dest!: fst_edges_less)

section \<open>filter\<close>

definition vertex_rank :: "nat set \<Rightarrow> nat \<Rightarrow> nat" where
  "vertex_rank V v = card {u \<in> V. u < v}"

lemma vertex_rank_Suc: "finite V \<Longrightarrow> vertex_rank V (Suc v) = (if v \<in> V then Suc (vertex_rank V v) else vertex_rank V v)"
proof -
  assume "finite V"
  have "{u \<in> V. u < Suc v} = (if v \<in> V then insert v {u \<in> V. u < v} else {u \<in> V. u < v})"
    by (auto simp: less_Suc_eq)
  then show ?thesis using \<open>finite V\<close> by (simp add: vertex_rank_def)
qed

lemma vertex_rank_strict: "finite V \<Longrightarrow> u \<in> V \<Longrightarrow> u < v \<Longrightarrow> vertex_rank V u < vertex_rank V v"
  unfolding vertex_rank_def by (rule psubset_card_mono) auto

lemma vertex_rank_less: "finite V \<Longrightarrow> v \<in> V \<Longrightarrow> vertex_rank V v < card V"
  unfolding vertex_rank_def by (rule psubset_card_mono) auto

lemma vertex_rank_le: "vertex_rank V v \<le> v"
proof -
  have "card {u \<in> V. u < v} \<le> card {..<v}" by (rule card_mono) auto
  then show ?thesis by (simp add: vertex_rank_def)
qed

lemma vertex_rank_bij:
  assumes "finite V" shows "bij_betw (vertex_rank V) V {..<card V}"
proof -
  have inj: "inj_on (vertex_rank V) V"
  proof (rule linorder_inj_onI)
    fix x y assume "x < y" "x \<in> V"
    then show "vertex_rank V x \<noteq> vertex_rank V y" using vertex_rank_strict[OF assms, of x y] by simp
  qed auto
  moreover have "vertex_rank V ` V = {..<card V}"
    using vertex_rank_less[OF assms] inj by (intro card_subset_eq) (auto simp: card_image)
  ultimately show ?thesis by (simp add: bij_betw_def)
qed

lemma map_prefix_step:
  "i < length xs \<Longrightarrow> (map f (take i xs) @ drop i xs)[i := f (xs ! i)] = map f (take (Suc i) xs) @ drop (Suc i) xs"
proof -
  assume "i < length xs"
  then have "drop i xs = xs ! i # drop (Suc i) xs" by (simp add: Cons_nth_drop_Suc)
  then show ?thesis using \<open>i < length xs\<close> by (simp add: list_update_append take_Suc_conv_app_nth)
qed

lemma filter_exists:
  assumes len: "length src = m" "length dst = m" and s: "\<And>v. v \<in> set src \<union> set dst \<Longrightarrow> v < n"
  shows "for_range 0 m (\<lambda>i ex. do {
       s \<leftarrow> aget src i; ex' \<leftarrow> aput ex s True; d \<leftarrow> aget dst i; aput ex' d True
     }) (replicate n False) = Some (map (\<lambda>v. v \<in> set src \<union> set dst) [0..<n])"
proof -
  let ?P = "\<lambda>i ex. ex = map (\<lambda>v. v \<in> set (take i src) \<union> set (take i dst)) [0..<n]"
  have "ok (for_range 0 m (\<lambda>i ex. do {
     s \<leftarrow> aget src i; ex' \<leftarrow> aput ex s True; d \<leftarrow> aget dst i; aput ex' d True
   }) (replicate n False)) (?P m)"
  proof (rule ok_for_range[where P = ?P])
    fix i ex assume i: "i < m" and P: "?P i ex"
    then have "src ! i < n" "dst ! i < n" using s len by auto
    then show "ok (do { s \<leftarrow> aget src i; ex' \<leftarrow> aput ex s True; d \<leftarrow> aget dst i; aput ex' d True }) (?P (Suc i))"
      using i P len by (auto intro!: nth_equalityI simp: nth_list_update take_Suc_conv_app_nth)
  qed (auto simp: map_replicate_const)
  then show ?thesis using len by (auto simp: ok_iff)
qed

lemma filter_graph_ok:
  assumes len: "length src = m" "length dst = m" and n: "n < U32"
    and s: "\<And>v. v \<in> set src \<union> set dst \<Longrightarrow> v < n"
  defines "V \<equiv> set src \<union> set dst"
  shows "filter_graph src dst n m = Some (map (vertex_rank V) src, map (vertex_rank V) dst, card V)"
proof -
  have fin: "finite V" by (simp add: V_def)
  let ?ex = "map (\<lambda>v. v \<in> V) [0..<n]" and ?r = "vertex_rank V"
  note l1 = filter_exists[OF len s, folded V_def]
  let ?b2 = "\<lambda>i (vm, act). do {
       e \<leftarrow> aget ?ex i;
       if e then do { vm' \<leftarrow> aput vm i act; Some (vm', uadd act 1) } else Some (vm, act) }"
  have "ok (for_range 0 n ?b2 (replicate n 0, 0)) (\<lambda>(vm, act). length vm = n \<and> act = ?r n \<and> (\<forall>v<n. v \<in> V \<longrightarrow> vm ! v = ?r v))"
  proof (rule ok_for_range[where P = "\<lambda>i (vm, act). length vm = n \<and> act = ?r i \<and> (\<forall>v<i. v \<in> V \<longrightarrow> vm ! v = ?r v)"])
    fix i st assume i: "i < n" and P: "case st of (vm, act) \<Rightarrow> length vm = n \<and> act = ?r i \<and> (\<forall>v<i. v \<in> V \<longrightarrow> vm ! v = ?r v)"
    have "uadd (?r i) 1 = Suc (?r i)" using vertex_rank_le[of V i] i n by (simp add: uadd_exact)
    then show "ok (?b2 i st) (\<lambda>(vm, act). length vm = n \<and> act = ?r (Suc i) \<and> (\<forall>v<Suc i. v \<in> V \<longrightarrow> vm ! v = ?r v))"
      using i P by (auto simp: vertex_rank_Suc[OF fin] less_Suc_eq nth_list_update)
  qed (auto simp: vertex_rank_def)
  then obtain vm act where l2: "for_range 0 n ?b2 (replicate n 0, 0) = Some (vm, act)" "length vm = n"
    "act = ?r n" "\<And>v. v < n \<Longrightarrow> v \<in> V \<Longrightarrow> vm ! v = ?r v"
    by (auto simp: ok_iff)
  have act: "act = card V"
    unfolding l2(3) vertex_rank_def by (rule arg_cong[of _ _ card]) (use s in \<open>auto simp: V_def\<close>)
  have vm: "vm ! v = ?r v" "v < length vm" if "v \<in> V" for v
    using l2(2,4) s that by (auto simp: V_def)
  let ?b3 = "\<lambda>i (src, dst). do {
       s \<leftarrow> aget src i; s' \<leftarrow> aget vm s; src' \<leftarrow> aput src i s';
       d \<leftarrow> aget dst i; d' \<leftarrow> aget vm d; dst' \<leftarrow> aput dst i d';
       Some (src', dst') }"
  let ?P3 = "\<lambda>i (s, d). s = map ?r (take i src) @ drop i src \<and> d = map ?r (take i dst) @ drop i dst"
  have "ok (for_range 0 m ?b3 (src, dst)) (?P3 m)"
  proof (rule ok_for_range[where P = ?P3])
    fix i st assume i: "i < m" and P: "?P3 i st"
    have "src ! i \<in> V" "dst ! i \<in> V" using i len by (auto simp: V_def)
    then show "ok (?b3 i st) (?P3 (Suc i))"
      using i P len vm map_prefix_step[of i src ?r] map_prefix_step[of i dst ?r]
      by (auto simp: nth_append min_def)
  qed auto
  then have l3: "for_range 0 m ?b3 (src, dst) = Some (map ?r src, map ?r dst)"
    using len by (auto simp: ok_iff)
  show ?thesis
    unfolding filter_graph_def by (simp only: l1 l2(1) l3 Option.bind.simps prod.case act)
qed

section \<open>Properties\<close>

text \<open>\<open>filter\<close> keeps exactly the vertices with an edge and renumbers them with \<open>0, 1, \<dots>\<close>
  in their order: one bijection \<open>r\<close> from the vertices that occur onto \<open>{0..<actualVertices}\<close>,
  increasing, is applied to both end points of every edge. It touches no memory outside the arrays.\<close>

theorem filter_graph_compacts:
  assumes "length src = m" "length dst = m" "n < U32" "\<forall>v \<in> set src \<union> set dst. v < n"
  shows "\<exists>r k. filter_graph src dst n m = Some (map r src, map r dst, k) \<and>
    bij_betw r (set src \<union> set dst) {..<k} \<and>
    (\<forall>u \<in> set src \<union> set dst. \<forall>v \<in> set src \<union> set dst. u < v \<longrightarrow> r u < r v)"
  using filter_graph_ok[of src m dst n] vertex_rank_bij[of "set src \<union> set dst"]
    vertex_rank_strict[of "set src \<union> set dst"] assms by (intro exI) auto

theorem filter_graph_compacts_witness:
  "\<exists>r k. filter_graph [7, 2, 7] [2, 9, 9] 10 3 = Some (map r [7, 2, 7 :: nat], map r [2, 9, 9], k) \<and>
    bij_betw r (set [7, 2, 7] \<union> set [2, 9, 9]) {..<k}"
proof -
  have "\<forall>v \<in> set [7, 2, 7] \<union> set [2, 9, 9]. v < (10 :: nat)" by simp
  from filter_graph_compacts[OF _ _ _ this, of 3] show ?thesis by (auto simp del: set_simps list.map)
qed

text \<open>C11: \<open>csr_convert\<close> is a counting sort of the edges: it returns a well-formed CSR in which
  the neighbours of every vertex are the targets of its edges in input order, so the CSR has
  exactly the edges of the list.\<close>

theorem csr_convert_edges:
  assumes "length src = numEdges G" "length dst = numEdges G" "numEdges G < U32"
    "0 < numVertex G" "numVertex G < U32 - 1" "\<forall>s \<in> set src. s < numVertex G"
  shows "\<exists>G'. csr_convert src dst G = Some G' \<and> numVertex G' = numVertex G \<and> wf_csr G' \<and>
    (\<forall>v < numVertex G. adj G' v = [d. (s, d) \<leftarrow> zip src dst, s = v]) \<and>
    mset (edges G') = mset (zip src dst)"
proof -
  let ?G = "csr_graph (numVertex G) (numVertex G + 1) (zip src dst)"
  have ps: "\<And>p. p \<in> set (zip src dst) \<Longrightarrow> fst p < numVertex G"
    using assms(6) by (auto dest: set_zip_leftD)
  have b: "[d. (s, d) \<leftarrow> ps, s = v] = bucket ps v" for ps :: "(nat \<times> nat) list" and v
    by (induction ps) auto
  let ?R = "G\<lparr>VI := map (starts (zip src dst)) [0..<numVertex G + 1], EI := csr_of (numVertex G) (zip src dst)\<rparr>"
  have R: "?R = ?G" using assms(1,2) by (cases G) (simp add: csr_graph_def)
  have "csr_convert src dst G = Some ?G" unfolding R[symmetric] by (rule csr_convert_ok) (use assms in auto)
  then show ?thesis
    using csr_graph[OF assms(4,5), of "zip src dst" "numVertex G + 1"] ps assms(1-3)
    by (intro exI[of _ ?G]) (simp add: b csr_graph_def)
qed

theorem csr_convert_edges_witness:
  "\<exists>G'. csr_convert [2, 0, 2] [1, 2, 0] \<lparr>numVertex = 3, numEdges = 3, VI = [], EI = []\<rparr> = Some G' \<and>
    wf_csr G' \<and> mset (edges G') = {#(2, 1), (0, 2), (2, 0)#}"
  using csr_convert_edges[of "[2, 0, 2]" "\<lparr>numVertex = 3, numEdges = 3, VI = [], EI = []\<rparr>" "[1, 2, 0]"]
  by simp blast

text \<open>\<open>createReverseCSR\<close> returns a well-formed CSR over \<open>G2numVertex\<close> vertices whose edges
  are those of the graph with both ends exchanged (the two directions of the graph agree).\<close>

theorem createReverseCSR_converse:
  assumes "wf_csr G1" "0 < n2" "n2 < U32 - 1" "\<forall>e \<in> set (take (numEdges G1) (EI G1)). e < n2"
  shows "\<exists>G2. createReverseCSR G1 n2 = Some G2 \<and> numVertex G2 = n2 \<and> wf_csr G2 \<and>
    mset (edges G2) = mset (map prod.swap (edges G1))"
proof -
  have "fst p < n2" if "p \<in> set (rev_edges G1)" for p
    using that assms(4) snd_edges[OF assms(1)] by (metis (no_types, lifting) imageE list.set_map fst_swap imageI)
  then show ?thesis
    using createReverseCSR_ok[of G1 n2] csr_graph[of n2 "rev_edges G1" n2] length_edges[OF assms(1)] assms
      wf_csrD(3)[OF assms(1)]
    by (intro exI[of _ "csr_graph n2 n2 (rev_edges G1)"]) (simp add: csr_graph_def)
qed

theorem createReverseCSR_converse_witness:
  "\<exists>G2. createReverseCSR \<lparr>numVertex = 2, numEdges = 3, VI = [0, 2], EI = [1, 2, 0]\<rparr> 3 = Some G2 \<and>
    numVertex G2 = 3 \<and> mset (edges G2) = {#(1, 0), (2, 0), (0, 1)#}"
proof -
  let ?G = "\<lparr>numVertex = 2, numEdges = 3, VI = [0, 2], EI = [1, 2, 0 :: nat]\<rparr>"
  have "wf_csr ?G" by (simp add: wf_csr_def eend_def less_Suc_eq numeral_2_eq_2)
  moreover have "edges ?G = [(0, 1), (0, 2), (1, 0)]"
    by (simp add: edges_def adj_def eend_def slice_def numeral_2_eq_2 upt_rec)
  ultimately show ?thesis using createReverseCSR_converse[of ?G 3] by auto
qed

end
