(* ===== verification/Graph_IO.thy ===== *)
theory Graph_IO
  imports Stdio CSR
begin

text \<open>
  The files of \<open>graph.cpp\<close> (\<open>br/block_reordering\<close>, \<open>ph/pH\<close>, \<open>graphReordering\<close>): edge lists as
  text (\<open>read_edge_list\<close>, \<open>read_csr\<close>, \<open>write_edgelist\<close>) and the binary CSR of \<open>write_csr\<close>.
  A file that cannot be opened is \<open>None\<close>; the functions return \<open>None\<close> for their result \<open>-1\<close>, inside the
  \<open>option\<close> of undefined behaviour.
\<close>

section \<open>The code\<close>

text \<open>The variables of \<open>read_edge_list\<close>; \<open>w\<close> is not initialised.\<close>

record edge_input =
  srcVal :: u32
  dstVal :: u32
  wVal :: "u32 option"
  maxVertex :: u32
  srcs :: "u32 list"
  dsts :: "u32 list"
  wts :: "u32 list"

text \<open>One row that has been read: \<open>numVertex = max(...)\<close> and the \<open>push_back\<close>s. The copies differ in
  \<open>weighted\<close> and in whether a self loop is kept.\<close>

definition add_edge :: "bool \<Rightarrow> bool \<Rightarrow> edge_input \<Rightarrow> edge_input option" where
  "add_edge weighted loops st = do {
     let m = (if srcVal st > maxVertex st then srcVal st else maxVertex st);
     let m = (if dstVal st > m then dstVal st else m);
     let st = st\<lparr>maxVertex := m\<rparr>;
     if loops \<or> srcVal st \<noteq> dstVal st then do {
       let st = st\<lparr>srcs := srcs st @ [srcVal st], dsts := dsts st @ [dstVal st]\<rparr>;
       if weighted then (case wVal st of
           Some w \<Rightarrow> Some (st\<lparr>wts := wts st @ [w]\<rparr>)
         | None \<Rightarrow> None)
       else Some st
     } else Some st
   }"

text \<open>\<open>while(!feof(fp)) { if (fscanf(...) <= 0) break; ... }\<close>\<close>

partial_function (option) read_rows :: "bool \<Rightarrow> bool \<Rightarrow> string \<Rightarrow> edge_input \<Rightarrow> edge_input option" where
  "read_rows weighted loops s st =
     (if s = [] then Some st
      else do {
        a \<leftarrow> scan_d s;
        case fst a of
          None \<Rightarrow> Some st
        | Some x \<Rightarrow> do {
            b \<leftarrow> scan_d (snd a);
            let st = st\<lparr>srcVal := x, dstVal := (case fst b of None \<Rightarrow> dstVal st | Some y \<Rightarrow> y)\<rparr>;
            c \<leftarrow> (if weighted then scan_d (snd b) else Some (None, snd b));
            let st = st\<lparr>wVal := (case fst c of None \<Rightarrow> wVal st | Some z \<Rightarrow> Some z)\<rparr>;
            st \<leftarrow> add_edge weighted loops st;
            read_rows weighted loops (snd c) st
          }
      })"

text \<open>The result of \<open>read_edge_list\<close>: the number of vertices as an \<open>int\<close> in two's complement and the
  three vectors. \<open>numVertex++\<close> overflows at the largest \<open>int\<close>.\<close>

definition read_edges :: "bool \<Rightarrow> bool \<Rightarrow> string option \<Rightarrow> (u32 \<times> u32 list \<times> u32 list \<times> u32 list) option option" where
  "read_edges weighted loops file = (case file of
     None \<Rightarrow> Some None
   | Some s \<Rightarrow> do {
       st \<leftarrow> read_rows weighted loops s
         \<lparr>srcVal = 0, dstVal = 0, wVal = None, maxVertex = 0, srcs = [], dsts = [], wts = []\<rparr>;
       if maxVertex st = U32 div 2 - 1 then None
       else Some (Some (uadd (maxVertex st) 1, srcs st, dsts st, wts st))
     })"

definition read_edge_list :: "string option \<Rightarrow> (u32 \<times> u32 list \<times> u32 list) option option" where
  "read_edge_list file = do {
     r \<leftarrow> read_edges False False file;
     Some (case r of None \<Rightarrow> None | Some (n, src, dst, w) \<Rightarrow> Some (n, src, dst))
   }"

definition read_csr :: "string option \<Rightarrow> graph option option" where
  "read_csr file = do {
     r \<leftarrow> read_edge_list file;
     case r of
       None \<Rightarrow> Some None
     | Some (n, src, dst) \<Rightarrow>
         if U32 div 2 \<le> n then Some None
         else do {
           let m = length src mod U32;
           (src, dst, n) \<leftarrow> filter_graph src dst n m;
           G \<leftarrow> csr_convert src dst \<lparr>numVertex = n, numEdges = m, VI = [], EI = []\<rparr>;
           Some (Some G)
         }
   }"

definition edge_line :: "u32 \<Rightarrow> u32 \<Rightarrow> string" where
  "edge_line a b = print_d a @ CHR '' '' # print_d b @ [newline]"

definition write_edgelist :: "graph \<Rightarrow> string option" where
  "write_edgelist G = do {
     s \<leftarrow> for_range 0 (usub (numVertex G) 1) (\<lambda>i s. do {
       a \<leftarrow> aget (VI G) i;
       b \<leftarrow> aget (VI G) (uadd i 1);
       for_range a b (\<lambda>j s. do { e \<leftarrow> aget (EI G) j; Some (s @ edge_line i e) }) s
     }) [];
     a \<leftarrow> aget (VI G) (usub (numVertex G) 1);
     for_range a (numEdges G) (\<lambda>j s. do {
       e \<leftarrow> aget (EI G) j;
       Some (s @ edge_line (usub (numVertex G) 1) e)
     }) s
   }"

text \<open>\<open>fwrite\<close> of \<open>n\<close> numbers from an array.\<close>

definition fwrite_u32 :: "u32 list \<Rightarrow> u32 \<Rightarrow> nat list option" where
  "fwrite_u32 xs n = (if n \<le> length xs then Some (concat (map le_bytes (take n xs))) else None)"

definition write_csr :: "graph \<Rightarrow> nat list option" where
  "write_csr G = do {
     vi \<leftarrow> fwrite_u32 (VI G) (numVertex G);
     ei \<leftarrow> fwrite_u32 (EI G) (numEdges G);
     Some (le_bytes (numVertex G) @ le_bytes (numEdges G) @ vi @ ei)
   }"

text \<open>\<open>printGraph\<close> of \<open>br\<close>, and of \<open>ph\<close> (one line for every vertex).\<close>

definition print_array :: "u32 list \<Rightarrow> u32 \<Rightarrow> string option" where
  "print_array xs n = for_range 0 n (\<lambda>i s. do { x \<leftarrow> aget xs i; Some (s @ print_d x @ '' '') }) []"

definition printGraph :: "graph \<Rightarrow> string option" where
  "printGraph G = do {
     vi \<leftarrow> print_array (VI G) (numVertex G);
     ei \<leftarrow> print_array (EI G) (numEdges G);
     Some (''number of vertices are '' @ print_d (numVertex G) @ [newline] @
       ''number of edges are '' @ print_d (numEdges G) @ [newline] @ vi @ [newline] @ ei @ [newline])
   }"

definition ph_printGraph :: "graph \<Rightarrow> string option" where
  "ph_printGraph G = do {
     s \<leftarrow> for_range 0 (numVertex G) (\<lambda>i s. do {
       endId \<leftarrow> (if i \<ge> usub (numVertex G) 1 then Some (numEdges G) else aget (VI G) (uadd i 1));
       a \<leftarrow> aget (VI G) i;
       s \<leftarrow> for_range a endId (\<lambda>j s. do { e \<leftarrow> aget (EI G) j; Some (s @ print_d e @ '', '') }) (s @ print_d i @ '' -> '');
       Some (s @ [newline])
     }) [];
     Some (s @ [newline])
   }"

section \<open>Reading what was printed\<close>

text \<open>A row of the text is two numbers, and a weight in the weighted format.\<close>

type_synonym row = "u32 \<times> u32 \<times> u32"

fun row_line :: "bool \<Rightarrow> row \<Rightarrow> string" where
  "row_line weighted (a, b, w) = print_d a @ CHR '' '' # print_d b @
     (if weighted then CHR '' '' # print_d w @ [newline] else [newline])"

definition print_rows :: "bool \<Rightarrow> row list \<Rightarrow> string" where
  "print_rows weighted rows = concat (map (row_line weighted) rows)"

fun row_step :: "bool \<Rightarrow> bool \<Rightarrow> row \<Rightarrow> edge_input \<Rightarrow> edge_input" where
  "row_step weighted loops (a, b, w) st = st\<lparr>srcVal := a, dstVal := b, wVal := if weighted then Some w else wVal st,
     maxVertex := max b (max a (maxVertex st)),
     srcs := srcs st @ (if loops \<or> a \<noteq> b then [a] else []),
     dsts := dsts st @ (if loops \<or> a \<noteq> b then [b] else []),
     wts := wts st @ (if weighted \<and> (loops \<or> a \<noteq> b) then [w] else [])\<rparr>"

fun row_ok :: "row \<Rightarrow> bool" where
  "row_ok (a, b, w) \<longleftrightarrow> a < U32 \<and> b < U32 \<and> w < U32"

lemma read_rows_newline: "read_rows weighted loops (newline # s) st = read_rows weighted loops s st"
proof (cases "s = []")
  case True
  then show ?thesis by (simp add: read_rows.simps scan_blank)
next
  case False
  then show ?thesis by (subst (1 2) read_rows.simps) (simp add: scan_space)
qed

lemma read_row:
  assumes "row_ok r"
  shows "read_rows weighted loops (row_line weighted r @ s) st = read_rows weighted loops s (row_step weighted loops r st)"
proof -
  obtain a b w where r: "r = (a, b, w)" by (cases r) auto
  have v: "a < U32" "b < U32" "w < U32" using assms r by auto
  define s1 where "s1 = (if weighted then CHR '' '' # print_d w @ newline # s else newline # s)"
  have l: "row_line weighted r @ s = print_d a @ CHR '' '' # print_d b @ s1" by (simp add: r s1_def)
  have ne: "row_line weighted r @ s \<noteq> []" unfolding l by simp
  have c1: "scan_d (row_line weighted r @ s) = Some (Some a, CHR '' '' # print_d b @ s1)"
    unfolding l by (rule scan_print) (use v in auto)
  have c2: "scan_d (CHR '' '' # print_d b @ s1) = Some (Some b, s1)"
    using v by (cases weighted) (simp_all add: scan_space scan_print s1_def)
  have c3: "(if weighted then scan_d s1 else Some (None, s1)) =
      Some (if weighted then Some w else None, newline # s)"
    using v by (simp add: s1_def scan_space scan_print)
  show ?thesis
  proof (cases weighted)
    case True
    then show ?thesis
      using ne c1 c2 c3 by (subst read_rows.simps) (simp add: add_edge_def Let_def read_rows_newline r max_def)
  next
    case False
    then show ?thesis
      using ne c1 c2 c3 by (subst read_rows.simps) (simp add: add_edge_def Let_def read_rows_newline r max_def)
  qed
qed

lemma read_print_rows:
  "list_all row_ok rows \<Longrightarrow>
   read_rows weighted loops (print_rows weighted rows) st = Some (fold (row_step weighted loops) rows st)"
proof (induction rows arbitrary: st)
  case Nil
  then show ?case by (simp add: print_rows_def read_rows.simps)
next
  case (Cons r rows)
  then show ?case using read_row[of r] by (simp add: print_rows_def)
qed

definition kept :: "bool \<Rightarrow> row list \<Rightarrow> row list" where
  "kept loops rows = filter (\<lambda>(a, b, w). loops \<or> a \<noteq> b) rows"

lemma fold_rows:
  "srcs (fold (row_step weighted loops) rows st) = srcs st @ map fst (kept loops rows)"
  "dsts (fold (row_step weighted loops) rows st) = dsts st @ map (fst \<circ> snd) (kept loops rows)"
  "wts (fold (row_step weighted loops) rows st) = wts st @ (if weighted then map (snd \<circ> snd) (kept loops rows) else [])"
  "maxVertex (fold (row_step weighted loops) rows st) = fold max (concat (map (\<lambda>(a, b, w). [a, b]) rows)) (maxVertex st)"
  by (induction rows arbitrary: st) (auto simp: kept_def)

lemma fold_max_bounds: "m \<le> fold max xs (m :: nat)" "x \<in> set xs \<Longrightarrow> x \<le> fold max xs m"
  "(\<And>x. x \<in> set xs \<Longrightarrow> x < b) \<Longrightarrow> m < b \<Longrightarrow> fold max xs m < b"
proof (induction xs arbitrary: m)
  case (Cons y xs)
  {
    case 1 then show ?case using Cons.IH(1)[of "max y m"] by simp
  next
    case 2
    then show ?case using Cons.IH(1)[of "max y m"] Cons.IH(2)[of "max y m"] by auto
  next
    case 3
    then show ?case using Cons.IH(3)[of "max y m"] by simp
  }
qed auto

text \<open>The number of vertices a text stands for.\<close>

definition vertices_read :: "row list \<Rightarrow> nat" where
  "vertices_read rows = fold max (concat (map (\<lambda>(a, b, w). [a, b]) rows)) 0 + 1"

lemma read_edges_ok:
  assumes "list_all row_ok rows" "\<forall>(a, b, w) \<in> set rows. a < U32 div 2 - 1 \<and> b < U32 div 2 - 1"
  shows "read_edges weighted loops (Some (print_rows weighted rows)) =
    Some (Some (vertices_read rows, map fst (kept loops rows), map (fst \<circ> snd) (kept loops rows),
      if weighted then map (snd \<circ> snd) (kept loops rows) else []))"
    "vertices_read rows < U32 div 2" "(a, b, w) \<in> set rows \<Longrightarrow> a < vertices_read rows \<and> b < vertices_read rows"
proof -
  let ?xs = "concat (map (\<lambda>(a, b, w :: u32). [a, b]) rows)"
  have m: "fold max ?xs 0 < U32 div 2 - 1"
    by (rule fold_max_bounds(3)) (use assms(2) in auto)
  then show "vertices_read rows < U32 div 2" by (simp add: vertices_read_def)
  show "(a, b, w) \<in> set rows \<Longrightarrow> a < vertices_read rows \<and> b < vertices_read rows"
    using fold_max_bounds(2)[of a ?xs 0] fold_max_bounds(2)[of b ?xs 0]
    by (force simp: vertices_read_def less_Suc_eq_le)
  show "read_edges weighted loops (Some (print_rows weighted rows)) =
    Some (Some (vertices_read rows, map fst (kept loops rows), map (fst \<circ> snd) (kept loops rows),
      if weighted then map (snd \<circ> snd) (kept loops rows) else []))"
    using m read_print_rows[OF assms(1), of weighted loops]
    by (simp add: read_edges_def fold_rows vertices_read_def uadd_exact del: map_map)
qed

section \<open>Reading a graph\<close>

definition row_of :: "nat \<times> nat \<Rightarrow> row" where
  "row_of e = (fst e, snd e, 0)"

definition print_edges :: "(nat \<times> nat) list \<Rightarrow> string" where
  "print_edges es = concat (map (\<lambda>(a, b). edge_line a b) es)"

lemma print_edges_rows: "print_edges es = print_rows False (map row_of es)"
  unfolding print_edges_def print_rows_def map_map comp_def
  by (rule arg_cong[of _ _ concat]) (auto simp: row_of_def edge_line_def)

definition edges_ok :: "(nat \<times> nat) list \<Rightarrow> bool" where
  "edges_ok es \<longleftrightarrow> (\<forall>(a, b) \<in> set es. a < U32 div 2 - 1 \<and> b < U32 div 2 - 1)"

definition no_loops :: "(nat \<times> nat) list \<Rightarrow> (nat \<times> nat) list" where
  "no_loops es = filter (\<lambda>(a, b). a \<noteq> b) es"

definition ends :: "(nat \<times> nat) list \<Rightarrow> nat set" where
  "ends es = fst ` set es \<union> snd ` set es"

lemma kept_rows: "kept loops (map row_of es) = map row_of (if loops then es else no_loops es)"
  by (induction es) (auto simp: kept_def row_of_def no_loops_def split: prod.splits)

lemma map_row_of: "map fst (map row_of es) = map fst es" "map (fst \<circ> snd) (map row_of es) = map snd es"
  by (simp_all add: row_of_def comp_def)

lemma read_edge_list_ok:
  assumes "edges_ok es"
  shows "read_edge_list (Some (print_edges es)) =
    Some (Some (vertices_read (map row_of es), map fst (no_loops es), map snd (no_loops es)))"
    "vertices_read (map row_of es) < U32 div 2" "(a, b) \<in> set es \<Longrightarrow> a < vertices_read (map row_of es) \<and> b < vertices_read (map row_of es)"
proof -
  have h: "list_all row_ok (map row_of es)" "\<forall>(a, b, w) \<in> set (map row_of es). a < U32 div 2 - 1 \<and> b < U32 div 2 - 1"
    using assms by (auto simp: list_all_iff row_of_def edges_ok_def)
  note r = read_edges_ok[OF h]
  show "vertices_read (map row_of es) < U32 div 2" by (rule r(2))
  show "(a, b) \<in> set es \<Longrightarrow> a < vertices_read (map row_of es) \<and> b < vertices_read (map row_of es)"
    by (rule r(3)[of a b 0]) (force simp: row_of_def)
  show "read_edge_list (Some (print_edges es)) =
    Some (Some (vertices_read (map row_of es), map fst (no_loops es), map snd (no_loops es)))"
    unfolding read_edge_list_def print_edges_rows r(1) kept_rows by (simp add: map_row_of del: map_map)
qed

text \<open>The edges after \<open>filter\<close>: the vertices that occur are numbered in ascending order.\<close>

definition renumber :: "(nat \<times> nat) list \<Rightarrow> (nat \<times> nat) list" where
  "renumber es = map (\<lambda>(a, b). (vertex_rank (ends es) a, vertex_rank (ends es) b)) es"

definition graph_of :: "(nat \<times> nat) list \<Rightarrow> graph" where
  "graph_of es = csr_graph (card (ends es)) (card (ends es) + 1) (renumber es)"

lemma finite_ends: "finite (ends es)"
  by (simp add: ends_def)

lemma renumber_less:
  assumes "p \<in> set (renumber es)" shows "fst p < card (ends es)" "snd p < card (ends es)"
proof -
  obtain a b where ab: "(a, b) \<in> set es" "p = (vertex_rank (ends es) a, vertex_rank (ends es) b)"
    using assms by (auto simp: renumber_def)
  then have "a \<in> ends es" "b \<in> ends es" by (force simp: ends_def)+
  then show "fst p < card (ends es)" "snd p < card (ends es)"
    using ab vertex_rank_less[OF finite_ends] by auto
qed

lemma csr_of_targets:
  assumes "\<And>p. p \<in> set ps \<Longrightarrow> snd p < m" "e \<in> set (csr_of n ps)" shows "e < m"
  using assms by (auto simp: csr_of_def bucket_def)

lemma graph_of:
  assumes es: "es \<noteq> []" "length es < U32" "card (ends es) < U32 - 1"
  shows "wf_csr (graph_of es)" "\<forall>e \<in> set (EI (graph_of es)). e < numVertex (graph_of es)"
    "length (EI (graph_of es)) = length es" "numEdges (graph_of es) = length es" "numVertex (graph_of es) = card (ends es)"
    "length (VI (graph_of es)) = card (ends es) + 1" "VI (graph_of es) ! card (ends es) = length es"
    "mset (edges (graph_of es)) = mset (renumber es)"
    "v < card (ends es) \<Longrightarrow> adj (graph_of es) v = bucket (renumber es) v"
proof -
  let ?n = "card (ends es)" and ?ps = "renumber es"
  have n0: "0 < ?n" using es(1) finite_ends[of es] by (auto simp: card_gt_0_iff ends_def)
  have len: "length ?ps = length es" by (simp add: renumber_def)
  note g = csr_graph[of ?n ?ps "?n + 1", folded graph_of_def]
  show "wf_csr (graph_of es)" "mset (edges (graph_of es)) = mset (renumber es)"
    "v < ?n \<Longrightarrow> adj (graph_of es) v = bucket ?ps v"
    using g n0 es len renumber_less(1) by simp_all
  have all: "starts ?ps ?n = length es" by (rule trans[OF starts_all[OF renumber_less(1) order.refl] len])
  show "\<forall>e \<in> set (EI (graph_of es)). e < numVertex (graph_of es)"
    using csr_of_targets[of ?ps ?n _ ?n] renumber_less(2) by (auto simp: graph_of_def csr_graph_def)
  show "length (EI (graph_of es)) = length es" "numEdges (graph_of es) = length es"
    "numVertex (graph_of es) = ?n" "length (VI (graph_of es)) = ?n + 1"
    using all len by (simp_all add: graph_of_def csr_graph_def length_csr_of)
  show "VI (graph_of es) ! ?n = length es"
    using all by (simp add: graph_of_def csr_graph_def del: upt_Suc)
qed

lemma read_csr_ok:
  assumes ok: "edges_ok es" and len: "length es < U32"
  shows "read_csr (Some (print_edges es)) = Some (Some (graph_of (no_loops es)))"
proof -
  let ?es = "no_loops es" and ?n = "vertices_read (map row_of es)"
  note r = read_edge_list_ok[OF ok]
  let ?r = "vertex_rank (ends ?es)"
  have l: "length ?es < U32" using len length_filter_le[of "\<lambda>(a, b). a \<noteq> b" es] unfolding no_loops_def by linarith
  have V: "set (map fst ?es) \<union> set (map snd ?es) = ends ?es" by (auto simp: ends_def)
  have sub: "v < ?n" if "v \<in> ends ?es" for v
    using that r(3) by (auto simp: ends_def no_loops_def)
  have c: "card (ends ?es) \<le> ?n"
    using card_mono[of "{..<?n}" "ends ?es"] sub by auto
  have f: "filter_graph (map fst ?es) (map snd ?es) ?n (length ?es) =
    Some (map ?r (map fst ?es), map ?r (map snd ?es), card (ends ?es))"
    using filter_graph_ok[of "map fst ?es" "length ?es" "map snd ?es" ?n] sub V r(2) by (simp del: map_map set_map)
  have z: "zip (map ?r (map fst ?es)) (map ?r (map snd ?es)) = renumber ?es"
    by (simp add: renumber_def zip_map_map zip_map1 zip_map2 comp_def split_beta zip_same_conv_map)
  have mem: "?r a < card (ends ?es)" if "a \<in> fst ` set ?es" for a
    using that by (intro vertex_rank_less[OF finite_ends]) (simp add: ends_def)
  let ?G0 = "\<lparr>numVertex = card (ends ?es), numEdges = length ?es, VI = [], EI = []\<rparr>"
  have "csr_convert (map ?r (map fst ?es)) (map ?r (map snd ?es)) ?G0 =
    Some (?G0\<lparr>VI := map (starts (renumber ?es)) [0..<card (ends ?es) + 1], EI := csr_of (card (ends ?es)) (renumber ?es)\<rparr>)"
    using csr_convert_ok[of "map ?r (map fst ?es)" ?G0 "map ?r (map snd ?es)"] l c r(2) mem unfolding z by auto
  also have "?G0\<lparr>VI := map (starts (renumber ?es)) [0..<card (ends ?es) + 1], EI := csr_of (card (ends ?es)) (renumber ?es)\<rparr> = graph_of ?es"
    by (simp add: graph_of_def csr_graph_def renumber_def)
  finally have cv: "csr_convert (map ?r (map fst ?es)) (map ?r (map snd ?es)) ?G0 = Some (graph_of ?es)" .
  show ?thesis
    using r(1,2) l f cv by (simp add: read_csr_def del: map_map)
qed

section \<open>Writing a graph\<close>

lemma edge_row_loop:
  assumes wf: "wf_csr G" and v: "v < numVertex G"
  shows "for_range (VI G ! v) (eend G v) (\<lambda>j s. do { e \<leftarrow> aget (EI G) j; f e s }) s = mfold f (adj G v) s"
  unfolding adj_def by (rule for_range_slice) (use wf_csrD(4,8)[OF wf] v order.trans in \<open>fastforce+\<close>)

text \<open>The loops over all edges, with the last vertex after the loop: one fold over the edges.\<close>

lemma edge_loop:
  assumes wf: "wf_csr G"
  shows "do {
     s \<leftarrow> for_range 0 (usub (numVertex G) 1) (\<lambda>i s. do {
       a \<leftarrow> aget (VI G) i;
       b \<leftarrow> aget (VI G) (uadd i 1);
       for_range a b (\<lambda>j s. do { e \<leftarrow> aget (EI G) j; g i e s }) s
     }) s;
     a \<leftarrow> aget (VI G) (usub (numVertex G) 1);
     for_range a (numEdges G) (\<lambda>j s. do { e \<leftarrow> aget (EI G) j; g (usub (numVertex G) 1) e s }) s
   } = mfold (\<lambda>(i, e). g i e) (edges G) s"
proof -
  note w = wf_csrD[OF wf]
  let ?n = "numVertex G"
  have n1: "usub ?n 1 = ?n - 1" "?n - 1 < ?n" using w(1,2) by (auto intro!: usub_1)
  have first: "for_range 0 (?n - 1) (\<lambda>i s. do { a \<leftarrow> aget (VI G) i; b \<leftarrow> aget (VI G) (uadd i 1);
       for_range a b (\<lambda>j s. do { e \<leftarrow> aget (EI G) j; g i e s }) s }) s =
     mfold (\<lambda>i. mfold (g i) (adj G i)) [0..<?n - 1] s"
    unfolding for_range_def
  proof (rule mfold_cong[OF refl])
    fix i s assume "i \<in> set [0..<?n - 1]"
    then have i: "i < ?n" "Suc i < ?n" by auto
    have e: "eend G i = VI G ! Suc i" "uadd i 1 = Suc i" using i w(2) by (auto simp: eend_def uadd_exact)
    show "do { a \<leftarrow> aget (VI G) i; b \<leftarrow> aget (VI G) (uadd i 1);
       mfold (\<lambda>j s. do { e \<leftarrow> aget (EI G) j; g i e s }) [a..<b] s } = mfold (g i) (adj G i) s"
      using edge_row_loop[OF wf i(1), of "g i" s] i w(5) unfolding e by (simp add: for_range_def)
  qed
  have "eend G (?n - 1) = numEdges G" by (simp add: eend_def)
  then have last: "for_range (VI G ! (?n - 1)) (numEdges G) (\<lambda>j s. do { e \<leftarrow> aget (EI G) j; g (?n - 1) e s }) s =
      mfold (g (?n - 1)) (adj G (?n - 1)) s" for s
    using edge_row_loop[OF wf n1(2), of "g (?n - 1)" s] by simp
  have upt: "[0..<?n] = [0..<?n - 1] @ [?n - 1]" using w(1) by (cases ?n) auto
  have "mfold (\<lambda>(i, e). g i e) (edges G) s = mfold (\<lambda>i. mfold (g i) (adj G i)) [0..<?n] s"
    unfolding edges_def mfold_concat mfold_map by (rule mfold_cong) (simp_all add: mfold_map comp_def)
  also have "\<dots> = do { s \<leftarrow> mfold (\<lambda>i. mfold (g i) (adj G i)) [0..<?n - 1] s; mfold (g (?n - 1)) (adj G (?n - 1)) s }"
    unfolding upt mfold_append by (rule Option.bind_cong[OF refl]) (auto split: Option.bind_splits)
  finally show ?thesis unfolding n1(1) first using last w(5) n1(2) by simp
qed

lemma mfold_append_text: "mfold (\<lambda>x s. Some (s @ f x)) xs s = Some (s @ concat (map f xs))"
  by (induction xs arbitrary: s) auto

lemma write_edgelist_ok:
  assumes wf: "wf_csr G"
  shows "write_edgelist G = Some (print_edges (edges G))"
proof -
  have "write_edgelist G = mfold (\<lambda>(i, e) s. Some (s @ edge_line i e)) (edges G) []"
    unfolding write_edgelist_def by (rule edge_loop[OF wf])
  then show ?thesis
    using mfold_append_text[of "\<lambda>(i, e). edge_line i e" "edges G" "[]"] by (simp add: split_def print_edges_def)
qed

section \<open>Properties\<close>

text \<open>C14: Round trip through a text file: reading what \<open>write_edgelist\<close> wrote gives back the edges
  of the graph, in order, without the self loops (\<open>read_edge_list\<close> drops them).\<close>

theorem edgelist_roundtrip:
  assumes "wf_csr G" "\<forall>(a, b) \<in> set (edges G). a < U32 div 2 - 1 \<and> b < U32 div 2 - 1"
  shows "\<exists>s n. write_edgelist G = Some s \<and> read_edge_list (Some s) =
    Some (Some (n, map fst (filter (\<lambda>(a, b). a \<noteq> b) (edges G)), map snd (filter (\<lambda>(a, b). a \<noteq> b) (edges G)))) \<and>
    (\<forall>(a, b) \<in> set (edges G). a < n \<and> b < n)"
proof -
  have "edges_ok (edges G)" using assms(2) by (simp add: edges_ok_def)
  note r = read_edge_list_ok[OF this]
  show ?thesis
    using write_edgelist_ok[OF assms(1)] r(1) r(3)
    by (intro exI[of _ "print_edges (edges G)"] exI[of _ "vertices_read (map row_of (edges G))"])
      (auto simp: no_loops_def)
qed

theorem edgelist_roundtrip_witness:
  "\<exists>s n. write_edgelist \<lparr>numVertex = 2, numEdges = 3, VI = [0, 2], EI = [1, 0, 0]\<rparr> = Some s \<and>
    read_edge_list (Some s) = Some (Some (n, [0, 1], [1, 0]))"
proof -
  let ?G = "\<lparr>numVertex = 2, numEdges = 3, VI = [0, 2], EI = [1, 0, 0 :: nat]\<rparr>"
  have wf: "wf_csr ?G" by (simp add: wf_csr_eval eend_def upt_rec)
  have e: "edges ?G = [(0, 1), (0, 0), (1, 0)]" by (simp add: edges_def adj_def eend_def slice_def upt_rec)
  have "\<forall>(a, b) \<in> set (edges ?G). a < U32 div 2 - 1 \<and> b < U32 div 2 - 1" unfolding e by simp
  from edgelist_roundtrip[OF wf this]
  obtain s n where r: "write_edgelist ?G = Some s" "read_edge_list (Some s) =
    Some (Some (n, map fst (filter (\<lambda>(a, b). a \<noteq> b) (edges ?G)), map snd (filter (\<lambda>(a, b). a \<noteq> b) (edges ?G))))" by blast
  have f: "filter (\<lambda>(a, b). a \<noteq> b) (edges ?G) = [(0, 1), (1, 0)]" unfolding e by simp
  show ?thesis by (rule exI[of _ s], rule exI[of _ n]) (use r in \<open>simp add: f del: One_nat_def\<close>)
qed

text \<open>C15: \<open>read_csr\<close> of a text with one edge per row that is not only self loops: it returns a
  well-formed graph; an increasing bijection renumbers the vertices that have an edge, and the edges of the graph
  are the rows without the self loops, renumbered.\<close>

theorem read_csr_graph:
  assumes "\<forall>(a, b) \<in> set es. a < U32 div 2 - 1 \<and> b < U32 div 2 - 1" "length es < U32" "\<exists>(a, b) \<in> set es. a \<noteq> b"
  shows "\<exists>G r. read_csr (Some (print_edges es)) = Some (Some G) \<and> wf_csr G \<and>
    bij_betw r (ends (filter (\<lambda>(a, b). a \<noteq> b) es)) {..<numVertex G} \<and>
    (\<forall>u \<in> ends (filter (\<lambda>(a, b). a \<noteq> b) es). \<forall>v \<in> ends (filter (\<lambda>(a, b). a \<noteq> b) es). u < v \<longrightarrow> r u < r v) \<and>
    mset (edges G) = image_mset (\<lambda>(a, b). (r a, r b)) (mset (filter (\<lambda>(a, b). a \<noteq> b) es))"
proof -
  have ok: "edges_ok es" using assms(1) by (simp add: edges_ok_def)
  let ?es = "no_loops es"
  have ne: "?es \<noteq> []" using assms(3) by (auto simp: no_loops_def filter_empty_conv)
  have l: "length ?es < U32" using assms(2) length_filter_le[of "\<lambda>(a, b). a \<noteq> b" es] unfolding no_loops_def by linarith
  have sub: "ends ?es \<subseteq> {..<U32 div 2 - 1}" using assms(1) by (auto simp: ends_def no_loops_def)
  have c: "card (ends ?es) < U32 - 1" using card_mono[OF _ sub] by simp
  note g = graph_of[OF ne l c]
  show ?thesis
    using read_csr_ok[OF ok assms(2)] g(1,5,8) vertex_rank_bij[OF finite_ends, of ?es]
      vertex_rank_strict[OF finite_ends, of _ ?es]
    by (intro exI[of _ "graph_of ?es"] exI[of _ "vertex_rank (ends ?es)"]) (simp add: no_loops_def renumber_def)
qed

theorem read_csr_graph_witness:
  "\<exists>G (r :: nat \<Rightarrow> nat). read_csr (Some (print_edges [(7, 2), (2, 2), (2, 9)])) = Some (Some G) \<and> wf_csr G \<and>
    mset (edges G) = {#(r 7, r 2), (r 2, r 9)#}"
proof -
  have f: "filter (\<lambda>(a, b). a \<noteq> b) [(7, 2), (2, 2), (2, 9)] = [(7, 2), (2, 9 :: nat)]" by simp
  show ?thesis
    using read_csr_graph[of "[(7, 2), (2, 2), (2, 9)]"] unfolding f by auto
qed

text \<open>A row that ends after its first number is not rejected: the edge gets the target of the row
  before (the variable \<open>dstVal\<close> is not reset, and the result of the second \<open>fscanf\<close> is not tested).\<close>

theorem read_edge_list_stale_target:
  assumes "a < U32 div 2 - 1" "b < U32 div 2 - 1" "c < U32 div 2 - 1" "a \<noteq> b" "c \<noteq> b"
  shows "\<exists>n. read_edge_list (Some (print_edges [(a, b)] @ print_d c @ [newline])) = Some (Some (n, [a, c], [b, b]))"
proof -
  let ?st = "\<lparr>srcVal = 0, dstVal = 0, wVal = None, maxVertex = 0, srcs = [], dsts = [], wts = []\<rparr>"
  let ?s = "print_d c @ [newline]"
  have r: "print_edges [(a, b)] = row_line False (a, b, 0)" by (simp add: print_edges_def edge_line_def)
  have l: "read_rows False False (row_line False (a, b, 0) @ ?s) ?st =
    read_rows False False ?s (row_step False False (a, b, 0) ?st)"
    by (rule read_row) (use assms in simp)
  have c1: "scan_d (print_d c @ [newline]) = Some (Some c, [newline])"
    by (rule scan_print) (use assms in auto)
  have c2: "scan_d [newline] = Some (None, [])" by (rule scan_blank) simp
  have "read_rows False False ?s (row_step False False (a, b, 0) ?st) =
    Some ((row_step False False (a, b, 0) ?st)\<lparr>srcVal := c, dstVal := b, maxVertex := max b (max c (max a b)),
      srcs := [a, c], dsts := [b, b]\<rparr>)"
    using assms(4,5) by (subst read_rows.simps) (simp add: c1 c2 add_edge_def Let_def max_def read_rows.simps)
  moreover have "max b (max c (max a b)) < U32 div 2 - 1" using assms by simp
  then have "max b (max c (max a b)) \<noteq> U32 div 2 - 1" by linarith
  ultimately show ?thesis
    using l by (simp add: read_edge_list_def read_edges_def r del: max.left_commute max.commute)
qed

theorem read_edge_list_stale_target_witness:
  "\<exists>n. read_edge_list (Some (print_edges [(1, 2)] @ print_d 5 @ [newline])) = Some (Some (n, [1, 5], [2, 2]))"
  by (rule read_edge_list_stale_target) simp_all

text \<open>C16: The vertex number \<open>2^31 - 1\<close>, a valid \<open>int\<close>, makes the reader undefined: \<open>numVertex++\<close> overflows.\<close>

theorem read_edge_list_overflow:
  assumes "a < U32 div 2"
  shows "read_edge_list (Some (print_edges [(U32 div 2 - 1, a)])) = None"
proof -
  let ?st = "\<lparr>srcVal = 0, dstVal = 0, wVal = None, maxVertex = 0, srcs = [], dsts = [], wts = []\<rparr>"
  have "read_rows False False (print_rows False [(U32 div 2 - 1, a, 0)]) ?st =
    Some (fold (row_step False False) [(U32 div 2 - 1, a, 0)] ?st)"
    by (rule read_print_rows) (use assms in simp)
  moreover have "max a (U32 div 2 - 1) = U32 div 2 - 1" using assms by simp
  ultimately show ?thesis
    by (simp add: read_edge_list_def read_edges_def print_edges_rows row_of_def)
qed

theorem read_edge_list_overflow_witness: "read_edge_list (Some (print_edges [(U32 div 2 - 1, 0)])) = None"
  by (rule read_edge_list_overflow) simp

end
