(* ===== verification/Cache_Model.thy ===== *)
theory Cache_Model
  imports CSR
begin

text \<open>
  The cache model of \<open>cachefunc.cpp\<close> (\<open>br/block_reordering\<close> and \<open>ph/pH\<close>): an array of nodes kept
  in ascending order of cost, with the first position of every cost value in \<open>CI\<close>, so that one
  cost unit more (\<open>moveRight\<close>) or less (\<open>moveLeft\<close>) is one exchange; and the simulated cache,
  which the parents of a node enter (\<open>loadParents\<close>) and leave (\<open>evictParents\<close>).
  The two programs differ in one place: \<open>ph\<close> passes over the parents whose out-degree is above a
  threshold. The guard is the argument \<open>skip\<close>.
\<close>

section \<open>The code\<close>

record cache_state =
  cost :: "u32 list"
  nodeMap :: "u32 list"
  nodeId :: "u32 list"
  CI :: "u32 list"
  cachePresence :: "u32 list"
  isPlaced :: "bool list"
  updates :: "u32 list"

definition moveRight :: "u32 \<Rightarrow> cache_state \<Rightarrow> cache_state option" where
  "moveRight vid st = do {
     temp \<leftarrow> aget (nodeMap st) vid;
     nodeCost \<leftarrow> aget (cost st) temp;
     ci \<leftarrow> aget (CI st) (uadd nodeCost 1);
     let last = usub ci 1;
     replacedNode \<leftarrow> aget (nodeId st) last;
     nm \<leftarrow> aput (nodeMap st) vid last;
     nm \<leftarrow> aput nm replacedNode temp;
     ni \<leftarrow> aput (nodeId st) last vid;
     ni \<leftarrow> aput ni temp replacedNode;
     c \<leftarrow> aget (cost st) last;
     cs \<leftarrow> aput (cost st) last (uadd c 1);
     cis \<leftarrow> aput (CI st) (uadd nodeCost 1) last;
     Some (st\<lparr>cost := cs, nodeMap := nm, nodeId := ni, CI := cis\<rparr>)
   }"

definition moveLeft :: "u32 \<Rightarrow> u32 \<Rightarrow> cache_state \<Rightarrow> cache_state option" where
  "moveLeft vid minPtr st = do {
     temp \<leftarrow> aget (nodeMap st) vid;
     nodeCost \<leftarrow> aget (cost st) temp;
     ci \<leftarrow> aget (CI st) nodeCost;
     cis \<leftarrow> (if ci \<le> minPtr then aput (CI st) nodeCost (uadd minPtr 1) else Some (CI st));
     first \<leftarrow> aget cis nodeCost;
     replacedNode \<leftarrow> aget (nodeId st) first;
     nm \<leftarrow> aput (nodeMap st) vid first;
     ni \<leftarrow> aput (nodeId st) first vid;
     nm \<leftarrow> aput nm replacedNode temp;
     ni \<leftarrow> aput ni temp replacedNode;
     c \<leftarrow> aget (cost st) first;
     cs \<leftarrow> aput (cost st) first (usub c 1);
     cl \<leftarrow> aget cis (usub nodeCost 1);
     cis \<leftarrow> (if cl \<le> minPtr then aput cis (usub nodeCost 1) (uadd minPtr 1) else Some cis);
     ce \<leftarrow> aget cis nodeCost;
     cis \<leftarrow> aput cis nodeCost (uadd ce 1);
     Some (st\<lparr>cost := cs, nodeMap := nm, nodeId := ni, CI := cis\<rparr>)
   }"

text \<open>The loops over the children of one parent.\<close>

definition evict_child :: "u32 \<Rightarrow> cache_state \<Rightarrow> cache_state option" where
  "evict_child childId st = do {
     pl \<leftarrow> aget (isPlaced st) childId;
     if \<not> pl then do {
       u \<leftarrow> aget (updates st) childId;
       us \<leftarrow> aput (updates st) childId (uadd u 1);
       Some (st\<lparr>updates := us\<rparr>)
     } else Some st
   }"

definition load_child :: "u32 \<Rightarrow> u32 \<Rightarrow> cache_state \<Rightarrow> cache_state option" where
  "load_child minPtr childId st = do {
     pl \<leftarrow> aget (isPlaced st) childId;
     if \<not> pl then do {
       u \<leftarrow> aget (updates st) childId;
       if u > 0 then do {
         us \<leftarrow> aput (updates st) childId (usub u 1);
         Some (st\<lparr>updates := us\<rparr>)
       } else moveLeft childId minPtr st
     } else Some st
   }"

definition for_children :: "graph \<Rightarrow> u32 \<Rightarrow> (u32 \<Rightarrow> cache_state \<Rightarrow> cache_state option) \<Rightarrow> cache_state \<Rightarrow> cache_state option" where
  "for_children G2 parentId f st = do {
     childIdStart \<leftarrow> aget (VI G2) parentId;
     childIdEnd \<leftarrow> edge_end G2 parentId;
     for_range childIdStart childIdEnd (\<lambda>j st. do {
       childId \<leftarrow> aget (EI G2) j;
       f childId st
     }) st
   }"

definition evict_parent ::
  "(u32 \<Rightarrow> bool option) \<Rightarrow> graph \<Rightarrow> u32 \<Rightarrow> cache_state \<times> u32 \<Rightarrow> (cache_state \<times> u32) option" where
  "evict_parent skip G2 parentId s = do {
     sk \<leftarrow> skip parentId;
     if sk then Some s
     else do {
       c \<leftarrow> aget (cachePresence (fst s)) parentId;
       cp \<leftarrow> aput (cachePresence (fst s)) parentId (usub c 1);
       let st = (fst s)\<lparr>cachePresence := cp\<rparr>;
       if usub c 1 = 0 then do {
         st' \<leftarrow> for_children G2 parentId evict_child st;
         Some (st', uadd (snd s) 1)
       } else Some (st, snd s)
     }
   }"

definition load_parent ::
  "(u32 \<Rightarrow> bool option) \<Rightarrow> graph \<Rightarrow> u32 \<Rightarrow> u32 \<Rightarrow> cache_state \<times> u32 \<Rightarrow> (cache_state \<times> u32) option" where
  "load_parent skip G2 minPtr parentId s = do {
     sk \<leftarrow> skip parentId;
     if sk then Some s
     else do {
       c \<leftarrow> aget (cachePresence (fst s)) parentId;
       cp \<leftarrow> aput (cachePresence (fst s)) parentId (uadd c 1);
       let st = (fst s)\<lparr>cachePresence := cp\<rparr>;
       if uadd c 1 = 1 then do {
         st' \<leftarrow> for_children G2 parentId (load_child minPtr) st;
         Some (st', uadd (snd s) 1)
       } else Some (st, snd s)
     }
   }"

definition for_parents ::
  "graph \<Rightarrow> u32 \<Rightarrow> (u32 \<Rightarrow> cache_state \<times> u32 \<Rightarrow> (cache_state \<times> u32) option) \<Rightarrow> cache_state \<Rightarrow> (cache_state \<times> u32) option" where
  "for_parents G1 origId f st = do {
     parentStartId \<leftarrow> aget (VI G1) origId;
     parentEndId \<leftarrow> edge_end G1 origId;
     for_range parentStartId parentEndId (\<lambda>i s. do {
       parentId \<leftarrow> aget (EI G1) i;
       f parentId s
     }) (st, 0)
   }"

definition evictParents_by ::
  "(u32 \<Rightarrow> bool option) \<Rightarrow> graph \<Rightarrow> graph \<Rightarrow> u32 \<Rightarrow> cache_state \<Rightarrow> (cache_state \<times> u32) option" where
  "evictParents_by skip G1 G2 node st = do {
     origId \<leftarrow> aget (nodeId st) node;
     for_parents G1 origId (evict_parent skip G2) st
   }"

definition loadParents_by ::
  "(u32 \<Rightarrow> bool option) \<Rightarrow> graph \<Rightarrow> graph \<Rightarrow> u32 \<Rightarrow> u32 \<Rightarrow> cache_state \<Rightarrow> (cache_state \<times> u32) option" where
  "loadParents_by skip G1 G2 nodePtr minPtr st = do {
     origId \<leftarrow> aget (nodeId st) nodePtr;
     for_parents G1 origId (load_parent skip G2 minPtr) st
   }"

text \<open>The two programs: block reordering never skips, \<open>ph\<close> skips by the out-degree.\<close>

definition evictParents :: "graph \<Rightarrow> graph \<Rightarrow> u32 \<Rightarrow> cache_state \<Rightarrow> (cache_state \<times> u32) option" where
  "evictParents = evictParents_by (\<lambda>_. Some False)"

definition loadParents :: "graph \<Rightarrow> graph \<Rightarrow> u32 \<Rightarrow> u32 \<Rightarrow> cache_state \<Rightarrow> (cache_state \<times> u32) option" where
  "loadParents = loadParents_by (\<lambda>_. Some False)"

definition ph_skip :: "u32 list \<Rightarrow> u32 \<Rightarrow> u32 \<Rightarrow> bool option" where
  "ph_skip outDeg thresh parentId = do { d \<leftarrow> aget outDeg parentId; Some (d > thresh) }"

definition ph_evictParents ::
  "u32 list \<Rightarrow> u32 \<Rightarrow> graph \<Rightarrow> graph \<Rightarrow> u32 \<Rightarrow> cache_state \<Rightarrow> (cache_state \<times> u32) option" where
  "ph_evictParents outDeg thresh = evictParents_by (ph_skip outDeg thresh)"

definition ph_loadParents ::
  "u32 list \<Rightarrow> u32 \<Rightarrow> graph \<Rightarrow> graph \<Rightarrow> u32 \<Rightarrow> u32 \<Rightarrow> cache_state \<Rightarrow> (cache_state \<times> u32) option" where
  "ph_loadParents outDeg thresh = loadParents_by (ph_skip outDeg thresh)"

section \<open>The order of the nodes: two inverse permutations\<close>

definition inv_pair :: "nat \<Rightarrow> nat list \<Rightarrow> nat list \<Rightarrow> bool" where
  "inv_pair n nm ni \<longleftrightarrow> length nm = n \<and> length ni = n \<and>
     (\<forall>v<n. nm ! v < n \<and> ni ! (nm ! v) = v) \<and> (\<forall>i<n. ni ! i < n \<and> nm ! (ni ! i) = i)"

lemma inv_pairD:
  assumes "inv_pair n nm ni"
  shows "length nm = n" "length ni = n" "v < n \<Longrightarrow> nm ! v < n" "v < n \<Longrightarrow> ni ! (nm ! v) = v"
    "i < n \<Longrightarrow> ni ! i < n" "i < n \<Longrightarrow> nm ! (ni ! i) = i"
  using assms by (auto simp: inv_pair_def)

lemma inv_pair_swap:
  assumes ip: "inv_pair n nm ni" and "vid < n" "t < n"
  defines "p \<equiv> nm ! vid" and "r \<equiv> ni ! t"
  shows "inv_pair n (nm[vid := t, r := p]) (ni[t := vid, p := r])"
proof -
  note d = inv_pairD[OF ip]
  have p: "p < n" "r < n" "ni ! p = vid" "nm ! r = t"
    using assms d by auto
  have rid: "r = vid \<longleftrightarrow> t = p" using p assms d by metis
  have nm: "nm[vid := t, r := p] ! v = (if v = r then p else if v = vid then t else nm ! v)" if "v < n" for v
    using that d(1) by (auto simp: nth_list_update)
  have ni: "ni[t := vid, p := r] ! i = (if i = p then r else if i = t then vid else ni ! i)" if "i < n" for i
    using that d(2) by (auto simp: nth_list_update)
  show ?thesis
    unfolding inv_pair_def
  proof (intro conjI allI impI)
    fix v assume v: "v < n"
    show "nm[vid := t, r := p] ! v < n" using nm[OF v] p assms d(3)[OF v] by auto
    then show "ni[t := vid, p := r] ! (nm[vid := t, r := p] ! v) = v"
      using nm[OF v] ni p rid d(3,4)[OF v] v assms(2,3) d(4)[of vid] d(4)[of r] by (auto split: if_splits)
  next
    fix i assume i: "i < n"
    show "ni[t := vid, p := r] ! i < n" using ni[OF i] p assms d(5)[OF i] by auto
    then show "nm[vid := t, r := p] ! (ni[t := vid, p := r] ! i) = i"
      using ni[OF i] nm p rid d(5,6)[OF i] i assms(2,3) by (auto split: if_splits) (metis p_def r_def d(4,6))+
  qed (use d in simp_all)
qed

lemma inv_pair_perm:
  assumes "inv_pair n nm ni" shows "mset ni = mset [0..<n]" "mset nm = mset [0..<n]" "distinct ni"
proof -
  have "distinct xs \<and> set xs = {..<n}" if "inv_pair n ys xs" for xs ys
  proof
    note d = inv_pairD[OF that]
    have "inj_on ((!) xs) {..<length xs}"
      using d(2,6) by (intro inj_on_inverseI[of _ "(!) ys"]) auto
    then show "distinct xs" by (simp add: distinct_conv_nth inj_on_def) blast
    show "set xs = {..<n}"
      using d by (auto simp: in_set_conv_nth) metis
  qed
  then have "distinct xs \<and> mset xs = mset [0..<n]" if "inv_pair n ys xs" for xs ys
    using that set_eq_iff_mset_eq_distinct[of xs "[0..<n]"] by (auto simp: lessThan_atLeast0)
  moreover have "inv_pair n ni nm" using assms by (auto simp: inv_pair_def)
  ultimately show "mset ni = mset [0..<n]" "mset nm = mset [0..<n]" "distinct ni"
    using assms by blast+
qed

section \<open>The cost order: every cost value has a boundary\<close>

text \<open>\<open>boundary n b cs k q\<close>: among the positions \<open>b, \<dots>, n - 1\<close>, those below \<open>q\<close> are the ones
  with a cost below \<open>k\<close>. The array \<open>CI\<close> holds the boundary of every cost; an entry at or below
  \<open>b\<close> stands for \<open>b\<close> (the code leaves such entries stale).\<close>

definition boundary :: "nat \<Rightarrow> nat \<Rightarrow> nat list \<Rightarrow> nat \<Rightarrow> nat \<Rightarrow> bool" where
  "boundary n b cs k q \<longleftrightarrow> q \<le> n \<and> (\<forall>i. b \<le> i \<and> i < q \<longrightarrow> cs ! i < k) \<and> (\<forall>i. q \<le> i \<and> i < n \<longrightarrow> k \<le> cs ! i)"

lemma boundaryD:
  assumes "boundary n b cs k q"
  shows "q \<le> n" "b \<le> i \<Longrightarrow> i < q \<Longrightarrow> cs ! i < k" "q \<le> i \<Longrightarrow> i < n \<Longrightarrow> k \<le> cs ! i"
  using assms by (auto simp: boundary_def)

definition cost_inv :: "nat \<Rightarrow> nat \<Rightarrow> nat \<Rightarrow> cache_state \<Rightarrow> bool" where
  "cost_inv n maxc b st \<longleftrightarrow> inv_pair n (nodeMap st) (nodeId st) \<and> length (cost st) = n \<and>
     length (CI st) = Suc maxc \<and> (\<forall>i. b \<le> i \<and> i < n \<longrightarrow> cost st ! i \<le> maxc) \<and>
     (\<forall>k\<le>maxc. boundary n b (cost st) k (max (CI st ! k) b))"

lemma cost_invD:
  assumes "cost_inv n maxc b st"
  shows "inv_pair n (nodeMap st) (nodeId st)" "length (cost st) = n" "length (CI st) = Suc maxc"
    "b \<le> i \<Longrightarrow> i < n \<Longrightarrow> cost st ! i \<le> maxc"
    "k \<le> maxc \<Longrightarrow> boundary n b (cost st) k (max (CI st ! k) b)"
  using assms by (auto simp: cost_inv_def)

lemma cost_inv_Suc: "cost_inv n maxc b st \<Longrightarrow> b < n \<Longrightarrow> cost_inv n maxc (Suc b) st"
  unfolding cost_inv_def boundary_def by (auto simp: max_def split: if_splits)

definition node_cost :: "cache_state \<Rightarrow> nat \<Rightarrow> nat" where
  "node_cost st v = cost st ! (nodeMap st ! v)"

text \<open>What the two moves leave alone: everything but the order, and the positions before \<open>b\<close>.\<close>

definition frame :: "nat \<Rightarrow> cache_state \<Rightarrow> cache_state \<Rightarrow> bool" where
  "frame b st st' \<longleftrightarrow> cachePresence st' = cachePresence st \<and> isPlaced st' = isPlaced st \<and>
     updates st' = updates st \<and> (\<forall>i<b. nodeId st' ! i = nodeId st ! i)"

lemma update_boundary:
  assumes "boundary n b cs k q" "length cs = n" "t < q \<longrightarrow> x < k" "q \<le> t \<longrightarrow> k \<le> x"
  shows "boundary n b (cs[t := x]) k q"
  using assms by (cases "t < length cs") (auto simp: boundary_def nth_list_update)

lemma swap_node_cost:
  assumes ip: "inv_pair n nm ni" and b: "vid < n" "t < n" "length cs = n" and eq: "cs ! t = cs ! (nm ! vid)"
    and v: "v < n"
  shows "cs[t := x] ! (nm[vid := t, ni ! t := nm ! vid] ! v) = (if v = vid then x else cs ! (nm ! v))"
proof -
  note d = inv_pairD[OF ip]
  have r: "ni ! t < n" "nm ! (ni ! t) = t" using d b by auto
  consider "v = vid" "ni ! t = vid" | "v = vid" "ni ! t \<noteq> vid" | "v \<noteq> vid" "v = ni ! t" | "v \<noteq> vid" "v \<noteq> ni ! t"
    by blast
  then show ?thesis
  proof cases
    case 3
    then have "nm ! vid \<noteq> t" using d b by metis
    then show ?thesis using 3 d b r eq v by (simp add: nth_list_update)
  next
    case 4
    then have "nm ! v \<noteq> t" using d v b by metis
    then show ?thesis using 4 d b v by (simp add: nth_list_update)
  qed (use d b r in \<open>auto simp: nth_list_update\<close>)
qed

lemma moveRight_ok:
  assumes ci: "cost_inv n maxc b st" and b: "b < n" "n < U32" "maxc + 1 < U32"
    and v: "vid = nodeId st ! b" and lt: "node_cost st vid < maxc"
  shows "ok (moveRight vid st) (\<lambda>st'. cost_inv n maxc b st' \<and> frame b st st' \<and>
    (\<forall>v<n. node_cost st' v = (if v = vid then Suc (node_cost st v) else node_cost st v)))"
proof -
  note c = cost_invD[OF ci] and d = inv_pairD[OF cost_invD(1)[OF ci]]
  let ?c = "cost st ! b"
  have vb: "vid < n" "nodeMap st ! vid = b" using d b v by auto
  have nc: "node_cost st vid = ?c" by (simp add: node_cost_def vb)
  have k: "Suc ?c \<le> maxc" using lt nc by simp
  define e where "e = CI st ! Suc ?c"
  have bd: "boundary n b (cost st) (Suc ?c) (max e b)" using c(5)[OF k] by (simp add: e_def)
  have eb: "b < e"
  proof (rule ccontr)
    assume "\<not> b < e"
    then have "max e b = b" by simp
    then show False using boundaryD(3)[OF bd, of b] b by simp
  qed
  then have mx: "max e b = e" and en: "e \<le> n" using boundaryD(1)[OF bd] by auto
  define t where "t = e - 1"
  have t: "b \<le> t" "t < e" "t < n" "e = Suc t" using eb en by (auto simp: t_def)
  have ct: "cost st ! t = ?c"
  proof (rule antisym)
    show "cost st ! t \<le> ?c" using boundaryD(2)[OF bd, of t] t mx by simp
    have cc: "?c \<le> maxc" using k by simp
    have "max (CI st ! ?c) b \<le> b"
    proof (rule ccontr)
      assume "\<not> ?thesis"
      then show False using boundaryD(2)[OF c(5)[OF cc], of b] by simp
    qed
    then show "?c \<le> cost st ! t" using boundaryD(3)[OF c(5)[OF cc], of t] t by simp
  qed
  let ?nm = "(nodeMap st)[vid := t, nodeId st ! t := b]" and ?ni = "(nodeId st)[t := vid, b := nodeId st ! t]"
  let ?st = "st\<lparr>cost := (cost st)[t := Suc ?c], nodeMap := ?nm, nodeId := ?ni, CI := (CI st)[Suc ?c := t]\<rparr>"
  have ip: "inv_pair n ?nm ?ni" using inv_pair_swap[OF c(1) vb(1) t(3)] vb by simp
  have r: "nodeId st ! t < n" using d t by simp
  have run: "moveRight vid st = Some ?st"
    unfolding moveRight_def Let_def
    using vb b k c d t r ct by (simp add: wrap_simps e_def[symmetric])
  have "cost_inv n maxc b ?st"
    unfolding cost_inv_def
  proof (intro conjI allI impI)
    fix i assume "b \<le> i \<and> i < n"
    then show "cost ?st ! i \<le> maxc" using c(2) c(4)[of i] k t(3) by (auto simp: nth_list_update)
  next
    fix k' assume k': "k' \<le> maxc"
    show "boundary n b (cost ?st) k' (max (CI ?st ! k') b)"
    proof (cases "k' = Suc ?c")
      case True
      have "boundary n b ((cost st)[t := Suc ?c]) (Suc ?c) t"
        using bd mx t c(2) by (auto simp: boundary_def nth_list_update)
      then show ?thesis using True c(3) k t by (simp add: max_def)
    next
      case False
      define q where "q = max (CI st ! k') b"
      have bq: "boundary n b (cost st) k' q" using c(5)[OF k'] by (simp add: q_def)
      have "boundary n b ((cost st)[t := Suc ?c]) k' q"
        using False boundaryD(2,3)[OF bq, of t] ct t by (intro update_boundary bq c(2)) auto
      then show ?thesis using False by (simp add: q_def)
    qed
  qed (use ip c k in simp_all)
  moreover have "frame b st ?st" using t by (simp add: frame_def)
  moreover have "\<forall>v<n. node_cost ?st v = (if v = vid then Suc (node_cost st v) else node_cost st v)"
    using swap_node_cost[OF c(1) vb(1) t(3) c(2), of _ "Suc ?c"] vb ct nc by (simp add: node_cost_def)
  ultimately show ?thesis using run by simp
qed

lemma moveLeft_ok:
  assumes ci: "cost_inv n maxc (Suc m) st" and b: "m < n" "n < U32" "maxc + 1 < U32"
    and v: "vid < n" "m < nodeMap st ! vid" and gt: "0 < node_cost st vid"
  shows "ok (moveLeft vid m st) (\<lambda>st'. cost_inv n maxc (Suc m) st' \<and> frame (Suc m) st st' \<and>
    (\<forall>v<n. node_cost st' v = (if v = vid then node_cost st v - 1 else node_cost st v)))"
proof -
  note c = cost_invD[OF ci] and d = inv_pairD[OF cost_invD(1)[OF ci]]
  define p where "p = nodeMap st ! vid"
  let ?c = "cost st ! p"
  have p: "m < p" "p < n" using d v by (auto simp: p_def)
  have nc: "node_cost st vid = ?c" by (simp add: node_cost_def p_def)
  obtain c0 where c0: "?c = Suc c0" using gt nc by (cases ?c) auto
  have k: "?c \<le> maxc" using c(4)[of p] p by simp
  define t where "t = max (CI st ! ?c) (Suc m)"
  have bd: "boundary n (Suc m) (cost st) ?c t" using c(5)[OF k] by (simp add: t_def)
  have tp: "t \<le> p" using boundaryD(2)[OF bd, of p] p by (meson Suc_leI less_irrefl not_le)
  then have t: "m < t" "t < n" using p by (auto simp: t_def)
  have ct: "cost st ! t = ?c"
  proof (rule antisym)
    show "?c \<le> cost st ! t" using boundaryD(3)[OF bd, of t] t by simp
    show "cost st ! t \<le> ?c"
    proof (rule ccontr)
      assume "\<not> ?thesis"
      then have gt: "Suc ?c \<le> cost st ! t" by simp
      moreover have "cost st ! t \<le> maxc" using c(4)[of t] t by simp
      ultimately have k1: "Suc ?c \<le> maxc" by simp
      have "max (CI st ! Suc ?c) (Suc m) \<le> t"
        using boundaryD(2)[OF c(5)[OF k1], of t] gt t by (meson Suc_leI not_less)
      then show False using boundaryD(3)[OF c(5)[OF k1], of p] tp p by simp
    qed
  qed
  let ?nm = "(nodeMap st)[vid := t, nodeId st ! t := p]" and ?ni = "(nodeId st)[t := vid, p := nodeId st ! t]"
  let ?CI = "(CI st)[?c := Suc t, c0 := max (CI st ! c0) (Suc m)]"
  let ?st = "st\<lparr>cost := (cost st)[t := c0], nodeMap := ?nm, nodeId := ?ni, CI := ?CI\<rparr>"
  have ip: "inv_pair n ?nm ?ni" using inv_pair_swap[OF c(1) v(1) t(2)] by (simp add: p_def)
  have r: "nodeId st ! t < n" using d t by simp
  have m1: "uadd m 1 = Suc m" "uadd t 1 = Suc t" "usub ?c 1 = c0" "usub (cost st ! t) 1 = c0"
    using t b k c0 ct by (simp_all add: wrap_simps)
  have run: "moveLeft vid m st = Some ?st"
  proof -
    define CI1 where "CI1 = (if CI st ! ?c \<le> m then (CI st)[?c := Suc m] else CI st)"
    have c1: "(if CI st ! ?c \<le> m then aput (CI st) ?c (uadd m 1) else Some (CI st)) = Some CI1"
      using c(3) k m1(1) by (auto simp: CI1_def)
    have l1: "length CI1 = Suc maxc" and t1: "CI1 ! ?c = t" and n1: "CI1 ! c0 = CI st ! c0"
      using c(3) k c0 by (auto simp: CI1_def t_def max_def)
    have f1: "CI1[c0 := Suc m, ?c := uadd (CI1[c0 := Suc m] ! ?c) 1] = ?CI" if "CI1 ! c0 \<le> m"
      using that c(3) k c0 l1 n1 t1 m1(2)
      by (intro nth_equalityI) (auto simp: CI1_def nth_list_update max_def split: if_splits)
    have f2: "CI1[?c := Suc t] = ?CI" if "\<not> CI1 ! c0 \<le> m"
      using that c(3) k c0 l1 n1
      by (intro nth_equalityI) (auto simp: CI1_def nth_list_update max_def split: if_splits)
    have "c0 \<le> maxc" using k c0 by simp
    then show ?thesis
      unfolding moveLeft_def
      using v p c(2,3) d(1,2) k t r
      by (simp add: c1 l1 t1 m1 f1 f2 p_def[symmetric] del: One_nat_def)
  qed
  have "cost_inv n maxc (Suc m) ?st"
    unfolding cost_inv_def
  proof (intro conjI allI impI)
    fix i assume "Suc m \<le> i \<and> i < n"
    then show "cost ?st ! i \<le> maxc" using c(2) c(4)[of i] k c0 t(2) by (auto simp: nth_list_update)
  next
    fix k' assume k': "k' \<le> maxc"
    define q where "q = max (CI st ! k') (Suc m)"
    have bq: "boundary n (Suc m) (cost st) k' q" using c(5)[OF k'] by (simp add: q_def)
    consider "k' = ?c" | "k' = c0" | "k' \<noteq> ?c" "k' \<noteq> c0" by blast
    then show "boundary n (Suc m) (cost ?st) k' (max (CI ?st ! k') (Suc m))"
    proof cases
      case 1
      have "boundary n (Suc m) ((cost st)[t := c0]) ?c (Suc t)"
        using bd t c(2) c0 by (auto simp: boundary_def nth_list_update less_Suc_eq)
      then show ?thesis using 1 c(3) k t c0 by (simp add: max_def)
    next
      case 2
      have "boundary n (Suc m) ((cost st)[t := c0]) k' q"
        using 2 boundaryD(2)[OF bq, of t] ct c0 t by (intro update_boundary bq c(2)) auto
      then show ?thesis using 2 c(3) k c0 by (simp add: q_def)
    next
      case 3
      have "boundary n (Suc m) ((cost st)[t := c0]) k' q"
        using 3 boundaryD(2,3)[OF bq, of t] ct c0 t by (intro update_boundary bq c(2)) auto
      then show ?thesis using 3 by (simp add: q_def)
    qed
  qed (use ip c k in simp_all)
  moreover have "frame (Suc m) st ?st" using t p by (simp add: frame_def)
  moreover have "\<forall>v<n. node_cost ?st v = (if v = vid then node_cost st v - 1 else node_cost st v)"
    using swap_node_cost[OF c(1) v(1) t(2) c(2), of _ c0] ct nc c0 by (simp add: node_cost_def p_def)
  ultimately show ?thesis using run by simp
qed

section \<open>The simulated cache\<close>

text \<open>
  \<open>par v\<close> are the parents of \<open>v\<close> that the model counts, \<open>W\<close> the parents in the cache (one
  occurrence per node that holds them). For a node that is not placed yet, its cost, the parents it
  has in the cache and its postponed updates always add up to \<open>maxc\<close>; in the middle of a loop over
  the children of a parent, the children in \<open>xs\<close> are still owed one unit per occurrence.
\<close>

definition cached :: "(nat \<Rightarrow> nat list) \<Rightarrow> nat multiset \<Rightarrow> nat \<Rightarrow> nat" where
  "cached par W v = length (filter (\<lambda>p. p \<in># W) (par v))"

definition balanced :: "nat \<Rightarrow> nat \<Rightarrow> (nat \<Rightarrow> nat list) \<Rightarrow> nat multiset \<Rightarrow> nat list \<Rightarrow> cache_state \<Rightarrow> bool" where
  "balanced n maxc par W xs st \<longleftrightarrow> (\<forall>v<n. \<not> isPlaced st ! v \<longrightarrow>
     node_cost st v + cached par W v + updates st ! v + count_list xs v = maxc \<and>
     cached par W v + updates st ! v + count_list xs v \<le> length (par v))"

definition presence :: "nat \<Rightarrow> nat multiset \<Rightarrow> cache_state \<Rightarrow> bool" where
  "presence N W st \<longleftrightarrow> length (cachePresence st) = N \<and> (\<forall>p<N. cachePresence st ! p = count W p)"

definition ordered :: "nat \<Rightarrow> nat \<Rightarrow> nat \<Rightarrow> cache_state \<Rightarrow> bool" where
  "ordered n maxc b st \<longleftrightarrow> cost_inv n maxc b st \<and> length (isPlaced st) = n \<and> n \<le> length (updates st) \<and>
     (\<forall>v<n. isPlaced st ! v \<longleftrightarrow> nodeMap st ! v < b)"

text \<open>The graphs of the model: \<open>G1\<close> lists the parents of the \<open>n\<close> nodes, \<open>G2\<close> the children of
  the \<open>N\<close> parents, and the two agree.\<close>

definition cache_graphs ::
  "nat \<Rightarrow> nat \<Rightarrow> nat \<Rightarrow> graph \<Rightarrow> graph \<Rightarrow> (u32 \<Rightarrow> bool option) \<Rightarrow> (nat \<Rightarrow> bool) \<Rightarrow> bool" where
  "cache_graphs n N maxc G1 G2 skip sk \<longleftrightarrow> wf_csr G1 \<and> numVertex G1 = n \<and> wf_csr G2 \<and> numVertex G2 = N \<and>
     maxc + 1 < U32 \<and> (\<forall>p<N. skip p = Some (sk p)) \<and>
     (\<forall>v<n. \<forall>p \<in> set (adj G1 v). p < N) \<and> (\<forall>p<N. \<forall>v \<in> set (adj G2 p). v < n) \<and>
     (\<forall>p<N. \<forall>v<n. count_list (adj G2 p) v = count_list (adj G1 v) p) \<and>
     (\<forall>v<n. length (filter (\<lambda>p. \<not> sk p) (adj G1 v)) \<le> maxc)"

abbreviation parents :: "graph \<Rightarrow> (nat \<Rightarrow> bool) \<Rightarrow> nat \<Rightarrow> nat list" where
  "parents G1 sk v \<equiv> filter (\<lambda>p. \<not> sk p) (adj G1 v)"

lemma cache_graphsD:
  assumes "cache_graphs n N maxc G1 G2 skip sk"
  shows "wf_csr G1" "numVertex G1 = n" "wf_csr G2" "numVertex G2 = N" "maxc + 1 < U32"
    "p < N \<Longrightarrow> skip p = Some (sk p)" "v < n \<Longrightarrow> p \<in> set (adj G1 v) \<Longrightarrow> p < N"
    "p < N \<Longrightarrow> v \<in> set (adj G2 p) \<Longrightarrow> v < n"
    "p < N \<Longrightarrow> v < n \<Longrightarrow> count_list (adj G2 p) v = count_list (adj G1 v) p"
    "v < n \<Longrightarrow> length (parents G1 sk v) \<le> maxc" "n < U32"
  using assms wf_csrD(2)[of G1] unfolding cache_graphs_def by auto

lemma count_filter: "P x \<Longrightarrow> count_list (filter P xs) x = count_list xs x"
  by (induction xs) auto

lemma cached_insert:
  assumes cg: "cache_graphs n N maxc G1 G2 skip sk" and p: "p < N" "\<not> sk p" "p \<notin># W" and v: "v < n"
  shows "cached (parents G1 sk) (add_mset p W) v = cached (parents G1 sk) W v + count_list (adj G2 p) v"
proof -
  have i: "length (filter (\<lambda>q. q \<in># add_mset p W) xs) = length (filter (\<lambda>q. q \<in># W) xs) + count_list xs p" for xs
    using p(3) by (induction xs) auto
  show ?thesis
    unfolding cached_def i cache_graphsD(9)[OF cg p(1) v] using p(2) by (simp add: count_filter)
qed

lemma cached_le: "cached par W v \<le> length (par v)"
  by (simp add: cached_def)

lemma cached_cong: "set_mset W = set_mset W' \<Longrightarrow> cached par W = cached par W'"
  by (simp add: cached_def fun_eq_iff)

lemma balanced_cong: "set_mset W = set_mset W' \<Longrightarrow> balanced n maxc par W xs st = balanced n maxc par W' xs st"
  by (simp add: balanced_def cached_cong[of W W'])

lemma for_children_eq:
  assumes "wf_csr G2" "p < numVertex G2"
  shows "for_children G2 p f st = mfold f (adj G2 p) st"
proof -
  note w = wf_csrD[OF assms(1)]
  have "for_range (VI G2 ! p) (eend G2 p) (\<lambda>j st. do { c \<leftarrow> aget (EI G2) j; f c st }) st = mfold f (adj G2 p) st"
    unfolding adj_def by (rule for_range_slice) (use w(4) w(8)[OF assms(2)] in auto)
  then show ?thesis using edge_end_ok[OF assms] w(5) assms(2) by (simp add: for_children_def)
qed

lemma for_parents_eq:
  assumes "wf_csr G1" "v < numVertex G1"
  shows "for_parents G1 v f st = mfold f (adj G1 v) (st, 0)"
proof -
  note w = wf_csrD[OF assms(1)]
  have "for_range (VI G1 ! v) (eend G1 v) (\<lambda>j s. do { c \<leftarrow> aget (EI G1) j; f c s }) (st, 0) = mfold f (adj G1 v) (st, 0)"
    unfolding adj_def by (rule for_range_slice) (use w(4) w(8)[OF assms(2)] in auto)
  then show ?thesis using edge_end_ok[OF assms] w(5) assms(2) by (simp add: for_parents_def)
qed

lemma frame_placed:
  assumes "frame b st st'" "inv_pair n (nodeMap st) (nodeId st)" "inv_pair n (nodeMap st') (nodeId st')" "u < n" "b \<le> n"
  shows "nodeMap st' ! u < b \<longleftrightarrow> nodeMap st ! u < b"
proof
  note d = inv_pairD[OF assms(2)] and d' = inv_pairD[OF assms(3)]
  show "nodeMap st' ! u < b" if "nodeMap st ! u < b"
    using that assms(1,4) d(3,4)[of u] d'(6)[of "nodeMap st ! u"] by (auto simp: frame_def)
  show "nodeMap st ! u < b" if "nodeMap st' ! u < b"
    using that assms(1,4) d'(3,4)[of u] d(6)[of "nodeMap st' ! u"] by (auto simp: frame_def)
qed

definition same_order :: "cache_state \<Rightarrow> cache_state \<Rightarrow> bool" where
  "same_order st st' \<longleftrightarrow> cost st' = cost st \<and> nodeMap st' = nodeMap st \<and> nodeId st' = nodeId st \<and>
     CI st' = CI st \<and> isPlaced st' = isPlaced st"

subsection \<open>Eviction\<close>

lemma evict_child_ok:
  assumes ord: "ordered n maxc b st" and bal: "balanced n maxc par W (v # xs) st" and v: "v < n"
    and maxc: "maxc + 1 < U32"
  shows "ok (evict_child v st) (\<lambda>st'. (\<exists>us. st' = st\<lparr>updates := us\<rparr>) \<and> ordered n maxc b st' \<and> balanced n maxc par W xs st')"
proof (cases "isPlaced st ! v")
  case True
  then have "balanced n maxc par W xs st"
    using bal v unfolding balanced_def by (auto split: if_splits)
  moreover have "length (isPlaced st) = n" using ord by (simp add: ordered_def)
  ultimately show ?thesis using True ord v
    by (auto simp: evict_child_def intro!: exI[of _ "updates st"])
next
  case False
  let ?st = "st\<lparr>updates := (updates st)[v := Suc (updates st ! v)]\<rparr>"
  have l: "length (isPlaced st) = n" "n \<le> length (updates st)" using ord by (simp_all add: ordered_def)
  have "updates st ! v + 1 \<le> maxc" using bal v False unfolding balanced_def by fastforce
  then have "evict_child v st = Some ?st"
    using v False l maxc by (simp add: evict_child_def uadd_exact)
  moreover have "ordered n maxc b ?st" using ord by (simp add: ordered_def cost_inv_def)
  moreover have "balanced n maxc par W xs ?st"
    unfolding balanced_def
  proof (intro allI impI)
    fix u assume "u < n" "\<not> isPlaced ?st ! u"
    then show "node_cost ?st u + cached par W u + updates ?st ! u + count_list xs u = maxc \<and>
        cached par W u + updates ?st ! u + count_list xs u \<le> length (par u)"
      using bal l v unfolding balanced_def by (cases "u = v") (auto simp: node_cost_def)
  qed
  ultimately show ?thesis by auto
qed

lemma evict_children_ok:
  assumes "ordered n maxc b st" "balanced n maxc par W xs st" "\<forall>v \<in> set xs. v < n" "maxc + 1 < U32"
  shows "ok (mfold evict_child xs st) (\<lambda>st'. (\<exists>us. st' = st\<lparr>updates := us\<rparr>) \<and> ordered n maxc b st' \<and> balanced n maxc par W [] st')"
  using assms
proof (induction xs arbitrary: st)
  case Nil
  then show ?case by (auto intro!: exI[of _ "updates st"])
next
  case (Cons v xs)
  have "ok (evict_child v st) (\<lambda>st'. (\<exists>us. st' = st\<lparr>updates := us\<rparr>) \<and> ordered n maxc b st' \<and> balanced n maxc par W xs st')"
    by (rule evict_child_ok) (use Cons.prems in auto)
  then show ?case
    unfolding mfold.simps ok_bind
  proof (rule ok_mono)
    fix st' assume "(\<exists>us. st' = st\<lparr>updates := us\<rparr>) \<and> ordered n maxc b st' \<and> balanced n maxc par W xs st'"
    then show "ok (mfold evict_child xs st') (\<lambda>st'. (\<exists>us. st' = st\<lparr>updates := us\<rparr>) \<and> ordered n maxc b st' \<and> balanced n maxc par W [] st')"
      using Cons.IH[of st'] Cons.prems by (auto elim!: ok_mono)
  qed
qed

text \<open>The state of the cache model between two calls: \<open>b\<close> positions are settled, \<open>W\<close> is cached.\<close>

definition model_inv :: "nat \<Rightarrow> nat \<Rightarrow> nat \<Rightarrow> (nat \<Rightarrow> nat list) \<Rightarrow> nat \<Rightarrow> nat multiset \<Rightarrow> cache_state \<Rightarrow> bool" where
  "model_inv n N maxc par b W st \<longleftrightarrow> ordered n maxc b st \<and> balanced n maxc par W [] st \<and> presence N W st"

lemma card_set_mset_le_size: "card (set_mset W) \<le> size W"
  by (induction W) (auto simp: card_insert_if)

lemma set_mset_remove: "p \<in># W \<Longrightarrow> card (set_mset W) = card (set_mset (W - {#p#})) + (if p \<in># W - {#p#} then 0 else 1)"
proof -
  assume "p \<in># W"
  then obtain V where W: "W = add_mset p V" by (metis multi_member_split)
  then show ?thesis by (auto simp: insert_absorb)
qed

lemma evict_parent_ok:
  assumes cg: "cache_graphs n N maxc G1 G2 skip sk" and inv: "model_inv n N maxc (parents G1 sk) b W st"
    and p: "p < N" "\<not> sk p" "p \<in># W" and b: "size W < U32" "k + 1 < U32"
  shows "ok (evict_parent skip G2 p (st, k)) (\<lambda>(st', k'). model_inv n N maxc (parents G1 sk) b (W - {#p#}) st' \<and>
     same_order st st' \<and> k' + card (set_mset (W - {#p#})) = k + card (set_mset W))"
proof -
  note g = cache_graphsD[OF cg]
  let ?par = "parents G1 sk"
  obtain V where W: "W = add_mset p V" using p(3) by (metis multi_member_split)
  have pr: "length (cachePresence st) = N" "\<And>q. q < N \<Longrightarrow> cachePresence st ! q = count W q"
    and ord: "ordered n maxc b st" and bal: "balanced n maxc ?par W [] st"
    using inv by (auto simp: model_inv_def presence_def)
  let ?st = "st\<lparr>cachePresence := (cachePresence st)[p := count V p]\<rparr>"
  have "count W p \<le> size W" by (rule count_le_size)
  then have sub: "usub (cachePresence st ! p) 1 = count V p"
    using b pr(2)[OF p(1)] W by (simp add: usub_exact)
  have pv: "presence N V ?st"
    using pr W p(1) by (auto simp: presence_def nth_list_update)
  have ord1: "ordered n maxc b ?st" using ord by (simp add: ordered_def cost_inv_def)
  show ?thesis
  proof (cases "count V p = 0")
    case False
    then have "set_mset W = set_mset V" unfolding W by (auto simp: count_eq_zero_iff)
    moreover from this have "cached ?par W = cached ?par V" by (rule cached_cong)
    ultimately have "set_mset W = set_mset V" "balanced n maxc ?par V [] ?st"
      using bal by (simp_all add: balanced_def node_cost_def)
    then have "model_inv n N maxc ?par b V ?st" using ord1 pv by (simp add: model_inv_def)
    moreover have "evict_parent skip G2 p (st, k) = Some (?st, k)"
      using False sub pr(1) p(1,2) g(6)[OF p(1)] by (simp add: evict_parent_def Let_def count_eq_zero_iff)
    moreover have "same_order st ?st" by (simp add: same_order_def)
    moreover have "W - {#p#} = V" by (simp add: W)
    ultimately show ?thesis using \<open>set_mset W = set_mset V\<close> by simp
  next
    case True
    then have pV: "p \<notin># V" by (simp add: count_eq_zero_iff)
    have "balanced n maxc ?par V (adj G2 p) ?st"
      using bal cached_insert[OF cg p(1,2) pV] unfolding W balanced_def by (simp add: node_cost_def add_ac)
    then have "ok (mfold evict_child (adj G2 p) ?st) (\<lambda>st'. (\<exists>us. st' = ?st\<lparr>updates := us\<rparr>) \<and> ordered n maxc b st' \<and> balanced n maxc ?par V [] st')"
      using ord1 g(5) g(8)[OF p(1)] by (intro evict_children_ok) auto
    moreover have "for_children G2 p evict_child ?st = mfold evict_child (adj G2 p) ?st"
      using for_children_eq g p by simp
    moreover have "card (set_mset W) = Suc (card (set_mset V))" using pV unfolding W by simp
    ultimately show ?thesis
      using True sub pr p g(6) W b pv
      by (auto simp: evict_parent_def Let_def uadd_exact model_inv_def presence_def same_order_def elim!: ok_mono)
  qed
qed

lemma evictParents_by_ok:
  assumes cg: "cache_graphs n N maxc G1 G2 skip sk" and inv: "model_inv n N maxc (parents G1 sk) b W st"
    and node: "node < n" and sub: "mset (parents G1 sk (nodeId st ! node)) \<subseteq># W" and W: "size W < U32"
  shows "ok (evictParents_by skip G1 G2 node st) (\<lambda>(st', k).
     model_inv n N maxc (parents G1 sk) b (W - mset (parents G1 sk (nodeId st ! node))) st' \<and>
     same_order st st' \<and>
     k + card (set_mset (W - mset (parents G1 sk (nodeId st ! node)))) = card (set_mset W))"
proof -
  note g = cache_graphsD[OF cg]
  have ip: "inv_pair n (nodeMap st) (nodeId st)" using inv by (simp add: model_inv_def ordered_def cost_inv_def)
  let ?v = "nodeId st ! node" and ?par = "parents G1 sk"
  have v: "?v < n" "length (nodeId st) = n" using inv_pairD[OF ip] node by auto
  let ?P = "\<lambda>pre (st', k). model_inv n N maxc ?par b (W - mset (filter (\<lambda>p. \<not> sk p) pre)) st' \<and>
     same_order st st' \<and>
     k + card (set_mset (W - mset (filter (\<lambda>p. \<not> sk p) pre))) = card (set_mset W)"
  have "ok (mfold (evict_parent skip G2) (adj G1 ?v) (st, 0)) (?P (adj G1 ?v))"
  proof (rule ok_mfold[where P = ?P])
    show "?P [] (st, 0)" using inv by (simp add: same_order_def)
  next
    fix pre p post s assume split: "adj G1 ?v = pre @ p # post" and P: "?P pre s"
    obtain st1 k where s: "s = (st1, k)" by force
    let ?W = "W - mset (filter (\<lambda>p. \<not> sk p) pre)"
    have p: "p < N" using g(7)[OF v(1), of p] split by simp
    show "ok (evict_parent skip G2 p s) (?P (pre @ [p]))"
    proof (cases "sk p")
      case True
      then show ?thesis using P s g(6)[OF p] by (simp add: evict_parent_def)
    next
      case False
      let ?A = "mset (filter (\<lambda>p. \<not> sk p) pre)"
      have "count (?A + {#p#}) p \<le> count W p"
        by (rule order.trans[OF _ mset_subset_eq_count[OF sub, of p]]) (simp add: split False)
      then have pW: "p \<in># ?W" by (simp add: in_diff_count)
      have sW: "size ?W < U32" using W size_mset_mono[OF diff_subset_eq_self[of W ?A]] by linarith
      have "k + card (set_mset ?W) = card (set_mset W)" "0 < card (set_mset ?W)"
        using P s pW by (auto simp: card_gt_0_iff)
      then have kb: "k + 1 < U32" using W card_set_mset_le_size[of W] by linarith
      show ?thesis
        using evict_parent_ok[OF cg _ p False pW sW kb, of b st1] P s False
        by (auto elim!: ok_mono simp: diff_diff_add same_order_def)
    qed
  qed
  then show ?thesis
    using v node for_parents_eq[OF g(1)] g(2) by (simp add: evictParents_by_def)
qed

subsection \<open>Loading\<close>

definition settled :: "nat \<Rightarrow> cache_state \<Rightarrow> cache_state \<Rightarrow> bool" where
  "settled b st st' \<longleftrightarrow> isPlaced st' = isPlaced st \<and> (\<forall>i<b. nodeId st' ! i = nodeId st ! i)"

lemma settled_refl [simp]: "settled b st st"
  by (simp add: settled_def)

lemma settled_trans: "settled b s t \<Longrightarrow> settled b t u \<Longrightarrow> settled b s u"
  by (simp add: settled_def)

lemma settled_frame: "frame b s t \<Longrightarrow> settled b s t"
  by (simp add: settled_def frame_def)

lemma settled_same_order: "same_order s t \<Longrightarrow> settled b s t"
  by (simp add: settled_def same_order_def)

lemma settled_mono: "settled b s t \<Longrightarrow> c \<le> b \<Longrightarrow> settled c s t"
  by (simp add: settled_def)

lemma orderedD:
  assumes "ordered n maxc b st"
  shows "cost_inv n maxc b st" "length (isPlaced st) = n" "n \<le> length (updates st)"
    "inv_pair n (nodeMap st) (nodeId st)" "v < n \<Longrightarrow> isPlaced st ! v \<longleftrightarrow> nodeMap st ! v < b"
  using assms by (auto simp: ordered_def cost_inv_def)

lemma balancedD:
  assumes "balanced n maxc par W xs st" "v < n" "\<not> isPlaced st ! v"
  shows "node_cost st v + cached par W v + updates st ! v + count_list xs v = maxc"
    "cached par W v + updates st ! v + count_list xs v \<le> length (par v)"
  using assms by (auto simp: balanced_def)

lemma ordered_frame:
  assumes ord: "ordered n maxc b st" and ci: "cost_inv n maxc b st'" and fr: "frame b st st'" and b: "b \<le> n"
  shows "ordered n maxc b st'"
  using orderedD[OF ord] cost_invD(1)[OF ci] frame_placed[OF fr _ _ _ b] ci fr
  by (auto simp: ordered_def frame_def)

lemma load_child_ok:
  assumes ord: "ordered n maxc (Suc m) st" and bal: "balanced n maxc par W xs st" and v: "v < n"
    and m: "m < n" "n < U32" "maxc + 1 < U32"
    and room: "cached par W v + Suc (count_list xs v) \<le> length (par v)" "length (par v) \<le> maxc"
  shows "ok (load_child m v st) (\<lambda>st'. settled (Suc m) st st' \<and> cachePresence st' = cachePresence st \<and>
    ordered n maxc (Suc m) st' \<and> balanced n maxc par W (v # xs) st')"
proof (cases "isPlaced st ! v")
  case True
  then have "balanced n maxc par W (v # xs) st" using bal unfolding balanced_def by auto
  then show ?thesis using True ord v orderedD(2)[OF ord] by (simp add: load_child_def)
next
  case False
  note o = orderedD[OF ord] and bb = balancedD[OF bal v False]
  show ?thesis
  proof (cases "updates st ! v > 0")
    case True
    let ?st = "st\<lparr>updates := (updates st)[v := updates st ! v - 1]\<rparr>"
    have "updates st ! v \<le> maxc" using bb by simp
    then have run: "load_child m v st = Some ?st"
      using True False o(2,3) v m by (simp add: load_child_def usub_exact)
    have "ordered n maxc (Suc m) ?st" using ord by (simp add: ordered_def cost_inv_def)
    moreover have "balanced n maxc par W (v # xs) ?st"
      unfolding balanced_def
    proof (intro allI impI)
      fix u assume u: "u < n" "\<not> isPlaced ?st ! u"
      then show "node_cost ?st u + cached par W u + updates ?st ! u + count_list (v # xs) u = maxc \<and>
          cached par W u + updates ?st ! u + count_list (v # xs) u \<le> length (par u)"
        using balancedD[OF bal, of u] True o(3) v by (cases "u = v") (auto simp: node_cost_def)
    qed
    ultimately show ?thesis unfolding run by (simp add: settled_def)
  next
    case z: False
    have pos: "m < nodeMap st ! v" using o(5)[OF v] False by simp
    have "0 < node_cost st v" using bb z room by linarith
    then have "ok (moveLeft v m st) (\<lambda>st'. cost_inv n maxc (Suc m) st' \<and> frame (Suc m) st st' \<and>
      (\<forall>u<n. node_cost st' u = (if u = v then node_cost st u - 1 else node_cost st u)))"
      by (intro moveLeft_ok o(1) m v pos)
    moreover have "load_child m v st = moveLeft v m st"
      using False z o(2,3) v by (simp add: load_child_def)
    moreover have "settled (Suc m) st st' \<and> cachePresence st' = cachePresence st \<and>
       ordered n maxc (Suc m) st' \<and> balanced n maxc par W (v # xs) st'"
      if P: "cost_inv n maxc (Suc m) st' \<and> frame (Suc m) st st' \<and>
      (\<forall>u<n. node_cost st' u = (if u = v then node_cost st u - 1 else node_cost st u))" for st'
    proof (intro conjI)
      have fr: "cachePresence st' = cachePresence st" "isPlaced st' = isPlaced st" "updates st' = updates st"
        using P by (auto simp: frame_def)
      show "ordered n maxc (Suc m) st'" by (rule ordered_frame[OF ord]) (use P m in auto)
      show "balanced n maxc par W (v # xs) st'"
        unfolding balanced_def
      proof (intro allI impI)
        fix u assume u: "u < n" "\<not> isPlaced st' ! u"
        then show "node_cost st' u + cached par W u + updates st' ! u + count_list (v # xs) u = maxc \<and>
            cached par W u + updates st' ! u + count_list (v # xs) u \<le> length (par u)"
          using balancedD[OF bal, of u] P z room \<open>0 < node_cost st v\<close> fr by (cases "u = v") auto
      qed
    qed (use P settled_frame in \<open>auto simp: frame_def\<close>)
    ultimately show ?thesis by (auto elim!: ok_mono)
  qed
qed

lemma load_children_ok:
  assumes "ordered n maxc (Suc m) st" "balanced n maxc par W xs st" "m < n" "n < U32" "maxc + 1 < U32"
    and "\<forall>v \<in> set ys. v < n"
    and "\<forall>v<n. cached par W v + count_list xs v + count_list ys v \<le> length (par v) \<and> length (par v) \<le> maxc"
  shows "ok (mfold (load_child m) ys st) (\<lambda>st'. settled (Suc m) st st' \<and> cachePresence st' = cachePresence st \<and>
    ordered n maxc (Suc m) st' \<and> balanced n maxc par W (rev ys @ xs) st')"
  using assms
proof (induction ys arbitrary: st xs)
  case (Cons v ys)
  have "ok (load_child m v st) (\<lambda>st'. settled (Suc m) st st' \<and> cachePresence st' = cachePresence st \<and>
    ordered n maxc (Suc m) st' \<and> balanced n maxc par W (v # xs) st')"
    by (rule load_child_ok) (use Cons.prems in \<open>auto dest!: spec[of _ v]\<close>)
  then show ?case
    unfolding mfold.simps ok_bind
  proof (rule ok_mono)
    fix st' assume st': "settled (Suc m) st st' \<and> cachePresence st' = cachePresence st \<and>
      ordered n maxc (Suc m) st' \<and> balanced n maxc par W (v # xs) st'"
    have "ok (mfold (load_child m) ys st') (\<lambda>st''. settled (Suc m) st' st'' \<and> cachePresence st'' = cachePresence st' \<and>
      ordered n maxc (Suc m) st'' \<and> balanced n maxc par W (rev ys @ v # xs) st'')"
      by (rule Cons.IH) (use Cons.prems st' in auto)
    then show "ok (mfold (load_child m) ys st') (\<lambda>st''. settled (Suc m) st st'' \<and> cachePresence st'' = cachePresence st \<and>
      ordered n maxc (Suc m) st'' \<and> balanced n maxc par W (rev (v # ys) @ xs) st'')"
      using st' by (auto elim!: ok_mono intro: settled_trans)
  qed
qed simp

lemma balanced_count_cong: "(\<And>v. count_list xs v = count_list ys v) \<Longrightarrow> balanced n maxc par W xs st = balanced n maxc par W ys st"
  by (simp add: balanced_def)

lemma load_parent_ok:
  assumes cg: "cache_graphs n N maxc G1 G2 skip sk" and inv: "model_inv n N maxc (parents G1 sk) (Suc m) W st"
    and p: "p < N" "\<not> sk p" and m: "m < n" and b: "size W + 1 < U32" "k + 1 < U32"
  shows "ok (load_parent skip G2 m p (st, k)) (\<lambda>(st', k'). model_inv n N maxc (parents G1 sk) (Suc m) (add_mset p W) st' \<and>
     settled (Suc m) st st' \<and> k' + card (set_mset W) = k + card (set_mset (add_mset p W)))"
proof -
  note g = cache_graphsD[OF cg]
  let ?par = "parents G1 sk"
  have pr: "length (cachePresence st) = N" "\<And>q. q < N \<Longrightarrow> cachePresence st ! q = count W q"
    and ord: "ordered n maxc (Suc m) st" and bal: "balanced n maxc ?par W [] st"
    using inv by (auto simp: model_inv_def presence_def)
  let ?st = "st\<lparr>cachePresence := (cachePresence st)[p := Suc (count W p)]\<rparr>"
  have "count W p \<le> size W" by (rule count_le_size)
  then have add: "uadd (cachePresence st ! p) 1 = Suc (count W p)"
    using b pr(2)[OF p(1)] by (simp add: uadd_exact)
  have pv: "presence N (add_mset p W) ?st"
    using pr p(1) by (auto simp: presence_def nth_list_update)
  have ord1: "ordered n maxc (Suc m) ?st" using ord by (simp add: ordered_def cost_inv_def)
  have set1: "settled (Suc m) st ?st" by (simp add: settled_def)
  show ?thesis
  proof (cases "count W p = 0")
    case False
    then have pW: "set_mset (add_mset p W) = set_mset W" by (auto simp: count_eq_zero_iff)
    then have "cached ?par (add_mset p W) = cached ?par W" by (rule cached_cong)
    then have "balanced n maxc ?par (add_mset p W) [] ?st"
      using bal by (simp add: balanced_def node_cost_def)
    then have "model_inv n N maxc ?par (Suc m) (add_mset p W) ?st" using ord1 pv by (simp add: model_inv_def)
    moreover have "load_parent skip G2 m p (st, k) = Some (?st, k)"
      using False add pr(1) p(1,2) g(6)[OF p(1)] by (simp add: load_parent_def Let_def count_eq_zero_iff)
    ultimately show ?thesis using set1 pW by simp
  next
    case True
    then have pW: "p \<notin># W" by (simp add: count_eq_zero_iff)
    have room: "\<forall>v<n. cached ?par W v + count_list [] v + count_list (adj G2 p) v \<le> length (?par v) \<and> length (?par v) \<le> maxc"
    proof (intro allI impI)
      fix v assume "v < n"
      then show "cached ?par W v + count_list [] v + count_list (adj G2 p) v \<le> length (?par v) \<and> length (?par v) \<le> maxc"
        using cached_insert[OF cg p pW, of v] cached_le[of ?par "add_mset p W" v] g(10)[of v] by simp
    qed
    have "balanced n maxc ?par W [] ?st" using bal by (simp add: balanced_def node_cost_def)
    then have "ok (mfold (load_child m) (adj G2 p) ?st) (\<lambda>st'. settled (Suc m) ?st st' \<and> cachePresence st' = cachePresence ?st \<and>
      ordered n maxc (Suc m) st' \<and> balanced n maxc ?par W (rev (adj G2 p) @ []) st')"
      using ord1 m g(5,11) g(8)[OF p(1)] room by (intro load_children_ok) auto
    moreover have "for_children G2 p (load_child m) ?st = mfold (load_child m) (adj G2 p) ?st"
      using for_children_eq g(3,4) p by simp
    moreover have "model_inv n N maxc ?par (Suc m) (add_mset p W) st' \<and> settled (Suc m) st st'"
      if P: "settled (Suc m) ?st st' \<and> cachePresence st' = cachePresence ?st \<and>
      ordered n maxc (Suc m) st' \<and> balanced n maxc ?par W (rev (adj G2 p) @ []) st'" for st'
    proof -
      have "count_list (rev xs) v = count_list xs v" for xs v
        by (induction xs) auto
      then have "balanced n maxc ?par (add_mset p W) [] st'"
        using P cached_insert[OF cg p pW] unfolding balanced_def by (simp add: add_ac)
      then show ?thesis using P pv settled_trans[OF set1] by (auto simp: model_inv_def presence_def)
    qed
    ultimately show ?thesis
      using True add pr(1) p g(6)[OF p(1)] b pW
      by (auto simp: load_parent_def Let_def uadd_exact elim!: ok_mono)
  qed
qed

lemma loadParents_by_ok:
  assumes cg: "cache_graphs n N maxc G1 G2 skip sk" and inv: "model_inv n N maxc (parents G1 sk) (Suc m) W st"
    and m: "m < n" and node: "node < n" and W: "size W + length (parents G1 sk (nodeId st ! node)) < U32"
  shows "ok (loadParents_by skip G1 G2 node m st) (\<lambda>(st', k).
     model_inv n N maxc (parents G1 sk) (Suc m) (W + mset (parents G1 sk (nodeId st ! node))) st' \<and>
     settled (Suc m) st st' \<and>
     k + card (set_mset W) = card (set_mset (W + mset (parents G1 sk (nodeId st ! node)))))"
proof -
  note g = cache_graphsD[OF cg]
  have ip: "inv_pair n (nodeMap st) (nodeId st)" using inv by (simp add: model_inv_def ordered_def cost_inv_def)
  let ?v = "nodeId st ! node" and ?par = "parents G1 sk"
  have v: "?v < n" "length (nodeId st) = n" using inv_pairD[OF ip] node by auto
  let ?P = "\<lambda>pre (st', k). model_inv n N maxc ?par (Suc m) (W + mset (filter (\<lambda>p. \<not> sk p) pre)) st' \<and>
     settled (Suc m) st st' \<and> k + card (set_mset W) = card (set_mset (W + mset (filter (\<lambda>p. \<not> sk p) pre)))"
  have "ok (mfold (load_parent skip G2 m) (adj G1 ?v) (st, 0)) (?P (adj G1 ?v))"
  proof (rule ok_mfold[where P = ?P])
    show "?P [] (st, 0)" using inv by simp
  next
    fix pre p post s assume split: "adj G1 ?v = pre @ p # post" and P: "?P pre s"
    obtain st1 k where s: "s = (st1, k)" by force
    let ?W = "W + mset (filter (\<lambda>p. \<not> sk p) pre)"
    have p: "p < N" using g(7)[OF v(1), of p] split by simp
    show "ok (load_parent skip G2 m p s) (?P (pre @ [p]))"
    proof (cases "sk p")
      case True
      then show ?thesis using P s g(6)[OF p] by (simp add: load_parent_def)
    next
      case False
      have sW: "size ?W + 1 < U32" using W False by (simp add: split, simp flip: mset_filter)
      have "k \<le> card (set_mset ?W)" using P s by simp
      then have kb: "k + 1 < U32" using sW card_set_mset_le_size[of ?W] by linarith
      have "ok (load_parent skip G2 m p (st1, k)) (\<lambda>(st', k'). model_inv n N maxc ?par (Suc m) (add_mset p ?W) st' \<and>
        settled (Suc m) st1 st' \<and> k' + card (set_mset ?W) = k + card (set_mset (add_mset p ?W)))"
        by (rule load_parent_ok[OF cg _ p False m sW kb]) (use P s in simp)
      then show ?thesis
        unfolding s by (rule ok_mono) (use P s False in \<open>auto intro: settled_trans\<close>)
    qed
  qed
  then show ?thesis
    using v node for_parents_eq[OF g(1)] g(2) by (simp add: loadParents_by_def)
qed

section \<open>Properties\<close>

lemma cost_inv_sorted: "cost_inv n maxc b st \<Longrightarrow> sorted (drop b (cost st))"
proof -
  assume ci: "cost_inv n maxc b st"
  note c = cost_invD[OF ci]
  have "cost st ! i \<le> cost st ! j" if "b \<le> i" "i \<le> j" "j < n" for i j
  proof -
    have k: "cost st ! i \<le> maxc" using c(4)[of i] that by simp
    note d = boundaryD[OF c(5)[OF k]]
    have "max (CI st ! (cost st ! i)) b \<le> i" using d(2)[OF that(1)] by (meson less_irrefl not_le)
    then show ?thesis using d(3)[of j] that by simp
  qed
  then show ?thesis using c(2) by (auto simp: sorted_iff_nth_mono)
qed

text \<open>A small model: two nodes with the same parent; nothing placed, then the first node placed.\<close>

definition ex_parents :: graph where
  "ex_parents = \<lparr>numVertex = 2, numEdges = 2, VI = [0, 1], EI = [0, 0]\<rparr>"

definition ex_children :: graph where
  "ex_children = \<lparr>numVertex = 1, numEdges = 2, VI = [0], EI = [0, 1]\<rparr>"

definition ex_state :: "bool \<Rightarrow> cache_state" where
  "ex_state p = \<lparr>cost = [1, 1], nodeMap = [0, 1], nodeId = [0, 1], CI = [0, 0], cachePresence = [0],
     isPlaced = [p, False], updates = [0, 0]\<rparr>"

lemma all2: "(\<forall>v<2. P v) \<longleftrightarrow> P 0 \<and> P (1 :: nat)"
  by (auto simp: less_Suc_eq numeral_2_eq_2)

lemma ex_graphs:
  "cache_graphs 2 1 1 ex_parents ex_children (\<lambda>_. Some False) (\<lambda>_. False)"
  by (simp add: cache_graphs_def wf_csr_eval ex_parents_def ex_children_def eend_def adj_def slice_def all2 upt_rec)

lemma ex_inv:
  "model_inv 2 1 1 (parents ex_parents (\<lambda>_. False)) 0 {#} (ex_state False)"
  "model_inv 2 1 1 (parents ex_parents (\<lambda>_. False)) 1 {#} (ex_state True)"
proof -
  have le1: "(\<forall>k\<le>1. P k) \<longleftrightarrow> P 0 \<and> P (1 :: nat)" for P by (auto simp: le_Suc_eq)
  have "b \<le> 1 \<Longrightarrow> (\<forall>i. b \<le> i \<and> i < 2 \<longrightarrow> P i) \<longleftrightarrow> (b = 0 \<longrightarrow> P 0) \<and> P (1 :: nat)" for b P
    by (auto simp: less_Suc_eq numeral_2_eq_2 le_Suc_eq)
  then have "inv_pair 2 [0, 1] [0, 1]" "b \<le> 1 \<Longrightarrow> cost_inv 2 1 b (ex_state p)" for b p
    by (auto simp: cost_inv_def inv_pair_def ex_state_def all2 le1 boundary_def nth_Cons' max_def)
  then show "model_inv 2 1 1 (parents ex_parents (\<lambda>_. False)) 0 {#} (ex_state False)"
    "model_inv 2 1 1 (parents ex_parents (\<lambda>_. False)) 1 {#} (ex_state True)"
    by (simp_all add: model_inv_def ordered_def balanced_def presence_def cached_def node_cost_def ex_state_def all2)
qed

text \<open>\<open>moveRight\<close> adds one to the cost of the node at the front in constant time: it returns,
  the nodes from position \<open>b\<close> on stay sorted by cost and indexed by \<open>CI\<close>, \<open>nodeId\<close> and \<open>nodeMap\<close> stay
  inverse permutations, every other node keeps its cost, and the positions before \<open>b\<close> and the cache
  are left alone.\<close>

theorem moveRight_sorted:
  assumes "cost_inv n maxc b st" "b < n" "n < U32" "maxc + 1 < U32" "node_cost st (nodeId st ! b) < maxc"
  shows "\<exists>st'. moveRight (nodeId st ! b) st = Some st' \<and> cost_inv n maxc b st' \<and> sorted (drop b (cost st')) \<and>
    inv_pair n (nodeMap st') (nodeId st') \<and> frame b st st' \<and>
    (\<forall>v<n. node_cost st' v = node_cost st v + (if v = nodeId st ! b then 1 else 0))"
  using moveRight_ok[OF assms(1-4) refl assms(5)] by (auto simp: ok_iff cost_inv_sorted dest: cost_invD(1))

text \<open>C5: \<open>moveLeft\<close> takes one from the cost of a node that is not placed, under the same terms
  (stale entries of \<open>CI\<close> at or before \<open>minPtr\<close> are repaired on the way).\<close>

theorem moveLeft_sorted:
  assumes "cost_inv n maxc (Suc m) st" "m < n" "n < U32" "maxc + 1 < U32" "v < n" "m < nodeMap st ! v"
    "0 < node_cost st v"
  shows "\<exists>st'. moveLeft v m st = Some st' \<and> cost_inv n maxc (Suc m) st' \<and> sorted (drop (Suc m) (cost st')) \<and>
    inv_pair n (nodeMap st') (nodeId st') \<and> frame (Suc m) st st' \<and>
    (\<forall>u<n. node_cost st' u = node_cost st u - (if u = v then 1 else 0))"
  using moveLeft_ok[OF assms] by (auto simp: ok_iff cost_inv_sorted dest: cost_invD(1))

lemma ex_cost: "cost_inv 2 1 (Suc 0) (ex_state True)"
  using ex_inv(2) by (simp add: model_inv_def ordered_def)

theorem moveLeft_sorted_witness:
  "\<exists>st'. moveLeft 1 0 (ex_state True) = Some st' \<and> cost_inv 2 1 (Suc 0) st' \<and> node_cost st' 1 = 0"
  using moveLeft_sorted[OF ex_cost, of 1] by (auto simp: ex_state_def node_cost_def)

theorem moveRight_sorted_witness:
  "\<exists>st'. moveRight 0 (ex_state False\<lparr>cost := [0, 0], CI := [0, 2]\<rparr>) = Some st' \<and> node_cost st' 0 = 1"
proof -
  have "cost_inv 2 1 0 (ex_state False\<lparr>cost := [0, 0], CI := [0, 2]\<rparr>)"
    by (auto simp: cost_inv_def inv_pair_def ex_state_def all2 boundary_def le_Suc_eq numeral_2_eq_2 less_Suc_eq)
  from moveRight_sorted[OF this] show ?thesis by (auto simp: ex_state_def node_cost_def)
qed

text \<open>C4: \<open>loadParents\<close> keeps the invariant of the cache model: every node that is not placed costs
  \<open>maxCost\<close> less the number of its parents in the cache (and less what is postponed in \<open>updates\<close>); the
  cache gains the parents of the node, and the result is the number of parents that were not there.\<close>

theorem loadParents_model:
  assumes "cache_graphs n N maxc G1 G2 (\<lambda>_. Some False) (\<lambda>_. False)"
    "model_inv n N maxc (adj G1) (Suc m) W st" "m < n" "size W + length (adj G1 (nodeId st ! m)) < U32"
  shows "\<exists>st' k. loadParents G1 G2 m m st = Some (st', k) \<and>
    model_inv n N maxc (adj G1) (Suc m) (W + mset (adj G1 (nodeId st ! m))) st' \<and>
    k = card (set (adj G1 (nodeId st ! m)) - set_mset W)"
proof -
  let ?A = "adj G1 (nodeId st ! m)"
  have "set_mset (W + mset ?A) = set_mset W \<union> (set ?A - set_mset W)" by auto
  then have "card (set_mset (W + mset ?A)) = card (set_mset W) + card (set ?A - set_mset W)"
    by (simp only:) (rule card_Un_disjoint; auto)
  then show ?thesis
    using loadParents_by_ok[OF assms(1) _ assms(3,3), of W st] assms(2,4)
    by (auto simp: ok_iff loadParents_def)
qed

theorem loadParents_model_witness:
  "\<exists>st'. loadParents ex_parents ex_children 0 0 (ex_state True) = Some (st', 1) \<and>
    model_inv 2 1 1 (adj ex_parents) 1 {#0#} st'"
proof -
  have a: "adj ex_parents (nodeId (ex_state True) ! 0) = [0]"
    by (simp add: ex_parents_def ex_state_def adj_def eend_def slice_def)
  have "model_inv 2 1 1 (adj ex_parents) (Suc 0) {#} (ex_state True)" using ex_inv(2) by simp
  from loadParents_model[OF ex_graphs this] show ?thesis by (auto simp: a)
qed

text \<open>\<open>evictParents\<close> takes the parents of a placed node out of the cache and postpones the cost
  updates of their children; the invariant of the model holds again and the result is the number of
  parents that left the cache. The skipping version of \<open>ph\<close> does this for the parents it counts.\<close>

theorem evictParents_model:
  assumes "cache_graphs n N maxc G1 G2 (ph_skip outDeg thresh) sk"
    "model_inv n N maxc (parents G1 sk) b W st" "node < n" "b \<le> n"
    "mset (parents G1 sk (nodeId st ! node)) \<subseteq># W" "size W < U32"
  shows "\<exists>st' k. ph_evictParents outDeg thresh G1 G2 node st = Some (st', k) \<and>
    model_inv n N maxc (parents G1 sk) b (W - mset (parents G1 sk (nodeId st ! node))) st' \<and>
    k = card (set_mset W) - card (set_mset (W - mset (parents G1 sk (nodeId st ! node)))) \<and>
    nodeId st' = nodeId st \<and> cost st' = cost st"
  using evictParents_by_ok[OF assms(1,2), of node] assms(3-)
  by (auto simp: ok_iff ph_evictParents_def same_order_def)

definition ex_loaded :: cache_state where
  "ex_loaded = \<lparr>cost = [1, 0], nodeMap = [0, 1], nodeId = [0, 1], CI = [1, 2], cachePresence = [1],
     isPlaced = [True, False], updates = [0, 0]\<rparr>"

lemma ex_loaded_inv: "model_inv 2 1 1 (parents ex_parents (\<lambda>_. False)) 1 {#0#} ex_loaded"
  by (auto simp: model_inv_def ordered_def balanced_def presence_def cached_def node_cost_def ex_loaded_def
    cost_inv_def inv_pair_def boundary_def all2 le_Suc_eq less_Suc_eq numeral_2_eq_2 ex_parents_def adj_def
    eend_def slice_def)

theorem evictParents_model_witness:
  "\<exists>st'. ph_evictParents [2] 5 ex_parents ex_children 0 ex_loaded = Some (st', 1) \<and>
    model_inv 2 1 1 (parents ex_parents (\<lambda>_. False)) 1 {#} st'"
proof -
  have a: "parents ex_parents (\<lambda>_. False) (nodeId ex_loaded ! 0) = [0]"
    by (simp add: ex_parents_def ex_loaded_def adj_def eend_def slice_def)
  have "cache_graphs 2 1 1 ex_parents ex_children (ph_skip [2] 5) (\<lambda>_. False)"
    using ex_graphs by (auto simp: cache_graphs_def ph_skip_def)
  from evictParents_model[OF this ex_loaded_inv, of 0] show ?thesis unfolding a by auto
qed

end
