(* ===== verification/Relabel.thy ===== *)
theory Relabel
  imports Cache_Model
begin

text \<open>
  Applying a new vertex order to a graph: the last part of \<open>main.cpp\<close> in \<open>br/block_reordering\<close> and
  \<open>ph/pH\<close>. \<open>newNodeId\<close> lists the old vertices in the new order and \<open>newNodeMap\<close> is its inverse; the
  code writes the CSR of the renamed graph row by row. The two programs differ in the way they look
  up the end of a row of the old graph (\<open>row_end\<close>).
  The interface \<open>node_order\<close> is what a reordering program promises (two arrays inverse to each other);
  its clients show that every such program outputs an isomorphic graph.
\<close>

section \<open>The code\<close>

text \<open>\<open>for (j = base; j < stop; j++) { G2.EI[j] = map[G1.EI[start + tempId]]; tempId++; }\<close>\<close>

definition copy_row :: "u32 list \<Rightarrow> u32 list \<Rightarrow> u32 \<Rightarrow> u32 \<Rightarrow> u32 \<Rightarrow> u32 list \<Rightarrow> u32 list option" where
  "copy_row newNodeMap EI1 parentStartId base stop ei = do {
     (ei, tempId) \<leftarrow> for_range base stop (\<lambda>j (ei, tempId). do {
       e \<leftarrow> aget EI1 (uadd parentStartId tempId);
       x \<leftarrow> aget newNodeMap e;
       ei \<leftarrow> aput ei j x;
       Some (ei, uadd tempId 1)
     }) (ei, 0);
     Some ei
   }"

definition apply_order ::
  "(graph \<Rightarrow> u32 \<Rightarrow> u32 option) \<Rightarrow> u32 list \<Rightarrow> u32 list \<Rightarrow> graph \<Rightarrow> graph \<Rightarrow> graph option" where
  "apply_order row_end newNodeId newNodeMap G1 G2 = do {
     vi \<leftarrow> aput (VI G2) 0 0;
     (vi, ei) \<leftarrow> for_range 1 (numVertex G2) (\<lambda>i (vi, ei). do {
       prevNodeId \<leftarrow> aget newNodeId (usub i 1);
       parentStartId \<leftarrow> aget (VI G1) prevNodeId;
       parentEndId \<leftarrow> row_end G1 prevNodeId;
       base \<leftarrow> aget vi (usub i 1);
       let stop = uadd base (usub parentEndId parentStartId);
       vi \<leftarrow> aput vi i stop;
       ei \<leftarrow> copy_row newNodeMap (EI G1) parentStartId base stop ei;
       Some (vi, ei)
     }) (vi, EI G2);
     prevNodeId \<leftarrow> aget newNodeId (usub (numVertex G2) 1);
     parentStartId \<leftarrow> aget (VI G1) prevNodeId;
     base \<leftarrow> aget vi (usub (numVertex G2) 1);
     ei \<leftarrow> copy_row newNodeMap (EI G1) parentStartId base (numEdges G2) ei;
     Some (G2\<lparr>VI := vi, EI := ei\<rparr>)
   }"

section \<open>The renamed graph\<close>

definition relabel_edges :: "nat list \<Rightarrow> nat list \<Rightarrow> graph \<Rightarrow> (nat \<times> nat) list" where
  "relabel_edges ni nm G = concat (map (\<lambda>i. map (\<lambda>e. (i, nm ! e)) (adj G (ni ! i))) [0..<length ni])"

lemma relabel_edges_mset:
  assumes ip: "inv_pair n nm ni" and n: "numVertex G = n"
  shows "mset (relabel_edges ni nm G) = image_mset (\<lambda>(a, b). (nm ! a, nm ! b)) (mset (edges G))"
proof -
  note d = inv_pairD[OF ip]
  let ?h = "\<lambda>v. map (\<lambda>e. (nm ! v, nm ! e)) (adj G v)"
  have "relabel_edges ni nm G = concat (map ?h (map ((!) ni) [0..<length ni]))"
    unfolding relabel_edges_def map_map comp_def
    by (intro arg_cong[of _ _ concat] map_cong refl) (use d in auto)
  then have eq: "relabel_edges ni nm G = concat (map ?h ni)" by (simp only: map_nth)
  have sum: "mset (concat (map h xs)) = sum_mset (image_mset (\<lambda>v. mset (h v)) (mset xs))"
    for h :: "nat \<Rightarrow> (nat \<times> nat) list" and xs
    by (induction xs) auto
  have "mset (concat (map ?h ni)) = mset (concat (map ?h [0..<n]))"
    by (simp only: sum inv_pair_perm(1)[OF ip])
  also have "concat (map ?h [0..<n]) = map (\<lambda>(a, b). (nm ! a, nm ! b)) (edges G)"
    by (simp add: edges_def n map_concat comp_def)
  finally show ?thesis unfolding eq by simp
qed

lemma bucket_relabel: "i < length ni \<Longrightarrow> bucket (relabel_edges ni nm G) i = map ((!) nm) (adj G (ni ! i))"
proof -
  have "bucket (map (\<lambda>e. (u, nm ! e)) xs) i = (if u = i then map ((!) nm) xs else [])" for u xs
    by (induction xs) auto
  moreover have "concat (map (\<lambda>u. if u = i then f u else []) [0..<n]) = (if i < n then f i else [])"
    for n and f :: "nat \<Rightarrow> nat list"
    by (induction n) (auto simp: less_Suc_eq)
  ultimately show "i < length ni \<Longrightarrow> ?thesis"
    by (simp add: relabel_edges_def bucket_concat comp_def)
qed

section \<open>Writing it row by row\<close>

lemma copy_row_ok:
  assumes xs: "xs = slice EI1 start (start + length xs)" "start + length xs \<le> length EI1" "start + length xs < U32"
    and bnd: "base + length xs \<le> length ei" and e: "\<And>e. e \<in> set xs \<Longrightarrow> e < length nm"
  shows "copy_row nm EI1 start base (base + length xs) ei =
    Some (take base ei @ map ((!) nm) xs @ drop (base + length xs) ei)"
proof -
  let ?P = "\<lambda>j (ei', t). t = j - base \<and> ei' = take base ei @ map ((!) nm) (take (j - base) xs) @ drop j ei"
  let ?body = "\<lambda>j (ei, tempId). do {
       e \<leftarrow> aget EI1 (uadd start tempId); x \<leftarrow> aget nm e; ei \<leftarrow> aput ei j x; Some (ei, uadd tempId 1) }"
  have nth: "xs ! t = EI1 ! (start + t)" if "t < length xs" for t
    using xs(1,2) that by (metis add_less_cancel_left nth_slice)
  have "ok (for_range base (base + length xs) ?body (ei, 0)) (?P (base + length xs))"
  proof (rule ok_for_range[where P = ?P])
    fix j s assume j: "base \<le> j" "j < base + length xs" and P: "?P j s"
    obtain t where t: "j = base + t" "t < length xs" using j by (metis le_Suc_ex nat_add_left_cancel_less)
    have e: "EI1 ! (start + t) < length nm" using e[OF nth_mem[OF t(2)]] nth[OF t(2)] by simp
    have d: "drop j ei = ei ! j # drop (Suc j) ei" using t bnd by (simp add: Cons_nth_drop_Suc)
    have "min (length ei) base = base" using bnd by simp
    then have "(take base ei @ map ((!) nm) (take t xs) @ drop j ei)[j := nm ! (EI1 ! (start + t))] =
      take base ei @ map ((!) nm) (take (Suc t) xs) @ drop (Suc j) ei"
      unfolding d using t bnd nth[OF t(2)] by (simp add: list_update_append take_Suc_conv_app_nth)
    then show "ok (?body j s) (?P (Suc j))"
      using P t xs bnd e by (auto simp: uadd_exact Suc_diff_le)
  qed auto
  then show ?thesis by (auto simp: copy_row_def ok_iff)
qed

lemma copy_csr_row:
  assumes wf: "wf_csr G" and v: "v < numVertex G" and e: "\<And>e. e \<in> set (adj G v) \<Longrightarrow> e < length nm"
    and b: "base + length (adj G v) \<le> length ei"
  shows "copy_row nm (EI G) (VI G ! v) base (base + length (adj G v)) ei =
    Some (take base ei @ map ((!) nm) (adj G v) @ drop (base + length (adj G v)) ei)"
proof (rule copy_row_ok)
  note w = wf_csrD[OF wf]
  have l: "VI G ! v + length (adj G v) = eend G v" using w(4) w(7,8)[OF v] by (simp add: adj_def)
  then show "adj G v = slice (EI G) (VI G ! v) (VI G ! v + length (adj G v))" by (simp add: adj_def)
  show "VI G ! v + length (adj G v) \<le> length (EI G)" "VI G ! v + length (adj G v) < U32"
    unfolding l using w(3,4) w(8)[OF v] by simp_all
qed (use b e in auto)

lemma length_adj: "wf_csr G \<Longrightarrow> v < numVertex G \<Longrightarrow> length (adj G v) = eend G v - VI G ! v"
  using wf_csrD(4)[of G] wf_csrD(8)[of G v] by (simp add: adj_def)

lemma length_adj_less: "wf_csr G \<Longrightarrow> v < numVertex G \<Longrightarrow> length (adj G v) < U32"
  using length_adj[of G v] wf_csrD(8)[of G v] wf_csrD(3)[of G] by simp

lemma adj_less: "wf_csr G \<Longrightarrow> v < numVertex G \<Longrightarrow> e \<in> set (adj G v) \<Longrightarrow> e \<in> set (take (numEdges G) (EI G))"
proof -
  assume h: "wf_csr G" "v < numVertex G" "e \<in> set (adj G v)"
  then have "(v, e) \<in> set (edges G)" by (auto simp: edges_def)
  then have "e \<in> set (map snd (edges G))" by force
  then show ?thesis by (simp only: snd_edges[OF h(1)])
qed

lemma apply_order_ok:
  assumes wf: "wf_csr G1" and n: "numVertex G1 = n" and ip: "inv_pair n nm ni"
    and ei: "\<forall>e \<in> set (take (numEdges G1) (EI G1)). e < n"
    and re: "\<And>v. v < n \<Longrightarrow> row_end G1 v = Some (eend G1 v)"
    and G2: "numVertex G2 = n" "numEdges G2 = numEdges G1" "length (VI G2) = n" "length (EI G2) = numEdges G1"
  shows "apply_order row_end ni nm G1 G2 = Some (csr_graph n n (relabel_edges ni nm G1))"
proof -
  note w = wf_csrD[OF wf] and d = inv_pairD[OF ip]
  let ?ps = "relabel_edges ni nm G1" and ?m = "numEdges G1"
  have b: "bucket ?ps i = map ((!) nm) (adj G1 (ni ! i))" if "i < n" for i
    using bucket_relabel that d(2) by simp
  have len: "length ?ps = ?m"
    using arg_cong[OF relabel_edges_mset[OF ip n], of size] length_edges[OF wf] by simp
  have ps: "fst p < n" if "p \<in> set ?ps" for p
    using that d(2) by (auto simp: relabel_edges_def)
  have st: "starts ?ps n = ?m" using starts_all[OF ps order.refl] len by simp
  have S: "starts ?ps (Suc i) = starts ?ps i + length (adj G1 (ni ! i))" if "i < n" for i
    using b[OF that] by (simp add: starts_Suc)
  have C: "csr_of (Suc i) ?ps = csr_of i ?ps @ map ((!) nm) (adj G1 (ni ! i))" if "i < n" for i
    using b[OF that] by (simp add: csr_of_def)
  have row: "copy_row nm (EI G1) (VI G1 ! (ni ! i)) (starts ?ps i) (starts ?ps (Suc i)) (csr_of i ?ps @ zs) =
      Some (csr_of (Suc i) ?ps @ drop (length (adj G1 (ni ! i))) zs)"
    if "i < n" "length (csr_of i ?ps @ zs) = ?m" for i zs
  proof -
    have v: "ni ! i < numVertex G1" using d(5)[OF that(1)] n by simp
    have e: "e < length nm" if "e \<in> set (adj G1 (ni ! i))" for e
      using adj_less[OF wf v that] ei d(1) by auto
    have bnd: "starts ?ps i + length (adj G1 (ni ! i)) \<le> ?m"
      using S[OF that(1)] starts_le[of ?ps "Suc i"] len by simp
    show ?thesis
      unfolding S[OF that(1)] C[OF that(1)]
      by (subst copy_csr_row[OF wf v e]) (use that bnd in \<open>simp_all add: length_csr_of\<close>)
  qed
  let ?P = "\<lambda>i (vi, ei). length vi = n \<and> (\<forall>k<i. vi ! k = starts ?ps k) \<and>
     (\<exists>zs. ei = csr_of (i - 1) ?ps @ zs) \<and> length ei = ?m"
  let ?body = "\<lambda>i (vi, ei). do {
       prevNodeId \<leftarrow> aget ni (usub i 1);
       parentStartId \<leftarrow> aget (VI G1) prevNodeId;
       parentEndId \<leftarrow> row_end G1 prevNodeId;
       base \<leftarrow> aget vi (usub i 1);
       let stop = uadd base (usub parentEndId parentStartId);
       vi \<leftarrow> aput vi i stop;
       ei \<leftarrow> copy_row nm (EI G1) parentStartId base stop ei;
       Some (vi, ei) }"
  have n0: "0 < n" "n < U32" using w(1,2) n by auto
  have loop: "ok (for_range 1 n ?body ((VI G2)[0 := 0], EI G2)) (?P n)"
  proof (rule ok_for_range[where P = ?P])
    show "?P 1 ((VI G2)[0 := 0], EI G2)" using G2 n0 by (simp add: csr_of_def)
    show "1 \<le> n" using n0 by simp
    fix i s assume i: "1 \<le> i" "i < n" and P: "?P i s"
    obtain vi ei where s: "s = (vi, ei)" by force
    obtain k where k: "i = Suc k" using i by (cases i) auto
    obtain zs where zs: "ei = csr_of k ?ps @ zs" using P s k by auto
    have kn: "k < n" and v: "ni ! k < n" using i k d(5) by auto
    have us: "usub i 1 = k" using i k n0 by (subst usub_exact) auto
    have vk: "vi ! k = starts ?ps k" "length vi = n" "length ei = ?m" using P s k by auto
    have le: "starts ?ps k + length (adj G1 (ni ! k)) \<le> ?m" using S[OF kn] starts_le[of ?ps "Suc k"] len by simp
    have vk1: "starts ?ps (Suc k) < U32" using starts_le[of ?ps "Suc k"] len w(3) by simp
    have "usub (eend G1 (ni ! k)) (VI G1 ! (ni ! k)) = length (adj G1 (ni ! k))"
      using w(7,8)[of "ni ! k"] w(3) v n length_adj[OF wf, of "ni ! k"] by (subst usub_exact) auto
    then have ua: "uadd (starts ?ps k) (usub (eend G1 (ni ! k)) (VI G1 ! (ni ! k))) = starts ?ps (Suc k)"
      using S[OF kn] vk1 by (simp add: uadd_exact)
    have r: "copy_row nm (EI G1) (VI G1 ! (ni ! k)) (starts ?ps k) (starts ?ps (Suc k)) ei =
      Some (csr_of (Suc k) ?ps @ drop (length (adj G1 (ni ! k))) zs)"
      unfolding zs by (rule row[OF kn]) (use vk zs in simp)
    have "ok (?body i s) (\<lambda>s'. s' = (vi[Suc k := starts ?ps (Suc k)], csr_of (Suc k) ?ps @ drop (length (adj G1 (ni ! k))) zs))"
      unfolding s using kn i k v vk re[OF v] w(5) d(2) n unfolding us
      by (simp add: Let_def ua r)
    moreover have "?P (Suc i) (vi[Suc k := starts ?ps (Suc k)], csr_of (Suc k) ?ps @ drop (length (adj G1 (ni ! k))) zs)"
      using P s k i vk zs S[OF kn] le by (auto simp: less_Suc_eq nth_list_update length_csr_of)
    ultimately show "ok (?body i s) (?P (Suc i))" by (auto simp: ok_iff)
  qed
  then obtain vi ei zs where l: "for_range 1 n ?body ((VI G2)[0 := 0], EI G2) = Some (vi, ei)" "length vi = n"
    "\<And>k. k < n \<Longrightarrow> vi ! k = starts ?ps k" "ei = csr_of (n - 1) ?ps @ zs" "length ei = ?m"
    by (auto simp: ok_iff)
  have k: "n - 1 < n" "Suc (n - 1) = n" "usub n 1 = n - 1" using n0 by (simp_all add: usub_exact)
  have vn: "ni ! (n - 1) < n" using d(5) k by simp
  have r: "copy_row nm (EI G1) (VI G1 ! (ni ! (n - 1))) (starts ?ps (n - 1)) ?m ei = Some (csr_of n ?ps)"
  proof -
    have "copy_row nm (EI G1) (VI G1 ! (ni ! (n - 1))) (starts ?ps (n - 1)) (starts ?ps (Suc (n - 1))) ei =
      Some (csr_of (Suc (n - 1)) ?ps @ drop (length (adj G1 (ni ! (n - 1)))) zs)"
      unfolding l(4) by (rule row[OF k(1)]) (use l(4,5) in simp)
    moreover have "drop (length (adj G1 (ni ! (n - 1)))) zs = []"
      using l(4,5) S[OF k(1)] st k(2) by (simp add: length_csr_of)
    ultimately show ?thesis using st unfolding k(2) by simp
  qed
  have vi: "vi = map (starts ?ps) [0..<n]" using l(2,3) by (intro nth_equalityI) auto
  have "apply_order row_end ni nm G1 G2 = Some (G2\<lparr>VI := vi, EI := csr_of n ?ps\<rparr>)"
    using n0 G2 l k vn r w(5) n d(2) by (simp add: apply_order_def)
  then show ?thesis using G2 len vi by (cases G2) (simp add: csr_graph_def)
qed

section \<open>Programs that compute an order\<close>

definition isomorphic_by :: "nat list \<Rightarrow> graph \<Rightarrow> graph \<Rightarrow> bool" where
  "isomorphic_by nm G G' \<longleftrightarrow> wf_csr G' \<and> numVertex G' = numVertex G \<and> numEdges G' = numEdges G \<and>
     bij_betw ((!) nm) {..<numVertex G} {..<numVertex G} \<and>
     mset (edges G') = image_mset (\<lambda>(a, b). (nm ! a, nm ! b)) (mset (edges G)) \<and>
     (\<forall>v < numVertex G. adj G' (nm ! v) = map ((!) nm) (adj G v))"

lemma inv_pair_bij: "inv_pair n nm ni \<Longrightarrow> bij_betw ((!) nm) {..<n} {..<n}"
  by (rule bij_betw_byWitness[where f' = "(!) ni"]) (auto simp: inv_pair_def)

lemma relabel_isomorphic:
  assumes wf: "wf_csr G1" and n: "numVertex G1 = n" and ip: "inv_pair n nm ni"
  shows "isomorphic_by nm G1 (csr_graph n n (relabel_edges ni nm G1))"
proof -
  note w = wf_csrD[OF wf] and d = inv_pairD[OF ip]
  let ?ps = "relabel_edges ni nm G1"
  have len: "length ?ps = numEdges G1"
    using arg_cong[OF relabel_edges_mset[OF ip n], of size] length_edges[OF wf] by simp
  have ps: "fst p < n" if "p \<in> set ?ps" for p
    using that d(2) by (auto simp: relabel_edges_def)
  note g = csr_graph[of n ?ps n, OF _ _ _ order.refl ps]
  have "adj (csr_graph n n ?ps) (nm ! v) = map ((!) nm) (adj G1 v)" if "v < n" for v
    using g(2)[of "nm ! v"] bucket_relabel[of "nm ! v" ni nm G1] w(1-3) n len d that by simp
  then show ?thesis
    unfolding isomorphic_by_def
    using g(1,3) w(1-3) n len inv_pair_bij[OF ip] relabel_edges_mset[OF ip n] by (simp add: csr_graph_def)
qed

locale node_order =
  fixes pre :: "graph \<Rightarrow> bool"
    and order :: "graph \<Rightarrow> (u32 list \<times> u32 list) option"
    and row_end :: "graph \<Rightarrow> u32 \<Rightarrow> u32 option"
  assumes order_perm: "pre G \<Longrightarrow> ok (order G) (\<lambda>(nm, ni). inv_pair (numVertex G) nm ni)"
    and pre_wf: "pre G \<Longrightarrow> wf_csr G"
    and pre_targets: "pre G \<Longrightarrow> \<forall>e \<in> set (take (numEdges G) (EI G)). e < numVertex G"
    and row_end_eend: "pre G \<Longrightarrow> v < numVertex G \<Longrightarrow> row_end G v = Some (eend G v)"
begin

lemma reorder_isomorphic:
  assumes "pre G" "numVertex G2 = numVertex G" "numEdges G2 = numEdges G"
    "length (VI G2) = numVertex G" "length (EI G2) = numEdges G"
  shows "ok (do { (nm, ni) \<leftarrow> order G; G' \<leftarrow> apply_order row_end ni nm G G2; Some (nm, ni, G') })
    (\<lambda>(nm, ni, G'). inv_pair (numVertex G) nm ni \<and> isomorphic_by nm G G')"
proof -
  have "ok (apply_order row_end ni nm G G2) (isomorphic_by nm G)" if "inv_pair (numVertex G) nm ni" for nm ni
    using apply_order_ok[OF pre_wf[OF assms(1)] refl that pre_targets[OF assms(1)], of row_end G2]
      relabel_isomorphic[OF pre_wf[OF assms(1)] refl that] row_end_eend[OF assms(1)] assms(2-5) by simp
  then have "ok (case p of (nm, ni) \<Rightarrow> do { G' \<leftarrow> apply_order row_end ni nm G G2; Some (nm, ni, G') })
      (\<lambda>(nm, ni, G'). inv_pair (numVertex G) nm ni \<and> isomorphic_by nm G G')"
    if "case p of (nm, ni) \<Rightarrow> inv_pair (numVertex G) nm ni" for p
    using that by (cases p) (auto elim!: ok_mono)
  then show ?thesis unfolding ok_bind by (rule ok_mono[OF order_perm[OF assms(1)]])
qed

end

section \<open>Properties\<close>

text \<open>C9: Applying an order to a graph returns a well-formed graph and is an isomorphism: the vertex
  \<open>v\<close> becomes \<open>newNodeMap[v]\<close>, its neighbours stay in their order and are renamed, and the edges are the
  renamed edges. No access is out of bounds and no index wraps around.\<close>

theorem apply_order_isomorphic:
  assumes "wf_csr G1" "inv_pair (numVertex G1) nm ni" "\<forall>e \<in> set (take (numEdges G1) (EI G1)). e < numVertex G1"
    "numVertex G2 = numVertex G1" "numEdges G2 = numEdges G1" "length (VI G2) = numVertex G1" "length (EI G2) = numEdges G1"
  shows "\<exists>G'. apply_order edge_end ni nm G1 G2 = Some G' \<and> wf_csr G' \<and> numVertex G' = numVertex G1 \<and>
    mset (edges G') = image_mset (\<lambda>(a, b). (nm ! a, nm ! b)) (mset (edges G1)) \<and>
    (\<forall>v < numVertex G1. adj G' (nm ! v) = map ((!) nm) (adj G1 v))"
  using apply_order_ok[OF assms(1) refl assms(2,3), of edge_end G2] relabel_isomorphic[OF assms(1) refl assms(2)]
    edge_end_ok[OF assms(1)] assms(4-7) by (simp add: isomorphic_by_def)

theorem apply_order_isomorphic_witness:
  "\<exists>G'. apply_order edge_end [2, 0, 1] [1, 2, 0] \<lparr>numVertex = 3, numEdges = 3, VI = [0, 2, 2], EI = [1, 2, 0]\<rparr>
      \<lparr>numVertex = 3, numEdges = 3, VI = [0, 0, 0], EI = [0, 0, 0]\<rparr> = Some G' \<and>
    wf_csr G' \<and> mset (edges G') = {#(1, 2), (1, 0), (0, 1)#}"
proof -
  let ?G = "\<lparr>numVertex = 3, numEdges = 3, VI = [0, 2, 2], EI = [1, 2, 0 :: nat]\<rparr>"
  have "wf_csr ?G" by (simp add: wf_csr_def eend_def less_Suc_eq numeral_3_eq_3 numeral_2_eq_2)
  moreover have "edges ?G = [(0, 1), (0, 2), (2, 0)]"
    by (simp add: edges_def adj_def eend_def slice_def numeral_2_eq_2 numeral_3_eq_3 upt_rec)
  moreover have "inv_pair 3 [1, 2, 0] [2, 0, 1]"
    by (simp add: inv_pair_def less_Suc_eq numeral_2_eq_2 numeral_3_eq_3)
  ultimately show ?thesis
    using apply_order_isomorphic[of ?G "[1, 2, 0]" "[2, 0, 1]"
      "\<lparr>numVertex = 3, numEdges = 3, VI = [0, 0, 0], EI = [0, 0, 0]\<rparr>"] by auto
qed

end
