(* ===== verification/Program.thy ===== *)
theory Program
  imports Graph_IO Relabel
begin

text \<open>
  What the \<open>main\<close> functions of the reordering programs share: the command line, the files they write, and
  the composition of reading a graph, renaming it and writing it.
\<close>

section \<open>The code\<close>

type_synonym file_system = "string \<Rightarrow> string option"

text \<open>The exit status and the files written, in the order in which they are written.\<close>

type_synonym outcome = "nat \<times> (string \<times> string) list"

definition atoi :: "string \<Rightarrow> u32 option" where
  "atoi s = do { r \<leftarrow> scan_d s; Some (case fst r of None \<Rightarrow> 0 | Some v \<Rightarrow> v) }"

text \<open>\<open>for (int i = 0; i < n; i++) fprintf(fp, "%d\n", order[i])\<close>; the \<open>int\<close> counter overflows beyond \<open>2^31 - 1\<close>.
  A file that could not be opened is a null pointer.\<close>

definition dump_order :: "(string \<Rightarrow> bool) \<Rightarrow> string \<Rightarrow> u32 list \<Rightarrow> u32 \<Rightarrow> (string \<times> string) option" where
  "dump_order writable name order n = do {
     s \<leftarrow> for_range 0 n (\<lambda>i s. if U32 div 2 - 1 \<le> i then None
       else do { x \<leftarrow> aget order i; Some (s @ print_d x @ [newline]) }) [];
     if writable name then Some (name, s) else None
   }"

section \<open>Files and orders\<close>

lemma atoi_print: "v < U32 div 2 \<Longrightarrow> atoi (print_d v) = Some v"
proof -
  assume v: "v < U32 div 2"
  obtain d ds where d: "to_string v = d # ds" "is_digit d" using to_string_Cons by blast
  have ds: "\<forall>c \<in> set (to_string v). is_digit c" by (rule to_string_digits)
  then have t: "takeWhile is_digit (to_string v) = to_string v" "dropWhile is_digit (to_string v) = []"
    by (simp_all add: takeWhile_eq_all_conv)
  have "scan_sign (dropWhile is_space (to_string v)) = (False, to_string v)"
    using d digit_not_sign[OF d(2)] digit_not_space[OF d(2)] by (simp add: scan_sign_def)
  moreover have ne: "to_string v \<noteq> []" using d(1) by simp
  ultimately have "scan_d (to_string v) = Some (Some v, [])"
    unfolding scan_d_def using v ne by (simp only: prod.case Let_def t decimal_to_string if_False if_True)
  then show ?thesis using v by (simp add: atoi_def print_d_def)
qed

lemma dump_order_ok:
  assumes "n \<le> length order" "n < U32 div 2"
  shows "dump_order writable name order n =
    (if writable name then Some (name, concat (map (\<lambda>x. print_d x @ [newline]) (take n order))) else None)"
proof -
  have "mfold (\<lambda>x s. Some (s @ print_d x @ [newline])) ys s = Some (s @ concat (map (\<lambda>x. print_d x @ [newline]) ys))" for ys s
    by (induction ys arbitrary: s) auto
  moreover have "for_range 0 n (\<lambda>i s. if U32 div 2 - 1 \<le> i then None
       else do { x \<leftarrow> aget order i; Some (s @ print_d x @ [newline]) }) [] =
     mfold (\<lambda>x s. Some (s @ print_d x @ [newline])) (slice order 0 n) []"
    by (rule for_range_slice) (use assms in auto)
  ultimately show ?thesis by (simp add: dump_order_def)
qed

text \<open>The rows of a file are the edges \<open>es\<close>, in some order.\<close>

definition holds_edges :: "string \<Rightarrow> (nat \<times> nat) multiset \<Rightarrow> bool" where
  "holds_edges s es \<longleftrightarrow> (\<exists>n src dst. read_edge_list (Some s) = Some (Some (n, src, dst)) \<and>
     length src = length dst \<and> mset (zip src dst) = es)"

lemma zip_map_fst_snd: "zip (map fst ps) (map snd ps) = ps"
  by (induction ps) auto

lemma graph_pre:
  assumes es: "\<forall>(a, b) \<in> set es. a < U32 div 2 - 1 \<and> b < U32 div 2 - 1" "length es < U32" "\<forall>(a, b) \<in> set es. a \<noteq> b" "es \<noteq> []"
  shows "card (ends es) < U32 div 2" "2 \<le> card (ends es)"
    "wf_csr (graph_of es)" "\<forall>e \<in> set (EI (graph_of es)). e < numVertex (graph_of es)"
    "length (EI (graph_of es)) = length es" "numEdges (graph_of es) = length es" "numVertex (graph_of es) = card (ends es)"
    "length (VI (graph_of es)) = card (ends es) + 1" "VI (graph_of es) ! card (ends es) = length es"
    "mset (edges (graph_of es)) = mset (renumber es)"
proof -
  have sub: "ends es \<subseteq> {..<U32 div 2 - 1}" using es(1) by (auto simp: ends_def)
  show c: "card (ends es) < U32 div 2" using card_mono[OF _ sub] by simp
  obtain a b where ab: "(a, b) \<in> set es" using es(4) by (metis list.set_sel(1) surj_pair)
  have s: "a \<in> ends es" "b \<in> ends es" using ab by (force simp: ends_def)+
  have "a \<noteq> b" using es(3) ab by blast
  with s have "card {a, b} \<le> card (ends es)" "card {a, b} = 2" using card_mono[OF finite_ends, of "{a, b}" es] by simp_all
  then show "2 \<le> card (ends es)" by linarith
  have c2: "card (ends es) < U32 - 1" using c by simp
  note g = graph_of[OF es(4,2) c2]
  show "wf_csr (graph_of es)" "\<forall>e \<in> set (EI (graph_of es)). e < numVertex (graph_of es)"
    "length (EI (graph_of es)) = length es" "numEdges (graph_of es) = length es" "numVertex (graph_of es) = card (ends es)"
    "length (VI (graph_of es)) = card (ends es) + 1" "VI (graph_of es) ! card (ends es) = length es"
    "mset (edges (graph_of es)) = mset (renumber es)"
    by (fact g(1) g(2) g(3) g(4) g(5) g(6) g(7) g(8))+
qed

lemma written_graph:
  assumes es: "\<forall>(a, b) \<in> set es. a < U32 div 2 - 1 \<and> b < U32 div 2 - 1" "length es < U32" "\<forall>(a, b) \<in> set es. a \<noteq> b" "es \<noteq> []"
    and iso: "isomorphic_by nm (graph_of es) G'"
  shows "\<exists>s. write_edgelist G' = Some s \<and>
    holds_edges s (image_mset (\<lambda>(a, b). (nm ! vertex_rank (ends es) a, nm ! vertex_rank (ends es) b)) (mset es))"
proof -
  note g = graph_pre[OF es]
  let ?n = "card (ends es)" and ?r = "vertex_rank (ends es)"
  have bij: "bij_betw ((!) nm) {..<?n} {..<?n}" and m: "mset (edges G') = image_mset (\<lambda>(a, b). (nm ! a, nm ! b)) (mset (edges (graph_of es)))"
    and wf: "wf_csr G'" using iso g(7) by (simp_all add: isomorphic_by_def)
  have me: "mset (edges G') = image_mset (\<lambda>(a, b). (nm ! ?r a, nm ! ?r b)) (mset es)"
    unfolding m g(10) renumber_def mset_map by (simp add: multiset.map_comp comp_def split_def)
  have r: "inj_on ?r (ends es)" "\<And>v. v \<in> ends es \<Longrightarrow> ?r v < ?n"
    using vertex_rank_bij[OF finite_ends, of es] vertex_rank_less[OF finite_ends] by (auto simp: bij_betw_def)
  have small: "nm ! v < U32 div 2 - 1" if "v < ?n" for v
    using bij_betwE[OF bij, rule_format, of v] that g(1) unfolding lessThan_iff by linarith
  have se: "set (edges G') = (\<lambda>(a, b). (nm ! ?r a, nm ! ?r b)) ` set es"
    using arg_cong[OF me, of set_mset] by simp
  have ab: "fst p < U32 div 2 - 1 \<and> snd p < U32 div 2 - 1 \<and> fst p \<noteq> snd p" if p: "p \<in> set (edges G')" for p
  proof -
    obtain a b where ab: "(a, b) \<in> set es" "p = (nm ! ?r a, nm ! ?r b)"
      using p se by auto
    then have "a \<in> ends es" "b \<in> ends es" by (force simp: ends_def)+
    moreover have "a \<noteq> b" using es(3) ab(1) by blast
    ultimately have "?r a \<noteq> ?r b" "?r a < ?n" "?r b < ?n" using r by (auto dest: inj_onD)
    moreover from this have "nm ! ?r a \<noteq> nm ! ?r b" using bij by (auto simp: bij_betw_def dest: inj_onD)
    ultimately show ?thesis using ab(2) small by simp
  qed
  have "edges_ok (edges G')" "no_loops (edges G') = edges G'"
    using ab by (fastforce simp: edges_ok_def no_loops_def filter_id_conv)+
  then have "holds_edges (print_edges (edges G')) (mset (edges G'))"
    using read_edge_list_ok(1)[of "edges G'"] by (simp add: holds_edges_def zip_map_fst_snd)
  then show ?thesis using write_edgelist_ok[OF wf] me by auto
qed

end
