(* ===== verification/Reorder_Loop.thy ===== *)
theory Reorder_Loop
  imports Cache_Model
begin

text \<open>
  The placement loop of \<open>main.cpp\<close> in \<open>br/block_reordering\<close> and \<open>ph/pH\<close>: it settles one position
  of the node array after the other, with the cheapest node first, and keeps a window of the nodes
  placed last whose parents are in the simulated cache. The two programs share the loop body; they
  differ in the lag of the eviction (\<open>minPtr-3\<close>, \<open>minPtr-5\<close>), in the parents they count (\<open>skip\<close>) and
  in the early exit of \<open>ph\<close>.
  The main result is total correctness: the loop returns, makes no access out of bounds, and the
  array \<open>nodeId\<close> it leaves is a permutation with \<open>nodeMap\<close> its inverse.
\<close>

section \<open>The code\<close>

record reorder_params =
  parG :: graph
  childG :: graph
  skipParent :: "u32 \<Rightarrow> bool option"
  inDeg :: "u32 list"
  maxCost :: u32
  CACHE_SIZE :: u32
  lag :: u32

record window_state =
  cstate :: cache_state
  currWinCost :: u32
  currWinStartId :: u32
  minPtr :: u32

text \<open>\<open>while(updates[origId] > 0) { updates[origId]--; moveRight(...); origId = nodeId[minPtr]; }\<close>\<close>

partial_function (option) drain_updates :: "u32 \<Rightarrow> cache_state \<Rightarrow> u32 \<Rightarrow> (cache_state \<times> u32) option" where
  "drain_updates m st origId = do {
     u \<leftarrow> aget (updates st) origId;
     if u > 0 then do {
       us \<leftarrow> aput (updates st) origId (usub u 1);
       st' \<leftarrow> moveRight origId (st\<lparr>updates := us\<rparr>);
       origId' \<leftarrow> aget (nodeId st') m;
       drain_updates m st' origId'
     } else Some (st, origId)
   }"

text \<open>\<open>nodeCost = inDeg[origId] - (maxCost - cost[minPtr])\<close>\<close>

definition load_cost :: "reorder_params \<Rightarrow> u32 \<Rightarrow> cache_state \<Rightarrow> u32 \<Rightarrow> u32 option" where
  "load_cost P m st origId = do {
     d \<leftarrow> aget (inDeg P) origId;
     c \<leftarrow> aget (cost st) m;
     Some (usub d (usub (maxCost P) c))
   }"

text \<open>The eviction loop; the result is the state, \<open>origId\<close> and \<open>nodeCost\<close>.\<close>

partial_function (option) evict_window ::
  "reorder_params \<Rightarrow> window_state \<Rightarrow> u32 \<Rightarrow> u32 \<Rightarrow> (window_state \<times> u32 \<times> u32) option" where
  "evict_window P w origId nodeCost =
     (if uadd (currWinCost w) nodeCost > CACHE_SIZE P \<and> currWinStartId w < usub (minPtr w) (lag P) then do {
        nd \<leftarrow> aget (nodeId (cstate w)) (currWinStartId w);
        d \<leftarrow> aget (inDeg P) nd;
        w1 \<leftarrow> (if d \<le> CACHE_SIZE P then do {
                r \<leftarrow> evictParents_by (skipParent P) (parG P) (childG P) (currWinStartId w) (cstate w);
                Some (w\<lparr>cstate := fst r, currWinCost := usub (currWinCost w) (snd r)\<rparr>)
              } else Some w);
        origId' \<leftarrow> aget (nodeId (cstate w1)) (minPtr w);
        r \<leftarrow> drain_updates (minPtr w) (cstate w1) origId';
        nodeCost' \<leftarrow> load_cost P (minPtr w) (fst r) (snd r);
        d' \<leftarrow> aget (inDeg P) (snd r);
        if d' > CACHE_SIZE P
        then Some (w1\<lparr>cstate := fst r, currWinStartId := uadd (currWinStartId w) 1\<rparr>, snd r, nodeCost')
        else evict_window P (w1\<lparr>cstate := fst r, currWinStartId := uadd (currWinStartId w) 1\<rparr>) (snd r) nodeCost'
      } else Some (w, origId, nodeCost))"

text \<open>\<open>isPlaced[origId] = true\<close>\<close>

definition mark_placed :: "u32 \<Rightarrow> cache_state \<Rightarrow> cache_state option" where
  "mark_placed origId st = do {
     pl \<leftarrow> aput (isPlaced st) origId True;
     Some (st\<lparr>isPlaced := pl\<rparr>)
   }"

text \<open>The body of \<open>while(minPtr < numVertex)\<close>.\<close>

definition place_node :: "reorder_params \<Rightarrow> window_state \<Rightarrow> window_state option" where
  "place_node P w = do {
     let m = minPtr w;
     origId \<leftarrow> aget (nodeId (cstate w)) m;
     nodeCost \<leftarrow> load_cost P m (cstate w) origId;
     (st, origId) \<leftarrow> drain_updates m (cstate w) origId;
     d \<leftarrow> aget (inDeg P) origId;
     if d > CACHE_SIZE P then do {
       st \<leftarrow> mark_placed origId st;
       Some (w\<lparr>cstate := st, minPtr := uadd m 1\<rparr>)
     } else do {
       (w, origId, nodeCost) \<leftarrow> evict_window P (w\<lparr>cstate := st\<rparr>) origId nodeCost;
       d \<leftarrow> aget (inDeg P) origId;
       if d > CACHE_SIZE P then do {
         st \<leftarrow> mark_placed origId (cstate w);
         Some (w\<lparr>cstate := st, minPtr := uadd m 1\<rparr>)
       } else do {
         (st, origId) \<leftarrow> drain_updates m (cstate w) origId;
         st \<leftarrow> mark_placed origId st;
         (st, loaded) \<leftarrow> loadParents_by (skipParent P) (parG P) (childG P) m m st;
         Some (w\<lparr>cstate := st, currWinCost := uadd (currWinCost w) loaded, minPtr := uadd m 1\<rparr>)
       }
     }
   }"

text \<open>The loop itself; \<open>stop\<close> is the early exit of \<open>ph\<close>.\<close>

partial_function (option) place_loop ::
  "reorder_params \<Rightarrow> (u32 \<Rightarrow> bool) \<Rightarrow> window_state \<Rightarrow> window_state option" where
  "place_loop P stop w =
     (if minPtr w < numVertex (parG P) then
        (if stop (minPtr w) then Some w
         else do { w' \<leftarrow> place_node P w; place_loop P stop w' })
      else Some w)"

section \<open>Draining the postponed updates\<close>

lemma drain_updates_ok:
  assumes "cache_graphs n N maxc G1 G2 skip sk"
    and "model_inv n N maxc (parents G1 sk) b W st" "b < n" "origId = nodeId st ! b"
  shows "ok (drain_updates b st origId) (\<lambda>(st', o'). model_inv n N maxc (parents G1 sk) b W st' \<and>
    settled b st st' \<and> o' = nodeId st' ! b \<and> updates st' ! o' = 0 \<and>
    (updates st ! origId = 0 \<longrightarrow> st' = st))"
  using assms(2-)
proof (induction "sum_list (updates st)" arbitrary: st origId rule: less_induct)
  case less
  note g = cache_graphsD[OF assms(1)]
  let ?par = "parents G1 sk"
  have ord: "ordered n maxc b st" and bal: "balanced n maxc ?par W [] st" and pr: "presence N W st"
    using less.prems(1) by (auto simp: model_inv_def)
  note o = orderedD[OF ord] and d = inv_pairD[OF orderedD(4)[OF ord]]
  have og: "origId < n" "nodeMap st ! origId = b" "length (nodeId st) = n"
    using less.prems d by auto
  show ?case
  proof (cases "updates st ! origId")
    case 0
    then show ?thesis using less.prems og o by (subst drain_updates.simps) simp
  next
    case (Suc u)
    have np: "\<not> isPlaced st ! origId" using o(5)[OF og(1)] og(2) by simp
    note bb = balancedD[OF bal og(1) np]
    let ?st = "st\<lparr>updates := (updates st)[origId := u]\<rparr>"
    have ci: "cost_inv n maxc b ?st" using o(1) by (simp add: cost_inv_def)
    have us: "usub (updates st ! origId) 1 = u"
      using Suc bb g(5) by (subst usub_exact) auto
    have lt: "node_cost ?st origId < maxc" using bb Suc by (simp add: node_cost_def)
    have mr: "ok (moveRight origId ?st) (\<lambda>st'. cost_inv n maxc b st' \<and> frame b ?st st' \<and>
      (\<forall>v<n. node_cost st' v = (if v = origId then Suc (node_cost ?st v) else node_cost ?st v)))"
      by (rule moveRight_ok[OF ci]) (use less.prems g lt in auto)
    have sum: "sum_list ((updates st)[origId := u]) < sum_list (updates st)"
      using Suc og(1) o(3) elem_le_sum_list[of origId "updates st"] by (simp add: sum_list_update)
    have "ok (moveRight origId ?st) (\<lambda>st'. ok (aget (nodeId st') b) (\<lambda>o'. ok (drain_updates b st' o')
       (\<lambda>(st'', o'). model_inv n N maxc ?par b W st'' \<and> settled b st st'' \<and> o' = nodeId st'' ! b \<and> updates st'' ! o' = 0)))"
    proof (rule ok_mono[OF mr])
      fix st' assume P: "cost_inv n maxc b st' \<and> frame b ?st st' \<and>
        (\<forall>v<n. node_cost st' v = (if v = origId then Suc (node_cost ?st v) else node_cost ?st v))"
      have fr: "cachePresence st' = cachePresence st" "isPlaced st' = isPlaced st"
        "updates st' = (updates st)[origId := u]" "settled b st st'"
        using P by (auto simp: frame_def settled_def)
      have "ordered n maxc b ?st" using ord by (simp add: ordered_def cost_inv_def)
      then have ord': "ordered n maxc b st'" by (rule ordered_frame) (use P less.prems in auto)
      have "balanced n maxc ?par W [] st'"
        unfolding balanced_def
      proof (intro allI impI)
        fix v assume v: "v < n" "\<not> isPlaced st' ! v"
        then show "node_cost st' v + cached ?par W v + updates st' ! v + count_list [] v = maxc \<and>
          cached ?par W v + updates st' ! v + count_list [] v \<le> length (?par v)"
          using balancedD[OF bal, of v] P fr Suc og(1) o(3) by (cases "v = origId") (auto simp: node_cost_def)
      qed
      then have inv': "model_inv n N maxc ?par b W st'" using ord' pr fr by (simp add: model_inv_def presence_def)
      have "length (nodeId st') = n" using orderedD(4)[OF ord'] by (simp add: inv_pair_def)
      moreover have "ok (drain_updates b st' (nodeId st' ! b)) (\<lambda>(st'', o'). model_inv n N maxc ?par b W st'' \<and>
        settled b st' st'' \<and> o' = nodeId st'' ! b \<and> updates st'' ! o' = 0 \<and> (updates st' ! (nodeId st' ! b) = 0 \<longrightarrow> st'' = st'))"
        by (rule less.hyps) (use sum fr inv' less.prems in auto)
      ultimately show "ok (aget (nodeId st') b) (\<lambda>o'. ok (drain_updates b st' o')
        (\<lambda>(st'', o'). model_inv n N maxc ?par b W st'' \<and> settled b st st'' \<and> o' = nodeId st'' ! b \<and> updates st'' ! o' = 0))"
        using less.prems(2) by (auto elim!: ok_mono intro: settled_trans[OF fr(4)])
    qed
    then show ?thesis
      using Suc us og o by (subst drain_updates.simps) (auto elim!: ok_mono simp del: One_nat_def)
  qed
qed

section \<open>The window of placed nodes\<close>

definition loop_params :: "reorder_params \<Rightarrow> nat \<Rightarrow> nat \<Rightarrow> (nat \<Rightarrow> bool) \<Rightarrow> bool" where
  "loop_params P n N sk \<longleftrightarrow> cache_graphs n N (maxCost P) (parG P) (childG P) (skipParent P) sk \<and>
     inDeg P = map (\<lambda>v. length (adj (parG P) v)) [0..<n] \<and> CACHE_SIZE P < U32"

definition window :: "reorder_params \<Rightarrow> (nat \<Rightarrow> bool) \<Rightarrow> cache_state \<Rightarrow> nat \<Rightarrow> nat \<Rightarrow> nat multiset" where
  "window P sk st a m = mset (concat (map (\<lambda>i. if length (adj (parG P) (nodeId st ! i)) \<le> CACHE_SIZE P
     then parents (parG P) sk (nodeId st ! i) else []) [a..<m]))"

definition loop_inv :: "reorder_params \<Rightarrow> nat \<Rightarrow> nat \<Rightarrow> (nat \<Rightarrow> bool) \<Rightarrow> window_state \<Rightarrow> bool" where
  "loop_inv P n N sk w \<longleftrightarrow> minPtr w \<le> n \<and> currWinStartId w \<le> minPtr w \<and>
     model_inv n N (maxCost P) (parents (parG P) sk) (minPtr w)
       (window P sk (cstate w) (currWinStartId w) (minPtr w)) (cstate w) \<and>
     currWinCost w = card (set_mset (window P sk (cstate w) (currWinStartId w) (minPtr w)))"

lemma loop_paramsD:
  assumes "loop_params P n N sk"
  shows "cache_graphs n N (maxCost P) (parG P) (childG P) (skipParent P) sk" "length (inDeg P) = n"
    "v < n \<Longrightarrow> inDeg P ! v = length (adj (parG P) v)" "CACHE_SIZE P < U32"
  using assms by (auto simp: loop_params_def)

lemma window_empty [simp]: "m \<le> a \<Longrightarrow> window P sk st a m = {#}"
  by (simp add: window_def)

lemma window_first:
  "a < m \<Longrightarrow> window P sk st a m = mset (if length (adj (parG P) (nodeId st ! a)) \<le> CACHE_SIZE P
     then parents (parG P) sk (nodeId st ! a) else []) + window P sk st (Suc a) m"
  by (simp add: window_def upt_conv_Cons)

lemma window_last:
  "a \<le> m \<Longrightarrow> window P sk st a (Suc m) = window P sk st a m +
     mset (if length (adj (parG P) (nodeId st ! m)) \<le> CACHE_SIZE P then parents (parG P) sk (nodeId st ! m) else [])"
  by (simp add: window_def)

lemma window_settled: "settled m st st' \<Longrightarrow> window P sk st' a m = window P sk st a m"
  unfolding window_def settled_def by (intro arg_cong[of _ _ "\<lambda>l. mset (concat l)"] map_cong) auto

lemma sum_adj: "sum_list (map (\<lambda>v. length (adj G v)) [0..<numVertex G]) = length (edges G)"
  by (simp add: edges_def length_concat comp_def)

lemma size_window:
  assumes wf: "wf_csr (parG P)" and n: "numVertex (parG P) = n" and ip: "inv_pair n nm (nodeId st)" and m: "m \<le> n"
  shows "size (window P sk st a m) < U32"
proof -
  let ?f = "\<lambda>v. length (adj (parG P) v)"
  let ?g = "\<lambda>v. length (if ?f v \<le> CACHE_SIZE P then parents (parG P) sk v else [])"
  have le: "?g v \<le> ?f v" for v by auto
  have l: "length (nodeId st) = n" using ip by (simp add: inv_pair_def)
  let ?h = "\<lambda>i. ?f (nodeId st ! i)"
  have "size (window P sk st a m) = sum_list (map (\<lambda>i. ?g (nodeId st ! i)) [a..<m])"
    unfolding window_def size_mset length_concat map_map comp_def ..
  also have "\<dots> \<le> sum_list (map ?h [a..<m])"
    by (rule sum_list_mono) (rule le)
  also have "\<dots> = sum ?h {a..<m}" by (simp add: interv_sum_list_conv_sum_set_nat)
  also have "\<dots> \<le> sum ?h {0..<n}" by (rule sum_mono2) (use m in auto)
  also have "\<dots> = sum_list (map ?h [0..<n])" by (simp add: interv_sum_list_conv_sum_set_nat)
  also have "map ?h [0..<n] = map ?f (nodeId st)"
    using l by (intro nth_equalityI) simp_all
  also have "sum_list (map ?f (nodeId st)) = sum_list (map ?f [0..<n])"
    by (simp only: sum_mset_sum_list[symmetric] mset_map inv_pair_perm(1)[OF ip])
  also have "\<dots> = numEdges (parG P)" using sum_adj[of "parG P"] n length_edges[OF wf] by simp
  finally show ?thesis using wf_csrD(3)[OF wf] by simp
qed

lemma loop_invD:
  assumes "loop_params P n N sk" "loop_inv P n N sk w"
  shows "inv_pair n (nodeMap (cstate w)) (nodeId (cstate w))"
    "size (window P sk (cstate w) a (minPtr w)) < U32" "length (nodeId (cstate w)) = n"
    "length (cost (cstate w)) = n" "n \<le> length (updates (cstate w))" "length (isPlaced (cstate w)) = n"
proof -
  note g = cache_graphsD[OF loop_paramsD(1)[OF assms(1)]]
  show ip: "inv_pair n (nodeMap (cstate w)) (nodeId (cstate w))"
    using assms(2) by (auto simp: loop_inv_def model_inv_def ordered_def cost_inv_def)
  show "size (window P sk (cstate w) a (minPtr w)) < U32"
    by (rule size_window[OF g(1,2) ip]) (use assms(2) in \<open>simp add: loop_inv_def\<close>)
  show "length (nodeId (cstate w)) = n" "length (cost (cstate w)) = n" "n \<le> length (updates (cstate w))"
    "length (isPlaced (cstate w)) = n"
    using assms(2) ip by (auto simp: loop_inv_def model_inv_def ordered_def cost_inv_def inv_pair_def)
qed

text \<open>The cost of the node about to be placed is what its parents outside the cache amount to.\<close>

lemma load_cost_ok:
  assumes lp: "loop_params P n N sk" and inv: "model_inv n N (maxCost P) (parents (parG P) sk) m W st"
    and m: "m < n" and o: "origId = nodeId st ! m"
  shows "ok (load_cost P m st origId) (\<lambda>c. c \<le> inDeg P ! origId)" "origId < n"
proof -
  note g = cache_graphsD[OF loop_paramsD(1)[OF lp]]
  let ?par = "parents (parG P) sk"
  have ord: "ordered n (maxCost P) m st" and bal: "balanced n (maxCost P) ?par W [] st"
    using inv by (auto simp: model_inv_def)
  note oo = orderedD[OF ord] and d = inv_pairD[OF orderedD(4)[OF ord]]
  show og: "origId < n" using m o d by auto
  have mp: "nodeMap st ! origId = m" using m o d by auto
  then have np: "\<not> isPlaced st ! origId" using oo(5)[OF og] by simp
  have nc: "node_cost st origId = cost st ! m" by (simp add: node_cost_def mp)
  note bb = balancedD[OF bal og np]
  have pl: "length (?par origId) \<le> length (adj (parG P) origId)" by simp
  have deg: "inDeg P ! origId = length (adj (parG P) origId)" by (rule loop_paramsD(3)[OF lp og])
  have dl: "inDeg P ! origId < U32"
  proof -
    have "eend (parG P) origId \<le> numEdges (parG P)" using wf_csrD(8)[OF g(1)] og g(2) by simp
    then show ?thesis unfolding deg adj_def using wf_csrD(3,4)[OF g(1)] by simp
  qed
  have cm: "cost st ! m \<le> maxCost P" using bb nc by simp
  have "usub (maxCost P) (cost st ! m) = maxCost P - cost st ! m" using cm g(5) by (intro usub_exact) auto
  moreover have "maxCost P - cost st ! m \<le> inDeg P ! origId" unfolding deg using bb nc pl by linarith
  ultimately have "usub (inDeg P ! origId) (usub (maxCost P) (cost st ! m)) \<le> inDeg P ! origId"
    using dl by (simp add: usub_exact)
  then show "ok (load_cost P m st origId) (\<lambda>c. c \<le> inDeg P ! origId)"
    using og m loop_paramsD(2)[OF lp] oo(1) by (simp add: load_cost_def cost_inv_def)
qed

text \<open>The parts of the eviction loop: the first node leaves the window, then the choice of the next node is renewed.\<close>

definition evict_first :: "reorder_params \<Rightarrow> window_state \<Rightarrow> window_state option" where
  "evict_first P w = do {
     nd \<leftarrow> aget (nodeId (cstate w)) (currWinStartId w);
     d \<leftarrow> aget (inDeg P) nd;
     if d \<le> CACHE_SIZE P then do {
       r \<leftarrow> evictParents_by (skipParent P) (parG P) (childG P) (currWinStartId w) (cstate w);
       Some (w\<lparr>cstate := fst r, currWinCost := usub (currWinCost w) (snd r)\<rparr>)
     } else Some w
   }"

definition evict_rest :: "reorder_params \<Rightarrow> u32 \<Rightarrow> u32 \<Rightarrow> window_state \<Rightarrow> (window_state \<times> u32 \<times> u32) option" where
  "evict_rest P m a w1 = do {
     origId \<leftarrow> aget (nodeId (cstate w1)) m;
     (st, o2) \<leftarrow> drain_updates m (cstate w1) origId;
     c \<leftarrow> load_cost P m st o2;
     d \<leftarrow> aget (inDeg P) o2;
     let w2 = w1\<lparr>cstate := st, currWinStartId := uadd a 1\<rparr>;
     if d > CACHE_SIZE P then Some (w2, o2, c) else evict_window P w2 o2 c
   }"

lemma evict_window_parts:
  "evict_window P w origId c =
     (if uadd (currWinCost w) c > CACHE_SIZE P \<and> currWinStartId w < usub (minPtr w) (lag P)
      then do { w1 \<leftarrow> evict_first P w; evict_rest P (minPtr w) (currWinStartId w) w1 }
      else Some (w, origId, c))"
proof (cases "uadd (currWinCost w) c > CACHE_SIZE P \<and> currWinStartId w < usub (minPtr w) (lag P)")
  case True
  then show ?thesis
    unfolding if_P[OF True] evict_first_def evict_rest_def[abs_def] case_prod_unfold Let_def Option.bind_assoc
    by (subst evict_window.simps) (rule if_P)
next
  case False
  then show ?thesis by (subst evict_window.simps) (simp only: if_False)
qed

text \<open>The state between the two parts.\<close>

definition evicted :: "reorder_params \<Rightarrow> nat \<Rightarrow> nat \<Rightarrow> (nat \<Rightarrow> bool) \<Rightarrow> window_state \<Rightarrow> window_state \<Rightarrow> bool" where
  "evicted P n N sk w w1 \<longleftrightarrow>
     (let W = window P sk (cstate w) (Suc (currWinStartId w)) (minPtr w)
      in model_inv n N (maxCost P) (parents (parG P) sk) (minPtr w) W (cstate w1) \<and> same_order (cstate w) (cstate w1) \<and>
        currWinCost w1 = card (set_mset W) \<and> minPtr w1 = minPtr w)"

lemma evict_first_ok:
  assumes lp: "loop_params P n N sk" and inv: "loop_inv P n N sk w" and m: "minPtr w < n" and am: "currWinStartId w < minPtr w"
  shows "ok (evict_first P w) (evicted P n N sk w)"
proof -
  note p = loop_paramsD[OF lp] and l = loop_invD[OF lp inv]
  let ?m = "minPtr w" and ?a = "currWinStartId w" and ?st = "cstate w" and ?par = "parents (parG P) sk"
  let ?W = "window P sk ?st ?a ?m" and ?W' = "window P sk ?st (Suc ?a) ?m" and ?v = "nodeId (cstate w) ! currWinStartId w"
  have i: "model_inv n N (maxCost P) ?par ?m ?W ?st" "currWinCost w = card (set_mset ?W)" using inv by (auto simp: loop_inv_def)
  have v: "?v < n" "?a < length (nodeId ?st)" using inv_pairD(5)[OF l(1)] am m l(3) by auto
  show ?thesis
  proof (cases "inDeg P ! ?v \<le> CACHE_SIZE P")
    case True
    then have W: "?W = mset (?par ?v) + ?W'" using window_first[OF am, of P sk ?st] p(3)[OF v(1)] by simp
    then have "?W - mset (?par ?v) = ?W'" by simp
    then have "ok (evictParents_by (skipParent P) (parG P) (childG P) ?a ?st) (\<lambda>(st', k).
       model_inv n N (maxCost P) ?par ?m ?W' st' \<and> same_order ?st st' \<and> k + card (set_mset ?W') = card (set_mset ?W))"
      using evictParents_by_ok[OF p(1) i(1), of ?a] am m l(2)[of ?a] W by simp
    moreover have "usub (currWinCost w) k = card (set_mset ?W')" if "k + card (set_mset ?W') = card (set_mset ?W)" for k
      using that i(2) l(2)[of ?a] card_set_mset_le_size[of ?W] by (subst usub_exact) auto
    ultimately show ?thesis
      using True v p(2) by (auto simp: evict_first_def evicted_def Let_def elim!: ok_mono)
  next
    case False
    then have "?W = ?W'" using window_first[OF am, of P sk ?st] p(3)[OF v(1)] by simp
    then show ?thesis using False i v p(2) by (simp add: evict_first_def evicted_def same_order_def Let_def)
  qed
qed

lemma evict_rest_ok:
  assumes lp: "loop_params P n N sk" and inv: "loop_inv P n N sk w" and m: "minPtr w < n" and am: "currWinStartId w < minPtr w"
    and w1: "evicted P n N sk w w1"
    and rec: "\<And>w2 o2 c. loop_inv P n N sk w2 \<Longrightarrow> minPtr w2 = minPtr w \<Longrightarrow> currWinStartId w2 = Suc (currWinStartId w) \<Longrightarrow>
      o2 = nodeId (cstate w2) ! minPtr w \<Longrightarrow> updates (cstate w2) ! o2 = 0 \<Longrightarrow> c \<le> CACHE_SIZE P \<Longrightarrow> ok (evict_window P w2 o2 c) Q"
    and ends: "\<And>w2 o2 c. loop_inv P n N sk w2 \<Longrightarrow> minPtr w2 = minPtr w \<Longrightarrow> o2 = nodeId (cstate w2) ! minPtr w \<Longrightarrow>
      updates (cstate w2) ! o2 = 0 \<Longrightarrow> Q (w2, o2, c)"
  shows "ok (evict_rest P (minPtr w) (currWinStartId w) w1) Q"
proof -
  note p = loop_paramsD[OF lp] and g = cache_graphsD[OF loop_paramsD(1)[OF lp]] and l = loop_invD[OF lp inv]
  let ?m = "minPtr w" and ?a = "currWinStartId w" and ?par = "parents (parG P) sk" and ?st = "cstate w"
  let ?W' = "window P sk ?st (Suc ?a) ?m"
  have m1: "model_inv n N (maxCost P) ?par ?m ?W' (cstate w1)" "settled ?m ?st (cstate w1)" "length (nodeId (cstate w1)) = n"
    "minPtr w1 = ?m" "currWinCost w1 = card (set_mset ?W')"
    using w1 l(3) settled_same_order by (auto simp: evicted_def same_order_def Let_def)
  have ua: "uadd ?a 1 = Suc ?a" using am m g(11) by (simp add: uadd_exact)
  have step: "ok (load_cost P ?m st o2) (\<lambda>c. ok (aget (inDeg P) o2) (\<lambda>d.
      ok (let w2 = w1\<lparr>cstate := st, currWinStartId := uadd ?a 1\<rparr> in
        if d > CACHE_SIZE P then Some (w2, o2, c) else evict_window P w2 o2 c) Q))"
    if d: "model_inv n N (maxCost P) ?par ?m ?W' st" "settled ?m (cstate w1) st" "o2 = nodeId st ! ?m" "updates st ! o2 = 0" for st o2
  proof -
    let ?w2 = "w1\<lparr>cstate := st, currWinStartId := uadd ?a 1\<rparr>"
    have "window P sk st (Suc ?a) ?m = ?W'" by (rule window_settled[OF settled_trans[OF m1(2) d(2)]])
    then have li: "loop_inv P n N sk ?w2"
      using d(1) m1(4,5) am m by (simp add: loop_inv_def ua del: One_nat_def)
    note lc = load_cost_ok[OF lp d(1) m d(3)]
    have "ok (if inDeg P ! o2 > CACHE_SIZE P then Some (?w2, o2, c) else evict_window P ?w2 o2 c) Q" if "c \<le> inDeg P ! o2" for c
      using that rec[OF li] ends[OF li] m1(4) d(3,4) ua by (cases "inDeg P ! o2 > CACHE_SIZE P") simp_all
    then show ?thesis using lc p(2) by (auto simp: Let_def elim!: ok_mono simp del: One_nat_def)
  qed
  have "ok (drain_updates ?m (cstate w1) (nodeId (cstate w1) ! ?m)) (\<lambda>(st, o2). ok (load_cost P ?m st o2)
    (\<lambda>c. ok (aget (inDeg P) o2) (\<lambda>d. ok (let w2 = w1\<lparr>cstate := st, currWinStartId := uadd ?a 1\<rparr> in
      if d > CACHE_SIZE P then Some (w2, o2, c) else evict_window P w2 o2 c) Q)))"
    by (rule ok_mono[OF drain_updates_ok[OF p(1) m1(1) m refl]]) (clarify, rule step, auto)
  moreover have "?m < length (nodeId (cstate w1))" using m1(3) m by simp
  ultimately show ?thesis unfolding evict_rest_def by (simp only: ok_bind ok_case_prod ok_aget simp_thms)
qed

lemma evict_window_ok:
  assumes lp: "loop_params P n N sk" and inv: "loop_inv P n N sk w" and m: "minPtr w < n"
    and o: "origId = nodeId (cstate w) ! minPtr w" "updates (cstate w) ! origId = 0"
    and guard: "currWinStartId w = minPtr w \<Longrightarrow> nodeCost \<le> CACHE_SIZE P"
  shows "ok (evict_window P w origId nodeCost) (\<lambda>(w', o', c'). loop_inv P n N sk w' \<and> minPtr w' = minPtr w \<and>
    o' = nodeId (cstate w') ! minPtr w \<and> updates (cstate w') ! o' = 0)"
  using inv m o guard
proof (induction "minPtr w - currWinStartId w" arbitrary: w origId nodeCost rule: less_induct)
  case less
  show ?case
  proof (cases "uadd (currWinCost w) nodeCost > CACHE_SIZE P \<and> currWinStartId w < usub (minPtr w) (lag P)")
    case False
    then show ?thesis unfolding evict_window_parts if_not_P[OF False] using less.prems by simp
  next
    case True
    have am: "currWinStartId w < minPtr w"
    proof (rule ccontr)
      assume "\<not> ?thesis"
      then have e: "currWinStartId w = minPtr w" using less.prems(1) by (simp add: loop_inv_def)
      then have "currWinCost w = 0" "nodeCost \<le> CACHE_SIZE P" using less.prems(1,5) by (auto simp: loop_inv_def)
      then show False using True loop_paramsD(4)[OF lp] by (simp add: uadd_def)
    qed
    have "ok (evict_rest P (minPtr w) (currWinStartId w) w1) (\<lambda>(w', o', c'). loop_inv P n N sk w' \<and> minPtr w' = minPtr w \<and>
      o' = nodeId (cstate w') ! minPtr w \<and> updates (cstate w') ! o' = 0)" if w1: "evicted P n N sk w w1" for w1
    proof (rule evict_rest_ok[OF lp less.prems(1,2) am w1])
      fix w2 o2 c
      assume h: "loop_inv P n N sk w2" "minPtr w2 = minPtr w" "currWinStartId w2 = Suc (currWinStartId w)"
        "o2 = nodeId (cstate w2) ! minPtr w" "updates (cstate w2) ! o2 = 0" "c \<le> CACHE_SIZE P"
      show "ok (evict_window P w2 o2 c) (\<lambda>(w', o', c'). loop_inv P n N sk w' \<and> minPtr w' = minPtr w \<and>
        o' = nodeId (cstate w') ! minPtr w \<and> updates (cstate w') ! o' = 0)"
        using less.hyps[of w2 o2 c] h am less.prems(2) by simp
    qed simp
    then show ?thesis
      unfolding evict_window_parts if_P[OF True] ok_bind by (rule ok_mono[OF evict_first_ok[OF lp less.prems(1,2) am]])
  qed
qed

section \<open>Placing one node\<close>

definition place_inv :: "reorder_params \<Rightarrow> nat \<Rightarrow> nat \<Rightarrow> (nat \<Rightarrow> bool) \<Rightarrow> window_state \<Rightarrow> bool" where
  "place_inv P n N sk w \<longleftrightarrow> loop_inv P n N sk w \<and> (0 < minPtr w \<longrightarrow> currWinStartId w < minPtr w) \<and>
     (minPtr w = 0 \<longrightarrow> (\<forall>v<n. updates (cstate w) ! v = 0))"

lemma mark_placed_ok:
  assumes inv: "model_inv n N maxc par m W st" and m: "m < n" and o: "origId = nodeId st ! m"
  shows "ok (mark_placed origId st) (\<lambda>st'. model_inv n N maxc par (Suc m) W st' \<and> nodeId st' = nodeId st \<and>
    isPlaced st' = (isPlaced st)[origId := True])"
proof -
  have ord: "ordered n maxc m st" and bal: "balanced n maxc par W [] st" and pr: "presence N W st"
    using inv by (auto simp: model_inv_def)
  note oo = orderedD[OF ord] and d = inv_pairD[OF orderedD(4)[OF ord]]
  let ?st = "st\<lparr>isPlaced := (isPlaced st)[origId := True]\<rparr>"
  have og: "origId < n" "nodeMap st ! origId = m" using d m o by auto
  have "nodeMap st ! v = m \<longleftrightarrow> v = origId" if "v < n" for v using d(4)[OF that] og o by auto
  then have "\<forall>v<n. isPlaced ?st ! v \<longleftrightarrow> nodeMap ?st ! v < Suc m"
    using oo(2,5) og by (auto simp: nth_list_update less_Suc_eq)
  then have "ordered n maxc (Suc m) ?st"
    using cost_inv_Suc[OF oo(1) m] oo(2,3) by (auto simp: ordered_def cost_inv_def)
  moreover have "balanced n maxc par W [] ?st"
    unfolding balanced_def
  proof (intro allI impI)
    fix v assume "v < n" "\<not> isPlaced ?st ! v"
    then show "node_cost ?st v + cached par W v + updates ?st ! v + count_list [] v = maxc \<and>
      cached par W v + updates ?st ! v + count_list [] v \<le> length (par v)"
      using balancedD[OF bal, of v] oo(2) by (cases "v = origId") (auto simp: node_cost_def)
  qed
  ultimately have "model_inv n N maxc par (Suc m) W ?st" using pr by (simp add: model_inv_def presence_def)
  then show ?thesis using og oo(2) by (simp add: mark_placed_def)
qed

lemma window_cong_nodeId: "nodeId st' = nodeId st \<Longrightarrow> window P sk st' a m = window P sk st a m"
  by (simp only: window_def)

lemma place_inv_intro:
  assumes "model_inv n N (maxCost P) (parents (parG P) sk) (Suc m) (window P sk (cstate w) a (Suc m)) (cstate w)"
    "minPtr w = Suc m" "m < n" "currWinStartId w = a" "a \<le> m"
    "currWinCost w = card (set_mset (window P sk (cstate w) a (Suc m)))"
  shows "place_inv P n N sk w"
  using assms by (simp add: place_inv_def loop_inv_def)

lemma place_big_ok:
  assumes lp: "loop_params P n N sk" and inv: "loop_inv P n N sk w" and m: "minPtr w < n"
    and o: "origId = nodeId (cstate w) ! minPtr w" and big: "inDeg P ! origId > CACHE_SIZE P"
  shows "ok (mark_placed origId (cstate w))
    (\<lambda>st. place_inv P n N sk (w\<lparr>cstate := st, minPtr := uadd (minPtr w) 1\<rparr>))"
proof -
  note p = loop_paramsD[OF lp] and g = cache_graphsD[OF loop_paramsD(1)[OF lp]] and l = loop_invD[OF lp inv]
  let ?m = "minPtr w" and ?a = "currWinStartId w" and ?st = "cstate w"
  have i: "model_inv n N (maxCost P) (parents (parG P) sk) ?m (window P sk ?st ?a ?m) ?st" "?a \<le> ?m"
    "currWinCost w = card (set_mset (window P sk ?st ?a ?m))"
    using inv by (auto simp: loop_inv_def)
  have "origId < n" using inv_pairD(5)[OF l(1)] m o by simp
  then have W: "window P sk ?st ?a (Suc ?m) = window P sk ?st ?a ?m"
    using window_last[OF i(2), of P sk ?st] big p(3) o by simp
  have um: "uadd ?m 1 = Suc ?m" using m g(11) by (simp add: uadd_exact)
  have "place_inv P n N sk (w\<lparr>cstate := st, minPtr := Suc ?m\<rparr>)"
    if st: "model_inv n N (maxCost P) (parents (parG P) sk) (Suc ?m) (window P sk ?st ?a ?m) st \<and> nodeId st = nodeId ?st \<and>
      isPlaced st = (isPlaced ?st)[origId := True]" for st
  proof (rule place_inv_intro[where a = ?a and m = ?m])
    have "window P sk st ?a (Suc ?m) = window P sk ?st ?a ?m"
      using window_cong_nodeId[of st ?st] st W by simp
    then show "model_inv n N (maxCost P) (parents (parG P) sk) (Suc ?m) (window P sk
        (cstate (w\<lparr>cstate := st, minPtr := Suc ?m\<rparr>)) ?a (Suc ?m)) (cstate (w\<lparr>cstate := st, minPtr := Suc ?m\<rparr>))"
      "currWinCost (w\<lparr>cstate := st, minPtr := Suc ?m\<rparr>) =
        card (set_mset (window P sk (cstate (w\<lparr>cstate := st, minPtr := Suc ?m\<rparr>)) ?a (Suc ?m)))"
      using st i(3) by simp_all
  qed (use m i in simp_all)
  then show ?thesis unfolding um by (rule ok_mono[OF mark_placed_ok[OF i(1) m o]])
qed

lemma place_small_ok:
  assumes lp: "loop_params P n N sk" and inv: "loop_inv P n N sk w" and m: "minPtr w < n"
    and o: "origId = nodeId (cstate w) ! minPtr w" and small: "inDeg P ! origId \<le> CACHE_SIZE P"
  shows "ok (do {
         st \<leftarrow> mark_placed origId (cstate w);
         (st, loaded) \<leftarrow> loadParents_by (skipParent P) (parG P) (childG P) (minPtr w) (minPtr w) st;
         Some (w\<lparr>cstate := st, currWinCost := uadd (currWinCost w) loaded, minPtr := uadd (minPtr w) 1\<rparr>)
       }) (place_inv P n N sk)"
proof -
  note p = loop_paramsD[OF lp] and g = cache_graphsD[OF loop_paramsD(1)[OF lp]] and l = loop_invD[OF lp inv]
  let ?m = "minPtr w" and ?a = "currWinStartId w" and ?st = "cstate w" and ?par = "parents (parG P) sk"
  let ?W = "window P sk ?st ?a ?m"
  have i: "model_inv n N (maxCost P) ?par ?m ?W ?st" "?a \<le> ?m" "currWinCost w = card (set_mset ?W)"
    using inv by (auto simp: loop_inv_def)
  have og: "origId < n" using inv_pairD(5)[OF l(1)] m o by simp
  have W: "window P sk ?st ?a (Suc ?m) = ?W + mset (?par origId)"
    using window_last[OF i(2), of P sk ?st] small p(3)[OF og] o by simp
  have "size (window P sk ?st ?a (Suc ?m)) < U32"
    by (rule size_window[OF g(1,2) l(1)]) (use m in simp)
  then have sz: "size ?W + length (?par origId) < U32" by (simp only: W size_union size_mset)
  have um: "uadd ?m 1 = Suc ?m" using m g(11) by (simp add: uadd_exact)
  have "ok (loadParents_by (skipParent P) (parG P) (childG P) ?m ?m st1) (\<lambda>(st, loaded).
      place_inv P n N sk (w\<lparr>cstate := st, currWinCost := uadd (currWinCost w) loaded, minPtr := uadd ?m 1\<rparr>))"
    if st1: "model_inv n N (maxCost P) ?par (Suc ?m) ?W st1 \<and> nodeId st1 = nodeId ?st \<and>
      isPlaced st1 = (isPlaced ?st)[origId := True]" for st1
  proof -
    have "ok (loadParents_by (skipParent P) (parG P) (childG P) ?m ?m st1) (\<lambda>(st', k).
       model_inv n N (maxCost P) ?par (Suc ?m) (?W + mset (?par (nodeId st1 ! ?m))) st' \<and> settled (Suc ?m) st1 st' \<and>
       k + card (set_mset ?W) = card (set_mset (?W + mset (?par (nodeId st1 ! ?m)))))"
      by (rule loadParents_by_ok[OF p(1) _ m m]) (use st1 sz o in auto)
    then show ?thesis
    proof (rule ok_mono, clarify)
      fix st k assume st: "model_inv n N (maxCost P) ?par (Suc ?m) (?W + mset (?par (nodeId st1 ! ?m))) st"
        "settled (Suc ?m) st1 st" "k + card (set_mset ?W) = card (set_mset (?W + mset (?par (nodeId st1 ! ?m))))"
      let ?w = "w\<lparr>cstate := st, currWinCost := uadd (currWinCost w) k, minPtr := uadd ?m 1\<rparr>"
      have n1: "nodeId st1 ! ?m = origId" using st1 o by simp
      have eq: "window P sk st ?a (Suc ?m) = ?W + mset (?par origId)"
        using window_settled[OF st(2), of P sk ?a] window_cong_nodeId[of st1 ?st] st1 W by simp
      have c: "k + card (set_mset ?W) = card (set_mset (?W + mset (?par origId)))" using st(3) unfolding n1 .
      have "card (set_mset (?W + mset (?par origId))) < U32"
        using sz card_set_mset_le_size[of "?W + mset (?par origId)"] by (simp only: size_union size_mset)
      then have "uadd (currWinCost w) k = card (set_mset (?W + mset (?par origId)))"
        unfolding i(3) using c by (subst uadd_exact) linarith+
      then show "place_inv P n N sk ?w"
        by (intro place_inv_intro[where a = ?a and m = ?m])
          (use st(1) i(2) m um in \<open>simp_all add: eq n1 del: One_nat_def set_mset_union\<close>)
    qed
  qed
  then have "ok (mark_placed origId ?st) (\<lambda>st1. ok (loadParents_by (skipParent P) (parG P) (childG P) ?m ?m st1) (\<lambda>(st, loaded).
      place_inv P n N sk (w\<lparr>cstate := st, currWinCost := uadd (currWinCost w) loaded, minPtr := uadd ?m 1\<rparr>)))"
    by (rule ok_mono[OF mark_placed_ok[OF i(1) m o]])
  then show ?thesis by (simp only: ok_bind ok_case_prod ok_Some)
qed

text \<open>The parts of the loop body: a node with many parents is placed without them, any other with its parents; in
  between the window is evicted.\<close>

definition place_big :: "nat \<Rightarrow> window_state \<Rightarrow> u32 \<Rightarrow> window_state option" where
  "place_big m w origId = do {
     st \<leftarrow> mark_placed origId (cstate w);
     Some (w\<lparr>cstate := st, minPtr := uadd m 1\<rparr>)
   }"

definition place_small :: "reorder_params \<Rightarrow> nat \<Rightarrow> window_state \<Rightarrow> u32 \<Rightarrow> window_state option" where
  "place_small P m w o' = do {
     (st, origId) \<leftarrow> drain_updates m (cstate w) o';
     st \<leftarrow> mark_placed origId st;
     (st, loaded) \<leftarrow> loadParents_by (skipParent P) (parG P) (childG P) m m st;
     Some (w\<lparr>cstate := st, currWinCost := uadd (currWinCost w) loaded, minPtr := uadd m 1\<rparr>)
   }"

definition place_either :: "reorder_params \<Rightarrow> nat \<Rightarrow> window_state \<Rightarrow> u32 \<Rightarrow> window_state option" where
  "place_either P m w origId = do {
     d \<leftarrow> aget (inDeg P) origId;
     if d > CACHE_SIZE P then place_big m w origId else place_small P m w origId
   }"

definition place_evicted :: "reorder_params \<Rightarrow> nat \<Rightarrow> window_state \<Rightarrow> u32 \<Rightarrow> u32 \<Rightarrow> window_state option" where
  "place_evicted P m w origId nodeCost = do {
     d \<leftarrow> aget (inDeg P) origId;
     if d > CACHE_SIZE P then place_big m w origId
     else do { (w, origId, c) \<leftarrow> evict_window P w origId nodeCost; place_either P m w origId }
   }"

lemma place_node_parts:
  assumes "minPtr w < length (nodeId (cstate w))"
  shows "place_node P w = do {
    c \<leftarrow> load_cost P (minPtr w) (cstate w) (nodeId (cstate w) ! minPtr w);
    (st, origId) \<leftarrow> drain_updates (minPtr w) (cstate w) (nodeId (cstate w) ! minPtr w);
    place_evicted P (minPtr w) (w\<lparr>cstate := st\<rparr>) origId c
  }"
  unfolding place_node_def place_evicted_def place_either_def place_big_def place_small_def Let_def
  using assms by (simp add: split_def cong: if_cong)

text \<open>A node is placed and the invariant is restored for the next one.\<close>

definition placed_next :: "reorder_params \<Rightarrow> nat \<Rightarrow> nat \<Rightarrow> (nat \<Rightarrow> bool) \<Rightarrow> nat \<Rightarrow> window_state \<Rightarrow> bool" where
  "placed_next P n N sk m w \<longleftrightarrow> place_inv P n N sk w \<and> minPtr w = Suc m"

text \<open>A node without postponed updates is at the front.\<close>

definition front :: "reorder_params \<Rightarrow> nat \<Rightarrow> nat \<Rightarrow> (nat \<Rightarrow> bool) \<Rightarrow> nat \<Rightarrow> window_state \<Rightarrow> u32 \<Rightarrow> bool" where
  "front P n N sk m w v \<longleftrightarrow> loop_inv P n N sk w \<and> minPtr w = m \<and> v = nodeId (cstate w) ! m \<and> updates (cstate w) ! v = 0"

lemma place_either_ok:
  assumes lp: "loop_params P n N sk" and m: "m < n" and f: "front P n N sk m w v"
  shows "v < n" "inDeg P ! v > CACHE_SIZE P \<Longrightarrow> ok (place_big m w v) (placed_next P n N sk m)"
    "ok (place_either P m w v) (placed_next P n N sk m)"
proof -
  note p = loop_paramsD[OF lp] and g = cache_graphsD[OF loop_paramsD(1)[OF lp]]
  have h: "loop_inv P n N sk w" "minPtr w = m" "v = nodeId (cstate w) ! m" "updates (cstate w) ! v = 0"
    using f by (auto simp: front_def)
  have um: "uadd m 1 = Suc m" using m g(11) by (simp add: uadd_exact)
  show vn: "v < n" using inv_pairD(5)[OF loop_invD(1)[OF lp h(1)]] m h(3) by simp
  show big: "ok (place_big m w v) (placed_next P n N sk m)" if "inDeg P ! v > CACHE_SIZE P"
    using place_big_ok[OF lp h(1), of v] that h m um
    by (auto simp: place_big_def placed_next_def elim!: ok_mono simp del: One_nat_def)
  have small: "ok (place_small P m w v) (placed_next P n N sk m)" if d: "inDeg P ! v \<le> CACHE_SIZE P"
  proof -
    have "model_inv n N (maxCost P) (parents (parG P) sk) m (window P sk (cstate w) (currWinStartId w) m) (cstate w)"
      using h(1,2) by (simp add: loop_inv_def)
    then have "drain_updates m (cstate w) v = Some (cstate w, v)"
      using drain_updates_ok[OF p(1) _ m h(3)] h(3,4) by (fastforce simp: ok_iff)
    then have e: "place_small P m w v = do {
         st \<leftarrow> mark_placed v (cstate w);
         (st, loaded) \<leftarrow> loadParents_by (skipParent P) (parG P) (childG P) (minPtr w) (minPtr w) st;
         Some (w\<lparr>cstate := st, currWinCost := uadd (currWinCost w) loaded, minPtr := uadd (minPtr w) 1\<rparr>)
       }" by (simp add: place_small_def h(2))
    have "ok (place_small P m w v) (place_inv P n N sk)"
      unfolding e by (rule place_small_ok[OF lp h(1)]) (use h m d in simp_all)
    moreover have "minPtr w' = Suc m" if "place_small P m w v = Some w'" for w'
      using that um h(2) unfolding e by (auto split: Option.bind_splits prod.splits)
    ultimately show ?thesis by (auto simp: ok_iff placed_next_def)
  qed
  show "ok (place_either P m w v) (placed_next P n N sk m)"
    using big small vn p(2) by (simp add: place_either_def not_less)
qed

lemma place_evicted_ok:
  assumes lp: "loop_params P n N sk" and m: "m < n" and f: "front P n N sk m w v"
    and c: "currWinStartId w = m \<Longrightarrow> inDeg P ! v \<le> CACHE_SIZE P \<Longrightarrow> c \<le> CACHE_SIZE P"
  shows "ok (place_evicted P m w v c) (placed_next P n N sk m)"
proof (cases "inDeg P ! v > CACHE_SIZE P")
  case True
  then show ?thesis using place_either_ok(1,2)[OF lp m f] loop_paramsD(2)[OF lp] by (simp add: place_evicted_def)
next
  case False
  have h: "loop_inv P n N sk w" "minPtr w = m" "v = nodeId (cstate w) ! m" "updates (cstate w) ! v = 0"
    using f by (auto simp: front_def)
  have "ok (evict_window P w v c) (\<lambda>(w', o', c'). front P n N sk m w' o')"
    using evict_window_ok[OF lp h(1), of v c] h m c False by (auto simp: front_def not_less)
  then have "ok (evict_window P w v c) (\<lambda>(w', o', c'). ok (place_either P m w' o') (placed_next P n N sk m))"
    by (rule ok_mono) (auto intro: place_either_ok(3)[OF lp m])
  then show ?thesis
    using False place_either_ok(1)[OF lp m f] loop_paramsD(2)[OF lp]
    by (simp add: place_evicted_def)
qed

lemma place_node_ok:
  assumes lp: "loop_params P n N sk" and inv: "place_inv P n N sk w" and m: "minPtr w < n"
  shows "ok (place_node P w) (\<lambda>w'. place_inv P n N sk w' \<and> minPtr w' = Suc (minPtr w))"
proof -
  note p = loop_paramsD[OF lp]
  let ?m = "minPtr w" and ?a = "currWinStartId w" and ?st = "cstate w" and ?par = "parents (parG P) sk"
  let ?o = "nodeId ?st ! ?m"
  have li: "loop_inv P n N sk w" using inv by (simp add: place_inv_def)
  then have i: "model_inv n N (maxCost P) ?par ?m (window P sk ?st ?a ?m) ?st" by (simp add: loop_inv_def)
  note lc = load_cost_ok[OF lp i m refl]
  have step: "ok (place_evicted P ?m (w\<lparr>cstate := st\<rparr>) o1 c) (placed_next P n N sk ?m)"
    if h: "model_inv n N (maxCost P) ?par ?m (window P sk ?st ?a ?m) st" "settled ?m ?st st" "o1 = nodeId st ! ?m"
      "updates st ! o1 = 0" "updates ?st ! ?o = 0 \<longrightarrow> st = ?st" "c \<le> inDeg P ! ?o" for st o1 c
  proof (rule place_evicted_ok[OF lp m])
    show "front P n N sk ?m (w\<lparr>cstate := st\<rparr>) o1"
      using li h(1-4) window_settled[OF h(2), of P sk ?a] by (simp add: front_def loop_inv_def)
    show "c \<le> CACHE_SIZE P" if "currWinStartId (w\<lparr>cstate := st\<rparr>) = ?m" "inDeg P ! o1 \<le> CACHE_SIZE P"
      using that inv h(3,5,6) lc(2) by (auto simp: place_inv_def)
  qed
  have "ok (drain_updates ?m ?st ?o) (\<lambda>(st, o1). ok (place_evicted P ?m (w\<lparr>cstate := st\<rparr>) o1 c) (placed_next P n N sk ?m))"
    if "c \<le> inDeg P ! ?o" for c
    by (rule ok_mono[OF drain_updates_ok[OF p(1) i m refl]]) (use that in \<open>auto intro: step\<close>)
  then have "ok (load_cost P ?m ?st ?o) (\<lambda>c. ok (drain_updates ?m ?st ?o) (\<lambda>(st, o1).
      ok (place_evicted P ?m (w\<lparr>cstate := st\<rparr>) o1 c) (placed_next P n N sk ?m)))"
    by (rule ok_mono[OF lc(1)])
  then have "ok (place_node P w) (placed_next P n N sk ?m)"
    using loop_invD(3)[OF lp li] m by (simp add: place_node_parts case_prod_unfold)
  then show ?thesis by (rule ok_mono) (simp add: placed_next_def)
qed

lemma place_loop_ok:
  assumes lp: "loop_params P n N sk" and inv: "place_inv P n N sk w"
  shows "ok (place_loop P stop w) (\<lambda>w'. place_inv P n N sk w' \<and> minPtr w \<le> minPtr w' \<and>
    (minPtr w' = n \<or> stop (minPtr w')) \<and> (\<forall>m. minPtr w \<le> m \<and> m < minPtr w' \<longrightarrow> \<not> stop m))"
  using inv
proof (induction "n - minPtr w" arbitrary: w rule: less_induct)
  case less
  note g = cache_graphsD[OF loop_paramsD(1)[OF lp]]
  have le: "minPtr w \<le> n" using less.prems by (simp add: place_inv_def loop_inv_def)
  show ?case
  proof (cases "minPtr w < n \<and> \<not> stop (minPtr w)")
    case False
    then have "place_loop P stop w = Some w" using g(2) by (subst place_loop.simps) auto
    then show ?thesis using False le less.prems by auto
  next
    case True
    then have eq: "place_loop P stop w = do { w' \<leftarrow> place_node P w; place_loop P stop w' }"
      using g(2) by (subst place_loop.simps) simp
    have step: "ok (place_loop P stop w1) (\<lambda>w'. place_inv P n N sk w' \<and> minPtr w \<le> minPtr w' \<and>
      (minPtr w' = n \<or> stop (minPtr w')) \<and> (\<forall>m. minPtr w \<le> m \<and> m < minPtr w' \<longrightarrow> \<not> stop m))"
      if w1: "place_inv P n N sk w1 \<and> minPtr w1 = Suc (minPtr w)" for w1
    proof (rule ok_mono[OF less.hyps])
      fix w' assume h: "place_inv P n N sk w' \<and> minPtr w1 \<le> minPtr w' \<and> (minPtr w' = n \<or> stop (minPtr w')) \<and>
        (\<forall>m. minPtr w1 \<le> m \<and> m < minPtr w' \<longrightarrow> \<not> stop m)"
      have "\<not> stop m" if "minPtr w \<le> m" "m < minPtr w'" for m
        using h w1 that True by (cases "m = minPtr w") auto
      then show "place_inv P n N sk w' \<and> minPtr w \<le> minPtr w' \<and> (minPtr w' = n \<or> stop (minPtr w')) \<and>
        (\<forall>m. minPtr w \<le> m \<and> m < minPtr w' \<longrightarrow> \<not> stop m)"
        using h w1 by simp
    qed (use w1 True in auto)
    show ?thesis
      unfolding eq ok_bind by (rule ok_mono[OF place_node_ok[OF lp less.prems conjunct1[OF True]]], rule step)
  qed
qed

section \<open>Properties\<close>

text \<open>C3: The choice is greedy: after the postponed updates are drained, the node at the front of
  the order has at least as many parents in the simulated cache as every other node that is not placed,
  and it is not placed yet itself. Draining ends and leaves the placed nodes where they are.\<close>

theorem drain_updates_most_cached:
  assumes "cache_graphs n N maxc G1 G2 skip sk" "model_inv n N maxc (parents G1 sk) m W st" "m < n"
  shows "\<exists>st' v. drain_updates m st (nodeId st ! m) = Some (st', v) \<and>
    model_inv n N maxc (parents G1 sk) m W st' \<and> (\<forall>i<m. nodeId st' ! i = nodeId st ! i) \<and>
    v < n \<and> nodeId st' ! m = v \<and> \<not> isPlaced st' ! v \<and>
    (\<forall>u<n. \<not> isPlaced st' ! u \<longrightarrow> cached (parents G1 sk) W u \<le> cached (parents G1 sk) W v)"
proof -
  let ?par = "parents G1 sk"
  obtain st' v where r: "drain_updates m st (nodeId st ! m) = Some (st', v)" "model_inv n N maxc ?par m W st'"
    "settled m st st'" "v = nodeId st' ! m" "updates st' ! v = 0"
    using drain_updates_ok[OF assms refl] by (auto simp: ok_iff)
  have ord: "ordered n maxc m st'" and bal: "balanced n maxc ?par W [] st'" using r(2) by (auto simp: model_inv_def)
  note o = orderedD[OF ord] and d = inv_pairD[OF orderedD(4)[OF ord]]
  have v: "v < n" "nodeMap st' ! v = m" using d assms(3) r(4) by auto
  have np: "\<not> isPlaced st' ! v" using o(5)[OF v(1)] v(2) by simp
  have "cached ?par W u \<le> cached ?par W v" if u: "u < n" "\<not> isPlaced st' ! u" for u
  proof -
    have "m \<le> nodeMap st' ! u" using o(5)[OF u(1)] u(2) by simp
    moreover have "nodeMap st' ! u < length (cost st')" using cost_invD(2)[OF o(1)] d(3)[OF u(1)] by simp
    ultimately have "cost st' ! m \<le> cost st' ! (nodeMap st' ! u)"
      using cost_inv_sorted[OF o(1)] by (auto dest: sorted_nth_mono[of _ 0 "nodeMap st' ! u - m"])
    then have "node_cost st' v \<le> node_cost st' u" by (simp add: node_cost_def v)
    then show ?thesis
      using balancedD(1)[OF bal v(1) np] balancedD(1)[OF bal u] r(5) by simp
  qed
  then show ?thesis using r v np by (intro exI[of _ st'] exI[of _ v]) (simp add: settled_def)
qed

theorem drain_updates_most_cached_witness:
  "\<exists>st'. drain_updates 0 (ex_state False) 0 = Some (st', nodeId st' ! 0) \<and>
    model_inv 2 1 1 (parents ex_parents (\<lambda>_. False)) 0 {#} st'"
  using drain_updates_most_cached[OF ex_graphs ex_inv(1)] by (auto simp: ex_state_def)

text \<open>C2: The placement loop is total: from a state that satisfies the invariant it returns, with no
  access out of bounds, every node is placed once (\<open>nodeId\<close> and \<open>nodeMap\<close> are inverse permutations), the
  window cost is the number of parents of the window in the cache, and the counters of the cache
  are those of the window.\<close>

theorem place_loop_total:
  assumes "loop_params P n N sk" "place_inv P n N sk w"
  shows "\<exists>w'. place_loop P (\<lambda>_. False) w = Some w' \<and> minPtr w' = n \<and>
    inv_pair n (nodeMap (cstate w')) (nodeId (cstate w')) \<and> (\<forall>v<n. isPlaced (cstate w') ! v) \<and>
    currWinCost w' = card (set_mset (window P sk (cstate w') (currWinStartId w') n)) \<and>
    (\<forall>p<N. cachePresence (cstate w') ! p = count (window P sk (cstate w') (currWinStartId w') n) p)"
proof -
  obtain w' where r: "place_loop P (\<lambda>_. False) w = Some w'" "place_inv P n N sk w'" "minPtr w' = n"
    using place_loop_ok[OF assms, of "\<lambda>_. False"] by (auto simp: ok_iff)
  have inv: "model_inv n N (maxCost P) (parents (parG P) sk) n (window P sk (cstate w') (currWinStartId w') n) (cstate w')"
    "currWinCost w' = card (set_mset (window P sk (cstate w') (currWinStartId w') n))"
    using r(2,3) unfolding place_inv_def loop_inv_def by metis+
  have ord: "ordered n (maxCost P) n (cstate w')" and pr: "presence N (window P sk (cstate w') (currWinStartId w') n) (cstate w')"
    using inv(1) by (auto simp: model_inv_def)
  note o = orderedD[OF ord]
  show ?thesis
    using r(1,3) o(4,5) inv_pairD(3)[OF o(4)] inv(2) pr by (auto simp: presence_def)
qed

definition ex_params :: reorder_params where
  "ex_params = \<lparr>parG = ex_parents, childG = ex_children, skipParent = (\<lambda>_. Some False), inDeg = [1, 1],
     maxCost = 1, CACHE_SIZE = 1, lag = 3\<rparr>"

theorem place_loop_total_witness:
  "\<exists>w'. place_loop ex_params (\<lambda>_. False)
      \<lparr>cstate = ex_state False, currWinCost = 0, currWinStartId = 0, minPtr = 0\<rparr> = Some w' \<and>
    inv_pair 2 (nodeMap (cstate w')) (nodeId (cstate w'))"
proof -
  have "[1, 1] = map (\<lambda>v. length (adj ex_parents v)) [0..<2]"
    by (simp add: ex_parents_def adj_def eend_def upt_rec)
  then have "loop_params ex_params 2 1 (\<lambda>_. False)"
    using ex_graphs by (simp add: loop_params_def ex_params_def)
  moreover have "place_inv ex_params 2 1 (\<lambda>_. False)
      \<lparr>cstate = ex_state False, currWinCost = 0, currWinStartId = 0, minPtr = 0\<rparr>"
    using ex_inv(1) by (auto simp: place_inv_def loop_inv_def ex_params_def ex_state_def less_Suc_eq numeral_2_eq_2)
  ultimately show ?thesis using place_loop_total by blast
qed

end
