(* ===== verification/Merge_Sort.thy ===== *)
theory Merge_Sort
  imports Prelude
begin

text \<open>
  The array merge sort of \<open>sort.cpp\<close> (in \<open>br/block_reordering\<close>, \<open>ph/pH\<close>, \<open>graphReordering\<close>,
  \<open>csr_gen\<close> and the page-rank example): \<open>merge\<close>/\<open>mergeSort\<close> sort an array and carry a parallel
  key array along, \<open>mergeWOkey\<close>/\<open>mergeSortWOkey\<close> sort one array. The copies differ in the
  element type and in the comparison, so the two comparisons the code makes
  (\<open>arr[i] >= arr[j]\<close> in the merge, \<open>arr[high] > arr[low]\<close> in the two-element case) are the
  arguments \<open>ge\<close> and \<open>gt\<close>, and each copy is an instance.
  The temporary arrays of \<open>new\<close> are indeterminate in C++; they are filled with a filler value,
  and the results below show that no such value survives.
\<close>

section \<open>The code\<close>

text \<open>The first loop of \<open>merge\<close>: both halves have elements left.\<close>

partial_function (option) merge_both ::
  "('a \<Rightarrow> 'a \<Rightarrow> bool) \<Rightarrow> 'a list \<Rightarrow> 'k list \<Rightarrow> u32 \<Rightarrow> u32 \<Rightarrow> u32 \<Rightarrow> u32 \<Rightarrow> u32 \<Rightarrow> 'a list \<Rightarrow> 'k list \<Rightarrow>
   (u32 \<times> u32 \<times> u32 \<times> 'a list \<times> 'k list) option" where
  "merge_both ge arr key mid high i j k temp tempKey =
     (if i \<le> mid \<and> j \<le> high then do {
        x \<leftarrow> aget arr i;
        y \<leftarrow> aget arr j;
        if ge x y then do {
          kv \<leftarrow> aget key i;
          tempKey' \<leftarrow> aput tempKey k kv;
          temp' \<leftarrow> aput temp k x;
          merge_both ge arr key mid high (uadd i 1) j (uadd k 1) temp' tempKey'
        } else do {
          kv \<leftarrow> aget key j;
          tempKey' \<leftarrow> aput tempKey k kv;
          temp' \<leftarrow> aput temp k y;
          merge_both ge arr key mid high i (uadd j 1) (uadd k 1) temp' tempKey'
        }
      } else Some (i, j, k, temp, tempKey))"

text \<open>The second and third loops: one half is copied to its end \<open>stop\<close>.\<close>

partial_function (option) merge_drain ::
  "'a list \<Rightarrow> 'k list \<Rightarrow> u32 \<Rightarrow> u32 \<Rightarrow> u32 \<Rightarrow> 'a list \<Rightarrow> 'k list \<Rightarrow> (u32 \<times> 'a list \<times> 'k list) option" where
  "merge_drain arr key stop i k temp tempKey =
     (if i \<le> stop then do {
        kv \<leftarrow> aget key i;
        tempKey' \<leftarrow> aput tempKey k kv;
        x \<leftarrow> aget arr i;
        temp' \<leftarrow> aput temp k x;
        merge_drain arr key stop (uadd i 1) (uadd k 1) temp' tempKey'
      } else Some (k, temp, tempKey))"

definition merge_by ::
  "'a \<Rightarrow> 'k \<Rightarrow> ('a \<Rightarrow> 'a \<Rightarrow> bool) \<Rightarrow> 'a list \<Rightarrow> 'k list \<Rightarrow> u32 \<Rightarrow> u32 \<Rightarrow> u32 \<Rightarrow> ('a list \<times> 'k list) option" where
  "merge_by fill fillk ge arr key low high mid = do {
     let n = uadd (usub high low) 1;
     (i, j, k, temp, tempKey) \<leftarrow>
       merge_both ge arr key mid high low (uadd mid 1) 0 (replicate n fill) (replicate n fillk);
     (k, temp, tempKey) \<leftarrow> merge_drain arr key mid i k temp tempKey;
     (k, temp, tempKey) \<leftarrow> merge_drain arr key high j k temp tempKey;
     for_range low (Suc high) (\<lambda>i (arr, key). do {
       kv \<leftarrow> aget tempKey (usub i low);
       key' \<leftarrow> aput key i kv;
       x \<leftarrow> aget temp (usub i low);
       arr' \<leftarrow> aput arr i x;
       Some (arr', key')
     }) (arr, key)
   }"

text \<open>\<open>mergeSort\<close>; \<open>swap_at\<close> is the exchange of the two-element case.\<close>

definition swap_at :: "'a list \<Rightarrow> nat \<Rightarrow> nat \<Rightarrow> 'a list option" where
  "swap_at xs i j = do {
     temp \<leftarrow> aget xs i;
     y \<leftarrow> aget xs j;
     xs' \<leftarrow> aput xs i y;
     aput xs' j temp
   }"

partial_function (option) mergeSort_by ::
  "'a \<Rightarrow> 'k \<Rightarrow> ('a \<Rightarrow> 'a \<Rightarrow> bool) \<Rightarrow> ('a \<Rightarrow> 'a \<Rightarrow> bool) \<Rightarrow> 'a list \<Rightarrow> 'k list \<Rightarrow> u32 \<Rightarrow> u32 \<Rightarrow> ('a list \<times> 'k list) option" where
  "mergeSort_by fill fillk ge gt arr key low high =
     (if high \<le> low then Some (arr, key)
      else if usub high low = 1 then do {
        x \<leftarrow> aget arr high;
        y \<leftarrow> aget arr low;
        if gt x y then do {
          arr' \<leftarrow> swap_at arr high low;
          key' \<leftarrow> swap_at key high low;
          Some (arr', key')
        } else Some (arr, key)
      } else do {
        ak \<leftarrow> mergeSort_by fill fillk ge gt arr key low (uadd low high div 2);
        ak' \<leftarrow> mergeSort_by fill fillk ge gt (fst ak) (snd ak) (uadd (uadd low high div 2) 1) high;
        merge_by fill fillk ge (fst ak') (snd ak') low high (uadd low high div 2)
      })"

text \<open>The copies without a key array.\<close>

partial_function (option) mergeWOkey_both ::
  "('a \<Rightarrow> 'a \<Rightarrow> bool) \<Rightarrow> 'a list \<Rightarrow> u32 \<Rightarrow> u32 \<Rightarrow> u32 \<Rightarrow> u32 \<Rightarrow> u32 \<Rightarrow> 'a list \<Rightarrow> (u32 \<times> u32 \<times> u32 \<times> 'a list) option" where
  "mergeWOkey_both ge arr mid high i j k temp =
     (if i \<le> mid \<and> j \<le> high then do {
        x \<leftarrow> aget arr i;
        y \<leftarrow> aget arr j;
        if ge x y then do {
          temp' \<leftarrow> aput temp k x;
          mergeWOkey_both ge arr mid high (uadd i 1) j (uadd k 1) temp'
        } else do {
          temp' \<leftarrow> aput temp k y;
          mergeWOkey_both ge arr mid high i (uadd j 1) (uadd k 1) temp'
        }
      } else Some (i, j, k, temp))"

partial_function (option) mergeWOkey_drain ::
  "'a list \<Rightarrow> u32 \<Rightarrow> u32 \<Rightarrow> u32 \<Rightarrow> 'a list \<Rightarrow> (u32 \<times> 'a list) option" where
  "mergeWOkey_drain arr stop i k temp =
     (if i \<le> stop then do {
        x \<leftarrow> aget arr i;
        temp' \<leftarrow> aput temp k x;
        mergeWOkey_drain arr stop (uadd i 1) (uadd k 1) temp'
      } else Some (k, temp))"

definition mergeWOkey_by ::
  "'a \<Rightarrow> ('a \<Rightarrow> 'a \<Rightarrow> bool) \<Rightarrow> 'a list \<Rightarrow> u32 \<Rightarrow> u32 \<Rightarrow> u32 \<Rightarrow> 'a list option" where
  "mergeWOkey_by fill ge arr low high mid = do {
     let n = uadd (usub high low) 1;
     (i, j, k, temp) \<leftarrow> mergeWOkey_both ge arr mid high low (uadd mid 1) 0 (replicate n fill);
     (k, temp) \<leftarrow> mergeWOkey_drain arr mid i k temp;
     (k, temp) \<leftarrow> mergeWOkey_drain arr high j k temp;
     for_range low (Suc high) (\<lambda>i arr. do {
       x \<leftarrow> aget temp (usub i low);
       aput arr i x
     }) arr
   }"

partial_function (option) mergeSortWOkey_by ::
  "'a \<Rightarrow> ('a \<Rightarrow> 'a \<Rightarrow> bool) \<Rightarrow> ('a \<Rightarrow> 'a \<Rightarrow> bool) \<Rightarrow> 'a list \<Rightarrow> u32 \<Rightarrow> u32 \<Rightarrow> 'a list option" where
  "mergeSortWOkey_by fill ge gt arr low high =
     (if high \<le> low then Some arr
      else if usub high low = 1 then do {
        x \<leftarrow> aget arr high;
        y \<leftarrow> aget arr low;
        if gt x y then swap_at arr high low else Some arr
      } else do {
        arr' \<leftarrow> mergeSortWOkey_by fill ge gt arr low (uadd low high div 2);
        arr'' \<leftarrow> mergeSortWOkey_by fill ge gt arr' (uadd (uadd low high div 2) 1) high;
        mergeWOkey_by fill ge arr'' low high (uadd low high div 2)
      })"

text \<open>The instances for \<open>unsigned int\<close> arrays, in descending order.\<close>

definition merge :: "u32 list \<Rightarrow> u32 list \<Rightarrow> u32 \<Rightarrow> u32 \<Rightarrow> u32 \<Rightarrow> (u32 list \<times> u32 list) option" where
  "merge = merge_by 0 0 (\<lambda>x y. x \<ge> y)"

definition mergeSort :: "u32 list \<Rightarrow> u32 list \<Rightarrow> u32 \<Rightarrow> u32 \<Rightarrow> (u32 list \<times> u32 list) option" where
  "mergeSort = mergeSort_by 0 0 (\<lambda>x y. x \<ge> y) (\<lambda>x y. x > y)"

text \<open>The copies in \<open>graphReordering\<close> have the same text.\<close>

definition gb_merge :: "u32 list \<Rightarrow> u32 list \<Rightarrow> u32 \<Rightarrow> u32 \<Rightarrow> u32 \<Rightarrow> (u32 list \<times> u32 list) option" where
  "gb_merge = merge"

definition gb_mergeSort :: "u32 list \<Rightarrow> u32 list \<Rightarrow> u32 \<Rightarrow> u32 \<Rightarrow> (u32 list \<times> u32 list) option" where
  "gb_mergeSort = mergeSort"

definition gp_merge :: "u32 list \<Rightarrow> u32 list \<Rightarrow> u32 \<Rightarrow> u32 \<Rightarrow> u32 \<Rightarrow> (u32 list \<times> u32 list) option" where
  "gp_merge = merge"

definition gp_mergeSort :: "u32 list \<Rightarrow> u32 list \<Rightarrow> u32 \<Rightarrow> u32 \<Rightarrow> (u32 list \<times> u32 list) option" where
  "gp_mergeSort = mergeSort"

definition mergeWOkey :: "u32 list \<Rightarrow> u32 \<Rightarrow> u32 \<Rightarrow> u32 \<Rightarrow> u32 list option" where
  "mergeWOkey = mergeWOkey_by 0 (\<lambda>x y. x \<ge> y)"

definition mergeSortWOkey :: "u32 list \<Rightarrow> u32 \<Rightarrow> u32 \<Rightarrow> u32 list option" where
  "mergeSortWOkey = mergeSortWOkey_by 0 (\<lambda>x y. x \<ge> y) (\<lambda>x y. x > y)"


section \<open>The pure merge\<close>

fun pmerge :: "('a \<Rightarrow> 'a \<Rightarrow> bool) \<Rightarrow> 'a list \<Rightarrow> 'a list \<Rightarrow> 'a list" where
  "pmerge ge [] ys = ys"
| "pmerge ge xs [] = xs"
| "pmerge ge (x # xs) (y # ys) =
     (if ge x y then x # pmerge ge xs (y # ys) else y # pmerge ge (x # xs) ys)"

lemma pmerge_Nil2 [simp]: "pmerge ge xs [] = xs"
  by (cases xs) simp_all

lemma pmerge_induct [case_names Nil1 Nil2 Cons]:
  assumes "\<And>ys. P [] ys" "\<And>xs. P xs []"
    "\<And>x xs y ys. P xs (y # ys) \<Longrightarrow> P (x # xs) ys \<Longrightarrow> P (x # xs) (y # ys)"
  shows "P xs ys"
  using assms by induction_schema (pat_completeness, lexicographic_order)

lemma mset_pmerge [simp]: "mset (pmerge ge xs ys) = mset xs + mset ys"
  by (induction ge xs ys rule: pmerge.induct) auto

lemma set_pmerge [simp]: "set (pmerge ge xs ys) = set xs \<union> set ys"
  by (induction ge xs ys rule: pmerge.induct) auto

lemma length_pmerge [simp]: "length (pmerge ge xs ys) = length xs + length ys"
  by (induction ge xs ys rule: pmerge.induct) auto

text \<open>A comparison pair that agrees with a rank: what the sort relies on.\<close>

locale rank_order =
  fixes ge gt :: "'a \<Rightarrow> 'a \<Rightarrow> bool" and rank :: "'a \<Rightarrow> 'r::linorder"
  assumes ge_rank: "ge x y \<longleftrightarrow> rank x \<le> rank y"
    and gt_rank: "gt x y \<longleftrightarrow> rank x < rank y"
begin

lemma sorted_pmerge:
  "sorted (map rank xs) \<Longrightarrow> sorted (map rank ys) \<Longrightarrow> sorted (map rank (pmerge ge xs ys))"
  by (induction xs ys rule: pmerge_induct) (fastforce simp: ge_rank)+

lemma filter_pmerge:
  "sorted (map rank xs) \<Longrightarrow> sorted (map rank ys) \<Longrightarrow>
   filter (\<lambda>x. rank x = c) (pmerge ge xs ys) = filter (\<lambda>x. rank x = c) xs @ filter (\<lambda>x. rank x = c) ys"
proof (induction xs ys rule: pmerge_induct)
  case (Cons x xs y ys)
  show ?case
  proof (cases "rank x \<le> rank y")
    case True
    with Cons show ?thesis by (auto simp: ge_rank)
  next
    case False
    have "rank y \<noteq> c \<or> filter (\<lambda>x. rank x = c) (x # xs) = []"
      using Cons.prems(1) False by (auto simp: filter_empty_conv)
    with Cons False show ?thesis by (auto simp: ge_rank)
  qed
qed simp_all

lemma pmerge_sort_key:
  "pmerge ge (sort_key rank xs) (sort_key rank ys) = sort_key rank (xs @ ys)"
proof (rule sym, rule properties_for_sort_key)
  show "mset (pmerge ge (sort_key rank xs) (sort_key rank ys)) = mset (xs @ ys)" by simp
  show "sorted (map rank (pmerge ge (sort_key rank xs) (sort_key rank ys)))"
    by (simp add: sorted_pmerge)
  show "filter (\<lambda>x. rank k = rank x) (pmerge ge (sort_key rank xs) (sort_key rank ys)) =
    filter (\<lambda>x. rank k = rank x) (xs @ ys)" for k
    using filter_pmerge[of "sort_key rank xs" "sort_key rank ys" "rank k"]
    by (simp add: eq_commute[of "rank k"] sort_key_stable)
qed

end

section \<open>The loops of merge\<close>

lemma take_Suc_update: "k < length xs \<Longrightarrow> take (Suc k) (xs[k := v]) = take k xs @ [v]"
  by (simp add: take_Suc_conv_app_nth)

lemma zip_update2: "zip (xs[i := x]) (ys[i := y]) = (zip xs ys)[i := (x, y)]"
  by (simp add: update_zip)

lemma merge_drain_ok:
  assumes "Suc stop \<le> length arr" "length key = length arr" "i \<le> Suc stop"
    "length temp = n" "length tk = n" "k + (Suc stop - i) \<le> n" "Suc stop < U32" "n < U32"
  shows "ok (merge_drain arr key stop i k temp tk) (\<lambda>(k', t', tk'). k' = k + (Suc stop - i) \<and>
    length t' = n \<and> length tk' = n \<and>
    take k' (zip t' tk') = take k (zip temp tk) @ slice (zip arr key) i (Suc stop))"
  using assms
proof (induction "Suc stop - i" arbitrary: i k temp tk)
  case 0
  then show ?case by (subst merge_drain.simps) simp
next
  case (Suc d)
  let ?t = "temp[k := arr ! i]" and ?tk = "tk[k := key ! i]"
  have IH: "ok (merge_drain arr key stop (Suc i) (Suc k) ?t ?tk) (\<lambda>(k', t', tk').
    k' = Suc k + (Suc stop - Suc i) \<and> length t' = n \<and> length tk' = n \<and>
    take k' (zip t' tk') = take (Suc k) (zip ?t ?tk) @ slice (zip arr key) (Suc i) (Suc stop))"
    using Suc.hyps(2) Suc.prems by (intro Suc.hyps(1)) auto
  have zt: "take (Suc k) (zip ?t ?tk) = take k (zip temp tk) @ [(arr ! i, key ! i)]"
    using Suc.hyps(2) Suc.prems by (simp add: take_Suc_update zip_update2)
  have sl: "slice (zip arr key) i (Suc stop) = (arr ! i, key ! i) # slice (zip arr key) (Suc i) (Suc stop)"
    using Suc.hyps(2) Suc.prems by (subst slice_step) simp_all
  show ?case
    using Suc.hyps(2) Suc.prems IH unfolding zt sl
    by (subst merge_drain.simps) (simp add: uadd_exact Suc_diff_le split: prod.splits)
qed

lemma merge_both_ok:
  fixes ge :: "'a \<Rightarrow> 'a \<Rightarrow> bool"
  defines "cmp \<equiv> \<lambda>p q. ge (fst p) (fst q)"
  assumes "Suc high \<le> length arr" "length key = length arr" "i \<le> Suc mid" "mid < j" "j \<le> Suc high"
    "length temp = n" "length tk = n" "k + mid + high + 2 = n + i + j" "Suc high < U32" "n < U32"
  shows "ok (merge_both ge arr key mid high i j k temp tk) (\<lambda>(i', j', k', t', tk').
    i' \<le> Suc mid \<and> j' \<le> Suc high \<and> (i' = Suc mid \<or> j' = Suc high) \<and>
    k' + mid + high + 2 = n + i' + j' \<and> length t' = n \<and> length tk' = n \<and>
    take k' (zip t' tk') @
      pmerge cmp (slice (zip arr key) i' (Suc mid)) (slice (zip arr key) j' (Suc high)) =
    take k (zip temp tk) @
      pmerge cmp (slice (zip arr key) i (Suc mid)) (slice (zip arr key) j (Suc high)))"
  using assms(2-)
proof (induction "(Suc mid - i) + (Suc high - j)" arbitrary: i j k temp tk rule: less_induct)
  case less
  show ?case
  proof (cases "i \<le> mid \<and> j \<le> high")
    case False
    then show ?thesis using less.prems by (subst merge_both.simps) auto
  next
    case True
    have sli: "slice (zip arr key) i (Suc mid) = (arr ! i, key ! i) # slice (zip arr key) (Suc i) (Suc mid)"
      and slj: "slice (zip arr key) j (Suc high) = (arr ! j, key ! j) # slice (zip arr key) (Suc j) (Suc high)"
      using less.prems True by (subst slice_step; simp)+
    have k: "k < n" using less.prems True by linarith
    show ?thesis
    proof (cases "ge (arr ! i) (arr ! j)")
      case g: True
      have m: "(Suc mid - Suc i) + (Suc high - j) < (Suc mid - i) + (Suc high - j)"
        using True by linarith
      note IH = less.hyps[OF m less.prems(1,2), of "temp[k := arr ! i]" "tk[k := key ! i]" "Suc k"]
      have zt: "take (Suc k) (zip (temp[k := arr ! i]) (tk[k := key ! i])) =
          take k (zip temp tk) @ [(arr ! i, key ! i)]"
        using k less.prems by (simp add: take_Suc_update zip_update2)
      show ?thesis
        by (subst merge_both.simps) (insert IH less.prems True g k, simp add: uadd_exact zt sli slj cmp_def)
    next
      case g: False
      have m: "(Suc mid - i) + (Suc high - Suc j) < (Suc mid - i) + (Suc high - j)"
        using True by linarith
      note IH = less.hyps[OF m less.prems(1,2), of "temp[k := arr ! j]" "tk[k := key ! j]" "Suc k"]
      have zt: "take (Suc k) (zip (temp[k := arr ! j]) (tk[k := key ! j])) =
          take k (zip temp tk) @ [(arr ! j, key ! j)]"
        using k less.prems by (simp add: take_Suc_update zip_update2)
      show ?thesis
        by (subst merge_both.simps) (insert IH less.prems True g k, simp add: uadd_exact zt sli slj cmp_def)
    qed
  qed
qed

lemma copy_step:
  assumes "low \<le> i" "i < low + length t" "low + length t \<le> length xs"
  shows "(take low xs @ take (i - low) t @ drop i xs)[i := t ! (i - low)] =
    take low xs @ take (Suc i - low) t @ drop (Suc i) xs"
proof -
  have "take (Suc i - low) t = take (i - low) t @ [t ! (i - low)]"
    using assms by (simp add: Suc_diff_le take_Suc_conv_app_nth)
  moreover have "drop i xs = xs ! i # drop (Suc i) xs"
    using assms by (simp add: Cons_nth_drop_Suc)
  moreover have "i - low < length t" using assms by linarith
  ultimately show ?thesis using assms by (simp add: list_update_append)
qed

lemma copy_step_length:
  assumes "low \<le> i" "i < low + length t" "low + length t \<le> length xs"
  shows "length (take low xs @ take (i - low) t @ drop i xs) = length xs"
proof -
  have "i - low < length t" using assms by linarith
  then show ?thesis using assms by simp
qed

lemma merge_copy_ok:
  assumes "low \<le> high" "Suc high \<le> length arr" "length key = length arr" "length arr < U32"
    "length t = Suc high - low" "length tk = Suc high - low"
  shows "for_range low (Suc high) (\<lambda>i (arr, key). do {
       kv \<leftarrow> aget tk (usub i low);
       key' \<leftarrow> aput key i kv;
       x \<leftarrow> aget t (usub i low);
       arr' \<leftarrow> aput arr i x;
       Some (arr', key')
     }) (arr, key) =
     Some (take low arr @ t @ drop (Suc high) arr, take low key @ tk @ drop (Suc high) key)"
    (is "for_range _ _ ?body _ = _")
proof -
  let ?P = "\<lambda>i (a, k). a = take low arr @ take (i - low) t @ drop i arr \<and>
    k = take low key @ take (i - low) tk @ drop i key"
  have "ok (for_range low (Suc high) ?body (arr, key)) (?P (Suc high))"
  proof (rule ok_for_range)
    fix i s assume i: "low \<le> i" "i < Suc high" and "?P i s"
    then obtain a k where s: "s = (a, k)" "a = take low arr @ take (i - low) t @ drop i arr"
      "k = take low key @ take (i - low) tk @ drop i key" by (cases s) auto
    have u: "usub i low = i - low" using i assms by (intro usub_exact) auto
    have "length a = length arr" "length k = length key"
      using i assms copy_step_length[of low i t arr] copy_step_length[of low i tk key] s by auto
    then show "ok (?body i s) (?P (Suc i))"
      using i assms s u copy_step[of low i t arr] copy_step[of low i tk key] by auto
  qed (use assms in auto)
  then show ?thesis using assms by (auto simp: ok_iff)
qed

lemma merge_by_ok:
  fixes ge :: "'a \<Rightarrow> 'a \<Rightarrow> bool"
  defines "cmp \<equiv> \<lambda>p q. ge (fst p) (fst q)"
  assumes "low \<le> mid" "mid < high" "Suc high \<le> length arr" "length key = length arr" "length arr < U32"
  shows "ok (merge_by fill fillk ge arr key low high mid) (\<lambda>(a, k). length a = length arr \<and>
    length k = length arr \<and> zip a k = take low (zip arr key) @
      pmerge cmp (slice (zip arr key) low (Suc mid)) (slice (zip arr key) (Suc mid) (Suc high)) @
      drop (Suc high) (zip arr key))"
proof -
  let ?n = "Suc high - low" and ?Z = "zip arr key"
  let ?M = "pmerge cmp (slice ?Z low (Suc mid)) (slice ?Z (Suc mid) (Suc high))"
  have n: "uadd (usub high low) 1 = ?n" using assms by (simp add: wrap_simps Suc_diff_le)
  have nU: "?n < U32" using assms by linarith
  have m: "uadd mid 1 = Suc mid" using assms by (simp add: uadd_exact)
  have both: "ok (merge_both ge arr key mid high low (Suc mid) 0 (replicate ?n fill) (replicate ?n fillk))
    (\<lambda>(i', j', k', t', tk').
    i' \<le> Suc mid \<and> j' \<le> Suc high \<and> (i' = Suc mid \<or> j' = Suc high) \<and>
    k' + mid + high + 2 = ?n + i' + j' \<and> length t' = ?n \<and> length tk' = ?n \<and>
    take k' (zip t' tk') @ pmerge cmp (slice ?Z i' (Suc mid)) (slice ?Z j' (Suc high)) = ?M)"
    using assms merge_both_ok[of high arr key low mid "Suc mid" "replicate ?n fill" ?n "replicate ?n fillk" 0 ge]
    by simp
  then obtain i j k t tk where
    b: "merge_both ge arr key mid high low (Suc mid) 0 (replicate ?n fill) (replicate ?n fillk) = Some (i, j, k, t, tk)"
    "i \<le> Suc mid" "j \<le> Suc high" "i = Suc mid \<or> j = Suc high" "k + mid + high + 2 = ?n + i + j"
    "length t = ?n" "length tk = ?n"
    "take k (zip t tk) @ pmerge cmp (slice ?Z i (Suc mid)) (slice ?Z j (Suc high)) = ?M"
    by (auto simp: ok_iff)
  have l1: "k + (Suc mid - i) \<le> ?n" using b(2-5) assms(2,3) by linarith
  from merge_drain_ok[of mid arr key i t ?n tk k] obtain k1 t1 tk1 where
    d1: "merge_drain arr key mid i k t tk = Some (k1, t1, tk1)" "k1 = k + (Suc mid - i)"
      "length t1 = ?n" "length tk1 = ?n" "take k1 (zip t1 tk1) = take k (zip t tk) @ slice ?Z i (Suc mid)"
    using b l1 nU assms by (auto simp: ok_iff)
  have l2: "k1 + (Suc high - j) = ?n" using b(2-5) d1(2) assms(2,3) by linarith
  from merge_drain_ok[of high arr key j t1 ?n tk1 k1] obtain k2 t2 tk2 where
    d2: "merge_drain arr key high j k1 t1 tk1 = Some (k2, t2, tk2)" "k2 = ?n"
      "length t2 = ?n" "length tk2 = ?n" "take k2 (zip t2 tk2) = take k1 (zip t1 tk1) @ slice ?Z j (Suc high)"
    using b d1 l2 nU assms by (auto simp: ok_iff)
  have M: "zip t2 tk2 = ?M"
    using d2 d1(5) b(4,8) by auto
  have cp: "merge_by fill fillk ge arr key low high mid =
    Some (take low arr @ t2 @ drop (Suc high) arr, take low key @ tk2 @ drop (Suc high) key)"
    unfolding merge_by_def Let_def n m
    using b(1) d1(1) d2(1) merge_copy_ok[of low high arr key t2 tk2] d2 assms
    by simp
  show ?thesis unfolding cp
    using d2 assms M[symmetric] by (simp add: min_def zip_append take_zip drop_zip)
qed

lemma swap_at_ok: "i < length xs \<Longrightarrow> j < length xs \<Longrightarrow> swap_at xs i j = Some (xs[i := xs ! j, j := xs ! i])"
  by (simp add: swap_at_def)

lemma blocks:
  assumes "length P = low" "length L = Suc mid - low" "length R = high - mid" "low \<le> mid" "mid < high"
  shows "take low (P @ L @ R @ D) = P" "slice (P @ L @ R @ D) low (Suc mid) = L"
    "slice (P @ L @ R @ D) (Suc mid) (Suc high) = R" "drop (Suc high) (P @ L @ R @ D) = D"
proof -
  have "Suc mid = length P + length L" "Suc high = length P + (length L + length R)"
    using assms by linarith+
  then show "take low (P @ L @ R @ D) = P" "slice (P @ L @ R @ D) low (Suc mid) = L"
    "slice (P @ L @ R @ D) (Suc mid) (Suc high) = R" "drop (Suc high) (P @ L @ R @ D) = D"
    using assms(1) by (simp_all add: slice_def)
qed

lemma update_pair:
  assumes "Suc i < length xs"
  shows "xs[Suc i := xs ! i, i := xs ! Suc i] = take i xs @ [xs ! Suc i, xs ! i] @ drop (Suc (Suc i)) xs"
proof -
  have "xs = take i xs @ [xs ! i, xs ! Suc i] @ drop (Suc (Suc i)) xs"
    using assms by (simp add: Cons_nth_drop_Suc)
  then have "xs[Suc i := a, i := b] = (take i xs @ [xs ! i, xs ! Suc i] @ drop (Suc (Suc i)) xs)[Suc i := a, i := b]" for a b
    by simp
  then show ?thesis using assms by (simp add: list_update_append)
qed

lemma mid_bounds:
  assumes "low < high" "low + high < U32"
  shows "low \<le> uadd low high div 2" "uadd low high div 2 < high" "uadd low high = low + high"
  using assms by (auto simp: uadd_exact)

context rank_order
begin

text \<open>\<open>mergeSort\<close> is the stable sort by the rank, on the slice it is called on.\<close>

lemma mergeSort_by_ok:
  assumes "low \<le> Suc high" "high < length arr" "length key = length arr" "length arr \<le> U32 div 2"
  shows "ok (mergeSort_by fill fillk ge gt arr key low high) (\<lambda>(a, k). length a = length arr \<and>
    length k = length arr \<and> zip a k = take low (zip arr key) @
      sort_key (rank \<circ> fst) (slice (zip arr key) low (Suc high)) @ drop (Suc high) (zip arr key))"
  using assms
proof (induction "Suc high - low" arbitrary: low high arr key rule: less_induct)
  case less
  let ?Z = "zip arr key"
  have r2: "rank_order (\<lambda>p q. ge (fst p) (fst q)) (\<lambda>p q. gt (fst p) (fst q)) (rank \<circ> fst)"
    by unfold_locales (simp_all add: ge_rank gt_rank)
  note prems = less.prems
  show ?case
  proof (cases "high \<le> low")
    case True
    then have "length (slice ?Z low (Suc high)) \<le> 1" using prems by auto
    then have "sort_key (rank \<circ> fst) (slice ?Z low (Suc high)) = slice ?Z low (Suc high)"
      by (cases "slice ?Z low (Suc high)") auto
    then show ?thesis using True prems
      by (subst mergeSort_by.simps) (simp add: take_slice_drop)
  next
    case False
    then have lh: "low < high" "low + high < U32" using prems by linarith+
    have sub: "usub high low = high - low" using lh by (intro usub_exact) auto
    show ?thesis
    proof (cases "high - low = 1")
      case True
      then have hi: "high = Suc low" by simp
      have sl: "slice ?Z low (Suc high) = [?Z ! low, ?Z ! high]"
        using prems hi by (simp add: slice_step)
      let ?a = "arr[high := arr ! low, low := arr ! high]" and ?k = "key[high := key ! low, low := key ! high]"
      have zz: "zip ?a ?k = take low ?Z @ [?Z ! high, ?Z ! low] @ drop (Suc high) ?Z"
        using prems hi update_pair[of low ?Z] by (simp add: zip_update2)
      have same: "?Z = take low ?Z @ [?Z ! low, ?Z ! high] @ drop (Suc high) ?Z"
        using take_slice_drop[of low "Suc high" ?Z] sl hi by simp
      have "usub (Suc low) low = Suc 0" using sub hi by simp
      then show ?thesis
        using prems hi zz same sl
        by (subst mergeSort_by.simps) (auto simp: swap_at_ok gt_rank ok_def)
    next
      case big: False
      define mid where "mid = uadd low high div 2"
      have mid: "low \<le> mid" "mid < high" "uadd mid 1 = Suc mid"
        using mid_bounds[OF lh] lh prems unfolding mid_def by (auto simp: uadd_exact)
      have m1: "Suc mid - low < Suc high - low" and m2: "Suc high - Suc mid < Suc high - low"
        using mid by linarith+
      obtain a1 k1 where s1: "mergeSort_by fill fillk ge gt arr key low mid = Some (a1, k1)"
        "length a1 = length arr" "length k1 = length arr"
        "zip a1 k1 = take low ?Z @ sort_key (rank \<circ> fst) (slice ?Z low (Suc mid)) @ drop (Suc mid) ?Z"
        using less.hyps[OF m1, of arr key] mid prems by (auto simp: ok_iff)
      let ?Z1 = "zip a1 k1"
      obtain a2 k2 where s2: "mergeSort_by fill fillk ge gt a1 k1 (Suc mid) high = Some (a2, k2)"
        "length a2 = length arr" "length k2 = length arr"
        "zip a2 k2 = take (Suc mid) ?Z1 @ sort_key (rank \<circ> fst) (slice ?Z1 (Suc mid) (Suc high)) @ drop (Suc high) ?Z1"
        using less.hyps[OF m2, of a1 k1] mid prems s1 by (auto simp: ok_iff)
      let ?Z2 = "zip a2 k2"
      let ?L = "slice ?Z low (Suc mid)" and ?R = "slice ?Z (Suc mid) (Suc high)"
      have lens: "length (take low ?Z) = low" "length ?L = Suc mid - low" "length ?R = high - mid"
        using mid prems by (simp_all add: min_def)
      have z1: "take (Suc mid) ?Z1 = take low ?Z @ sort_key (rank \<circ> fst) ?L"
        "drop (Suc mid) ?Z1 = drop (Suc mid) ?Z"
        using lens mid unfolding s1(4) by simp_all
      have hm: "drop (Suc high) xs = drop (high - mid) (drop (Suc mid) xs)" for xs :: "('a \<times> 'b) list"
        using mid by simp
      have z1r: "slice ?Z1 (Suc mid) (Suc high) = ?R" "drop (Suc high) ?Z1 = drop (Suc high) ?Z"
        unfolding slice_def hm z1(2) by simp_all
      have z2: "?Z2 = take low ?Z @ sort_key (rank \<circ> fst) ?L @ sort_key (rank \<circ> fst) ?R @ drop (Suc high) ?Z"
        using s2(4) by (simp add: z1 z1r)
      have slens: "length (sort_key (rank \<circ> fst) ?L) = Suc mid - low"
        "length (sort_key (rank \<circ> fst) ?R) = high - mid"
        unfolding length_sort by (fact lens)+
      have z2s: "take low ?Z2 = take low ?Z" "slice ?Z2 low (Suc mid) = sort_key (rank \<circ> fst) ?L"
        "slice ?Z2 (Suc mid) (Suc high) = sort_key (rank \<circ> fst) ?R" "drop (Suc high) ?Z2 = drop (Suc high) ?Z"
        unfolding z2 by (rule blocks[OF lens(1) slens mid(1,2)])+
      have "?L @ ?R = slice ?Z low (Suc high)" using mid by (simp add: slice_split)
      then have "ok (merge_by fill fillk ge a2 k2 low high mid) (\<lambda>(a, k). length a = length arr \<and>
        length k = length arr \<and> zip a k = take low ?Z @
        sort_key (rank \<circ> fst) (slice ?Z low (Suc high)) @ drop (Suc high) ?Z)"
        using merge_by_ok[of low mid high a2 k2 fill fillk ge] mid prems s2(2,3) z2s
          rank_order.pmerge_sort_key[OF r2, of ?L ?R] by simp
      then show ?thesis
        using s1(1) s2(1) lh big mid sub
        by (subst mergeSort_by.simps) (simp add: mid_def[symmetric])
    qed
  qed
qed

end

section \<open>The copies without a key array compute the same array\<close>

lemma mergeWOkey_both_sim:
  "merge_both ge arr key mid high i j k temp tk = Some (i', j', k', t', tk') \<Longrightarrow>
   mergeWOkey_both ge arr mid high i j k temp = Some (i', j', k', t')"
proof (rule merge_both.raw_induct[where P = "\<lambda>ge arr key mid high i j k temp tk (i', j', k', t', tk').
    mergeWOkey_both ge arr mid high i j k temp = Some (i', j', k', t')"
    and y = "(i', j', k', t', tk')", simplified split_conv, rotated], assumption)
  fix f :: "('a \<Rightarrow> 'a \<Rightarrow> bool) \<Rightarrow> 'a list \<Rightarrow> 'b list \<Rightarrow> nat \<Rightarrow> nat \<Rightarrow> nat \<Rightarrow> nat \<Rightarrow> nat \<Rightarrow> 'a list \<Rightarrow>
    'b list \<Rightarrow> (nat \<times> nat \<times> nat \<times> 'a list \<times> 'b list) option"
    and ge arr key mid high i j k temp tk and r :: "nat \<times> nat \<times> nat \<times> 'a list \<times> 'b list"
  assume IH: "\<And>ge arr key mid high i j k temp tk r. f ge arr key mid high i j k temp tk = Some r \<Longrightarrow>
      case r of (i', j', k', t', tk') \<Rightarrow> mergeWOkey_both ge arr mid high i j k temp = Some (i', j', k', t')"
    and eq: "(if i \<le> mid \<and> j \<le> high then do {
        x \<leftarrow> aget arr i;
        y \<leftarrow> aget arr j;
        if ge x y then do {
          kv \<leftarrow> aget key i;
          tempKey' \<leftarrow> aput tk k kv;
          temp' \<leftarrow> aput temp k x;
          f ge arr key mid high (uadd i 1) j (uadd k 1) temp' tempKey'
        } else do {
          kv \<leftarrow> aget key j;
          tempKey' \<leftarrow> aput tk k kv;
          temp' \<leftarrow> aput temp k y;
          f ge arr key mid high i (uadd j 1) (uadd k 1) temp' tempKey'
        }
      } else Some (i, j, k, temp, tk)) = Some r"
  show "case r of (i', j', k', t', tk') \<Rightarrow> mergeWOkey_both ge arr mid high i j k temp = Some (i', j', k', t')"
    using eq by (subst mergeWOkey_both.simps)
      (auto split: if_splits Option.bind_splits dest!: IH)
qed

lemma mergeWOkey_drain_sim:
  "merge_drain arr key stop i k temp tk = Some (k', t', tk') \<Longrightarrow>
   mergeWOkey_drain arr stop i k temp = Some (k', t')"
proof (rule merge_drain.raw_induct[where P = "\<lambda>arr key stop i k temp tk (k', t', tk').
    mergeWOkey_drain arr stop i k temp = Some (k', t')"
    and y = "(k', t', tk')", simplified split_conv, rotated], assumption)
  fix f :: "'a list \<Rightarrow> 'b list \<Rightarrow> nat \<Rightarrow> nat \<Rightarrow> nat \<Rightarrow> 'a list \<Rightarrow> 'b list \<Rightarrow> (nat \<times> 'a list \<times> 'b list) option"
    and arr key stop i k temp tk and r :: "nat \<times> 'a list \<times> 'b list"
  assume IH: "\<And>arr key stop i k temp tk r. f arr key stop i k temp tk = Some r \<Longrightarrow>
      case r of (k', t', tk') \<Rightarrow> mergeWOkey_drain arr stop i k temp = Some (k', t')"
    and eq: "(if i \<le> stop then do {
        kv \<leftarrow> aget key i;
        tempKey' \<leftarrow> aput tk k kv;
        x \<leftarrow> aget arr i;
        temp' \<leftarrow> aput temp k x;
        f arr key stop (uadd i 1) (uadd k 1) temp' tempKey'
      } else Some (k, temp, tk)) = Some r"
  show "case r of (k', t', tk') \<Rightarrow> mergeWOkey_drain arr stop i k temp = Some (k', t')"
    using eq by (subst mergeWOkey_drain.simps)
      (auto split: if_splits Option.bind_splits dest!: IH)
qed

lemma mfold_fst_sim:
  assumes "\<And>x s s'. f x s = Some s' \<Longrightarrow> g x (fst s) = Some (fst s')"
  shows "mfold f xs s = Some s' \<Longrightarrow> mfold g xs (fst s) = Some (fst s')"
  by (induction xs arbitrary: s) (auto split: Option.bind_splits dest: assms)

lemma mergeWOkey_by_sim:
  assumes "merge_by fill fillk ge arr key low high mid = Some r"
  shows "mergeWOkey_by fill ge arr low high mid = Some (fst r)"
proof -
  let ?n = "uadd (usub high low) 1"
  obtain i j k t tk k1 t1 tk1 k2 t2 tk2 where
    r: "merge_both ge arr key mid high low (uadd mid 1) 0 (replicate ?n fill) (replicate ?n fillk) = Some (i, j, k, t, tk)"
    "merge_drain arr key mid i k t tk = Some (k1, t1, tk1)"
    "merge_drain arr key high j k1 t1 tk1 = Some (k2, t2, tk2)"
    "for_range low (Suc high) (\<lambda>i (arr, key). do {
       kv \<leftarrow> aget tk2 (usub i low); key' \<leftarrow> aput key i kv; x \<leftarrow> aget t2 (usub i low);
       arr' \<leftarrow> aput arr i x; Some (arr', key') }) (arr, key) = Some r"
    using assms unfolding merge_by_def Let_def by (auto split: Option.bind_splits)
  have "for_range low (Suc high) (\<lambda>i arr. do { x \<leftarrow> aget t2 (usub i low); aput arr i x }) arr = Some (fst r)"
    using r(4) unfolding for_range_def
    by (rule mfold_fst_sim[of _ _ _ "(arr, key)", simplified, rotated]) (auto split: Option.bind_splits)
  then show ?thesis
    using mergeWOkey_both_sim[OF r(1)] mergeWOkey_drain_sim[OF r(2)] mergeWOkey_drain_sim[OF r(3)]
    unfolding mergeWOkey_by_def Let_def by simp
qed

lemma mergeSortWOkey_by_sim:
  "mergeSort_by fill fillk ge gt arr key low high = Some r \<Longrightarrow>
   mergeSortWOkey_by fill ge gt arr low high = Some (fst r)"
proof (rule mergeSort_by.raw_induct[where P = "\<lambda>fill fillk ge gt arr key low high r.
    mergeSortWOkey_by fill ge gt arr low high = Some (fst r)", rotated], assumption)
  fix f :: "'a \<Rightarrow> 'b \<Rightarrow> ('a \<Rightarrow> 'a \<Rightarrow> bool) \<Rightarrow> ('a \<Rightarrow> 'a \<Rightarrow> bool) \<Rightarrow> 'a list \<Rightarrow> 'b list \<Rightarrow> nat \<Rightarrow> nat \<Rightarrow>
    ('a list \<times> 'b list) option"
    and fill fillk ge gt arr key low high and r :: "'a list \<times> 'b list"
  assume IH: "\<And>fill fillk ge gt arr key low high r. f fill fillk ge gt arr key low high = Some r \<Longrightarrow>
      mergeSortWOkey_by fill ge gt arr low high = Some (fst r)"
    and eq: "(if high \<le> low then Some (arr, key)
      else if usub high low = 1 then do {
        x \<leftarrow> aget arr high;
        y \<leftarrow> aget arr low;
        if gt x y then do {
          arr' \<leftarrow> swap_at arr high low;
          key' \<leftarrow> swap_at key high low;
          Some (arr', key')
        } else Some (arr, key)
      } else do {
        ak \<leftarrow> f fill fillk ge gt arr key low (uadd low high div 2);
        ak' \<leftarrow> f fill fillk ge gt (fst ak) (snd ak) (uadd (uadd low high div 2) 1) high;
        merge_by fill fillk ge (fst ak') (snd ak') low high (uadd low high div 2)
      }) = Some r"
  show "mergeSortWOkey_by fill ge gt arr low high = Some (fst r)"
    using eq by (subst mergeSortWOkey_by.simps)
      (auto split: if_splits Option.bind_splits dest!: IH dest: mergeWOkey_by_sim)
qed

section \<open>Ranks of the comparisons used\<close>

interpretation desc: rank_order "\<lambda>x y :: u32. x \<ge> y" "\<lambda>x y. x > y" "\<lambda>x. - int x"
  by unfold_locales auto

interpretation asc: rank_order "\<lambda>x y :: int. x \<le> y" "\<lambda>x y. x < y" "\<lambda>x. x"
  by unfold_locales auto

lemma insort_key_map: "map f (insort_key (g \<circ> f) x xs) = insort_key g (f x) (map f xs)"
  by (induction xs) auto

lemma sort_key_map: "map f (sort_key (g \<circ> f) xs) = sort_key g (map f xs)"
  by (induction xs) (simp_all add: insort_key_map[unfolded comp_def] comp_def)

lemma sort_desc: "sort_key (\<lambda>x. - int x) xs = rev (sort xs)"
proof -
  let ?l = "sort_key (\<lambda>x. - int x) xs"
  have "sorted (map (\<lambda>x. - int x) ?l)" by simp
  then have "sorted_wrt (\<lambda>x y. y \<le> x) ?l" by (simp add: sorted_map)
  then have "sorted (rev ?l)" by (simp add: sorted_wrt_rev)
  then have "sort xs = rev ?l" by (intro properties_for_sort) simp_all
  then show ?thesis by simp
qed

lemma map_fst_slice_zip: "length ks = length xs \<Longrightarrow> map fst (slice (zip xs ks) a b) = slice xs a b"
  by (simp add: slice_zip)

lemma mergeSortWOkey_ok:
  assumes "low \<le> Suc high" "high < length arr" "length arr \<le> U32 div 2"
  shows "mergeSortWOkey arr low high =
    Some (take low arr @ rev (sort (slice arr low (Suc high))) @ drop (Suc high) arr)"
proof -
  obtain a k where r: "mergeSort_by 0 () (\<lambda>x y. x \<ge> y) (\<lambda>x y. x > y) arr (replicate (length arr) ()) low high = Some (a, k)"
    "length a = length arr" "length k = length arr"
    "zip a k = take low (zip arr (replicate (length arr) ())) @
      sort_key ((\<lambda>x. - int x) \<circ> fst) (slice (zip arr (replicate (length arr) ())) low (Suc high)) @
      drop (Suc high) (zip arr (replicate (length arr) ()))"
    using desc.mergeSort_by_ok[of low high arr "replicate (length arr) ()" 0 "()"] assms by (auto simp: ok_iff)
  let ?Z = "zip arr (replicate (length arr) ())"
  have Z: "map fst ?Z = arr" by simp
  have "a = map fst (zip a k)" using r(2,3) by simp
  also have "\<dots> = map fst (take low ?Z) @ map fst (sort_key ((\<lambda>x. - int x) \<circ> fst) (slice ?Z low (Suc high))) @
      map fst (drop (Suc high) ?Z)"
    by (simp only: r(4) map_append)
  also have "\<dots> = take low arr @ rev (sort (slice arr low (Suc high))) @ drop (Suc high) arr"
    unfolding sort_key_map sort_desc slice_map[symmetric] take_map[symmetric] drop_map[symmetric] Z ..
  finally show ?thesis
    using mergeSortWOkey_by_sim[OF r(1)] by (simp add: mergeSortWOkey_def)
qed

section \<open>Calls that run off the array\<close>

lemma mfold_length:
  assumes "\<And>x s s'. f x s = Some s' \<Longrightarrow> length s' = length s"
  shows "mfold f xs s = Some s' \<Longrightarrow> length s' = length s"
  by (induction xs arbitrary: s) (auto split: Option.bind_splits dest: assms)

lemma mergeWOkey_by_length:
  "mergeWOkey_by fill ge arr low high mid = Some a \<Longrightarrow> length a = length arr"
  unfolding mergeWOkey_by_def for_range_def Let_def
  by (auto split: Option.bind_splits prod.splits dest!: mfold_length[rotated] simp: aput_def split: if_splits)

lemma mergeSortWOkey_by_length:
  "mergeSortWOkey_by fill ge gt arr low high = Some a \<Longrightarrow> length a = length arr"
proof (rule mergeSortWOkey_by.raw_induct[where P = "\<lambda>fill ge gt arr low high a. length a = length arr", rotated], assumption)
  fix f :: "'a \<Rightarrow> ('a \<Rightarrow> 'a \<Rightarrow> bool) \<Rightarrow> ('a \<Rightarrow> 'a \<Rightarrow> bool) \<Rightarrow> 'a list \<Rightarrow> nat \<Rightarrow> nat \<Rightarrow> 'a list option"
    and fill ge gt arr low high a
  assume IH: "\<And>fill ge gt arr low high a. f fill ge gt arr low high = Some a \<Longrightarrow> length a = length arr"
    and eq: "(if high \<le> low then Some arr
      else if usub high low = 1 then do {
        x \<leftarrow> aget arr high;
        y \<leftarrow> aget arr low;
        if gt x y then swap_at arr high low else Some arr
      } else do {
        arr' \<leftarrow> f fill ge gt arr low (uadd low high div 2);
        arr'' \<leftarrow> f fill ge gt arr' (uadd (uadd low high div 2) 1) high;
        mergeWOkey_by fill ge arr'' low high (uadd low high div 2)
      }) = Some a"
  show "length a = length arr"
    using eq by (auto split: if_splits Option.bind_splits dest!: IH mergeWOkey_by_length
      simp: swap_at_def aput_def)
qed

lemma mergeSortWOkey_by_oob:
  assumes "low < high" "length arr \<le> high" "2 * high < U32"
  shows "mergeSortWOkey_by fill ge gt arr low high = None"
  using assms
proof (induction "high - low" arbitrary: low arr rule: less_induct)
  case less
  have sub: "usub high low = high - low" using less.prems by (intro usub_exact) auto
  define mid where "mid = uadd low high div 2"
  have mid: "low \<le> mid" "mid < high" "uadd mid 1 = Suc mid"
    using mid_bounds[of low high] less.prems unfolding mid_def by (auto simp: uadd_exact)
  show ?case
  proof (cases "high - low = 1")
    case True
    then show ?thesis using less.prems sub by (subst mergeSortWOkey_by.simps) simp
  next
    case big: False
    have right: "mergeSortWOkey_by fill ge gt a (Suc mid) high = None"
      if "length a = length arr" "Suc mid < high" for a
      using that less.hyps[of "Suc mid" a] mid less.prems by auto
    have "mergeWOkey_by fill ge a low high mid = None" if "length a = length arr" "Suc mid = high" for a
      using that mid less.prems unfolding mergeWOkey_by_def
      by (subst mergeWOkey_both.simps) (auto simp: Let_def split: Option.bind_splits)
    then have *: "mergeWOkey_by fill ge b low high mid = None"
      if "length a = length arr" "mergeSortWOkey_by fill ge gt a (Suc mid) high = Some b" for a b
      using right[of a] that mid(2) mergeSortWOkey_by_length[OF that(2)] by (cases "Suc mid < high") auto
    show ?thesis using less.prems big sub mid
      by (subst mergeSortWOkey_by.simps)
        (auto simp: mid_def[symmetric] * split: Option.bind_splits dest: mergeSortWOkey_by_length)
  qed
qed

text \<open>The call \<open>mergeSortWOkey(arr, 0, end - 1)\<close> with \<open>end = 0\<close>: the bound wraps around.\<close>

lemma mergeSortWOkey_wrapped:
  assumes "length arr < U32 div 2"
  shows "mergeSortWOkey arr 0 (usub 0 1) = None"
proof -
  have "usub 0 1 = U32 - 1" by (simp add: usub_def)
  moreover have "uadd 0 (U32 - 1) div 2 = U32 div 2 - 1" by (simp add: uadd_def)
  moreover have "usub (U32 - 1) 0 \<noteq> 1" by (simp add: usub_def)
  moreover have "mergeSortWOkey_by 0 (\<lambda>x y. x \<ge> y) (\<lambda>x y. x > y) arr 0 (U32 div 2 - 1) = None"
    using assms by (intro mergeSortWOkey_by_oob) auto
  ultimately show ?thesis unfolding mergeSortWOkey_def
    by (subst mergeSortWOkey_by.simps) simp
qed

section \<open>Properties\<close>

text \<open>C10: \<open>mergeSort(arr, key, low, high)\<close> returns, touches nothing outside \<open>low..high\<close>, and sorts the
  pairs of the slice by descending \<open>arr\<close>, stably: the pairs of equal value keep their order.\<close>

theorem mergeSort_stable:
  assumes "low \<le> Suc high" "high < length arr" "length key = length arr" "length arr \<le> U32 div 2"
  shows "\<exists>a k. mergeSort arr key low high = Some (a, k) \<and> length a = length arr \<and> length k = length arr \<and>
    zip a k = take low (zip arr key) @ sort_key (\<lambda>p. - int (fst p)) (slice (zip arr key) low (Suc high)) @
      drop (Suc high) (zip arr key) \<and>
    sorted_wrt (\<ge>) (slice a low (Suc high))"
proof -
  let ?s = "sort_key (\<lambda>p. - int (fst p)) (slice (zip arr key) low (Suc high))"
  obtain a k where r: "mergeSort arr key low high = Some (a, k)" "length a = length arr" "length k = length arr"
    "zip a k = take low (zip arr key) @ ?s @ drop (Suc high) (zip arr key)"
    using desc.mergeSort_by_ok[OF assms, of 0 0] by (auto simp: ok_iff mergeSort_def comp_def)
  have l: "length ?s = Suc high - low" "length (take low (zip arr key)) = low" using assms by auto
  have "slice (zip a k) low (Suc high) = ?s" unfolding r(4) slice_def using l by simp
  then have "slice a low (Suc high) = map fst ?s" by (metis map_fst_slice_zip r(2,3))
  moreover have "sorted (map (\<lambda>p. - int (fst p)) ?s)" by simp
  then have "sorted_wrt (\<ge>) (map fst ?s)" by (simp add: sorted_map sorted_wrt_map)
  ultimately show ?thesis using r by simp
qed

theorem mergeSort_stable_witness:
  "\<exists>a k. mergeSort [3, 1, 3, 2] [0, 1, 2, 3] 0 3 = Some (a, k) \<and>
    zip a k = [(3, 0), (3, 2), (2, 3), (1, 1)] \<and> sorted_wrt (\<ge>) a"
  using mergeSort_stable[of 0 3 "[3, 1, 3, 2]" "[0, 1, 2, 3]"] by auto

text \<open>\<open>mergeSortWOkey(arr, low, high)\<close> sorts the slice \<open>low..high\<close> in descending order and leaves the
  rest of the array.\<close>

theorem mergeSortWOkey_sorts:
  assumes "low \<le> Suc high" "high < length arr" "length arr \<le> U32 div 2"
  shows "mergeSortWOkey arr low high =
    Some (take low arr @ rev (sort (slice arr low (Suc high))) @ drop (Suc high) arr)"
  by (rule mergeSortWOkey_ok[OF assms])

theorem mergeSortWOkey_sorts_witness:
  "mergeSortWOkey [9, 1, 3, 2, 0] 1 3 = Some [9, 3, 2, 1, 0]"
  using mergeSortWOkey_sorts[of 1 3 "[9, 1, 3, 2, 0]"] by (simp add: slice_def)

text \<open>The call with the bound \<open>end - 1\<close> for \<open>end = 0\<close> (an empty first slice) runs off the array:
  the bound wraps around to \<open>2^32 - 1\<close>.\<close>

theorem mergeSortWOkey_empty_undefined:
  assumes "length arr < U32 div 2"
  shows "mergeSortWOkey arr 0 (usub 0 1) = None"
  by (rule mergeSortWOkey_wrapped[OF assms])

theorem mergeSortWOkey_empty_undefined_witness: "mergeSortWOkey [5, 7] 0 (usub 0 1) = None"
  by (rule mergeSortWOkey_empty_undefined) simp

end
