(* ===== verification/Init_Model.thy ===== *)
theory Init_Model
  imports Reorder_Loop Merge_Sort
begin

text \<open>
  The arrays the placement loop starts from (\<open>main.cpp\<close> in \<open>br/block_reordering\<close> and \<open>ph/pH\<close>): the
  degrees, the initial order of the nodes (sorted by descending cost), the cost array (every node
  starts at \<open>maxc\<close>), the index \<open>CI\<close> of the first position of every cost, and the inverse
  permutation \<open>nodeMap\<close>. Together they satisfy the invariant of the loop.
\<close>

section \<open>The code\<close>

text \<open>\<open>inDeg[i] = VI[i+1] - VI[i]\<close>, and the last entry from \<open>numEdges\<close>.\<close>

definition degrees :: "graph \<Rightarrow> u32 list option" where
  "degrees G = do {
     deg \<leftarrow> for_range 0 (usub (numVertex G) 1) (\<lambda>i deg. do {
       b \<leftarrow> aget (VI G) (uadd i 1);
       a \<leftarrow> aget (VI G) i;
       aput deg i (usub b a)
     }) (replicate (numVertex G) 0);
     a \<leftarrow> aget (VI G) (usub (numVertex G) 1);
     aput deg (usub (numVertex G) 1) (usub (numEdges G) a)
   }"

text \<open>\<open>while(cost[myId] == val) myId++\<close>\<close>

partial_function (option) ci_skip :: "u32 list \<Rightarrow> u32 \<Rightarrow> u32 \<Rightarrow> u32 option" where
  "ci_skip cs val myId = do {
     c \<leftarrow> aget cs myId;
     if c = val then ci_skip cs val (uadd myId 1) else Some myId
   }"

text \<open>\<open>while(cost[myId] != val) CI[++val] = myId\<close>\<close>

partial_function (option) ci_fill :: "u32 list \<Rightarrow> u32 \<Rightarrow> u32 \<Rightarrow> u32 list \<Rightarrow> (u32 \<times> u32 list) option" where
  "ci_fill cs myId val ci = do {
     c \<leftarrow> aget cs myId;
     if c \<noteq> val then do {
       ci2 \<leftarrow> aput ci (uadd val 1) myId;
       ci_fill cs myId (uadd val 1) ci2
     } else Some (val, ci)
   }"

partial_function (option) ci_loop :: "u32 list \<Rightarrow> u32 \<Rightarrow> u32 \<Rightarrow> u32 \<Rightarrow> u32 list \<Rightarrow> u32 list option" where
  "ci_loop cs maxc val myId ci =
     (if val < maxc then do {
        myId \<leftarrow> ci_skip cs val myId;
        r \<leftarrow> ci_fill cs myId val ci;
        ci_loop cs maxc (fst r) (uadd myId 1) (snd r)
      } else Some ci)"

definition cost_index :: "u32 list \<Rightarrow> u32 \<Rightarrow> u32 list option" where
  "cost_index cs maxc = do {
     ci \<leftarrow> aput (replicate (uadd maxc 1) 0) 0 0;
     ci_loop cs maxc 0 0 ci
   }"

text \<open>\<open>nodeMap[nodeId[i]] = i\<close>\<close>

definition invert_order :: "u32 list \<Rightarrow> u32 \<Rightarrow> u32 list option" where
  "invert_order ni n = for_range 0 n (\<lambda>i nm. do { v \<leftarrow> aget ni i; aput nm v i }) (replicate n 0)"

text \<open>The state before the first iteration: \<open>n\<close> nodes, \<open>k\<close> entries of \<open>updates\<close>, \<open>N\<close> parents.\<close>

definition init_model :: "u32 \<Rightarrow> u32 \<Rightarrow> u32 \<Rightarrow> u32 list \<Rightarrow> u32 \<Rightarrow> cache_state option" where
  "init_model n k N cs maxc = do {
     nodeId \<leftarrow> for_range 0 n (\<lambda>i ni. aput ni i i) (replicate n 0);
     (cost, nodeId) \<leftarrow> mergeSort cs nodeId 0 (usub n 1);
     cost \<leftarrow> for_range 0 n (\<lambda>i c. aput c i maxc) cost;
     CI \<leftarrow> cost_index cost maxc;
     nodeMap \<leftarrow> invert_order nodeId n;
     Some \<lparr>cost = cost, nodeMap = nodeMap, nodeId = nodeId, CI = CI,
       cachePresence = replicate N 0, isPlaced = replicate n False, updates = replicate k 0\<rparr>
   }"

section \<open>Degrees\<close>

lemma degrees_ok:
  assumes wf: "wf_csr G"
  shows "degrees G = Some (map (\<lambda>v. length (adj G v)) [0..<numVertex G])"
proof -
  note w = wf_csrD[OF wf]
  let ?n = "numVertex G" and ?d = "\<lambda>v. length (adj G v)"
  have d: "?d v = eend G v - VI G ! v" if "v < ?n" for v
    using w(4) w(8)[OF that] by (simp add: adj_def)
  have sub: "usub (eend G v) (VI G ! v) = ?d v" if "v < ?n" for v
    using d[OF that] w(3) w(7,8)[OF that] by (subst usub_exact) auto
  have n1: "usub ?n 1 = ?n - 1" using w(1,2) by (subst usub_exact) auto
  let ?P = "\<lambda>i deg. deg = map ?d [0..<i] @ replicate (?n - i) 0"
  let ?body = "\<lambda>i deg. do { b \<leftarrow> aget (VI G) (uadd i 1); a \<leftarrow> aget (VI G) i; aput deg i (usub b a) }"
  have "ok (for_range 0 (?n - 1) ?body (replicate ?n 0)) (?P (?n - 1))"
  proof (rule ok_for_range[where P = ?P])
    fix i deg assume i: "0 \<le> i" "i < ?n - 1" and P: "?P i deg"
    have "uadd i 1 = Suc i" "eend G i = VI G ! Suc i" using i w(2) by (simp_all add: uadd_exact eend_def)
    moreover have "replicate (?n - i) (0 :: nat) = 0 # replicate (?n - Suc i) 0"
      using i by (metis Suc_diff_Suc add_lessD1 less_diff_conv replicate_Suc)
    ultimately show "ok (?body i deg) (?P (Suc i))"
      using i P w(5) sub[of i] by (simp add: list_update_append)
  qed auto
  then have l: "for_range 0 (?n - 1) ?body (replicate ?n 0) = Some (map ?d [0..<?n - 1] @ [0])"
    using w(1) by (auto simp: ok_iff)
  have "eend G (?n - 1) = numEdges G" by (simp add: eend_def)
  then have "usub (numEdges G) (VI G ! (?n - 1)) = ?d (?n - 1)" using sub[of "?n - 1"] w(1) by simp
  moreover have "map ?d [0..<?n] = map ?d [0..<?n - 1] @ [?d (?n - 1)]"
    using w(1) by (cases ?n) auto
  ultimately show ?thesis
    using w(1,5) by (simp only: degrees_def n1 l) (simp add: list_update_append)
qed

section \<open>The index of the cost array\<close>

lemma ci_skip_ok:
  assumes "cs ! (length cs - 1) \<noteq> val" "myId < length cs" "length cs < U32"
    "\<forall>i<myId. cs ! i \<le> val" "\<forall>i. myId \<le> i \<and> i < length cs \<longrightarrow> val \<le> cs ! i"
  shows "ok (ci_skip cs val myId) (\<lambda>k. k < length cs \<and> val < cs ! k \<and> (\<forall>i<k. cs ! i \<le> val))"
  using assms
proof (induction "length cs - myId" arbitrary: myId)
  case (Suc d)
  show ?case
  proof (cases "cs ! myId = val")
    case True
    have lt: "Suc myId < length cs"
      using Suc.prems(1,2) True by (metis Suc_diff_1 Suc_lessI diff_Suc_1 length_greater_0_conv list.size(3) not_less0)
    have "ok (ci_skip cs val (Suc myId)) (\<lambda>k. k < length cs \<and> val < cs ! k \<and> (\<forall>i<k. cs ! i \<le> val))"
      by (rule Suc.hyps(1)) (use Suc.hyps(2) Suc.prems lt True in \<open>auto simp: less_Suc_eq\<close>)
    then show ?thesis using True Suc.prems lt by (subst ci_skip.simps) (simp add: uadd_exact)
  next
    case False
    then show ?thesis using Suc.prems by (subst ci_skip.simps) (auto simp: le_less)
  qed
qed simp

lemma ci_fill_ok:
  assumes "myId < length cs" "sorted cs" "val \<le> cs ! myId" "cs ! myId < length ci" "cs ! myId < U32"
    "\<forall>i<myId. cs ! i \<le> val0" "val0 \<le> val"
    "\<forall>k\<le>val. boundary (length cs) 0 cs k (ci ! k)"
  shows "ok (ci_fill cs myId val ci) (\<lambda>(v, ci'). v = cs ! myId \<and> length ci' = length ci \<and>
    (\<forall>k\<le>v. boundary (length cs) 0 cs k (ci' ! k)))"
  using assms
proof (induction "cs ! myId - val" arbitrary: val ci)
  case 0
  then have "cs ! myId = val" by simp
  then show ?case using 0 by (subst ci_fill.simps) simp
next
  case (Suc d)
  have lt: "val < cs ! myId" using Suc.hyps(2) by simp
  have u: "uadd val 1 = Suc val" using lt Suc.prems(5) by (simp add: uadd_exact)
  have b: "boundary (length cs) 0 cs (Suc val) myId"
    unfolding boundary_def
  proof (intro conjI allI impI)
    fix i assume "myId \<le> i \<and> i < length cs"
    then have "cs ! myId \<le> cs ! i" using Suc.prems(2) by (simp add: sorted_iff_nth_mono)
    then show "Suc val \<le> cs ! i" using lt by simp
  qed (use Suc.prems in \<open>auto simp: less_Suc_eq_le\<close>)
  let ?ci = "ci[Suc val := myId]"
  have bs: "\<forall>k\<le>Suc val. boundary (length cs) 0 cs k (?ci ! k)"
    using Suc.prems(4,8) b lt by (auto simp: nth_list_update le_Suc_eq)
  have "ok (ci_fill cs myId (Suc val) ?ci) (\<lambda>(v, ci'). v = cs ! myId \<and> length ci' = length ?ci \<and>
    (\<forall>k\<le>v. boundary (length cs) 0 cs k (ci' ! k)))"
    by (rule Suc.hyps(1)) (use Suc.hyps(2) Suc.prems lt bs in simp_all)
  then show ?case using Suc.prems lt u by (subst ci_fill.simps) simp
qed

lemma ci_loop_ok:
  assumes "cs \<noteq> []" "sorted cs" "last cs = maxc" "length cs < U32" "maxc + 1 < U32" "length ci = Suc maxc"
    "val \<le> maxc" "\<forall>k\<le>val. boundary (length cs) 0 cs k (ci ! k)"
    "\<forall>i<length cs. i < myId \<longrightarrow> cs ! i \<le> val" "\<forall>i<length cs. myId \<le> i \<longrightarrow> val \<le> cs ! i"
  shows "ok (ci_loop cs maxc val myId ci) (\<lambda>ci'. length ci' = Suc maxc \<and>
    (\<forall>k\<le>maxc. boundary (length cs) 0 cs k (ci' ! k)))"
  using assms
proof (induction "maxc - val" arbitrary: val myId ci rule: less_induct)
  case less
  let ?n = "length cs"
  have l: "cs ! (?n - 1) = maxc" "?n - 1 < ?n" using less.prems(1,3) by (auto simp: last_conv_nth)
  show ?case
  proof (cases "val < maxc")
    case False
    then show ?thesis using less.prems by (subst ci_loop.simps) auto
  next
    case True
    have my: "myId < ?n"
    proof (rule ccontr)
      assume "\<not> myId < ?n"
      then have "cs ! (?n - 1) \<le> val" using less.prems(9) l(2) by auto
      then show False using l(1) True by simp
    qed
    have sk: "ok (ci_skip cs val myId) (\<lambda>k. k < ?n \<and> val < cs ! k \<and> (\<forall>i<k. cs ! i \<le> val))"
      by (rule ci_skip_ok) (use less.prems l True my in auto)
    have fl: "ok (ci_fill cs k val ci) (\<lambda>r. ok (ci_loop cs maxc (fst r) (uadd k 1) (snd r))
        (\<lambda>ci'. length ci' = Suc maxc \<and> (\<forall>k\<le>maxc. boundary ?n 0 cs k (ci' ! k))))"
      if k: "k < ?n \<and> val < cs ! k \<and> (\<forall>i<k. cs ! i \<le> val)" for k
    proof -
      have mono: "cs ! i \<le> cs ! j" if "i \<le> j" "j < ?n" for i j
        using less.prems(2) that by (simp add: sorted_iff_nth_mono)
      have km: "cs ! k \<le> maxc" using mono[of k "?n - 1"] conjunct1[OF k] l by (metis Suc_diff_1 less_Suc_eq_le length_greater_0_conv less.prems(1))
      have u: "uadd k 1 = Suc k" using k less.prems(4) by (simp add: uadd_exact)
      have "ok (ci_fill cs k val ci) (\<lambda>(v, ci'). v = cs ! k \<and> length ci' = length ci \<and>
        (\<forall>j\<le>v. boundary ?n 0 cs j (ci' ! j)))"
        by (rule ci_fill_ok[where val0 = val]) (use k km less.prems in auto)
      then show ?thesis
      proof (rule ok_mono)
        fix r assume r: "case r of (v, ci') \<Rightarrow> v = cs ! k \<and> length ci' = length ci \<and>
          (\<forall>j\<le>v. boundary ?n 0 cs j (ci' ! j))"
        show "ok (ci_loop cs maxc (fst r) (uadd k 1) (snd r)) (\<lambda>ci'. length ci' = Suc maxc \<and>
          (\<forall>k\<le>maxc. boundary ?n 0 cs k (ci' ! k)))"
          unfolding u
          by (rule less.hyps) (use r k km less.prems mono in \<open>auto simp: less_Suc_eq_le\<close>)
      qed
    qed
    show ?thesis
      using ok_mono[OF sk fl] True by (subst ci_loop.simps) simp
  qed
qed

lemma cost_index_ok:
  assumes "cs \<noteq> []" "sorted cs" "last cs = maxc" "length cs < U32" "maxc + 1 < U32"
  shows "ok (cost_index cs maxc) (\<lambda>ci. length ci = Suc maxc \<and> (\<forall>k\<le>maxc. boundary (length cs) 0 cs k (ci ! k)))"
proof -
  have "ok (ci_loop cs maxc 0 0 (replicate (Suc maxc) 0)) (\<lambda>ci. length ci = Suc maxc \<and>
    (\<forall>k\<le>maxc. boundary (length cs) 0 cs k (ci ! k)))"
    by (rule ci_loop_ok) (use assms in \<open>auto simp: boundary_def nth_Cons'\<close>)
  then show ?thesis using assms(5) by (simp add: cost_index_def uadd_exact)
qed

section \<open>The inverse permutation\<close>

lemma invert_order_ok:
  assumes "distinct ni" "set ni = {..<n}" "length ni = n"
  shows "ok (invert_order ni n) (\<lambda>nm. inv_pair n nm ni)"
proof -
  let ?P = "\<lambda>i nm. length nm = n \<and> (\<forall>j<i. nm ! (ni ! j) = j)"
  have "ok (for_range 0 n (\<lambda>i nm. do { v \<leftarrow> aget ni i; aput nm v i }) (replicate n 0)) (?P n)"
  proof (rule ok_for_range[where P = ?P])
    fix i nm assume i: "i < n" and P: "?P i nm"
    have "ni ! i < n" using assms i by (metis lessThan_iff nth_mem)
    moreover have "ni ! j \<noteq> ni ! i" if "j < i" for j
      using that assms(1,3) i by (simp add: nth_eq_iff_index_eq)
    ultimately show "ok (do { v \<leftarrow> aget ni i; aput nm v i }) (?P (Suc i))"
      using P i assms(3) by (auto simp: less_Suc_eq nth_list_update) blast
  qed auto
  then show ?thesis
    unfolding invert_order_def
  proof (rule ok_mono)
    fix nm assume P: "?P n nm"
    have s: "ni ! i < n" if "i < n" for i using assms that by (metis lessThan_iff nth_mem)
    have "nm ! v < n \<and> ni ! (nm ! v) = v" if v: "v < n" for v
    proof -
      have "v \<in> set ni" using v assms(2) by simp
      then obtain i where "i < n" "ni ! i = v" using assms(3) by (auto simp: in_set_conv_nth)
      then show ?thesis using P by auto
    qed
    then show "inv_pair n nm ni" using P s assms(3) by (simp add: inv_pair_def)
  qed
qed

section \<open>The initial state\<close>

lemma fill_const: "length xs = n \<Longrightarrow> for_range 0 n (\<lambda>i c. aput c i x) xs = Some (replicate n x)"
  by (subst for_range_fill) (simp_all add: map_replicate_const)

lemma fill_ids: "for_range 0 n (\<lambda>i ni. aput ni i i) (replicate n 0) = Some [0..<n]"
  by (subst for_range_fill) simp_all

text \<open>\<open>mergeSort\<close> of the whole arrays: the keys are the stable sort by descending cost.\<close>

lemma mergeSort_all:
  assumes "cs \<noteq> []" "length key = length cs" "length cs \<le> U32 div 2"
  shows "ok (mergeSort cs key 0 (usub (length cs) 1)) (\<lambda>(a, k). length a = length cs \<and> length k = length cs \<and>
    zip a k = sort_key (\<lambda>p. - int (fst p)) (zip cs key))"
proof -
  have u: "usub (length cs) 1 = length cs - 1" using assms by (subst usub_exact) (auto simp: Suc_leI)
  have "ok (mergeSort_by 0 0 (\<lambda>x y :: u32. x \<ge> y) (\<lambda>x y. x > y) cs key 0 (length cs - 1)) (\<lambda>(a, k). length a = length cs \<and>
    length k = length cs \<and> zip a k = take 0 (zip cs key) @
      sort_key ((\<lambda>x. - int x) \<circ> fst) (slice (zip cs key) 0 (Suc (length cs - 1))) @ drop (Suc (length cs - 1)) (zip cs key))"
    by (rule desc.mergeSort_by_ok) (use assms in auto)
  then show ?thesis unfolding mergeSort_def u using assms by (simp add: comp_def)
qed

lemma mergeSort_keys:
  assumes "cs \<noteq> []" "length cs \<le> U32 div 2"
  shows "ok (mergeSort cs [0..<length cs] 0 (usub (length cs) 1)) (\<lambda>(a, k). length a = length cs \<and>
    length k = length cs \<and> k = sort_key (\<lambda>v. - int (cs ! v)) [0..<length cs])"
proof (rule ok_mono[OF mergeSort_all[of cs "[0..<length cs]"]])
  let ?n = "length cs"
  fix p assume P: "case p of (a, k) \<Rightarrow> length a = ?n \<and> length k = ?n \<and>
    zip a k = sort_key (\<lambda>p. - int (fst p)) (zip cs [0..<?n])"
  obtain a k where p: "p = (a, k)" by force
  have z: "zip cs [0..<?n] = map (\<lambda>v. (cs ! v, v)) [0..<?n]" by (intro nth_equalityI) auto
  have "zip a k = map (\<lambda>v. (cs ! v, v)) (sort_key ((\<lambda>p. - int (fst p)) \<circ> (\<lambda>v. (cs ! v, v))) [0..<?n])"
    using P p unfolding z sort_key_map by simp
  moreover have "map snd (zip a k) = k" by (rule map_snd_zip) (use P p in simp)
  ultimately have "k = map snd (map (\<lambda>v. (cs ! v, v)) (sort_key (\<lambda>v. - int (cs ! v)) [0..<?n]))" by (simp add: comp_def)
  then have "k = sort_key (\<lambda>v. - int (cs ! v)) [0..<?n]" by (simp only: map_map comp_def snd_conv map_ident)
  then show "case p of (a, k) \<Rightarrow> length a = ?n \<and> length k = ?n \<and>
    k = sort_key (\<lambda>v. - int (cs ! v)) [0..<?n]" using P p by simp
qed (use assms in auto)

lemma init_model_ok:
  assumes n: "0 < n" "n \<le> U32 div 2" "length cs = n" and maxc: "maxc + 1 < U32" and k: "n \<le> k"
    and par: "\<And>v. v < n \<Longrightarrow> length (par v) \<le> maxc"
  shows "ok (init_model n k N cs maxc) (\<lambda>st. model_inv n N maxc par 0 {#} st \<and> updates st = replicate k 0 \<and>
    nodeId st = sort_key (\<lambda>v. - int (cs ! v)) [0..<n])"
proof -
  let ?ni = "sort_key (\<lambda>v. - int (cs ! v)) [0..<n]" and ?c = "replicate n maxc"
  have ms: "ok (mergeSort cs [0..<n] 0 (usub n 1)) (\<lambda>(a, k). length a = n \<and> length k = n \<and> k = ?ni)"
    using mergeSort_keys[of cs] n by auto
  have ci: "ok (cost_index ?c maxc) (\<lambda>ci. length ci = Suc maxc \<and> (\<forall>k\<le>maxc. boundary n 0 ?c k (ci ! k)))"
    using cost_index_ok[of ?c maxc] n maxc by (simp add: last_replicate)
  have inv: "ok (invert_order ?ni n) (\<lambda>nm. inv_pair n nm ?ni)"
    by (rule invert_order_ok) auto
  have st: "model_inv n N maxc par 0 {#} \<lparr>cost = ?c, nodeMap = nm, nodeId = ?ni, CI = ci,
       cachePresence = replicate N 0, isPlaced = replicate n False, updates = replicate k 0\<rparr>"
    if "inv_pair n nm ?ni" "length ci = Suc maxc \<and> (\<forall>k\<le>maxc. boundary n 0 ?c k (ci ! k))" for nm ci
    using that k par inv_pairD(3)[OF that(1)]
    by (auto simp: model_inv_def ordered_def cost_inv_def balanced_def presence_def cached_def node_cost_def)
  show ?thesis
    unfolding init_model_def ok_bind fill_ids ok_Some
  proof (rule ok_mono[OF ms])
    fix p :: "u32 list \<times> u32 list" assume "case p of (a, k) \<Rightarrow> length a = n \<and> length k = n \<and> k = ?ni"
    then obtain a where p: "p = (a, ?ni)" "length a = n" by (cases p) auto
    have "ok (cost_index ?c maxc) (\<lambda>ci. ok (invert_order ?ni n) (\<lambda>nm. ok (Some \<lparr>cost = ?c, nodeMap = nm, nodeId = ?ni, CI = ci,
       cachePresence = replicate N 0, isPlaced = replicate n False, updates = replicate k 0\<rparr>)
      (\<lambda>st. model_inv n N maxc par 0 {#} st \<and> updates st = replicate k 0 \<and> nodeId st = ?ni)))"
      by (rule ok_mono[OF ci], rule ok_mono[OF inv]) (use st in simp)
    then show "ok (case p of (c0, ni) \<Rightarrow> do {
       c1 \<leftarrow> for_range 0 n (\<lambda>i c. aput c i maxc) c0;
       ci \<leftarrow> cost_index c1 maxc;
       nm \<leftarrow> invert_order ni n;
       Some \<lparr>cost = c1, nodeMap = nm, nodeId = ni, CI = ci,
         cachePresence = replicate N 0, isPlaced = replicate n False, updates = replicate k 0\<rparr> })
      (\<lambda>st. model_inv n N maxc par 0 {#} st \<and> updates st = replicate k 0 \<and> nodeId st = ?ni)"
      unfolding p(1) prod.case fill_const[OF p(2)] by (simp only: ok_bind ok_Some)
  qed
qed

section \<open>Properties\<close>

lemma boundary_count: "boundary (length cs) 0 cs k q \<Longrightarrow> q = length (filter (\<lambda>c. c < k) cs)"
proof -
  assume b: "boundary (length cs) 0 cs k q"
  note d = boundaryD[OF b]
  have "\<forall>c \<in> set (take q cs). c < k" using d(2) by (auto simp: in_set_conv_nth)
  moreover have "\<forall>c \<in> set (drop q cs). \<not> c < k"
  proof
    fix c assume "c \<in> set (drop q cs)"
    then obtain i where "i < length cs - q" "c = cs ! (q + i)" by (auto simp: in_set_conv_nth)
    then show "\<not> c < k" using d(3)[of "q + i"] by (simp add: not_less)
  qed
  ultimately have "filter (\<lambda>c. c < k) (take q cs @ drop q cs) = take q cs"
    by (simp only: filter_append filter_True filter_False append_Nil2)
  then show ?thesis using d(1) by simp
qed

text \<open>The index \<open>CI\<close> of an ascending cost array with maximum \<open>maxCost\<close> holds, for every cost
  value, the number of nodes below it, the first position where the value can stand. The two nested
  scans end inside the array. The witness is the example of the comment in \<open>main.cpp\<close>.\<close>

theorem cost_index_first_positions:
  assumes "cs \<noteq> []" "sorted cs" "last cs = maxc" "length cs < U32" "maxc + 1 < U32"
  shows "cost_index cs maxc = Some (map (\<lambda>k. length (filter (\<lambda>c. c < k) cs)) [0..<maxc + 1])"
proof -
  obtain ci where ci: "cost_index cs maxc = Some ci" "length ci = Suc maxc"
    "\<forall>k\<le>maxc. boundary (length cs) 0 cs k (ci ! k)"
    using cost_index_ok[OF assms] by (auto simp: ok_iff)
  then have "ci = map (\<lambda>k. length (filter (\<lambda>c. c < k) cs)) [0..<maxc + 1]"
    using boundary_count[of cs] by (intro nth_equalityI) (auto simp: less_Suc_eq_le simp del: upt_Suc)
  then show ?thesis using ci by simp
qed

theorem cost_index_first_positions_witness:
  "cost_index [0, 0, 1, 1, 3, 4, 4, 7] 7 = Some [0, 2, 4, 4, 5, 7, 7, 7]"
  using cost_index_first_positions[of "[0, 0, 1, 1, 3, 4, 4, 7]" 7] by (simp add: upt_rec)

end
