(* ===== verification/Block_Reorder.thy ===== *)
theory Block_Reorder
  imports Init_Model Relabel
begin

text \<open>
  The main program of \<open>br/block_reordering\<close> (\<open>main.cpp\<close>): the vertices are grouped in clusters of
  \<open>CLSize\<close> (a cache line), the clusters are ordered by the cache model on the compressed graph, and the
  order of the clusters is expanded to an order of the vertices and applied to the graph.
\<close>

section \<open>The code\<close>

text \<open>The arrays of \<open>compG\<close> while it is built: \<open>VI\<close>, \<open>EI\<close> and \<open>numEdges\<close>.\<close>

type_synonym comp_state = "u32 list \<times> u32 list \<times> u32"

text \<open>\<open>compG.EI[compG.numEdges++] = e; if (i < compG.numVertex-1) compG.VI[i+1]++\<close>\<close>

definition push_edge :: "u32 \<Rightarrow> u32 \<Rightarrow> u32 \<Rightarrow> comp_state \<Rightarrow> comp_state option" where
  "push_edge nc i e s = (case s of (vi, ei, m) \<Rightarrow> do {
     ei \<leftarrow> aput ei m e;
     vi \<leftarrow> (if i < usub nc 1 then do {
       x \<leftarrow> aget vi (uadd i 1);
       aput vi (uadd i 1) (uadd x 1)
     } else Some vi);
     Some (vi, ei, uadd m 1)
   })"

text \<open>One cluster: sort its edges in place, then copy them without the duplicates.\<close>

definition compress_cluster ::
  "u32 \<Rightarrow> graph \<Rightarrow> u32 \<Rightarrow> u32 \<Rightarrow> u32 list \<times> comp_state \<Rightarrow> (u32 list \<times> comp_state) option" where
  "compress_cluster CLSize G nc i s = (case s of (ei1, vi, ei, m) \<Rightarrow> do {
     start \<leftarrow> aget (VI G) (umul i CLSize);
     stop \<leftarrow> (if i = usub nc 1 then Some (numEdges G) else aget (VI G) (umul (uadd i 1) CLSize));
     ei1 \<leftarrow> mergeSortWOkey ei1 start (usub stop 1);
     vi \<leftarrow> (if i < usub nc 1 then do {
       x \<leftarrow> aget vi i;
       aput vi (uadd i 1) x
     } else Some vi);
     s \<leftarrow> (if start < stop then do {
       e \<leftarrow> aget ei1 start;
       push_edge nc i e (vi, ei, m)
     } else Some (vi, ei, m));
     s \<leftarrow> for_range (uadd start 1) stop (\<lambda>j s. do {
       e \<leftarrow> aget ei1 j;
       e' \<leftarrow> aget ei1 (usub j 1);
       if e \<noteq> e' then push_edge nc i e s else Some s
     }) s;
     Some (ei1, s)
   })"

definition compress_graph :: "u32 \<Rightarrow> graph \<Rightarrow> graph option" where
  "compress_graph CLSize G =
     (if CLSize = 0 then None
      else do {
        let nc = uadd (usub (numVertex G) 1 div CLSize) 1;
        (ei1, vi, ei, m) \<leftarrow> for_range 0 nc (compress_cluster CLSize G nc)
          (EI G, replicate nc 0, replicate (numEdges G) 0, 0);
        Some \<lparr>numVertex = nc, numEdges = m, VI = vi, EI = ei\<rparr>
      })"

definition initial_cost :: "graph \<Rightarrow> (u32 list \<times> u32) option" where
  "initial_cost G = for_range 0 (numVertex G) (\<lambda>i (cs, maxc). do {
     endId \<leftarrow> edge_end G i;
     a \<leftarrow> aget (VI G) i;
     cs \<leftarrow> aput cs i (usub endId a);
     c \<leftarrow> aget cs i;
     Some (cs, if c > maxc then c else maxc)
   }) (replicate (numVertex G) 0, 0)"

text \<open>\<open>isPlaced[nodeId[n-2]] = true; isPlaced[nodeId[n-1]] = true\<close>\<close>

definition place_last :: "u32 \<Rightarrow> cache_state \<Rightarrow> bool list option" where
  "place_last n st = do {
     a \<leftarrow> aget (nodeId st) (usub n 2);
     pl \<leftarrow> aput (isPlaced st) a True;
     b \<leftarrow> aget (nodeId st) (usub n 1);
     aput pl b True
   }"

text \<open>The check that reports the first node that was not placed.\<close>

definition failed_to_place :: "u32 \<Rightarrow> bool list \<Rightarrow> u32 option option" where
  "failed_to_place n pl = for_range 0 n (\<lambda>i r. case r of
     Some j \<Rightarrow> Some (Some j)
   | None \<Rightarrow> do { p \<leftarrow> aget pl i; Some (if p then None else Some i) }) None"

definition place_clusters :: "u32 \<Rightarrow> u32 \<Rightarrow> graph \<Rightarrow> (u32 \<times> window_state) option" where
  "place_clusters CLSize cache G1 = do {
     compG \<leftarrow> compress_graph CLSize G1;
     inDeg \<leftarrow> degrees compG;
     G2 \<leftarrow> createReverseCSR compG (numVertex G1);
     outDeg \<leftarrow> degrees G2;
     (cs, maxc) \<leftarrow> initial_cost compG;
     st \<leftarrow> init_model (numVertex compG) (numVertex G1) (numVertex G2) cs maxc;
     w \<leftarrow> place_loop \<lparr>parG = compG, childG = G2, skipParent = (\<lambda>_. Some False), inDeg = inDeg, maxCost = maxc,
        CACHE_SIZE = cache, lag = 3\<rparr> (\<lambda>_. False)
       \<lparr>cstate = st, currWinCost = 0, currWinStartId = 0, minPtr = 0\<rparr>;
     Some (numVertex compG, w)
   }"

definition order_clusters :: "u32 \<Rightarrow> u32 \<Rightarrow> graph \<Rightarrow> (u32 list \<times> u32 option) option" where
  "order_clusters CLSize cache G1 = do {
     (nc, w) \<leftarrow> place_clusters CLSize cache G1;
     pl \<leftarrow> place_last nc (cstate w);
     err \<leftarrow> failed_to_place nc pl;
     Some (nodeId (cstate w), err)
   }"

text \<open>\<open>newNodeId\<close>: the vertices of the clusters, cluster by cluster.\<close>

definition expand_clusters :: "u32 \<Rightarrow> u32 \<Rightarrow> u32 list \<Rightarrow> u32 \<Rightarrow> u32 list option" where
  "expand_clusters CLSize nc ni n = do {
     (newNodeId, nodeExpCount) \<leftarrow> for_range 0 nc (\<lambda>i s. do {
       clId \<leftarrow> aget ni i;
       let baseNode = umul clId CLSize;
       let numNodes = (if clId = usub nc 1 then usub n baseNode else CLSize);
       for_range 0 numNodes (\<lambda>j (newNodeId, nodeExpCount). do {
         newNodeId \<leftarrow> aput newNodeId nodeExpCount (uadd baseNode j);
         Some (newNodeId, uadd nodeExpCount 1)
       }) s
     }) (replicate n 0, 0);
     Some newNodeId
   }"

definition block_order :: "u32 \<Rightarrow> u32 \<Rightarrow> graph \<Rightarrow> (u32 list \<times> u32 list) option" where
  "block_order CLSize cache G1 = do {
     (nodeId, err) \<leftarrow> order_clusters CLSize cache G1;
     newNodeId \<leftarrow> expand_clusters CLSize (uadd (usub (numVertex G1) 1 div CLSize) 1) nodeId (numVertex G1);
     newNodeMap \<leftarrow> invert_order newNodeId (numVertex G1);
     Some (newNodeMap, newNodeId)
   }"

definition block_reorder :: "u32 \<Rightarrow> u32 \<Rightarrow> graph \<Rightarrow> (u32 list \<times> u32 list \<times> graph) option" where
  "block_reorder CLSize cache G1 = do {
     (newNodeMap, newNodeId) \<leftarrow> block_order CLSize cache G1;
     G2 \<leftarrow> apply_order edge_end newNodeId newNodeMap G1
       \<lparr>numVertex = numVertex G1, numEdges = numEdges G1, VI = replicate (numVertex G1) 0, EI = replicate (numEdges G1) 0\<rparr>;
     Some (newNodeMap, newNodeId, G2)
   }"

section \<open>Clusters\<close>

lemma VI_mono:
  assumes wf: "wf_csr G" and uv: "u \<le> v" "v < numVertex G"
  shows "VI G ! u \<le> VI G ! v"
  using uv(2) uv(1)
proof (induction v)
  case (Suc v)
  have "v \<noteq> numVertex G - 1" using Suc.prems by simp
  then have "VI G ! v \<le> VI G ! Suc v"
    using wf_csrD(7)[OF wf, of v] Suc.prems by (simp add: eend_def)
  then show ?case using Suc by (cases "u = Suc v") auto
qed simp

text \<open>The first edge of cluster \<open>c\<close>; the first cluster past the end starts at \<open>numEdges\<close>.\<close>

definition cl_start :: "nat \<Rightarrow> graph \<Rightarrow> nat \<Rightarrow> nat" where
  "cl_start k G c = (if c * k < numVertex G then VI G ! (c * k) else numEdges G)"

lemma cl_start_mono:
  assumes "wf_csr G" "c \<le> d" shows "cl_start k G c \<le> cl_start k G d"
proof -
  have le: "c * k \<le> d * k" using assms(2) by simp
  show ?thesis
  proof (cases "d * k < numVertex G")
    case True
    then show ?thesis using VI_mono[OF assms(1) le] order.strict_trans1[OF le True] by (simp add: cl_start_def)
  next
    case False
    have "VI G ! (c * k) \<le> numEdges G" if "c * k < numVertex G"
      using wf_csrD(7,8)[OF assms(1) that] by simp
    then show ?thesis using False by (simp add: cl_start_def)
  qed
qed

lemma cl_start_le: "wf_csr G \<Longrightarrow> cl_start k G c \<le> numEdges G"
  using cl_start_mono[of G c "c + numVertex G" k] wf_csrD(7,8)[of G "c * k"] by (auto simp: cl_start_def)

definition num_clusters :: "nat \<Rightarrow> nat \<Rightarrow> nat" where
  "num_clusters k n = (n - 1) div k + 1"

lemma num_clusters:
  assumes "0 < k" "0 < n"
  shows "0 < num_clusters k n" "num_clusters k n \<le> n" "c < num_clusters k n \<longleftrightarrow> c * k < n"
proof -
  show "0 < num_clusters k n" by (simp add: num_clusters_def)
  have "(n - 1) div k \<le> n - 1" by simp
  then show "num_clusters k n \<le> n" using assms(2) unfolding num_clusters_def by linarith
  have "c < num_clusters k n \<longleftrightarrow> c \<le> (n - 1) div k" by (auto simp: num_clusters_def)
  also have "\<dots> \<longleftrightarrow> c * k \<le> n - 1" using assms(1) by (simp add: less_eq_div_iff_mult_less_eq)
  also have "\<dots> \<longleftrightarrow> c * k < n" using assms(2) by auto
  finally show "c < num_clusters k n \<longleftrightarrow> c * k < n" .
qed

text \<open>The parents of a cluster: the targets of its edges, descending, without duplicates.\<close>

definition cl_row :: "nat \<Rightarrow> graph \<Rightarrow> nat \<Rightarrow> nat list" where
  "cl_row k G c = remdups_adj (rev (sort (slice (EI G) (cl_start k G c) (cl_start k G (Suc c)))))"

definition cl_edges :: "nat \<Rightarrow> graph \<Rightarrow> (nat \<times> nat) list" where
  "cl_edges k G = concat (map (\<lambda>c. map (Pair c) (cl_row k G c)) [0..<num_clusters k (numVertex G)])"

lemma bucket_rows: "v < n \<Longrightarrow> bucket (concat (map (\<lambda>v. map (Pair v) (f v)) [0..<n])) v = f v"
proof -
  have "concat (map (\<lambda>u. if u = v then f u else []) [0..<n]) = (if v < n then f v else [])" for n
    by (induction n) (auto simp: less_Suc_eq)
  then show "v < n \<Longrightarrow> ?thesis" by (simp add: bucket_concat comp_def bucket_map_Pair)
qed

lemma bucket_cl_edges: "c < num_clusters k (numVertex G) \<Longrightarrow> bucket (cl_edges k G) c = cl_row k G c"
  unfolding cl_edges_def by (rule bucket_rows)

lemma length_cl_row:
  "wf_csr G \<Longrightarrow> length (cl_row k G c) \<le> cl_start k G (Suc c) - cl_start k G c"
  using remdups_adj_length[of "rev (sort (slice (EI G) (cl_start k G c) (cl_start k G (Suc c))))"]
  by (simp add: cl_row_def)

lemma starts_cl_edges:
  "wf_csr G \<Longrightarrow> c \<le> num_clusters k (numVertex G) \<Longrightarrow> starts (cl_edges k G) c \<le> cl_start k G c"
proof (induction c)
  case (Suc c)
  then show ?case
    using length_cl_row[of G k c] cl_start_mono[of G c "Suc c" k] bucket_cl_edges[of c k G]
    by (simp add: starts_Suc)
qed simp

subsection \<open>Copying without duplicates\<close>

definition comp_inv :: "nat \<Rightarrow> nat \<Rightarrow> (nat \<times> nat) list \<Rightarrow> nat \<Rightarrow> nat list \<Rightarrow> comp_state \<Rightarrow> bool" where
  "comp_inv nc m ps i xs s = (case s of (vi, ei, cm) \<Rightarrow> length vi = nc \<and> length ei = m \<and>
     (\<forall>k\<le>i. k < nc \<longrightarrow> vi ! k = starts ps k) \<and> (Suc i < nc \<longrightarrow> vi ! Suc i = starts ps i + length xs) \<and>
     cm = starts ps i + length xs \<and> take cm ei = csr_of i ps @ xs)"

lemma push_edge_ok:
  assumes inv: "comp_inv nc m ps i xs s" and i: "i < nc" "nc < U32" and m: "starts ps i + length xs < m" "m < U32"
  shows "ok (push_edge nc i e s) (comp_inv nc m ps i (xs @ [e]))"
proof -
  obtain vi ei cm where s: "s = (vi, ei, cm)" by (cases s) auto
  let ?k = "starts ps i + length xs"
  have P: "length vi = nc" "length ei = m" "\<And>k. k \<le> i \<Longrightarrow> k < nc \<Longrightarrow> vi ! k = starts ps k"
    "Suc i < nc \<Longrightarrow> vi ! Suc i = ?k" "cm = ?k" "take ?k ei = csr_of i ps @ xs"
    using inv s by (auto simp: comp_inv_def)
  have u: "usub nc 1 = nc - 1" "uadd i 1 = Suc i" "uadd ?k 1 = Suc ?k"
    using i m by (simp_all add: usub_exact uadd_exact)
  have t: "take (Suc ?k) (ei[?k := e]) = csr_of i ps @ xs @ [e]"
    using P(2,6) m by (simp add: take_Suc_update)
  show ?thesis
  proof (cases "Suc i < nc")
    case True
    then have "i < nc - 1" by simp
    moreover have "comp_inv nc m ps i (xs @ [e]) (vi[Suc i := Suc ?k], ei[?k := e], Suc ?k)"
      using P t True by (simp add: comp_inv_def nth_list_update)
    ultimately show ?thesis
      unfolding push_edge_def s prod.case u(1,2) using P True m u(3) by simp
  next
    case False
    then have "\<not> i < nc - 1" by simp
    moreover have "comp_inv nc m ps i (xs @ [e]) (vi, ei[?k := e], Suc ?k)"
      using P t False by (simp add: comp_inv_def)
    ultimately show ?thesis
      unfolding push_edge_def s prod.case u(1,2) using P m u(3) by simp
  qed
qed

lemma remdups_adj_snoc:
  "ys \<noteq> [] \<Longrightarrow> remdups_adj (ys @ [y]) = (if y = last ys then remdups_adj ys else remdups_adj ys @ [y])"
  using remdups_adj_append_two[of "butlast ys" "last ys" y] append_butlast_last_id[of ys]
  by (metis append.assoc append_Cons append_Nil append_Nil2)

lemma dedup_ok:
  assumes a: "slice a start stop = ys" "stop \<le> length a" "start \<le> stop" "stop + 1 < U32"
    and inv: "comp_inv nc m ps i [] s" and i: "i < nc" "nc < U32" and m: "starts ps i \<le> start" "stop \<le> m" "m < U32"
  shows "ok (do {
     s \<leftarrow> (if start < stop then do { e \<leftarrow> aget a start; push_edge nc i e s } else Some s);
     for_range (uadd start 1) stop (\<lambda>j s. do {
       e \<leftarrow> aget a j;
       e' \<leftarrow> aget a (usub j 1);
       if e \<noteq> e' then push_edge nc i e s else Some s
     }) s
   }) (comp_inv nc m ps i (remdups_adj ys))"
proof (cases "start < stop")
  case False
  then have "ys = []" using a by simp
  moreover have "uadd start 1 = Suc start" using a by (intro trans[OF uadd_exact]) auto
  then have "for_range (uadd start 1) stop f s = Some s" for f :: "nat \<Rightarrow> comp_state \<Rightarrow> comp_state option"
    unfolding for_range_def using False by simp
  ultimately show ?thesis using False inv by (simp del: One_nat_def)
next
  case True
  let ?xs = "\<lambda>j. remdups_adj (slice a start j)"
  have u: "uadd start 1 = Suc start" using True a by (simp add: uadd_exact)
  have one: "?xs (Suc start) = [a ! start]" using True a by (simp add: slice_snoc)
  have p1: "ok (push_edge nc i (a ! start) s) (comp_inv nc m ps i (?xs (Suc start)))"
    using push_edge_ok[OF inv i, of "a ! start"] m True by (simp add: one)
  have loop: "ok (for_range (Suc start) stop (\<lambda>j s. do {
       e \<leftarrow> aget a j; e' \<leftarrow> aget a (usub j 1); if e \<noteq> e' then push_edge nc i e s else Some s }) s1)
     (comp_inv nc m ps i (?xs stop))" if s1: "comp_inv nc m ps i (?xs (Suc start)) s1" for s1
  proof (rule ok_for_range[where P = "\<lambda>j. comp_inv nc m ps i (?xs j)"])
    fix j s assume j: "Suc start \<le> j" "j < stop" and P: "comp_inv nc m ps i (?xs j) s"
    have uj: "usub j 1 = j - 1" using j a by (simp add: usub_exact)
    have sl: "slice a start j \<noteq> []" "last (slice a start j) = a ! (j - 1)"
      using slice_snoc[of start "j - 1" a] j a by auto
    have x: "?xs (Suc j) = (if a ! j = a ! (j - 1) then ?xs j else ?xs j @ [a ! j])"
      using slice_snoc[of start j a] j a sl by (simp add: remdups_adj_snoc)
    have "length (?xs j) \<le> length (slice a start j)" by (rule remdups_adj_length)
    then have "starts ps i + length (?xs j) < m" using m(1,2) j a by simp
    then have "ok (push_edge nc i (a ! j) s) (comp_inv nc m ps i (?xs j @ [a ! j]))"
      by (intro push_edge_ok P i m(3))
    then show "ok (do { e \<leftarrow> aget a j; e' \<leftarrow> aget a (usub j 1); if e \<noteq> e' then push_edge nc i e s else Some s })
      (comp_inv nc m ps i (?xs (Suc j)))"
      unfolding x uj using j a P by simp
  qed (use s1 True in auto)
  have "ok (push_edge nc i (a ! start) s) (\<lambda>s1. ok (for_range (Suc start) stop (\<lambda>j s. do {
       e \<leftarrow> aget a j; e' \<leftarrow> aget a (usub j 1); if e \<noteq> e' then push_edge nc i e s else Some s }) s1)
     (comp_inv nc m ps i (remdups_adj ys)))"
    using ok_mono[OF p1 loop] a(1) by simp
  then show ?thesis unfolding u using True a(2) by simp
qed

lemma compress_cluster_ok:
  assumes wf: "wf_csr G" and k: "0 < k" and nc: "nc = num_clusters k (numVertex G)" and i: "i < nc"
    and bnd: "length (EI G) \<le> U32 div 2" and first: "0 < cl_start k G 1"
    and ei: "length ei1 = length (EI G)" "drop (cl_start k G i) ei1 = drop (cl_start k G i) (EI G)"
    and s: "length vi = nc" "length ei = numEdges G" "\<And>c. c \<le> i \<Longrightarrow> vi ! c = starts (cl_edges k G) c"
      "cm = starts (cl_edges k G) i" "take cm ei = csr_of i (cl_edges k G)"
  shows "ok (compress_cluster k G nc i (ei1, vi, ei, cm)) (\<lambda>(ei1', s'). length ei1' = length (EI G) \<and>
    drop (cl_start k G (Suc i)) ei1' = drop (cl_start k G (Suc i)) (EI G) \<and>
    comp_inv nc (numEdges G) (cl_edges k G) i (cl_row k G i) s')"
proof -
  note w = wf_csrD[OF wf]
  let ?ps = "cl_edges k G" and ?m = "numEdges G"
  define start where "start = cl_start k G i"
  define stop where "stop = cl_start k G (Suc i)"
  note ncl = num_clusters[OF k w(1)]
  have le: "start \<le> stop" unfolding start_def stop_def by (rule cl_start_mono[OF wf]) simp
  have sm: "stop \<le> ?m" unfolding stop_def by (rule cl_start_le[OF wf])
  have pos: "0 < stop" unfolding stop_def using first cl_start_mono[OF wf, of 1 "Suc i" k] by simp
  have ik: "i * k < numVertex G" using ncl(3)[of i] i nc by simp
  have nc32: "nc < U32" using ncl(2) nc w(2) by simp
  have um: "umul i k = i * k" using ik w(2) by (simp add: umul_exact)
  have st: "aget (VI G) (umul i k) = Some start"
    using ik w(5) by (simp add: um start_def cl_start_def)
  have n1: "usub nc 1 = nc - 1" using nc32 i by (subst usub_exact) auto
  have en: "(if i = usub nc 1 then Some ?m else aget (VI G) (umul (uadd i 1) k)) = Some stop"
  proof (cases "Suc i < nc")
    case True
    then have k1: "Suc i * k < numVertex G" using ncl(3)[of "Suc i"] nc by simp
    have "umul (uadd i 1) k = Suc i * k" using k1 w(2) nc32 i by (simp add: umul_exact uadd_exact)
    moreover have "i \<noteq> nc - 1" using True by simp
    ultimately show ?thesis unfolding n1 using k1 w(5) by (simp add: stop_def cl_start_def del: mult_Suc One_nat_def)
  next
    case False
    then have "\<not> Suc i * k < numVertex G" "i = nc - 1" using ncl(3)[of "Suc i"] nc i by auto
    then show ?thesis unfolding n1 by (simp add: stop_def cl_start_def)
  qed
  have us: "usub stop 1 = stop - 1" using pos sm w(3) by (subst usub_exact) auto
  define ys where "ys = rev (sort (slice ei1 start stop))"
  have sl: "slice ei1 start stop = slice (EI G) start stop" using ei(2) by (simp add: slice_def start_def)
  have ly: "length ys = stop - start" using ei(1) sm w(4) by (simp add: ys_def)
  let ?a = "take start ei1 @ ys @ drop stop ei1"
  have ms: "mergeSortWOkey ei1 start (stop - 1) = Some ?a"
    using mergeSortWOkey_ok[of start "stop - 1" ei1] le pos sm w(4) ei(1) bnd by (simp add: ys_def)
  have la: "length ?a = length (EI G)" using ly le sm w(4) ei(1) by simp
  have ts: "length (take start ei1) = start" using le sm w(4) ei(1) by simp
  have sa: "slice ?a start stop = ys" unfolding slice_def using ts ly by simp
  have da: "drop stop ?a = drop stop (EI G)"
  proof -
    have "drop stop ?a = drop stop ei1" using ts ly le by simp
    also have "\<dots> = drop (stop - start) (drop start ei1)" using le by simp
    also have "\<dots> = drop stop (EI G)" using le ei(2) unfolding start_def by simp
    finally show ?thesis .
  qed
  have row: "remdups_adj ys = cl_row k G i" unfolding ys_def sl by (simp add: cl_row_def start_def stop_def)
  let ?vi = "if i < nc - 1 then vi[Suc i := vi ! i] else vi"
  have vi: "(if i < usub nc 1 then do { x \<leftarrow> aget vi i; aput vi (uadd i 1) x } else Some vi) = Some ?vi"
    unfolding n1 using s(1) i nc32 by (simp add: uadd_exact)
  have ci: "comp_inv nc ?m ?ps i [] (?vi, ei, cm)"
    using s i by (auto simp: comp_inv_def nth_list_update)
  have sp: "starts ?ps i \<le> start" unfolding start_def using starts_cl_edges[OF wf, of i k] i nc by simp
  have "ok (do {
     s \<leftarrow> (if start < stop then do { e \<leftarrow> aget ?a start; push_edge nc i e (?vi, ei, cm) } else Some (?vi, ei, cm));
     for_range (uadd start 1) stop (\<lambda>j s. do {
       e \<leftarrow> aget ?a j; e' \<leftarrow> aget ?a (usub j 1); if e \<noteq> e' then push_edge nc i e s else Some s }) s
   }) (comp_inv nc ?m ?ps i (remdups_adj ys))"
    by (rule dedup_ok[OF sa _ le _ ci i nc32 sp]) (use sm w(3,4) la bnd in auto)
  then show ?thesis
    unfolding compress_cluster_def prod.case st en
    using ms vi la da row by (simp only: Option.bind.simps us ok_bind ok_Some prod.case stop_def[symmetric] simp_thms)
qed

subsection \<open>The compressed graph\<close>

definition csr_padded :: "nat \<Rightarrow> (nat \<times> nat) list \<Rightarrow> nat list \<Rightarrow> graph" where
  "csr_padded n ps zs = \<lparr>numVertex = n, numEdges = length ps, VI = map (starts ps) [0..<n], EI = csr_of n ps @ zs\<rparr>"

lemma csr_padded:
  assumes "0 < n" "n < U32 - 1" "length ps < U32" "\<And>p. p \<in> set ps \<Longrightarrow> fst p < n"
  shows "wf_csr (csr_padded n ps zs)" and "v < n \<Longrightarrow> adj (csr_padded n ps zs) v = bucket ps v"
    and "take (length ps) (EI (csr_padded n ps zs)) = csr_of n ps"
proof -
  let ?G = "csr_graph n n ps" and ?H = "csr_padded n ps zs"
  note g = csr_graph(1,2)[OF assms(1-3) order.refl assms(4)]
  have all: "starts ps n = length ps" using starts_all[OF assms(4) order.refl] .
  have e: "eend ?H v = eend ?G v" for v by (simp add: eend_def csr_graph_def csr_padded_def)
  show "wf_csr ?H" using g(1) unfolding wf_csr_def e by (simp add: csr_graph_def csr_padded_def)
  show "adj ?H v = bucket ps v" if "v < n"
  proof -
    have "eend ?G v \<le> length (csr_of n ps)"
      using wf_csrD(8)[OF g(1), of v] that all by (simp add: csr_graph_def length_csr_of)
    then have "adj ?H v = adj ?G v"
      unfolding adj_def e by (simp add: slice_def csr_graph_def csr_padded_def)
    then show ?thesis using g(2)[of v] that by simp
  qed
  show "take (length ps) (EI ?H) = csr_of n ps"
    by (simp add: csr_padded_def length_csr_of all)
qed

lemma fst_cl_edges: "p \<in> set (cl_edges k G) \<Longrightarrow> fst p < num_clusters k (numVertex G)"
  by (auto simp: cl_edges_def)

lemma starts_cl_all: "starts (cl_edges k G) (num_clusters k (numVertex G)) = length (cl_edges k G)"
  by (rule starts_all[OF fst_cl_edges order.refl])

lemma length_cl_edges: "wf_csr G \<Longrightarrow> length (cl_edges k G) \<le> numEdges G"
proof -
  assume wf: "wf_csr G"
  let ?nc = "num_clusters k (numVertex G)"
  have "length (cl_edges k G) = starts (cl_edges k G) ?nc"
    by (rule starts_cl_all[symmetric])
  also have "\<dots> \<le> cl_start k G ?nc" by (rule starts_cl_edges[OF wf order.refl])
  also have "\<dots> \<le> numEdges G" by (rule cl_start_le[OF wf])
  finally show ?thesis .
qed

lemma compress_graph_ok:
  assumes wf: "wf_csr G" and k: "0 < k" and bnd: "length (EI G) \<le> U32 div 2" and first: "0 < cl_start k G 1"
  shows "ok (compress_graph k G) (\<lambda>C. \<exists>zs. C = csr_padded (num_clusters k (numVertex G)) (cl_edges k G) zs)"
proof -
  note w = wf_csrD[OF wf]
  let ?nc = "num_clusters k (numVertex G)" and ?ps = "cl_edges k G" and ?m = "numEdges G"
  note ncl = num_clusters[OF k w(1)]
  have nc: "uadd (usub (numVertex G) 1 div k) 1 = ?nc"
  proof -
    have "usub (numVertex G) 1 = numVertex G - 1" using w(1,2) by (subst usub_exact) auto
    then show ?thesis using ncl(2) w(2) unfolding num_clusters_def by (subst uadd_exact) auto
  qed
  let ?P = "\<lambda>i (ei1, vi, ei, cm). length ei1 = length (EI G) \<and> drop (cl_start k G i) ei1 = drop (cl_start k G i) (EI G) \<and>
    length vi = ?nc \<and> length ei = ?m \<and> (\<forall>c\<le>i. c < ?nc \<longrightarrow> vi ! c = starts ?ps c) \<and> cm = starts ?ps i \<and>
    take cm ei = csr_of i ?ps"
  have "ok (for_range 0 ?nc (compress_cluster k G ?nc) (EI G, replicate ?nc 0, replicate ?m 0, 0)) (?P ?nc)"
  proof (rule ok_for_range[where P = ?P])
    fix i s assume i: "i < ?nc" and P: "?P i s"
    obtain ei1 vi ei cm where s: "s = (ei1, vi, ei, cm)" by (cases s) auto
    have P': "length ei1 = length (EI G)" "drop (cl_start k G i) ei1 = drop (cl_start k G i) (EI G)"
      "length vi = ?nc" "length ei = ?m" "\<And>c. c \<le> i \<Longrightarrow> vi ! c = starts ?ps c" "cm = starts ?ps i"
      "take cm ei = csr_of i ?ps"
      using P s i by auto
    have step: "ok (compress_cluster k G ?nc i (ei1, vi, ei, cm)) (\<lambda>(ei1', s'). length ei1' = length (EI G) \<and>
      drop (cl_start k G (Suc i)) ei1' = drop (cl_start k G (Suc i)) (EI G) \<and>
      comp_inv ?nc ?m ?ps i (cl_row k G i) s')"
      by (rule compress_cluster_ok[OF wf k refl i bnd first P'(1,2,3,4)]) (use P' in auto)
    have b: "bucket ?ps i = cl_row k G i" by (rule bucket_cl_edges[OF i])
    have c: "csr_of (Suc i) ?ps = csr_of i ?ps @ cl_row k G i" by (simp add: csr_of_def b)
    have S: "starts ?ps (Suc i) = starts ?ps i + length (cl_row k G i)" by (simp add: starts_Suc b)
    show "ok (compress_cluster k G ?nc i s) (?P (Suc i))"
      unfolding s by (rule ok_mono[OF step]) (auto simp: comp_inv_def c S le_Suc_eq split: prod.splits)
  qed (auto simp: csr_of_def)
  then obtain ei1 vi ei cm where l: "for_range 0 ?nc (compress_cluster k G ?nc) (EI G, replicate ?nc 0, replicate ?m 0, 0) =
      Some (ei1, vi, ei, cm)" "length vi = ?nc" "length ei = ?m" "\<And>c. c < ?nc \<Longrightarrow> vi ! c = starts ?ps c"
      "cm = starts ?ps ?nc" "take cm ei = csr_of ?nc ?ps"
    by (auto simp: ok_iff)
  have vi: "vi = map (starts ?ps) [0..<?nc]" using l(2,4) by (intro nth_equalityI) auto
  have cm: "cm = length ?ps" using l(5) starts_cl_all by simp
  have "ei = csr_of ?nc ?ps @ drop cm ei" using append_take_drop_id[of cm ei] l(6) by simp
  then have "\<lparr>numVertex = ?nc, numEdges = cm, VI = vi, EI = ei\<rparr> = csr_padded ?nc ?ps (drop cm ei)"
    using vi cm by (simp add: csr_padded_def)
  then show ?thesis
    unfolding compress_graph_def Let_def nc l(1) using k by auto
qed

lemma initial_cost_ok:
  assumes wf: "wf_csr G"
  shows "ok (initial_cost G) (\<lambda>(cs, maxc). cs = map (\<lambda>v. length (adj G v)) [0..<numVertex G] \<and>
    (\<forall>v < numVertex G. length (adj G v) \<le> maxc) \<and> maxc \<le> numEdges G)"
proof -
  note w = wf_csrD[OF wf]
  let ?n = "numVertex G" and ?d = "\<lambda>v. length (adj G v)"
  let ?P = "\<lambda>i (cs, maxc). length cs = ?n \<and> (\<forall>v<i. cs ! v = ?d v \<and> ?d v \<le> maxc) \<and> maxc \<le> numEdges G"
  have "ok (initial_cost G) (?P ?n)"
    unfolding initial_cost_def
  proof (rule ok_for_range[where P = ?P])
    fix i s assume i: "i < ?n" and P: "?P i s"
    have "usub (eend G i) (VI G ! i) = ?d i"
      using w(3) w(7,8)[OF i] length_adj[OF wf i] by (subst usub_exact) auto
    moreover have "?d i \<le> numEdges G" using length_adj[OF wf i] w(8)[OF i] by simp
    ultimately show "ok (case s of (cs, maxc) \<Rightarrow> do {
       endId \<leftarrow> edge_end G i; a \<leftarrow> aget (VI G) i; cs \<leftarrow> aput cs i (usub endId a); c \<leftarrow> aget cs i;
       Some (cs, if c > maxc then c else maxc) }) (?P (Suc i))"
      using P i w(5) edge_end_ok[OF wf i] by (auto simp: less_Suc_eq nth_list_update)
  qed auto
  then show ?thesis by (rule ok_mono) (auto intro!: nth_equalityI)
qed

text \<open>The graphs of the cache model: parents of the clusters, and clusters of the parents.\<close>

lemma reverse_graphs:
  assumes wf: "wf_csr C" and n: "0 < N" "N < U32 - 1" and e: "\<forall>e \<in> set (take (numEdges C) (EI C)). e < N"
    and maxc: "maxc + 1 < U32" and sk: "\<forall>p<N. skip p = Some (sk p)"
    and le: "\<forall>v < numVertex C. length (parents C sk v) \<le> maxc"
  shows "cache_graphs (numVertex C) N maxc C (csr_graph N N (rev_edges C)) skip sk"
    "createReverseCSR C N = Some (csr_graph N N (rev_edges C))" "wf_csr (csr_graph N N (rev_edges C))"
proof -
  let ?G2 = "csr_graph N N (rev_edges C)"
  have ps: "fst p < N" if "p \<in> set (rev_edges C)" for p
  proof -
    have "fst p \<in> set (map snd (edges C))" using that by force
    then show ?thesis using e by (simp only: snd_edges[OF wf])
  qed
  have len: "length (rev_edges C) < U32" using length_edges[OF wf] wf_csrD(3)[OF wf] by simp
  note g = csr_graph(1,2)[OF n len order.refl ps]
  show "createReverseCSR C N = Some ?G2" by (rule createReverseCSR_ok[OF wf]) (use n e in auto)
  show "wf_csr ?G2" by (rule g(1))
  have nv: "numVertex ?G2 = N" by (simp add: csr_graph_def)
  show "cache_graphs (numVertex C) N maxc C ?G2 skip sk"
    unfolding cache_graphs_def
    using wf g nv maxc sk le adj_less[OF wf] e
    by (auto simp: count_bucket_rev dest: bucket_rev_less)
qed

lemma place_last_ok:
  assumes ip: "inv_pair n nm (nodeId st)" and n: "1 < n" "n < U32" "length (isPlaced st) = n" "\<forall>v<n. isPlaced st ! v"
  shows "place_last n st = Some (isPlaced st)"
proof -
  have u: "usub n 2 = n - 2" "usub n 1 = n - 1" using n by (simp_all add: usub_exact)
  have "xs[a := True] = xs" if "\<forall>v<n. xs ! v" "length xs = n" for xs :: "bool list" and a
    using that by (cases "a < n") (auto intro!: nth_equalityI simp: nth_list_update)
  then show ?thesis
    using inv_pairD(2,5)[OF ip] n unfolding place_last_def u by simp
qed

lemma failed_to_place_ok:
  assumes "length pl = n" "\<forall>v<n. pl ! v"
  shows "failed_to_place n pl = Some None"
proof -
  have "ok (failed_to_place n pl) (\<lambda>r. r = None)"
    unfolding failed_to_place_def by (rule ok_for_range[where P = "\<lambda>_ r. r = None"]) (use assms in auto)
  then show ?thesis by (auto simp: ok_iff)
qed

lemma all_placed:
  assumes "model_inv n N maxc par n W st"
  shows "length (isPlaced st) = n" "\<forall>v<n. isPlaced st ! v" "inv_pair n (nodeMap st) (nodeId st)"
proof -
  have ord: "ordered n maxc n st" using assms by (simp add: model_inv_def)
  note o = orderedD[OF ord]
  show "length (isPlaced st) = n" "inv_pair n (nodeMap st) (nodeId st)" by (fact o)+
  show "\<forall>v<n. isPlaced st ! v" using o(5) inv_pairD(3)[OF o(4)] by auto
qed

lemma loop_done:
  assumes "place_inv P n N sk w" "minPtr w = n"
  shows "length (isPlaced (cstate w)) = n" "\<forall>v<n. isPlaced (cstate w) ! v"
    "inv_pair n (nodeMap (cstate w)) (nodeId (cstate w))"
proof -
  have "model_inv n N (maxCost P) (parents (parG P) sk) n (window P sk (cstate w) (currWinStartId w) n) (cstate w)"
    using assms unfolding place_inv_def loop_inv_def by metis
  note a = all_placed[OF this]
  show "length (isPlaced (cstate w)) = n" "\<forall>v<n. isPlaced (cstate w) ! v"
    "inv_pair n (nodeMap (cstate w)) (nodeId (cstate w))"
    by (fact a)+
qed

section \<open>The order of the clusters\<close>

definition block_pre :: "nat \<Rightarrow> nat \<Rightarrow> graph \<Rightarrow> bool" where
  "block_pre k cache G \<longleftrightarrow> wf_csr G \<and> (\<forall>e \<in> set (take (numEdges G) (EI G)). e < numVertex G) \<and>
     length (EI G) \<le> U32 div 2 \<and> numVertex G \<le> U32 div 2 \<and> cache < U32 \<and>
     0 < k \<and> 0 < cl_start k G 1"

lemma block_preD:
  assumes "block_pre k cache G"
  shows "wf_csr G" "\<forall>e \<in> set (take (numEdges G) (EI G)). e < numVertex G" "length (EI G) \<le> U32 div 2"
    "numVertex G \<le> U32 div 2" "cache < U32" "0 < k" "0 < cl_start k G 1"
  using assms by (auto simp: block_pre_def)

lemma set_cl_row:
  assumes "wf_csr G" "e \<in> set (cl_row k G c)" shows "e \<in> set (take (numEdges G) (EI G))"
proof -
  have "e \<in> set (slice (EI G) (cl_start k G c) (cl_start k G (Suc c)))" using assms(2) by (simp add: cl_row_def)
  moreover have "cl_start k G (Suc c) \<le> numEdges G" by (rule cl_start_le[OF assms(1)])
  then have "slice (EI G) (cl_start k G c) (cl_start k G (Suc c)) =
    slice (take (numEdges G) (EI G)) (cl_start k G c) (cl_start k G (Suc c))"
    by (simp add: slice_def drop_take min_def) 
  ultimately show ?thesis by (auto simp: slice_def dest: in_set_takeD in_set_dropD)
qed

lemma compressed:
  fixes zs :: "nat list"
  assumes pre: "block_pre k cache G"
  defines "C \<equiv> csr_padded (num_clusters k (numVertex G)) (cl_edges k G) zs"
  shows "wf_csr C" "numVertex C = num_clusters k (numVertex G)" "numEdges C \<le> U32 div 2"
    "c < num_clusters k (numVertex G) \<Longrightarrow> adj C c = cl_row k G c"
    "\<forall>e \<in> set (take (numEdges C) (EI C)). e < numVertex G"
proof -
  note p = block_preD[OF pre] and w = wf_csrD[OF block_preD(1)[OF pre]]
  let ?nc = "num_clusters k (numVertex G)"
  note ncl = num_clusters[OF p(6) w(1)]
  have le: "length (cl_edges k G) \<le> U32 div 2" using length_cl_edges[OF p(1), of k] w(4) p(3) by simp
  note g = csr_padded[OF ncl(1) _ _ fst_cl_edges[of _ k G], where zs = zs]
  show wf: "wf_csr C" unfolding C_def by (rule g(1)) (use ncl(2) w(2) le in auto)
  show nv: "numVertex C = ?nc" and "numEdges C \<le> U32 div 2" using le by (simp_all add: C_def csr_padded_def)
  show a: "adj C c = cl_row k G c" if "c < ?nc" for c
    using g(2)[where v = c] that bucket_cl_edges[OF that] ncl(2) w(2) le by (simp add: C_def)
  show "\<forall>e \<in> set (take (numEdges C) (EI C)). e < numVertex G"
    unfolding snd_edges[OF wf, symmetric]
    using a nv set_cl_row[OF p(1)] p(2) by (auto simp: edges_def)
qed

lemma place_clusters_ok:
  assumes pre: "block_pre k cache G"
  shows "ok (place_clusters k cache G) (\<lambda>(nc, w). nc = num_clusters k (numVertex G) \<and>
    (\<exists>P. place_inv P nc (numVertex G) (\<lambda>_. False) w \<and> minPtr w = nc))"
proof -
  note p = block_preD[OF pre] and w = wf_csrD[OF block_preD(1)[OF pre]]
  let ?n = "numVertex G" and ?nc = "num_clusters k (numVertex G)"
  note ncl = num_clusters[OF p(6) w(1)]
  let ?sk = "\<lambda>_ :: nat. False"
  let ?Q = "\<lambda>(nc, w). nc = ?nc \<and> (\<exists>P. place_inv P nc ?n ?sk w \<and> minPtr w = nc)"
  have main: "ok (do {
     inDeg \<leftarrow> degrees C;
     G2 \<leftarrow> createReverseCSR C ?n;
     outDeg \<leftarrow> degrees G2;
     (cs, maxc) \<leftarrow> initial_cost C;
     st \<leftarrow> init_model (numVertex C) ?n (numVertex G2) cs maxc;
     w \<leftarrow> place_loop \<lparr>parG = C, childG = G2, skipParent = (\<lambda>_. Some False), inDeg = inDeg, maxCost = maxc,
        CACHE_SIZE = cache, lag = 3\<rparr> (\<lambda>_. False)
       \<lparr>cstate = st, currWinCost = 0, currWinStartId = 0, minPtr = 0\<rparr>;
     Some (numVertex C, w)
   }) ?Q" if C: "C = csr_padded ?nc (cl_edges k G) zs" for C zs
  proof -
    note c = compressed[OF pre, where zs = zs, folded C]
    let ?deg = "map (\<lambda>v. length (adj C v)) [0..<?nc]" and ?G2 = "csr_graph ?n ?n (rev_edges C)"
    have mx: "ok (initial_cost C) (\<lambda>(cs, maxc). cs = ?deg \<and> (\<forall>v<?nc. length (adj C v) \<le> maxc) \<and> maxc \<le> numEdges C)"
      using initial_cost_ok[OF c(1)] by (simp only: c(2))
    have nv: "numVertex ?G2 = ?n" by (simp add: csr_graph_def)
    have rest: "ok (do {
       st \<leftarrow> init_model (numVertex C) ?n ?n ?deg maxc;
       w \<leftarrow> place_loop \<lparr>parG = C, childG = ?G2, skipParent = (\<lambda>_. Some False), inDeg = ?deg, maxCost = maxc,
          CACHE_SIZE = cache, lag = 3\<rparr> (\<lambda>_. False)
         \<lparr>cstate = st, currWinCost = 0, currWinStartId = 0, minPtr = 0\<rparr>;
       Some (numVertex C, w)
     }) ?Q" if m: "\<forall>v<?nc. length (adj C v) \<le> maxc" "maxc \<le> numEdges C" for maxc
    proof -
      let ?par = "parents C ?sk"
      let ?P = "\<lparr>parG = C, childG = ?G2, skipParent = (\<lambda>_. Some False), inDeg = ?deg, maxCost = maxc,
          CACHE_SIZE = cache, lag = 3\<rparr>"
      have m1: "maxc + 1 < U32" using m(2) c(3) by simp
      have "cache_graphs (numVertex C) ?n maxc C ?G2 (\<lambda>_. Some False) ?sk"
        by (rule reverse_graphs[OF c(1) w(1,2) c(5) m1]) (use m(1) c(2) in auto)
      then have lp: "loop_params ?P ?nc ?n ?sk" using c(2) p(5) by (simp add: loop_params_def)
      have im: "ok (init_model ?nc ?n ?n ?deg maxc) (\<lambda>st. model_inv ?nc ?n maxc ?par 0 {#} st \<and>
        updates st = replicate ?n 0 \<and> nodeId st = sort_key (\<lambda>v. - int (?deg ! v)) [0..<?nc])"
        by (rule init_model_ok) (use ncl p(4) m m1 in auto)
      have loop: "ok (place_loop ?P (\<lambda>_. False) \<lparr>cstate = st, currWinCost = 0, currWinStartId = 0, minPtr = 0\<rparr>)
        (\<lambda>w. ?Q (?nc, w))"
        if "model_inv ?nc ?n maxc ?par 0 {#} st \<and> updates st = replicate ?n 0 \<and>
          nodeId st = sort_key (\<lambda>v. - int (?deg ! v)) [0..<?nc]" for st
      proof -
        have "place_inv ?P ?nc ?n ?sk \<lparr>cstate = st, currWinCost = 0, currWinStartId = 0, minPtr = 0\<rparr>"
          using that ncl(2) by (simp add: place_inv_def loop_inv_def)
        then show ?thesis by (rule ok_mono[OF place_loop_ok[OF lp]]) auto
      qed
      show ?thesis
        unfolding c(2) ok_bind ok_Some
        by (rule ok_mono[OF im], rule loop)
    qed
    have r: "createReverseCSR C ?n = Some ?G2" "wf_csr ?G2"
      using reverse_graphs(2,3)[OF c(1) w(1,2) c(5), of "numEdges C" "\<lambda>_. Some True" "\<lambda>_. True"] c(3) by auto
    have d: "degrees C = Some ?deg" using degrees_ok[OF c(1)] by (simp only: c(2))
    show ?thesis
      unfolding d r(1) degrees_ok[OF r(2)] Option.bind.simps nv ok_bind
    proof (rule ok_mono[OF mx])
      fix x :: "u32 list \<times> u32"
      assume "case x of (cs, maxc) \<Rightarrow> cs = ?deg \<and> (\<forall>v<?nc. length (adj C v) \<le> maxc) \<and> maxc \<le> numEdges C"
      then obtain mc where x: "x = (?deg, mc)" "\<forall>v<?nc. length (adj C v) \<le> mc" "mc \<le> numEdges C" by (cases x) auto
      show "ok (case x of (cs, mc) \<Rightarrow> do {
       st \<leftarrow> init_model (numVertex C) ?n ?n cs mc;
       w \<leftarrow> place_loop \<lparr>parG = C, childG = ?G2, skipParent = (\<lambda>_. Some False), inDeg = ?deg, maxCost = mc,
          CACHE_SIZE = cache, lag = 3\<rparr> (\<lambda>_. False)
         \<lparr>cstate = st, currWinCost = 0, currWinStartId = 0, minPtr = 0\<rparr>;
       Some (numVertex C, w) }) ?Q"
        unfolding x(1) prod.case by (rule rest[OF x(2,3)])
    qed
  qed
  have "ok (compress_graph k G) (\<lambda>C. \<exists>zs. C = csr_padded ?nc (cl_edges k G) zs)"
    by (rule compress_graph_ok[OF p(1,6,3,7)])
  then show ?thesis
    unfolding place_clusters_def by (subst ok_bind, elim ok_mono) (use main in blast)
qed

lemma order_clusters_ok:
  assumes pre: "block_pre k cache G" and k: "k < numVertex G"
  shows "ok (order_clusters k cache G) (\<lambda>(ni, err). err = None \<and>
    (\<exists>nm. inv_pair (num_clusters k (numVertex G)) nm ni))"
proof -
  note p = block_preD[OF pre] and w = wf_csrD[OF block_preD(1)[OF pre]]
  let ?nc = "num_clusters k (numVertex G)"
  note ncl = num_clusters[OF p(6) w(1)]
  have big: "1 < ?nc" "?nc < U32" using ncl(2) ncl(3)[of 1] k w(2) by auto
  have "ok (do { pl \<leftarrow> place_last nc (cstate w); err \<leftarrow> failed_to_place nc pl; Some (nodeId (cstate w), err) })
    (\<lambda>(ni, err). err = None \<and> (\<exists>nm. inv_pair ?nc nm ni))"
    if h: "nc = ?nc \<and> (\<exists>P. place_inv P nc (numVertex G) (\<lambda>_. False) w \<and> minPtr w = nc)" for nc w
  proof -
    obtain P where P: "place_inv P ?nc (numVertex G) (\<lambda>_. False) w" "minPtr w = ?nc" and nc: "nc = ?nc" using h by auto
    note a = loop_done[OF P]
    have "place_last nc (cstate w) = Some (isPlaced (cstate w))"
      unfolding nc by (rule place_last_ok[OF a(3) big a(1,2)])
    then show ?thesis using failed_to_place_ok[OF a(1,2)] a(3) nc by auto
  qed
  then show ?thesis
    unfolding order_clusters_def ok_bind ok_case_prod
    by (intro ok_mono[OF place_clusters_ok[OF pre]]) (auto simp only: split: prod.splits)
qed

section \<open>Expanding the clusters\<close>

text \<open>The vertices of a cluster.\<close>

definition members :: "nat \<Rightarrow> nat \<Rightarrow> nat \<Rightarrow> nat list" where
  "members k n c = [c * k..<min n (Suc c * k)]"

lemma nth_members: "j < length (members k n c) \<Longrightarrow> members k n c ! j = c * k + j"
  unfolding members_def by (subst nth_upt) auto

lemma concat_members: "concat (map (members k n) [0..<c]) = [0..<min n (c * k)]"
proof (induction c)
  case (Suc c)
  have "[0..<min n (c * k)] @ members k n c = [0..<min n (Suc c * k)]"
  proof (cases "c * k < n")
    case True
    then have "min n (c * k) = c * k" "c * k \<le> min n (Suc c * k)" by auto
    then show ?thesis unfolding members_def using upt_add_eq_append[of 0 "c * k" "min n (Suc c * k) - c * k"] by simp
  next
    case False
    then show ?thesis by (simp add: members_def min_def)
  qed
  then show ?case using Suc by simp
qed simp

lemma expand_perm:
  assumes "0 < k" "0 < n" "mset ni = mset [0..<num_clusters k n]"
  shows "mset (concat (map (members k n) ni)) = mset [0..<n]"
proof -
  note ncl = num_clusters[OF assms(1,2)]
  have sum: "mset (concat (map h xs)) = sum_mset (image_mset (\<lambda>v. mset (h v)) (mset xs))"
    for h :: "nat \<Rightarrow> nat list" and xs
    by (induction xs) auto
  have "mset (concat (map (members k n) ni)) = mset (concat (map (members k n) [0..<num_clusters k n]))"
    by (simp only: sum assms(3))
  also have "\<dots> = mset [0..<min n (num_clusters k n * k)]" by (simp only: concat_members)
  also have "min n (num_clusters k n * k) = n"
    using ncl(3)[of "num_clusters k n"] by auto
  finally show ?thesis .
qed

lemma fill_members:
  assumes "length xs + cnt \<le> length a" "length a < U32"
    and xs: "\<And>j. j < length xs \<Longrightarrow> xs ! j = base + j" "base + length xs < U32" "N = length xs"
  shows "for_range 0 N (\<lambda>j (a, c). do { a \<leftarrow> aput a c (uadd base j); Some (a, uadd c 1) }) (a, cnt) =
    Some (take cnt a @ xs @ drop (cnt + length xs) a, cnt + length xs)"
proof -
  let ?P = "\<lambda>j (b, c). c = cnt + j \<and> b = take cnt a @ take j xs @ drop (cnt + j) a"
  have "ok (for_range 0 N (\<lambda>j (a, c). do { a \<leftarrow> aput a c (uadd base j); Some (a, uadd c 1) }) (a, cnt)) (?P N)"
  proof (rule ok_for_range[where P = ?P])
    fix j s assume j: "j < N" and P: "?P j s"
    have d: "drop (cnt + j) a = a ! (cnt + j) # drop (Suc (cnt + j)) a" using assms(1,5) j by (simp add: Cons_nth_drop_Suc)
    have "(take cnt a @ take j xs @ drop (cnt + j) a)[cnt + j := xs ! j] = take cnt a @ take (Suc j) xs @ drop (cnt + Suc j) a"
      unfolding d using assms(1,5) j by (simp add: list_update_append take_Suc_conv_app_nth min_def)
    then show "ok (case s of (a, c) \<Rightarrow> do { a \<leftarrow> aput a c (uadd base j); Some (a, uadd c 1) }) (?P (Suc j))"
      using P j assms xs(1)[of j] by (cases s) (simp add: wrap_simps)
  qed auto
  then show ?thesis using assms(5) by (auto simp: ok_iff)
qed

lemma expand_clusters_ok:
  assumes k: "0 < k" "0 < n" "n < U32 - 1" and ip: "mset ni = mset [0..<nc]" and nc: "nc = num_clusters k n"
  shows "expand_clusters k nc ni n = Some (concat (map (members k n) ni))"
proof -
  note ncl = num_clusters[OF k(1,2)]
  have len: "length (concat (map (members k n) ni)) = n"
    using arg_cong[OF expand_perm[OF k(1,2), of ni], of size] ip nc by simp
  have lni: "length ni = nc" using arg_cong[OF ip, of size] by simp
  have ni: "ni ! i < nc" if "i < nc" for i
    using that lni arg_cong[OF ip, of set_mset] nth_mem[of i ni] by (simp del: mset_upt)
  let ?c = "\<lambda>i. concat (map (members k n) (take i ni))"
  let ?body = "\<lambda>i s. do {
       clId \<leftarrow> aget ni i;
       let baseNode = umul clId k;
       let numNodes = (if clId = usub nc 1 then usub n baseNode else k);
       for_range 0 numNodes (\<lambda>j (newNodeId, nodeExpCount). do {
         newNodeId \<leftarrow> aput newNodeId nodeExpCount (uadd baseNode j);
         Some (newNodeId, uadd nodeExpCount 1)
       }) s }"
  let ?P = "\<lambda>i (a, c). c = length (?c i) \<and> length a = n \<and> take c a = ?c i"
  have "ok (for_range 0 nc ?body (replicate n 0, 0)) (?P nc)"
  proof (rule ok_for_range[where P = ?P])
    fix i s assume i: "i < nc" and P: "?P i s"
    obtain a c where s: "s = (a, c)" by force
    let ?x = "ni ! i"
    have x: "?x < nc" "?x * k < n" using ni[OF i] ncl(3) nc by auto
    have snoc: "?c (Suc i) = ?c i @ members k n ?x"
      using i lni by (simp add: take_Suc_conv_app_nth)
    have le: "length (?c (Suc i)) \<le> n"
    proof -
      have "concat (map (members k n) ni) = ?c (Suc i) @ concat (map (members k n) (drop (Suc i) ni))"
        by (metis append_take_drop_id concat_append map_append)
      then show ?thesis using len by simp
    qed
    have um: "umul ?x k = ?x * k" using x k by (simp add: umul_exact)
    have n1: "usub nc 1 = nc - 1" using i ncl(2) nc k by (intro usub_1) auto
    have num: "(if ?x = usub nc 1 then usub n (?x * k) else k) = length (members k n ?x)"
    proof (cases "Suc ?x < nc")
      case True
      then have "Suc ?x * k < n" using ncl(3)[of "Suc ?x"] nc by simp
      moreover have "?x \<noteq> nc - 1" using True by simp
      ultimately show ?thesis unfolding n1 by (simp add: members_def min_def)
    next
      case False
      then have "n \<le> Suc ?x * k" "?x = nc - 1" using ncl(3)[of "Suc ?x"] nc x by auto
      moreover have "usub n (?x * k) = n - ?x * k" using x k by (intro usub_exact) auto
      ultimately show ?thesis unfolding n1 by (simp add: members_def min_def)
    qed
    have P': "c = length (?c i)" "length a = n" "take c a = ?c i" using P s by auto
    have "?body i s = Some (take c a @ members k n ?x @ drop (c + length (members k n ?x)) a, c + length (members k n ?x))"
    proof -
      have "length (members k n ?x) + c \<le> length a" "?x * k + length (members k n ?x) < U32"
        using P' le snoc k x by (auto simp: members_def)
      then show ?thesis
        using i lni P'(2) k nth_members unfolding s
        by (simp only: aget_in Option.bind.simps Let_def um num) (rule fill_members; simp)
    qed
    then show "ok (?body i s) (?P (Suc i))"
      using P' snoc le by (simp add: min_def)
  qed auto
  then show ?thesis
    unfolding expand_clusters_def using len lni by (auto simp: ok_iff)
qed

lemma block_order_ok:
  assumes pre: "block_pre k cache G" and k: "k < numVertex G"
  shows "ok (block_order k cache G) (\<lambda>(nm, ni). inv_pair (numVertex G) nm ni \<and>
    (\<exists>cs. mset cs = mset [0..<num_clusters k (numVertex G)] \<and> ni = concat (map (members k (numVertex G)) cs)))"
proof -
  note p = block_preD[OF pre] and w = wf_csrD[OF block_preD(1)[OF pre]]
  let ?n = "numVertex G" and ?nc = "num_clusters k (numVertex G)"
  have nc: "uadd (usub ?n 1 div k) 1 = ?nc"
  proof -
    have "usub ?n 1 = ?n - 1" using w(1,2) by (intro usub_1) auto
    then show ?thesis
      using num_clusters(2)[OF p(6) w(1)] w(2) unfolding num_clusters_def by (subst uadd_exact) auto
  qed
  have "ok (do {
     newNodeId \<leftarrow> expand_clusters k ?nc ni ?n;
     newNodeMap \<leftarrow> invert_order newNodeId ?n;
     Some (newNodeMap, newNodeId) }) (\<lambda>(nm, ni). inv_pair ?n nm ni \<and>
      (\<exists>cs. mset cs = mset [0..<?nc] \<and> ni = concat (map (members k ?n) cs)))"
    if "inv_pair ?nc nm0 ni" for nm0 ni
  proof -
    note m = inv_pair_perm(1)[OF that]
    let ?l = "concat (map (members k ?n) ni)"
    note e = expand_perm[OF p(6) w(1) m]
    have "distinct ?l \<and> set ?l = {..<?n} \<and> length ?l = ?n"
      using e mset_eq_setD[OF e] mset_eq_length[OF e] mset_eq_imp_distinct_iff[OF e] by auto
    then have "ok (invert_order ?l ?n) (\<lambda>nm. inv_pair ?n nm ?l)" by (intro invert_order_ok) auto
    then show ?thesis
      using expand_clusters_ok[OF p(6) w(1,2) m refl] m by (auto elim!: ok_mono)
  qed
  then show ?thesis
    unfolding block_order_def ok_bind ok_case_prod nc
    by (intro ok_mono[OF order_clusters_ok[OF pre k]]) (auto simp only: split: prod.splits)
qed

interpretation block: node_order "\<lambda>G. block_pre k cache G \<and> k < numVertex G" "block_order k cache" edge_end
  for k cache
proof
  fix G assume h: "block_pre k cache G \<and> k < numVertex G"
  show "ok (block_order k cache G) (\<lambda>(nm, ni). inv_pair (numVertex G) nm ni)"
    using h by (intro ok_mono[OF block_order_ok]) auto
  show "wf_csr G" "\<forall>e \<in> set (take (numEdges G) (EI G)). e < numVertex G"
    using h block_preD(1,2) by auto
  show "edge_end G v = Some (eend G v)" if "v < numVertex G" for v
    using that h by (intro edge_end_ok) (auto dest: block_preD(1))
qed

section \<open>Inputs the program does not handle\<close>

lemma for_range_first: "a < b \<Longrightarrow> body a s = None \<Longrightarrow> for_range a b body s = None"
  by (simp add: for_range_def upt_conv_Cons)

lemma compress_graph_first_empty:
  assumes wf: "wf_csr G" and k: "0 < k" "k < numVertex G" "VI G ! k = 0" and l: "length (EI G) < U32 div 2"
  shows "compress_graph k G = None"
proof -
  note w = wf_csrD[OF wf]
  let ?nc = "uadd (usub (numVertex G) 1 div k) 1"
  have n1: "usub (numVertex G) 1 = numVertex G - 1" using w(1,2) by (intro usub_1) auto
  have "(numVertex G - 1) div k \<le> numVertex G - 1" by simp
  then have "(numVertex G - 1) div k + 1 < U32" using w(2) by linarith
  then have nc: "?nc = num_clusters k (numVertex G)" unfolding n1 num_clusters_def by (rule uadd_exact)
  have big: "1 < ?nc" "?nc < U32" unfolding nc using num_clusters(2,3)[of k "numVertex G"] k w(1,2) by auto
  have u: "umul 0 k = 0" "umul (uadd 0 1) k = k" "0 \<noteq> usub ?nc 1"
    using k w(2) big by (simp_all add: umul_exact wrap_simps)
  have a: "aget (VI G) 0 = Some 0" "aget (VI G) k = Some 0" using k w(6) order.strict_trans2[OF w(1,5)] order.strict_trans2[OF k(2) w(5)]
    by simp_all
  have "compress_cluster k G ?nc 0 (EI G, replicate ?nc 0, replicate (numEdges G) 0, 0) = None"
    unfolding compress_cluster_def prod.case u(1,2) a if_not_P[OF u(3)] Option.bind.simps mergeSortWOkey_wrapped[OF l] ..
  then have "for_range 0 ?nc (compress_cluster k G ?nc) (EI G, replicate ?nc 0, replicate (numEdges G) 0, 0) = None"
    by (rule for_range_first[rotated]) (use big in linarith)
  then show ?thesis unfolding compress_graph_def Let_def by simp
qed

lemma order_clusters_single:
  assumes pre: "block_pre k cache G" and k: "numVertex G \<le> k"
  shows "order_clusters k cache G = None"
proof -
  note p = block_preD[OF pre] and w = wf_csrD[OF block_preD(1)[OF pre]]
  have nc: "num_clusters k (numVertex G) = 1"
    using num_clusters(1)[OF p(6) w(1)] num_clusters(3)[OF p(6) w(1), of 1] k by simp
  obtain n1 w P where r: "place_clusters k cache G = Some (n1, w)" "n1 = 1"
    "place_inv P 1 (numVertex G) (\<lambda>_. False) w" "minPtr w = 1"
    using place_clusters_ok[OF pre] nc by (auto simp: ok_iff)
  have "length (nodeId (cstate w)) = 1" using loop_done(3)[OF r(3,4)] by (simp add: inv_pair_def)
  then have "place_last 1 (cstate w) = None" by (simp add: place_last_def usub_def)
  then show ?thesis unfolding order_clusters_def r(1,2) by simp
qed

section \<open>Properties\<close>

text \<open>C1: The whole of block reordering: for a graph with at least two clusters whose first cluster
  has an edge, the program returns, with no access out of bounds, and the graph it outputs is the input
  graph with the vertices renamed by the bijection \<open>newNodeMap\<close> (the neighbours of every vertex, in their
  order, and so the multiset of the edges).\<close>

theorem block_reorder_isomorphic:
  assumes "block_pre k cache G" "k < numVertex G"
  shows "\<exists>nm ni G'. block_reorder k cache G = Some (nm, ni, G') \<and> inv_pair (numVertex G) nm ni \<and>
    wf_csr G' \<and> numVertex G' = numVertex G \<and> bij_betw ((!) nm) {..<numVertex G} {..<numVertex G} \<and>
    mset (edges G') = image_mset (\<lambda>(a, b). (nm ! a, nm ! b)) (mset (edges G)) \<and>
    (\<forall>v < numVertex G. adj G' (nm ! v) = map ((!) nm) (adj G v))"
  using block.reorder_isomorphic[where k = k and cache = cache and G = G and ?G2.0 = "\<lparr>numVertex = numVertex G, numEdges = numEdges G,
    VI = replicate (numVertex G) 0, EI = replicate (numEdges G) 0\<rparr>"] assms
  unfolding block_reorder_def by (auto simp: ok_iff isomorphic_by_def)

lemma block_pre_example: "block_pre 2 100 \<lparr>numVertex = 4, numEdges = 4, VI = [0, 2, 2, 3], EI = [3, 1, 0, 3]\<rparr>"
  by (simp add: block_pre_def wf_csr_eval eend_def upt_rec cl_start_def)

theorem block_reorder_isomorphic_witness:
  "\<exists>nm ni G'. block_reorder 2 100 \<lparr>numVertex = 4, numEdges = 4, VI = [0, 2, 2, 3], EI = [3, 1, 0, 3]\<rparr> = Some (nm, ni, G') \<and>
    inv_pair 4 nm ni \<and> wf_csr G'"
  using block_reorder_isomorphic[OF block_pre_example] by auto

text \<open>C6: The cache lines stay together: the new order is a permutation of the clusters, each
  expanded to its vertices in ascending order, and no cluster is reported as not placed.\<close>

theorem block_order_keeps_lines:
  assumes "block_pre k cache G" "k < numVertex G"
  shows "\<exists>nm cs. block_order k cache G = Some (nm, concat (map (\<lambda>c. [c * k..<min (numVertex G) (c * k + k)]) cs)) \<and>
    mset cs = mset [0..<(numVertex G - 1) div k + 1] \<and> (\<exists>ni. order_clusters k cache G = Some (ni, None))"
proof -
  have m: "members k n = (\<lambda>c. [c * k..<min n (c * k + k)])" for n
    by (simp add: members_def fun_eq_iff add.commute)
  show ?thesis
    using block_order_ok[OF assms] order_clusters_ok[OF assms]
    by (auto simp: ok_iff m num_clusters_def simp del: upt_Suc)
qed

theorem block_order_keeps_lines_witness:
  "\<exists>nm cs. block_order 2 100 \<lparr>numVertex = 4, numEdges = 4, VI = [0, 2, 2, 3], EI = [3, 1, 0, 3]\<rparr> =
      Some (nm, concat (map (\<lambda>c. [c * 2..<min 4 (c * 2 + 2)]) cs)) \<and> mset cs = {#0, 1#}"
  using block_order_keeps_lines[OF block_pre_example] by (auto simp: upt_rec)

text \<open>The rows of consecutive vertices are next to each other in the edge array.\<close>

lemma adjacent_rows:
  assumes wf: "wf_csr G" and u: "u < numVertex G" "0 < d"
  shows "slice (EI G) (VI G ! u) (if u + d < numVertex G then VI G ! (u + d) else numEdges G) =
    concat (map (adj G) [u..<min (numVertex G) (u + d)])"
  using u(2)
proof (induction d)
  case (Suc d)
  note w = wf_csrD[OF wf]
  let ?n = "numVertex G"
  show ?case
  proof (cases "d = 0")
    case True
    have "eend G u = (if Suc u < ?n then VI G ! Suc u else numEdges G)" using u(1) by (auto simp: eend_def)
    moreover have "min ?n (Suc u) = Suc u" using u(1) by simp
    then have "[u..<min ?n (Suc u)] = [u]" by simp
    ultimately show ?thesis using True by (simp add: adj_def)
  next
    case False
    then have IH: "slice (EI G) (VI G ! u) (if u + d < ?n then VI G ! (u + d) else numEdges G) =
      concat (map (adj G) [u..<min ?n (u + d)])" using Suc.IH by simp
    show ?thesis
    proof (cases "u + d < ?n")
      case True
      have e: "eend G (u + d) = (if Suc (u + d) < ?n then VI G ! Suc (u + d) else numEdges G)"
        using True by (auto simp: eend_def)
      have "VI G ! u \<le> VI G ! (u + d)" by (rule VI_mono[OF wf]) (use True in auto)
      moreover have "VI G ! (u + d) \<le> eend G (u + d)" by (rule w(7)[OF True])
      ultimately have "slice (EI G) (VI G ! u) (eend G (u + d)) = slice (EI G) (VI G ! u) (VI G ! (u + d)) @ adj G (u + d)"
        unfolding adj_def by (rule slice_split[symmetric])
      moreover have "min ?n (u + d) = u + d" and m: "min ?n (u + Suc d) = Suc (u + d)" using True by auto
      ultimately show ?thesis unfolding m using IH True e by (cases "Suc (u + d) < ?n") simp_all
    next
      case False
      then have "min ?n (u + Suc d) = ?n" "min ?n (u + d) = ?n" by auto
      then show ?thesis using IH False by simp
    qed
  qed
qed simp

lemma cluster_row:
  assumes "wf_csr G" "0 < k" "c * k < numVertex G"
  shows "set (cl_row k G c) = (\<Union>v \<in> {c * k..<min (numVertex G) (c * k + k)}. set (adj G v))" "sorted_wrt (>) (cl_row k G c)"
proof -
  have "slice (EI G) (cl_start k G c) (cl_start k G (Suc c)) = concat (map (adj G) [c * k..<min (numVertex G) (c * k + k)])"
    using adjacent_rows[OF assms(1,3,2)] assms(3) unfolding cl_start_def mult_Suc add.commute[of k] by (simp only: if_True)
  then show "set (cl_row k G c) = (\<Union>v \<in> {c * k..<min (numVertex G) (c * k + k)}. set (adj G v))" by (simp add: cl_row_def)
  have sorted: "sorted_wrt (>) (remdups_adj xs)" if "sorted_wrt (\<ge>) xs" for xs :: "nat list"
    using that by (induction xs rule: remdups_adj.induct) auto
  show "sorted_wrt (>) (cl_row k G c)" unfolding cl_row_def by (rule sorted) (simp add: sorted_wrt_rev)
qed

text \<open>C7: The compressed graph: cluster \<open>c\<close> has an edge to \<open>e\<close>, once, if and only if a vertex of the
  cluster has one; the targets are in descending order.\<close>

theorem compress_graph_union:
  assumes "block_pre k cache G"
  shows "\<exists>C. compress_graph k G = Some C \<and> wf_csr C \<and> numVertex C = (numVertex G - 1) div k + 1 \<and>
    (\<forall>c < numVertex C. sorted_wrt (>) (adj C c) \<and>
      set (adj C c) = (\<Union>v \<in> {c * k..<min (numVertex G) (c * k + k)}. set (adj G v)))"
proof -
  note p = block_preD[OF assms] and w = wf_csrD[OF block_preD(1)[OF assms]]
  let ?nc = "num_clusters k (numVertex G)"
  note ncl = num_clusters[OF p(6) w(1)]
  obtain zs where C: "compress_graph k G = Some (csr_padded ?nc (cl_edges k G) zs)"
    using compress_graph_ok[OF p(1,6,3,7)] by (auto simp: ok_iff)
  have "c * k < numVertex G" if "c < ?nc" for c using that ncl(3) by simp
  then show ?thesis
    using C compressed[OF assms, where zs = zs] cluster_row[OF p(1,6)]
    by (intro exI[of _ "csr_padded ?nc (cl_edges k G) zs"]) (simp add: num_clusters_def)
qed

theorem compress_graph_union_witness:
  "\<exists>C. compress_graph 2 \<lparr>numVertex = 4, numEdges = 4, VI = [0, 2, 2, 3], EI = [3, 1, 0, 3]\<rparr> = Some C \<and>
    wf_csr C \<and> numVertex C = 2"
  using compress_graph_union[OF block_pre_example] by auto

text \<open>C8: A first cluster without an edge makes the program undefined: the upper bound of the
  sort is \<open>end - 1\<close> with \<open>end = 0\<close>, which wraps around to \<open>2^32 - 1\<close>, and the sort reads past the end of
  the edge array.\<close>

theorem block_reorder_first_cluster_empty:
  assumes "wf_csr G" "0 < k" "k < numVertex G" "VI G ! k = 0" "length (EI G) < U32 div 2"
  shows "block_reorder k cache G = None"
  unfolding block_reorder_def block_order_def order_clusters_def place_clusters_def
  using compress_graph_first_empty[OF assms] by simp

theorem block_reorder_first_cluster_empty_witness:
  "block_reorder 1 100 \<lparr>numVertex = 2, numEdges = 1, VI = [0, 0], EI = [0]\<rparr> = None"
  by (rule block_reorder_first_cluster_empty) (simp_all add: wf_csr_eval eend_def upt_rec)

text \<open>A graph that fits in one cluster (\<open>numVertex \<le> CLSize\<close>) makes the program undefined: after
  the loop it marks \<open>nodeId[compG.numVertex - 2]\<close> as placed, an index of \<open>2^32 - 1\<close> for one cluster.\<close>

theorem block_reorder_single_cluster:
  assumes "block_pre k cache G" "numVertex G \<le> k"
  shows "block_reorder k cache G = None"
  unfolding block_reorder_def block_order_def using order_clusters_single[OF assms] by simp

theorem block_reorder_single_cluster_witness:
  "block_reorder 20 100 \<lparr>numVertex = 2, numEdges = 1, VI = [0, 1], EI = [1]\<rparr> = None"
  by (rule block_reorder_single_cluster) (simp_all add: block_pre_def cl_start_def wf_csr_eval eend_def upt_rec)

end
