(* ===== verification/Block_Main.thy ===== *)
theory Block_Main
  imports Program Block_Reorder
begin

text \<open>
  The program of \<open>br/block_reordering/main.cpp\<close>, from the command line to the files it writes.
\<close>

section \<open>The code\<close>

text \<open>\<open>write_edgelist\<close> of \<open>br\<close> returns when the file cannot be opened.\<close>

definition br_write_edgelist :: "(string \<Rightarrow> bool) \<Rightarrow> string \<Rightarrow> graph \<Rightarrow> (string \<times> string) list option" where
  "br_write_edgelist writable name G =
     (if writable name then do { s \<leftarrow> write_edgelist G; Some [(name, s)] } else Some [])"

definition br_run :: "(string \<Rightarrow> bool) \<Rightarrow> u32 \<Rightarrow> u32 \<Rightarrow> string \<Rightarrow> graph \<Rightarrow> outcome option" where
  "br_run writable CLSize cache out G1 = do {
     (newNodeMap, newNodeId, G2) \<leftarrow> block_reorder CLSize cache G1;
     f1 \<leftarrow> br_write_edgelist writable out G2;
     f2 \<leftarrow> dump_order writable ''new_order.el'' newNodeMap (numVertex G2);
     Some (0, f1 @ [f2])
   }"

definition br_main :: "file_system \<Rightarrow> (string \<Rightarrow> bool) \<Rightarrow> string list \<Rightarrow> outcome option" where
  "br_main fs writable argv = (
     if length argv \<noteq> 5 \<and> length argv \<noteq> 3 then Some (1, [])
     else do {
       (CLSize, cache) \<leftarrow> (if length argv = 5 then do { a \<leftarrow> atoi (argv ! 1); b \<leftarrow> atoi (argv ! 2); Some (a, b) }
         else Some (20, 100000));
       r \<leftarrow> read_csr (fs (argv ! (length argv - 2)));
       case r of
         None \<Rightarrow> Some (1, [])
       | Some G \<Rightarrow> br_run writable CLSize cache (argv ! (length argv - 1)) G
     })"

section \<open>From the file to the file\<close>

lemma cl_start_graph:
  assumes es: "es \<noteq> []" "length es < U32" "card (ends es) < U32 - 1"
    and ab: "(a, b) \<in> set es" "vertex_rank (ends es) a < k"
  shows "0 < cl_start k (graph_of es) 1"
proof -
  let ?n = "card (ends es)" and ?ps = "renumber es"
  note g = graph_of(4,5)[OF es]
  have "(vertex_rank (ends es) a, vertex_rank (ends es) b) \<in> set ?ps" using ab(1) by (force simp: renumber_def)
  then have "bucket ?ps (vertex_rank (ends es) a) \<noteq> []" by (force simp: bucket_def filter_empty_conv)
  then have "0 < starts ?ps (Suc (vertex_rank (ends es) a))" by (simp add: starts_Suc)
  also have "\<dots> \<le> starts ?ps k" by (rule starts_mono) (use ab(2) in simp)
  finally have k0: "0 < starts ?ps k" .
  show ?thesis
    unfolding cl_start_def g using k0 es(1) by (simp add: graph_of_def csr_graph_def del: upt_Suc)
qed

lemma br_pre_graph:
  assumes es: "\<forall>(a, b) \<in> set es. a < U32 div 2 - 1 \<and> b < U32 div 2 - 1" "length es \<le> U32 div 2" "\<forall>(a, b) \<in> set es. a \<noteq> b" "es \<noteq> []"
    and first: "\<exists>(a, b) \<in> set es. vertex_rank (ends es) a < k" and cache: "cache < U32"
  shows "block_pre k cache (graph_of es)"
proof -
  have l: "length es < U32" using es(2) by simp
  obtain a b where ab: "(a, b) \<in> set es" "vertex_rank (ends es) a < k" using first by blast
  note g = graph_pre[OF es(1) l es(3,4)]
  have c: "card (ends es) < U32 - 1" using g(1) by simp
  have "\<forall>e \<in> set (take (length es) (EI (graph_of es))). e < card (ends es)"
    using g(4) unfolding g(7) by (auto dest: in_set_takeD)
  moreover have "0 < k" using ab(2) by simp
  ultimately show ?thesis
    unfolding block_pre_def g(5,6,7) using g(1,3) es(2) cache cl_start_graph[OF es(4) l c ab] by simp
qed

lemma br_run_ok:
  assumes es: "\<forall>(a, b) \<in> set es. a < U32 div 2 - 1 \<and> b < U32 div 2 - 1" "length es \<le> U32 div 2" "\<forall>(a, b) \<in> set es. a \<noteq> b" "es \<noteq> []"
    and first: "\<exists>(a, b) \<in> set es. vertex_rank (ends es) a < k" and cache: "cache < U32" and k: "k < card (ends es)"
    and wr: "writable ''new_order.el''" "writable out"
  shows "\<exists>nm s. br_run writable k cache out (graph_of es) =
      Some (0, [(out, s), (''new_order.el'', concat (map (\<lambda>x. print_d x @ [newline]) nm))]) \<and>
    length nm = card (ends es) \<and> bij_betw ((!) nm) {..<card (ends es)} {..<card (ends es)} \<and>
    holds_edges s (image_mset (\<lambda>(a, b). (nm ! vertex_rank (ends es) a, nm ! vertex_rank (ends es) b)) (mset es))"
proof -
  have l: "length es < U32" using es(2) by simp
  note g = graph_pre[OF es(1) l es(3,4)]
  let ?G = "graph_of es"
  have "ok (block_reorder k cache ?G) (\<lambda>(nm, ni, G'). inv_pair (numVertex ?G) nm ni \<and> isomorphic_by nm ?G G')"
    unfolding block_reorder_def
    by (rule block.reorder_isomorphic) (use br_pre_graph[OF es first cache] k g(7) in auto)
  then obtain nm ni G' where r: "block_reorder k cache ?G = Some (nm, ni, G')" "inv_pair (card (ends es)) nm ni"
    "isomorphic_by nm ?G G'"
    unfolding g(7) by (auto simp: ok_iff)
  obtain s where s: "write_edgelist G' = Some s"
    "holds_edges s (image_mset (\<lambda>(a, b). (nm ! vertex_rank (ends es) a, nm ! vertex_rank (ends es) b)) (mset es))"
    using written_graph[OF es(1) l es(3,4) r(3)] by blast
  have n: "numVertex G' = card (ends es)" using r(3) g(7) by (simp add: isomorphic_by_def)
  have ln: "length nm = card (ends es)" using r(2) by (simp add: inv_pair_def)
  then have d: "dump_order writable ''new_order.el'' nm (numVertex G') =
    Some (''new_order.el'', concat (map (\<lambda>x. print_d x @ [newline]) nm))"
    unfolding n using wr(1) g(1) by (simp add: dump_order_ok)
  show ?thesis
    using s(2) ln inv_pair_bij[OF r(2)] wr(2)
    by (intro exI[of _ nm] exI[of _ s]) (simp add: br_run_def r(1) d s(1) br_write_edgelist_def)
qed

lemma br_main_ok:
  assumes "fs inp = Some (print_edges es)" and args: "argv = [prog, a1, a2, inp, out] \<and> atoi a1 = Some k \<and> atoi a2 = Some cache \<or>
      argv = [prog, inp, out] \<and> k = 20 \<and> cache = 100000" and "cache < U32"
    "\<forall>(a, b) \<in> set es. a < U32 div 2 - 1 \<and> b < U32 div 2 - 1" "length es \<le> U32 div 2"
    "\<exists>(a, b) \<in> set (no_loops es). vertex_rank (ends (no_loops es)) a < k" "k < card (ends (no_loops es))"
    "writable ''new_order.el''" "writable out"
  shows "\<exists>nm s. br_main fs writable argv =
      Some (0, [(out, s), (''new_order.el'', concat (map (\<lambda>x. print_d x @ [newline]) nm))]) \<and>
    length nm = card (ends (no_loops es)) \<and> bij_betw ((!) nm) {..<card (ends (no_loops es))} {..<card (ends (no_loops es))} \<and>
    holds_edges s (image_mset (\<lambda>(a, b). (nm ! vertex_rank (ends (no_loops es)) a, nm ! vertex_rank (ends (no_loops es)) b)) (mset (no_loops es)))"
proof -
  have l: "length (no_loops es) \<le> length es" unfolding no_loops_def by (rule length_filter_le)
  have ne: "no_loops es \<noteq> []" using assms(6) by auto
  have h: "\<forall>(a, b) \<in> set (no_loops es). a < U32 div 2 - 1 \<and> b < U32 div 2 - 1" "length (no_loops es) \<le> U32 div 2"
    "\<forall>(a, b) \<in> set (no_loops es). a \<noteq> b"
    using assms(4) order.trans[OF l assms(5)] by (auto simp: no_loops_def)
  have "length es < U32" using assms(5) by simp
  then have "read_csr (fs inp) = Some (Some (graph_of (no_loops es)))"
    unfolding assms(1) by (intro read_csr_ok) (use assms(4) in \<open>simp_all add: edges_ok_def\<close>)
  then have "br_main fs writable argv = br_run writable k cache out (graph_of (no_loops es))"
    using args by (auto simp: br_main_def)
  then show ?thesis using br_run_ok[OF h ne assms(6,3) _ assms(8,9)] assms(7) by simp
qed

section \<open>Properties\<close>

text \<open>C12: The whole program \<open>br\<close>, with the cache line and the cache size on the command line or their defaults: for an edge list whose vertices (those with an edge to another vertex) fill more than one
  cache line, one of the first \<open>CLSize\<close> of them with an outgoing edge, it terminates with status 0 and
  writes a graph and the order; read back, the graph is the input without its self loops, with its vertices
  renamed by a bijection: the rank among the vertices with an edge, followed by the order in \<open>new_order.el\<close>. The graph is the text of
  an edge list. (The README of the program documents a binary CSR file instead; the call of \<open>write_csr\<close> is commented out in \<open>main\<close>.)\<close>

theorem br_main_isomorphic:
  defines "proper \<equiv> filter (\<lambda>(a, b). a \<noteq> b)"
  assumes "fs inp = Some (print_edges es)"
    "argv = [prog, a1, a2, inp, out] \<and> atoi a1 = Some k \<and> atoi a2 = Some cache \<or>
      argv = [prog, inp, out] \<and> k = 20 \<and> cache = 100000"
    "cache < U32" "\<forall>(a, b) \<in> set es. a < U32 div 2 - 1 \<and> b < U32 div 2 - 1" "length es \<le> U32 div 2"
    "\<exists>(a, b) \<in> set (proper es). card {v \<in> ends (proper es). v < a} < k" "k < card (ends (proper es))"
    "writable ''new_order.el''" "writable out"
  shows "\<exists>nm s. br_main fs writable argv =
      Some (0, [(out, s), (''new_order.el'', concat (map (\<lambda>x. print_d x @ [newline]) nm))]) \<and>
    bij_betw (\<lambda>v. nm ! vertex_rank (ends (proper es)) v) (ends (proper es)) {..<length nm} \<and>
    holds_edges s (image_mset (\<lambda>(a, b). (nm ! vertex_rank (ends (proper es)) a, nm ! vertex_rank (ends (proper es)) b)) (mset (proper es)))"
proof -
  have p: "proper es = no_loops es" by (simp add: proper_def no_loops_def)
  have f: "\<exists>(a, b) \<in> set (no_loops es). vertex_rank (ends (no_loops es)) a < k"
    using assms(7) unfolding p vertex_rank_def .
  obtain nm s where m: "br_main fs writable argv =
      Some (0, [(out, s), (''new_order.el'', concat (map (\<lambda>x. print_d x @ [newline]) nm))])"
    "length nm = card (ends (no_loops es))" "bij_betw ((!) nm) {..<card (ends (no_loops es))} {..<card (ends (no_loops es))}"
    "holds_edges s (image_mset (\<lambda>(a, b). (nm ! vertex_rank (ends (no_loops es)) a, nm ! vertex_rank (ends (no_loops es)) b)) (mset (no_loops es)))"
    using br_main_ok[where fs = fs and inp = inp and argv = argv and writable = writable and out = out, OF assms(2-6) f _ assms(9,10)] assms(8) unfolding p by blast
  have "bij_betw (\<lambda>v. nm ! vertex_rank (ends (no_loops es)) v) (ends (no_loops es)) {..<length nm}"
    using bij_betw_trans[OF vertex_rank_bij[OF finite_ends] m(3)] by (simp add: m(2) comp_def)
  then show ?thesis unfolding p using m(1,4) by (intro exI[of _ nm] exI[of _ s]) simp
qed

theorem br_main_isomorphic_witness:
  "\<exists>nm s. br_main [''in'' \<mapsto> print_edges [(2, 7), (2, 2), (2, 9)]] (\<lambda>_. True) [''br'', ''1'', ''100'', ''in'', ''out''] =
      Some (0, [(''out'', s), (''new_order.el'', concat (map (\<lambda>x. print_d x @ [newline]) nm))]) \<and>
    (\<exists>r :: nat \<Rightarrow> nat. holds_edges s {#(r 2, r 7), (r 2, r 9)#})"
proof -
  let ?es = "[(2, 7), (2, 2), (2, 9 :: nat)]"
  have a: "atoi ''1'' = Some 1" "atoi ''100'' = Some 100"
    by (simp_all add: atoi_def scan_d_def scan_sign_def is_space_def is_digit_def decimal_value_def digit_val_def)
  have f: "filter (\<lambda>(a, b). a \<noteq> b) ?es = [(2, 7), (2, 9)]" by simp
  have e: "ends [(2, 7), (2, 9)] = {2, 7, 9}" by (auto simp: ends_def)
  have "{v \<in> {2, 7, 9 :: nat}. v < 2} = {}" by auto
  then have "\<exists>nm s. br_main [''in'' \<mapsto> print_edges ?es] (\<lambda>_. True) [''br'', ''1'', ''100'', ''in'', ''out''] =
      Some (0, [(''out'', s), (''new_order.el'', concat (map (\<lambda>x. print_d x @ [newline]) nm))]) \<and>
    bij_betw (\<lambda>v. nm ! vertex_rank {2, 7, 9} v) {2, 7, 9} {..<length nm} \<and>
    holds_edges s (image_mset (\<lambda>(a, b). (nm ! vertex_rank {2, 7, 9} a, nm ! vertex_rank {2, 7, 9} b)) (mset [(2, 7), (2, 9)]))"
    by (intro br_main_isomorphic[where es = ?es, unfolded f e, of _ _ _ "''br''" "''1''" "''100''" _ 1 100]) (use a in simp_all)
  then show ?thesis by auto
qed

text \<open>The status is 1, and nothing is written, exactly for a wrong number of arguments or a file
  that \<open>read_csr\<close> rejects (the arguments being numbers in the range of \<open>int\<close>).\<close>

theorem br_main_status:
  "br_main fs writable argv = Some (1, fl) \<longleftrightarrow> fl = [] \<and>
    (length argv \<noteq> 5 \<and> length argv \<noteq> 3 \<or>
     (length argv = 5 \<longrightarrow> atoi (argv ! 1) \<noteq> None \<and> atoi (argv ! 2) \<noteq> None) \<and>
     read_csr (fs (argv ! (length argv - 2))) = Some None)"
  by (auto simp: br_main_def br_run_def bind_eq_Some_conv split: option.splits if_splits)

theorem br_main_status_witness:  "br_main (\<lambda>_. None) (\<lambda>_. True) [''br'', ''in'', ''out''] = Some (1, [])"
  unfolding br_main_status by (simp add: read_csr_def read_edge_list_def read_edges_def)

end
