(* ===== verification/Weighted_Graph.thy ===== *)
theory Weighted_Graph
  imports Program Init_Model
begin

text \<open>
  The \<open>graph.cpp\<close> of \<open>graphReordering/block_reordering\<close>, \<open>graphReordering/pH\<close> and \<open>graphReordering\<close>: graphs
  with edge weights, kept in a hash map whose key is the text \<open>src>dst\<close>, and with the option to store the
  incoming edges. Two maps of the C++ object are fields of an extended record.
\<close>

section \<open>The code\<close>

record options =
  weighted :: bool
  maintain :: bool
  indegree :: bool

record wgraph = graph +
  filtered_to_original :: "u32 \<Rightarrow> u32 option"
  weights :: "string \<Rightarrow> u32 option"

abbreviation plain :: "wgraph \<Rightarrow> graph" where
  "plain \<equiv> graph.truncate"

definition empty_graph :: wgraph where
  "empty_graph = \<lparr>numVertex = 0, numEdges = 0, VI = [], EI = [], filtered_to_original = Map.empty, weights = Map.empty\<rparr>"

definition get_map_key :: "u32 \<Rightarrow> u32 \<Rightarrow> string" where
  "get_map_key s d = '''' @ to_string s @ ''>'' @ to_string d"

definition gb_read_edge_list :: "options \<Rightarrow> string option \<Rightarrow> (u32 \<times> u32 list \<times> u32 list \<times> u32 list) option option" where
  "gb_read_edge_list opts = read_edges (weighted opts) True"

definition gb_filter ::
  "options \<Rightarrow> u32 list \<Rightarrow> u32 list \<Rightarrow> u32 list \<Rightarrow> wgraph \<Rightarrow> u32 \<Rightarrow> u32 \<Rightarrow> (u32 list \<times> u32 list \<times> wgraph \<times> u32) option" where
  "gb_filter opts src dst ws G n m = do {
     exists \<leftarrow> for_range 0 m (\<lambda>i ex. do {
       s \<leftarrow> aget src i;
       ex' \<leftarrow> aput ex s True;
       d \<leftarrow> aget dst i;
       aput ex' d True
     }) (replicate n False);
     (vertexMap, actualVertices, f2o) \<leftarrow> for_range 0 n (\<lambda>i (vm, act, f2o). do {
       e \<leftarrow> aget exists i;
       if e then do {
         vm' \<leftarrow> aput vm i act;
         let act = uadd act 1;
         Some (vm', act, f2o(usub act 1 \<mapsto> i))
       } else Some (vm, act, f2o)
     }) (replicate n 0, 0, filtered_to_original G);
     (src', dst', wm) \<leftarrow> for_range 0 m (\<lambda>i (src, dst, wm). do {
       s \<leftarrow> aget src i;
       s' \<leftarrow> aget vertexMap s;
       src' \<leftarrow> aput src i s';
       d \<leftarrow> aget dst i;
       d' \<leftarrow> aget vertexMap d;
       dst' \<leftarrow> aput dst i d';
       if weighted opts then do {
         w \<leftarrow> aget ws i;
         Some (src', dst', wm(get_map_key s' d' \<mapsto> w))
       } else Some (src', dst', wm)
     }) (src, dst, weights G);
     Some (src', dst', G\<lparr>filtered_to_original := f2o, weights := wm\<rparr>, actualVertices)
   }"

definition gb_csr_convert :: "options \<Rightarrow> u32 list \<Rightarrow> u32 list \<Rightarrow> wgraph \<Rightarrow> wgraph option" where
  "gb_csr_convert opts src dst G = do {
     let n = numVertex G;
     let m = numEdges G;
     deg \<leftarrow> for_range 0 m (\<lambda>i deg.
       if indegree opts then do { d \<leftarrow> aget dst i; c \<leftarrow> aget deg d; aput deg d (uadd c 1) }
       else do { s \<leftarrow> aget src i; c \<leftarrow> aget deg s; aput deg s (uadd c 1) }) (replicate n 0);
     vi \<leftarrow> for_range 1 (n + 1) (\<lambda>i vi. do {
       p \<leftarrow> aget vi (usub i 1);
       c \<leftarrow> aget deg (usub i 1);
       aput vi i (uadd p c)
     }) (replicate (n + 1) 0);
     zero \<leftarrow> for_range 0 n (\<lambda>i deg. aput deg i 0) deg;
     (ei, cnt) \<leftarrow> for_range 0 m (\<lambda>i s.
       if indegree opts then do { d \<leftarrow> aget dst i; a \<leftarrow> aget src i; place vi d a s }
       else do { a \<leftarrow> aget src i; d \<leftarrow> aget dst i; place vi a d s }) (replicate m 0, zero);
     Some (G\<lparr>VI := vi, EI := ei\<rparr>)
   }"

definition gb_read_csr :: "options \<Rightarrow> string option \<Rightarrow> wgraph \<Rightarrow> wgraph option option" where
  "gb_read_csr opts file G = do {
     r \<leftarrow> gb_read_edge_list opts file;
     case r of
       None \<Rightarrow> Some None
     | Some (n, src, dst, ws) \<Rightarrow>
         if U32 div 2 \<le> n then Some None
         else do {
           let m = length src mod U32;
           (src, dst, G, act) \<leftarrow> gb_filter opts src dst ws (G\<lparr>numEdges := m\<rparr>) n m;
           G \<leftarrow> gb_csr_convert opts src dst (G\<lparr>numVertex := act\<rparr>);
           Some (Some G)
         }
   }"

definition gb_createReverseCSR :: "wgraph \<Rightarrow> u32 \<Rightarrow> wgraph option" where
  "gb_createReverseCSR G1 G2numVertex = do {
     R \<leftarrow> createReverseCSR (plain G1) G2numVertex;
     Some (graph.extend R \<lparr>filtered_to_original = filtered_to_original G1, weights = weights G1\<rparr>)
   }"

text \<open>\<open>weights[key]\<close>: a missing key reads as 0.\<close>

definition weight_of :: "(string \<Rightarrow> u32 option) \<Rightarrow> string \<Rightarrow> u32" where
  "weight_of wm k = (case wm k of None \<Rightarrow> 0 | Some w \<Rightarrow> w)"

text \<open>\<open>s\<close>, \<open>d\<close> and \<open>w\<close> of one edge; \<open>map_to_node\<close> gives the names before the reordering.\<close>

definition edge_row :: "options \<Rightarrow> (string \<Rightarrow> u32 option) \<Rightarrow> u32 list \<Rightarrow> u32 \<Rightarrow> u32 \<Rightarrow> row option" where
  "edge_row opts wm map_to_node i e = do {
     let s = (if indegree opts then e else i);
     let d = (if indegree opts then i else e);
     a \<leftarrow> aget map_to_node s;
     b \<leftarrow> aget map_to_node d;
     Some (s, d, weight_of wm (get_map_key a b))
   }"

definition edge_rows :: "options \<Rightarrow> wgraph \<Rightarrow> u32 list \<Rightarrow> string option" where
  "edge_rows opts G map_to_node = do {
     s \<leftarrow> for_range 0 (usub (numVertex G) 1) (\<lambda>i s. do {
       a \<leftarrow> aget (VI G) i;
       b \<leftarrow> aget (VI G) (uadd i 1);
       for_range a b (\<lambda>j s. do {
         e \<leftarrow> aget (EI G) j;
         r \<leftarrow> edge_row opts (weights G) map_to_node i e;
         Some (s @ row_line (weighted opts) r)
       }) s
     }) [];
     a \<leftarrow> aget (VI G) (usub (numVertex G) 1);
     for_range a (numEdges G) (\<lambda>j s. do {
       e \<leftarrow> aget (EI G) j;
       r \<leftarrow> edge_row opts (weights G) map_to_node (usub (numVertex G) 1) e;
       Some (s @ row_line (weighted opts) r)
     }) s
   }"

definition gb_write_edge_list :: "options \<Rightarrow> (string \<Rightarrow> bool) \<Rightarrow> string \<Rightarrow> wgraph \<Rightarrow> u32 list \<Rightarrow> (string \<times> string) list option" where
  "gb_write_edge_list opts writable name G nm = do {
     map_to_node \<leftarrow> invert_order nm (numVertex G);
     if writable name then do { s \<leftarrow> edge_rows opts G map_to_node; Some [(name, s)] } else Some []
   }"

definition gb_printGraph :: "wgraph \<Rightarrow> string option" where
  "gb_printGraph G = printGraph (plain G)"

definition gb_write_csr :: "wgraph \<Rightarrow> nat list option" where
  "gb_write_csr G = write_csr (plain G)"

subsection \<open>The copies\<close>

text \<open>\<open>graphReordering/pH/graph.cpp\<close>: \<open>write_edge_list\<close> does not test the file, \<open>write_csr\<close> leaves out
  the two counters, \<open>createReverseCSR\<close> has no parameter, and \<open>printGraph\<close> is the one of \<open>ph/pH\<close>.\<close>

definition gp_get_map_key :: "u32 \<Rightarrow> u32 \<Rightarrow> string" where
  "gp_get_map_key = get_map_key"

definition gp_read_edge_list :: "options \<Rightarrow> string option \<Rightarrow> (u32 \<times> u32 list \<times> u32 list \<times> u32 list) option option" where
  "gp_read_edge_list = gb_read_edge_list"

definition gp_filter ::
  "options \<Rightarrow> u32 list \<Rightarrow> u32 list \<Rightarrow> u32 list \<Rightarrow> wgraph \<Rightarrow> u32 \<Rightarrow> u32 \<Rightarrow> (u32 list \<times> u32 list \<times> wgraph \<times> u32) option" where
  "gp_filter = gb_filter"

definition gp_csr_convert :: "options \<Rightarrow> u32 list \<Rightarrow> u32 list \<Rightarrow> wgraph \<Rightarrow> wgraph option" where
  "gp_csr_convert = gb_csr_convert"

definition gp_read_csr :: "options \<Rightarrow> string option \<Rightarrow> wgraph \<Rightarrow> wgraph option option" where
  "gp_read_csr = gb_read_csr"

definition gp_createReverseCSR :: "wgraph \<Rightarrow> wgraph option" where
  "gp_createReverseCSR G1 = gb_createReverseCSR G1 (numVertex G1)"

definition gp_write_edge_list :: "options \<Rightarrow> (string \<Rightarrow> bool) \<Rightarrow> string \<Rightarrow> wgraph \<Rightarrow> u32 list \<Rightarrow> (string \<times> string) option" where
  "gp_write_edge_list opts writable name G nm = do {
     map_to_node \<leftarrow> invert_order nm (numVertex G);
     s \<leftarrow> edge_rows opts G map_to_node;
     if writable name then Some (name, s) else None
   }"

definition gp_printGraph :: "wgraph \<Rightarrow> string option" where
  "gp_printGraph G = ph_printGraph (plain G)"

definition gp_write_csr :: "wgraph \<Rightarrow> nat list option" where
  "gp_write_csr G = do {
     vi \<leftarrow> fwrite_u32 (VI G) (numVertex G);
     ei \<leftarrow> fwrite_u32 (EI G) (numEdges G);
     Some (vi @ ei)
   }"

text \<open>\<open>graphReordering/graph.cpp\<close>: self loops are dropped when the file is read.\<close>

definition gr_get_map_key :: "u32 \<Rightarrow> u32 \<Rightarrow> string" where
  "gr_get_map_key = get_map_key"

definition gr_read_edge_list :: "options \<Rightarrow> string option \<Rightarrow> (u32 \<times> u32 list \<times> u32 list \<times> u32 list) option option" where
  "gr_read_edge_list opts = read_edges (weighted opts) False"

definition gr_filter ::
  "options \<Rightarrow> u32 list \<Rightarrow> u32 list \<Rightarrow> u32 list \<Rightarrow> wgraph \<Rightarrow> u32 \<Rightarrow> u32 \<Rightarrow> (u32 list \<times> u32 list \<times> wgraph \<times> u32) option" where
  "gr_filter = gb_filter"

definition gr_csr_convert :: "options \<Rightarrow> u32 list \<Rightarrow> u32 list \<Rightarrow> wgraph \<Rightarrow> wgraph option" where
  "gr_csr_convert = gb_csr_convert"

definition gr_read_csr :: "options \<Rightarrow> string option \<Rightarrow> wgraph \<Rightarrow> wgraph option option" where
  "gr_read_csr opts file G = do {
     r \<leftarrow> gr_read_edge_list opts file;
     case r of
       None \<Rightarrow> Some None
     | Some (n, src, dst, ws) \<Rightarrow>
         if U32 div 2 \<le> n then Some None
         else do {
           let m = length src mod U32;
           (src, dst, G, act) \<leftarrow> gr_filter opts src dst ws (G\<lparr>numEdges := m\<rparr>) n m;
           G \<leftarrow> gr_csr_convert opts src dst (G\<lparr>numVertex := act\<rparr>);
           Some (Some G)
         }
   }"

definition gr_printGraph :: "wgraph \<Rightarrow> string option" where
  "gr_printGraph = gb_printGraph"

definition gr_write_csr :: "wgraph \<Rightarrow> nat list option" where
  "gr_write_csr = gb_write_csr"

definition gr_createReverseCSR :: "wgraph \<Rightarrow> u32 \<Rightarrow> wgraph option" where
  "gr_createReverseCSR = gb_createReverseCSR"

definition gr_write_edge_list :: "options \<Rightarrow> (string \<Rightarrow> bool) \<Rightarrow> string \<Rightarrow> wgraph \<Rightarrow> u32 list \<Rightarrow> (string \<times> string) option" where
  "gr_write_edge_list = gp_write_edge_list"

section \<open>Keys\<close>

text \<open>The separator is not a digit, so two edges never share a key.\<close>

lemma get_map_key_inj: "get_map_key a b = get_map_key c d \<longleftrightarrow> a = c \<and> b = d"
proof
  assume h: "get_map_key a b = get_map_key c d"
  have n: "\<not> is_digit (CHR ''>'')" by (simp add: is_digit_def)
  have k: "get_map_key a b = to_string a @ CHR ''>'' # to_string b" for a b by (simp add: get_map_key_def)
  have "to_string a = to_string c"
    using arg_cong[OF h, of "takeWhile is_digit"] unfolding k takeWhile_digits[OF n] .
  moreover have "CHR ''>'' # to_string b = CHR ''>'' # to_string d"
    using arg_cong[OF h, of "dropWhile is_digit"] unfolding k dropWhile_digits[OF n] .
  ultimately show "a = c \<and> b = d" by (simp add: to_string_inj)
qed simp

text \<open>The last weight that the rows give to an edge.\<close>

definition row_weights :: "row list \<Rightarrow> (nat \<times> nat \<Rightarrow> u32 option) \<Rightarrow> nat \<times> nat \<Rightarrow> u32 option" where
  "row_weights rows R = fold (\<lambda>(a, b, w) R. R((a, b) \<mapsto> w)) rows R"

lemma row_weights_simps [simp]:
  "row_weights [] R = R"
  "row_weights ((a, b, w) # rows) R = row_weights rows (R((a, b) \<mapsto> w))"
  by (simp_all add: row_weights_def)

lemma row_weights_cong:
  "R p = R' p \<Longrightarrow> row_weights rows R p = row_weights rows R' p"
proof (induction rows arbitrary: R R')
  case (Cons row rows)
  obtain x y z where row: "row = (x, y, z)" by (cases row)
  show ?case unfolding row row_weights_simps by (rule Cons.IH) (use Cons.prems in simp)
qed simp

lemma row_weights_Some:
  "R p \<noteq> None \<Longrightarrow> row_weights rows R p \<noteq> None"
proof (induction rows arbitrary: R)
  case (Cons row rows)
  obtain x y z where row: "row = (x, y, z)" by (cases row)
  show ?case unfolding row row_weights_simps by (rule Cons.IH) (use Cons.prems in simp)
qed simp

lemma row_weights_start:
  "(a, b, w) \<in> set rows \<Longrightarrow> row_weights rows R (a, b) = row_weights rows R' (a, b) \<and> row_weights rows R (a, b) \<noteq> None"
proof (induction rows arbitrary: R R')
  case (Cons r rows)
  obtain x y z where r: "r = (x, y, z)" by (cases r)
  show ?case
  proof (cases "(a, b, w) \<in> set rows")
    case True
    then show ?thesis unfolding r row_weights_simps by (rule Cons.IH)
  next
    case False
    then have "(a, b, w) = (x, y, z)" using Cons.prems r by simp
    then show ?thesis
      unfolding r row_weights_simps by (intro conjI row_weights_cong row_weights_Some) simp_all
  qed
qed simp

lemma key_weights:
  assumes inj: "inj_on r V" and "\<forall>(a, b, w) \<in> set rows. a \<in> V \<and> b \<in> V" and ab: "a \<in> V" "b \<in> V"
  shows "fold (\<lambda>(a, b, w) W. W(get_map_key (r a) (r b) \<mapsto> w)) rows W (get_map_key (r a) (r b)) =
    row_weights rows (\<lambda>(a, b). W (get_map_key (r a) (r b))) (a, b)"
  using assms(2)
proof (induction rows arbitrary: W)
  case (Cons row rows)
  obtain x y z where row: "row = (x, y, z)" by (cases row)
  have xy: "x \<in> V" "y \<in> V" using Cons.prems row by auto
  let ?W = "W(get_map_key (r x) (r y) \<mapsto> z)"
  have "fold (\<lambda>(a, b, w) W. W(get_map_key (r a) (r b) \<mapsto> w)) rows ?W (get_map_key (r a) (r b)) =
    row_weights rows (\<lambda>(a, b). ?W (get_map_key (r a) (r b))) (a, b)"
    by (rule Cons.IH) (use Cons.prems in simp)
  also have "\<dots> = row_weights rows ((\<lambda>(a, b). W (get_map_key (r a) (r b)))((x, y) \<mapsto> z)) (a, b)"
    by (rule row_weights_cong) (simp add: get_map_key_inj inj_on_eq_iff[OF inj] xy ab)
  finally show ?case unfolding row by (simp only: fold_simps prod.case row_weights_simps)
qed simp

section \<open>Reading a weighted graph\<close>

lemma gb_filter_ok:
  assumes len: "length src = m" "length dst = m" "weighted opts \<Longrightarrow> length ws = m" and n: "n < U32"
    and s: "\<And>v. v \<in> set src \<union> set dst \<Longrightarrow> v < n"
  defines "V \<equiv> set src \<union> set dst"
  shows "ok (gb_filter opts src dst ws G n m) (\<lambda>(src', dst', G', k). src' = map (vertex_rank V) src \<and>
    dst' = map (vertex_rank V) dst \<and> k = card V \<and>
    G' = G\<lparr>filtered_to_original := filtered_to_original G', weights := weights G'\<rparr> \<and>
    (\<forall>v \<in> V. filtered_to_original G' (vertex_rank V v) = Some v) \<and>
    weights G' = (if weighted opts then
        fold (\<lambda>(a, b, w) W. W(get_map_key (vertex_rank V a) (vertex_rank V b) \<mapsto> w)) (zip src (zip dst ws)) (weights G)
      else weights G))"
proof -
  have fin: "finite V" by (simp add: V_def)
  let ?ex = "map (\<lambda>v. v \<in> V) [0..<n]" and ?r = "vertex_rank V"
  note l1 = filter_exists[OF len(1,2) s, folded V_def]
  let ?b2 = "\<lambda>i (vm, act, f2o). do {
       e \<leftarrow> aget ?ex i;
       if e then do { vm' \<leftarrow> aput vm i act; let act = uadd act 1; Some (vm', act, f2o(usub act 1 \<mapsto> i)) }
       else Some (vm, act, f2o) }"
  let ?P2 = "\<lambda>i (vm, act, f2o). length vm = n \<and> act = ?r i \<and> (\<forall>v<i. v \<in> V \<longrightarrow> vm ! v = ?r v \<and> f2o (?r v) = Some v)"
  have "ok (for_range 0 n ?b2 (replicate n 0, 0, filtered_to_original G)) (?P2 n)"
  proof (rule ok_for_range[where P = ?P2])
    fix i st assume i: "i < n" and P: "?P2 i st"
    have u: "uadd (?r i) 1 = Suc (?r i)" "usub (Suc (?r i)) 1 = ?r i"
      using vertex_rank_le[of V i] i n by (simp_all add: uadd_exact usub_exact)
    have "?r v \<noteq> ?r i" if "v < i" "v \<in> V" for v using vertex_rank_strict[OF fin that(2,1)] by simp
    then show "ok (?b2 i st) (?P2 (Suc i))"
      using i P u by (auto simp: vertex_rank_Suc[OF fin] less_Suc_eq nth_list_update)
  qed (auto simp: vertex_rank_def)
  then obtain vm act F where l2: "for_range 0 n ?b2 (replicate n 0, 0, filtered_to_original G) = Some (vm, act, F)" "length vm = n"
    "act = ?r n" "\<And>v. v < n \<Longrightarrow> v \<in> V \<Longrightarrow> vm ! v = ?r v \<and> F (?r v) = Some v"
    by (auto simp: ok_iff)
  have act: "act = card V"
    unfolding l2(3) vertex_rank_def by (rule arg_cong[of _ _ card]) (use s in \<open>auto simp: V_def\<close>)
  have vm: "vm ! v = ?r v" "v < length vm" "F (?r v) = Some v" if "v \<in> V" for v
    using l2(2,4) s that by (auto simp: V_def)
  let ?b3 = "\<lambda>i (src, dst, wm). do {
       s \<leftarrow> aget src i; s' \<leftarrow> aget vm s; src' \<leftarrow> aput src i s';
       d \<leftarrow> aget dst i; d' \<leftarrow> aget vm d; dst' \<leftarrow> aput dst i d';
       if weighted opts then do { w \<leftarrow> aget ws i; Some (src', dst', wm(get_map_key s' d' \<mapsto> w)) }
       else Some (src', dst', wm) }"
  let ?W = "\<lambda>i. if weighted opts then fold (\<lambda>(a, b, w) W. W(get_map_key (?r a) (?r b) \<mapsto> w)) (take i (zip src (zip dst ws))) (weights G)
      else weights G"
  let ?P3 = "\<lambda>i (s, d, wm). s = map ?r (take i src) @ drop i src \<and> d = map ?r (take i dst) @ drop i dst \<and> wm = ?W i"
  have "ok (for_range 0 m ?b3 (src, dst, weights G)) (?P3 m)"
  proof (rule ok_for_range[where P = ?P3])
    fix i st assume i: "i < m" and P: "?P3 i st"
    have v: "src ! i \<in> V" "dst ! i \<in> V" using i len by (auto simp: V_def)
    have W: "?W (Suc i) = (?W i)(get_map_key (?r (src ! i)) (?r (dst ! i)) \<mapsto> ws ! i)" if "weighted opts"
      using that i len by (simp add: take_Suc_conv_app_nth)
    show "ok (?b3 i st) (?P3 (Suc i))"
    proof (cases "weighted opts")
      case True
      then show ?thesis
        using i P len v vm W map_prefix_step[of i src ?r] map_prefix_step[of i dst ?r] by (auto simp: nth_append min_def)
    next
      case False
      then show ?thesis
        using i P len v vm map_prefix_step[of i src ?r] map_prefix_step[of i dst ?r] by (auto simp: nth_append min_def)
    qed
  qed auto
  then have l3: "for_range 0 m ?b3 (src, dst, weights G) = Some (map ?r src, map ?r dst, ?W m)"
    using len by (auto simp: ok_iff)
  have W: "?W m = (if weighted opts then fold (\<lambda>(a, b, w) W. W(get_map_key (?r a) (?r b) \<mapsto> w)) (zip src (zip dst ws)) (weights G)
      else weights G)" using len by simp
  have "gb_filter opts src dst ws G n m = Some (map ?r src, map ?r dst, G\<lparr>filtered_to_original := F, weights := ?W m\<rparr>, act)"
    unfolding gb_filter_def by (simp only: l1 l2(1) l3 Option.bind.simps prod.case)
  then show ?thesis unfolding W using vm(3) act by simp
qed

lemma map_bind: "map_option f (Option.bind m g) = Option.bind m (\<lambda>x. map_option f (g x))"
  by (cases m) simp_all

lemma gb_csr_convert_eq:
  "gb_csr_convert opts src dst G =
     map_option (\<lambda>H. G\<lparr>VI := VI H, EI := EI H\<rparr>) (csr_convert (if indegree opts then dst else src) (if indegree opts then src else dst) (plain G))"
  by (cases "indegree opts")
    (simp_all add: gb_csr_convert_def csr_convert_def Let_def graph.truncate_def map_bind split_def cong: Option.bind_cong)

definition orient :: "options \<Rightarrow> (nat \<times> nat) list \<Rightarrow> (nat \<times> nat) list" where
  "orient opts es = (if indegree opts then map (\<lambda>(a, b). (b, a)) es else es)"

lemma orient:
  "ends (orient opts es) = ends es" "length (orient opts es) = length es" "orient opts es = [] \<longleftrightarrow> es = []"
  "map fst (orient opts es) = (if indegree opts then map snd es else map fst es)"
  "map snd (orient opts es) = (if indegree opts then map fst es else map snd es)"
  by (auto simp: orient_def ends_def image_image split_def comp_def)

definition row_edges :: "row list \<Rightarrow> (nat \<times> nat) list" where
  "row_edges rows = map (\<lambda>(a, b, w). (a, b)) rows"

definition row_ends :: "row list \<Rightarrow> nat set" where
  "row_ends rows = fst ` set rows \<union> (fst \<circ> snd) ` set rows"

lemma ends_row_edges: "ends (row_edges rows) = row_ends rows"
  by (force simp: ends_def row_edges_def row_ends_def)

text \<open>What \<open>read_csr\<close> makes of the rows: the oriented graph, and the weight of every edge under its key.\<close>

definition reads_rows :: "options \<Rightarrow> row list \<Rightarrow> wgraph \<Rightarrow> bool" where
  "reads_rows opts rows G \<longleftrightarrow> plain G = graph_of (orient opts (row_edges rows)) \<and>
     (\<forall>v \<in> ends (row_edges rows). filtered_to_original G (vertex_rank (ends (row_edges rows)) v) = Some v) \<and>
     (weighted opts \<longrightarrow> (\<forall>(a, b, w) \<in> set rows. weights G (get_map_key (vertex_rank (ends (row_edges rows)) a)
        (vertex_rank (ends (row_edges rows)) b)) = row_weights rows Map.empty (a, b)))"

definition rows_ok :: "row list \<Rightarrow> bool" where
  "rows_ok rows \<longleftrightarrow> (\<forall>(a, b, w) \<in> set rows. a < U32 div 2 - 1 \<and> b < U32 div 2 - 1 \<and> w < U32)"

lemma gb_read_csr_ok:
  assumes ok: "rows_ok rows" and len: "length rows < U32"
  shows "\<exists>G. gb_read_csr opts (Some (print_rows (weighted opts) rows)) G0 = Some (Some G) \<and> reads_rows opts rows G \<and>
    (\<not> weighted opts \<longrightarrow> weights G = weights G0)"
proof -
  let ?es = "row_edges rows" and ?n = "vertices_read rows" and ?src = "map fst rows" and ?dst = "map (fst \<circ> snd) rows"
  let ?ws = "if weighted opts then map (snd \<circ> snd) rows else []"
  let ?V = "ends ?es"
  let ?r = "vertex_rank ?V"
  have h: "list_all row_ok rows" "\<forall>(a, b, w) \<in> set rows. a < U32 div 2 - 1 \<and> b < U32 div 2 - 1"
    using ok by (auto simp: rows_ok_def list_all_iff)
  note r = read_edges_ok[OF h]
  have kept: "kept True rows = rows" by (simp add: kept_def)
  have rd: "gb_read_edge_list opts (Some (print_rows (weighted opts) rows)) = Some (Some (?n, ?src, ?dst, ?ws))"
    unfolding gb_read_edge_list_def r(1) kept ..
  have V: "set ?src \<union> set ?dst = ?V" by (force simp: ends_def row_edges_def)
  have se: "map fst ?es = ?src" "map snd ?es = ?dst" "length ?es = length rows"
    by (auto simp: row_edges_def split_def)
  have sub: "v < ?n" if v: "v \<in> set ?src \<union> set ?dst" for v
    using v r(3) by (fastforce simp: image_iff)
  have "?V \<subseteq> {..<?n}" using sub unfolding V by blast
  then have c: "card ?V \<le> ?n" using card_mono[of "{..<?n}" ?V] by simp
  have c2: "card ?V < U32 div 2" using c r(2) by linarith
  let ?m = "length rows"
  let ?G1 = "G0\<lparr>numEdges := ?m\<rparr>"
  have "ok (gb_filter opts ?src ?dst ?ws ?G1 ?n ?m) (\<lambda>(src', dst', G', k). src' = map ?r ?src \<and>
    dst' = map ?r ?dst \<and> k = card ?V \<and>
    G' = ?G1\<lparr>filtered_to_original := filtered_to_original G', weights := weights G'\<rparr> \<and>
    (\<forall>v \<in> ?V. filtered_to_original G' (?r v) = Some v) \<and>
    weights G' = (if weighted opts then
        fold (\<lambda>(a, b, w) W. W(get_map_key (?r a) (?r b) \<mapsto> w)) (zip ?src (zip ?dst ?ws)) (weights ?G1)
      else weights ?G1))"
    using gb_filter_ok[of ?src ?m ?dst opts ?ws ?n ?G1, unfolded V] sub r(2) unfolding V by (simp del: map_map)
  then obtain G2 where f: "gb_filter opts ?src ?dst ?ws ?G1 ?n ?m = Some (map ?r ?src, map ?r ?dst, G2, card ?V)"
    "G2 = ?G1\<lparr>filtered_to_original := filtered_to_original G2, weights := weights G2\<rparr>"
    "\<forall>v \<in> ?V. filtered_to_original G2 (?r v) = Some v"
    "weights G2 = (if weighted opts then
        fold (\<lambda>(a, b, w) W. W(get_map_key (?r a) (?r b) \<mapsto> w)) (zip ?src (zip ?dst ?ws)) (weights ?G1)
      else weights ?G1)"
    unfolding ok_iff split_paired_Ex prod.case by blast
  let ?oe = "orient opts ?es"
  let ?a = "if indegree opts then map ?r ?dst else map ?r ?src" and ?b = "if indegree opts then map ?r ?src else map ?r ?dst"
  let ?H = "plain (G2\<lparr>numVertex := card ?V\<rparr>)"
  have H: "numVertex ?H = card ?V" "numEdges ?H = ?m" by (subst f(2), simp add: graph.truncate_def)+
  have ab: "?a = map ?r (map fst ?oe)" "?b = map ?r (map snd ?oe)" unfolding orient se by (simp_all del: map_map)
  have z: "zip ?a ?b = renumber ?oe"
    unfolding ab renumber_def orient(1) by (simp add: zip_map_map zip_map1 zip_map2 comp_def split_beta zip_same_conv_map)
  have mem: "x < card ?V" if "x \<in> set ?a" for x
  proof -
    have "x \<in> ?r ` ?V" using that V by (auto split: if_splits)
    then show ?thesis using vertex_rank_less[OF finite_ends] by auto
  qed
  have cv: "csr_convert ?a ?b ?H = Some (?H\<lparr>VI := map (starts (renumber ?oe)) [0..<card ?V + 1], EI := csr_of (card ?V) (renumber ?oe)\<rparr>)"
    using csr_convert_ok[of ?a ?H ?b] H mem len c2 unfolding z by (simp del: map_map)
  have g: "?H\<lparr>VI := map (starts (renumber ?oe)) [0..<card ?V + 1], EI := csr_of (card ?V) (renumber ?oe)\<rparr> = graph_of ?oe"
    using H by (simp add: graph_of_def csr_graph_def orient renumber_def se(3))
  let ?G = "G2\<lparr>numVertex := card ?V, VI := VI (graph_of ?oe), EI := EI (graph_of ?oe)\<rparr>"
  have rc: "gb_read_csr opts (Some (print_rows (weighted opts) rows)) G0 = Some (Some ?G)"
    using r(2) len f(1) cv unfolding gb_read_csr_def rd g gb_csr_convert_eq
    by (simp del: map_map split: if_splits)
  have pl: "plain ?G = graph_of ?oe"
    using H by (simp add: graph.truncate_def graph_of_def csr_graph_def orient renumber_def se(3))
  have inj: "inj_on ?r ?V" using vertex_rank_bij[OF finite_ends, of ?es] by (simp add: bij_betw_def)
  have zz: "zip ?src (zip ?dst (map (snd \<circ> snd) rows)) = rows" by (induction rows) auto
  have rv: "\<forall>(a, b, w) \<in> set rows. a \<in> ?V \<and> b \<in> ?V" by (force simp: ends_def row_edges_def)
  have wt: "weights ?G (get_map_key (?r a) (?r b)) = row_weights rows Map.empty (a, b)" if "weighted opts" "(a, b, w) \<in> set rows" for a b w
    using key_weights[OF inj rv, of a b "weights G0"] row_weights_start[OF that(2)] that rv f(4) zz by fastforce
  show ?thesis
    using rc pl f(3,4) wt by (intro exI[of _ ?G]) (auto simp: reads_rows_def)
qed

section \<open>Writing a weighted graph\<close>

lemma plain_simps [simp]:
  "numVertex (plain G) = numVertex G" "numEdges (plain G) = numEdges G" "VI (plain G) = VI G" "EI (plain G) = EI G"
  by (simp_all add: graph.truncate_def)

fun out_row :: "options \<Rightarrow> (string \<Rightarrow> u32 option) \<Rightarrow> nat list \<Rightarrow> nat \<times> nat \<Rightarrow> row" where
  "out_row opts wm ni (i, e) = (let (s, d) = (if indegree opts then (e, i) else (i, e)) in
     (s, d, weight_of wm (get_map_key (ni ! s) (ni ! d))))"

lemma invert_order_inv:
  assumes "inv_pair n nm ni" shows "invert_order nm n = Some ni"
proof -
  have ip: "inv_pair n ni nm" using assms unfolding inv_pair_def by blast
  note d = inv_pairD[OF assms] and e = inv_pair_perm[OF ip]
  have "set nm = {..<n}" using mset_eq_setD[OF e(1)] by (simp add: atLeast0LessThan)
  then have "ok (invert_order nm n) (\<lambda>ni'. inv_pair n ni' nm)" by (rule invert_order_ok[OF e(3) _ d(1)])
  then obtain ni' where i: "invert_order nm n = Some ni'" "inv_pair n ni' nm"
    unfolding ok_iff by blast
  have "ni' = ni"
  proof (rule nth_equalityI)
    show "length ni' = length ni" using inv_pairD(1)[OF i(2)] d(2) by simp
    fix j assume "j < length ni'"
    then have j: "j < n" using inv_pairD(1)[OF i(2)] by simp
    then show "ni' ! j = ni ! j" using inv_pairD(5,6)[OF ip j] inv_pairD(3,4)[OF i(2)] inv_pairD(5,6)[OF i(2)] d(3,4) by metis
  qed
  then show ?thesis using i(1) by simp
qed

lemma edge_rows_ok:
  assumes wf: "wf_csr (plain G)" and len: "length ni = numVertex G" and e: "\<forall>(i, e) \<in> set (edges (plain G)). e < numVertex G"
  shows "edge_rows opts G ni = Some (print_rows (weighted opts) (map (out_row opts (weights G) ni) (edges (plain G))))"
proof -
  let ?G = "plain G"
  let ?f = "\<lambda>p. row_line (weighted opts) (out_row opts (weights G) ni p)"
  have "edge_rows opts G ni = mfold (\<lambda>(i, e) s. do { r \<leftarrow> edge_row opts (weights G) ni i e; Some (s @ row_line (weighted opts) r) }) (edges ?G) []"
    unfolding edge_rows_def
    using edge_loop[OF wf, of "\<lambda>i e s. do { r \<leftarrow> edge_row opts (weights G) ni i e; Some (s @ row_line (weighted opts) r) }" "[]"]
    unfolding plain_simps .
  also have "\<dots> = mfold (\<lambda>p s. Some (s @ ?f p)) (edges ?G) []"
  proof (rule mfold_cong[OF refl])
    fix p s assume p: "p \<in> set (edges ?G)"
    obtain i e where ie: "p = (i, e)" by force
    have "i < numVertex G" "e < numVertex G" using fst_edges_less[OF p] p ie assms(3) by auto
    then show "(case p of (i, e) \<Rightarrow> \<lambda>s. do { r \<leftarrow> edge_row opts (weights G) ni i e; Some (s @ row_line (weighted opts) r) }) s = Some (s @ ?f p)"
      unfolding ie by (simp add: edge_row_def len Let_def)
  qed
  finally show ?thesis by (simp add: mfold_append_text print_rows_def comp_def)
qed

text \<open>The reordered graph, written with the weights of the original one.\<close>

definition final_row :: "options \<Rightarrow> row list \<Rightarrow> nat list \<Rightarrow> row \<Rightarrow> row" where
  "final_row opts rows nm = (\<lambda>(a, b, w). (nm ! vertex_rank (ends (row_edges rows)) a, nm ! vertex_rank (ends (row_edges rows)) b,
     if weighted opts then the (row_weights rows Map.empty (a, b)) else 0))"

lemma rows_pre:
  fixes opts :: options
  assumes "rows_ok rows" "length rows < U32" "rows \<noteq> []"
  defines "es \<equiv> orient opts (row_edges rows)"
  shows "card (ends (row_edges rows)) < U32 div 2" "1 \<le> card (ends (row_edges rows))"
    "wf_csr (graph_of es)" "\<forall>e \<in> set (EI (graph_of es)). e < numVertex (graph_of es)"
    "length (EI (graph_of es)) = length rows" "numEdges (graph_of es) = length rows" "numVertex (graph_of es) = card (ends (row_edges rows))"
    "length (VI (graph_of es)) = card (ends (row_edges rows)) + 1" "VI (graph_of es) ! card (ends (row_edges rows)) = length rows"
    "mset (edges (graph_of es)) = mset (renumber es)"
proof -
  let ?V = "ends (row_edges rows)"
  have sub: "?V \<subseteq> {..<U32 div 2 - 1}" using assms(1) by (fastforce simp: ends_def row_edges_def rows_ok_def)
  show c: "card ?V < U32 div 2" using card_mono[OF _ sub] by simp
  have ne: "es \<noteq> []" "length es = length rows" "ends es = ?V"
    using assms(3) by (simp_all add: es_def orient row_edges_def)
  have "?V \<noteq> {}" using assms(3) by (auto simp: ends_def row_edges_def)
  then show "1 \<le> card ?V" using finite_ends[of "row_edges rows"] by (simp add: Suc_le_eq card_gt_0_iff)
  have c2: "card (ends es) < U32 - 1" using c ne(3) by simp
  have l: "length es < U32" using assms(2) ne(2) by simp
  note g = graph_of[OF ne(1) l c2, unfolded ne(2,3)]
  show "wf_csr (graph_of es)" "\<forall>e \<in> set (EI (graph_of es)). e < numVertex (graph_of es)"
    "length (EI (graph_of es)) = length rows" "numEdges (graph_of es) = length rows" "numVertex (graph_of es) = card ?V"
    "length (VI (graph_of es)) = card ?V + 1" "VI (graph_of es) ! card ?V = length rows"
    "mset (edges (graph_of es)) = mset (renumber es)"
    by (fact g(1) g(2) g(3) g(4) g(5) g(6) g(7) g(8))+
qed

lemma mem_ends: "(a, b) \<in> set es \<Longrightarrow> a \<in> ends es \<and> b \<in> ends es"
  by (force simp: ends_def)

lemma written_rows:
  assumes rd: "reads_rows opts rows G" and rows: "rows_ok rows" "length rows < U32" "rows \<noteq> []"
    and wt: "\<not> weighted opts \<Longrightarrow> weights G = Map.empty" and iso: "isomorphic_by nm (plain G) (plain H)"
    and ip: "inv_pair (numVertex G) nm ni" and wH: "weights H = weights G"
  shows "\<exists>rows'. edge_rows opts H ni = Some (print_rows (weighted opts) rows') \<and> mset rows' = image_mset (final_row opts rows nm) (mset rows)"
proof -
  let ?es = "row_edges rows"
  let ?oe = "orient opts ?es" and ?V = "ends ?es"
  let ?r = "vertex_rank ?V"
  note g = rows_pre(1,2)[OF rows] rows_pre(3-10)[OF rows, where opts = opts]
  have pl: "plain G = graph_of ?oe" using rd by (simp add: reads_rows_def)
  have n: "numVertex G = card ?V" using g(7) unfolding pl[symmetric] by simp
  note d = inv_pairD[OF ip, unfolded n]
  have nH: "numVertex H = card ?V" and wf: "wf_csr (plain H)" and me: "mset (edges (plain H)) = image_mset (\<lambda>(a, b). (nm ! a, nm ! b)) (mset (edges (plain G)))"
    using iso n unfolding isomorphic_by_def by simp_all
  have r: "?r v < card ?V" if "v \<in> ?V" for v using vertex_rank_less[OF finite_ends that] .
  have me2: "mset (edges (plain H)) = image_mset (\<lambda>(a, b). (nm ! ?r a, nm ! ?r b)) (mset ?oe)"
    unfolding me pl g(10) renumber_def orient(1) mset_map by (simp add: multiset.map_comp comp_def split_def)
  have V: "a \<in> ?V \<and> b \<in> ?V" if "(a, b, w) \<in> set rows" for a b w using that by (force simp: ends_def row_edges_def)
  have oe: "(a, b) \<in> set ?oe \<Longrightarrow> a \<in> ?V \<and> b \<in> ?V" for a b
    using mem_ends[of a b ?oe] unfolding orient(1) .
  have el: "\<forall>(i, e) \<in> set (edges (plain H)). e < numVertex H"
  proof -
    have "set (edges (plain H)) = (\<lambda>(a, b). (nm ! ?r a, nm ! ?r b)) ` set ?oe"
      using arg_cong[OF me2, of set_mset] by simp
    moreover have "nm ! ?r b < numVertex H" if "(a, b) \<in> set ?oe" for a b using oe[OF that] r d(3) nH by simp
    ultimately show ?thesis by auto
  qed
  have row: "out_row opts (weights H) ni (case (if indegree opts then (b, a) else (a, b)) of (x, y) \<Rightarrow> (nm ! ?r x, nm ! ?r y)) =
    final_row opts rows nm (a, b, w)" if ab: "(a, b, w) \<in> set rows" for a b w
  proof -
    have i: "ni ! (nm ! ?r a) = ?r a" "ni ! (nm ! ?r b) = ?r b" using V[OF ab] r d(4) by auto
    have "weight_of (weights G) (get_map_key (?r a) (?r b)) = (if weighted opts then the (row_weights rows Map.empty (a, b)) else 0)"
    proof (cases "weighted opts")
      case True
      then have "weights G (get_map_key (?r a) (?r b)) = row_weights rows Map.empty (a, b)"
        using rd ab unfolding reads_rows_def by blast
      moreover obtain x where "row_weights rows Map.empty (a, b) = Some x"
        using row_weights_start[OF ab, of Map.empty Map.empty] by blast
      ultimately show ?thesis using True by (simp add: weight_of_def)
    qed (simp add: wt weight_of_def)
    then show ?thesis using i by (simp add: final_row_def wH)
  qed
  have moe: "mset ?oe = image_mset (\<lambda>(a, b, w). if indegree opts then (b, a) else (a, b)) (mset rows)"
    unfolding orient_def row_edges_def by (simp add: multiset.map_comp comp_def split_def)
  have "mset (map (out_row opts (weights H) ni) (edges (plain H))) = image_mset (final_row opts rows nm) (mset rows)"
    unfolding mset_map me2 moe multiset.map_comp comp_def
  proof (rule image_mset_cong)
    fix p assume "p \<in># mset rows"
    moreover obtain a b w where p: "p = (a, b, w)" by (cases p)
    ultimately show "out_row opts (weights H) ni (case (case p of (a, b, w) \<Rightarrow> if indegree opts then (b, a) else (a, b)) of
        (a, b) \<Rightarrow> (nm ! ?r a, nm ! ?r b)) = final_row opts rows nm p"
      using row[of a b w] unfolding p prod.case by simp
  qed
  moreover have "edge_rows opts H ni = Some (print_rows (weighted opts) (map (out_row opts (weights H) ni) (edges (plain H))))"
    by (rule edge_rows_ok[OF wf _ el]) (simp add: d(2) nH)
  ultimately show ?thesis by blast
qed

section \<open>Keeping the first vertex\<close>

text \<open>The option \<open>--maintain\<close>: the node that was placed first is exchanged with node 0. The two copies of this
  code (clusters and vertices) differ in the slot of the second update.\<close>

partial_function (option) pin_search ::
  "u32 \<Rightarrow> u32 \<Rightarrow> u32 \<Rightarrow> u32 \<Rightarrow> u32 list \<Rightarrow> u32 list \<Rightarrow> (u32 list \<times> u32 list) option" where
  "pin_search N z slot i nm ni =
     (if i < N then do {
        x \<leftarrow> aget nm i;
        if x = 0 then do {
          nm' \<leftarrow> aput nm i z;
          ni' \<leftarrow> aput ni slot i;
          Some (nm', ni')
        } else pin_search N z slot (uadd i 1) nm ni
      } else Some (nm, ni))"

definition pin_zero :: "bool \<Rightarrow> u32 \<Rightarrow> u32 list \<Rightarrow> u32 list \<Rightarrow> (u32 list \<times> u32 list) option" where
  "pin_zero on N nm ni = (if \<not> on then Some (nm, ni) else do {
     z \<leftarrow> aget nm 0;
     if z \<noteq> 0 then do {
       nm' \<leftarrow> aput nm 0 0;
       ni' \<leftarrow> aput ni 0 0;
       pin_search N z z 1 nm' ni'
     } else Some (nm, ni)
   })"

lemma pin_search_ok:
  assumes "i \<le> r" "r < N" "N < U32" "r < length nm" "slot < length ni" "nm ! r = 0" "\<And>j. i \<le> j \<Longrightarrow> j < r \<Longrightarrow> nm ! j \<noteq> 0"
  shows "pin_search N z slot i nm ni = Some (nm[r := z], ni[slot := r])"
  using assms(1,7)
proof (induction "r - i" arbitrary: i)
  case 0
  then have "i = r" by simp
  then show ?case using assms by (subst pin_search.simps) simp
next
  case (Suc k)
  then have i: "i < r" by simp
  have IH: "pin_search N z slot (Suc i) nm ni = Some (nm[r := z], ni[slot := r])"
    by (rule Suc.hyps(1)) (use Suc.hyps(2) Suc.prems i in auto)
  have "uadd i 1 = Suc i" "nm ! i \<noteq> 0" using i assms(2,3) Suc.prems(2)[of i] by (auto intro!: uadd_1)
  then show ?case using IH i assms by (subst pin_search.simps) simp
qed

lemma pin_zero_ok:
  assumes ip: "inv_pair n nm ni" and n: "0 < n" "n \<le> N" "N < U32"
  shows "ok (pin_zero on N nm ni) (\<lambda>(nm', ni'). inv_pair n nm' ni' \<and> (on \<longrightarrow> nm' ! 0 = 0 \<and> ni' ! 0 = 0) \<and> (\<not> on \<longrightarrow> nm' = nm \<and> ni' = ni))"
proof (cases "on \<and> nm ! 0 \<noteq> 0")
  case False
  note d = inv_pairD[OF ip]
  have "nm ! 0 = 0 \<Longrightarrow> ni ! 0 = 0" using d(4)[of 0] n by simp
  then show ?thesis using False ip d(1) n by (auto simp: pin_zero_def)
next
  case True
  note d = inv_pairD[OF ip]
  let ?z = "nm ! 0" and ?r = "ni ! 0"
  have z: "?z < n" "?r < n" "nm ! ?r = 0" "ni ! ?z = 0" using d(3,4,5,6)[of 0] n by auto
  have r0: "?r \<noteq> 0" using True z by metis
  have other: "nm[0 := 0] ! j \<noteq> 0" if "1 \<le> j" "j < ?r" for j
  proof
    assume "nm[0 := 0] ! j = 0"
    then have "nm ! j = 0" using that by simp
    then have "?r = j" using d(4)[of j] that z by simp
    then show False using that by simp
  qed
  have "pin_search N ?z ?z 1 (nm[0 := 0]) (ni[0 := 0]) = Some ((nm[0 := 0])[?r := ?z], (ni[0 := 0])[?z := ?r])"
    by (rule pin_search_ok) (use r0 z n d(1,2) other in auto)
  moreover have "inv_pair n (nm[0 := 0, ?r := ?z]) (ni[0 := 0, ?z := ?r])"
    using inv_pair_swap[OF ip, of 0 0] n by simp
  moreover have "(nm[0 := 0, ?r := ?z]) ! 0 = 0" "(ni[0 := 0, ?z := ?r]) ! 0 = 0"
    using r0 True d(1,2) n by simp_all
  ultimately show ?thesis using True d(1,2) n by (simp add: pin_zero_def)
qed

section \<open>Properties\<close>

text \<open>The text \<open>src>dst\<close> identifies the edge: two edges never share an entry of the hash map of the weights.\<close>

theorem get_map_key_injective: "inj (\<lambda>(a, b). get_map_key a b)"
  by (rule injI) (auto simp: get_map_key_inj)

text \<open>What the weighted \<open>read_csr\<close> returns for any rows: a well-formed graph whose edges are the rows (self loops
  included, turned around with \<open>--indegree\<close>), renumbered by the rank of the vertices; \<open>filtered_to_original\<close>
  gives the original number of every vertex back, and the weight under the key of an edge is the last one
  of its rows.\<close>

theorem gb_read_csr_weighted:
  assumes "\<forall>(a, b, w) \<in> set rows. a < U32 div 2 - 1 \<and> b < U32 div 2 - 1 \<and> w < U32" "length rows < U32" "rows \<noteq> []"
  defines "r \<equiv> vertex_rank (fst ` set rows \<union> (fst \<circ> snd) ` set rows)"
  shows "\<exists>G. gb_read_csr opts (Some (print_rows (weighted opts) rows)) G0 = Some (Some G) \<and> wf_csr (plain G) \<and>
    mset (edges (plain G)) = image_mset (\<lambda>(a, b, w). if indegree opts then (r b, r a) else (r a, r b)) (mset rows) \<and>
    (\<forall>(a, b, w) \<in> set rows. filtered_to_original G (r a) = Some a \<and> filtered_to_original G (r b) = Some b \<and>
       (weighted opts \<longrightarrow> weights G (get_map_key (r a) (r b)) = row_weights rows Map.empty (a, b)))"
proof -
  have rows: "rows_ok rows" using assms(1) by (simp add: rows_ok_def)
  have E: "ends (row_edges rows) = fst ` set rows \<union> (fst \<circ> snd) ` set rows" by (force simp: ends_def row_edges_def)
  have r: "vertex_rank (ends (row_edges rows)) = r" unfolding r_def E ..
  note g = rows_pre(3,10)[OF rows assms(2,3), where opts = opts]
  obtain G where G: "gb_read_csr opts (Some (print_rows (weighted opts) rows)) G0 = Some (Some G)" "reads_rows opts rows G"
    using gb_read_csr_ok[OF rows assms(2)] by blast
  have V: "a \<in> ends (row_edges rows) \<and> b \<in> ends (row_edges rows)" if "(a, b, w) \<in> set rows" for a b w
    using that by (force simp: ends_def row_edges_def)
  have m: "mset (renumber (orient opts (row_edges rows))) = image_mset (\<lambda>(a, b, w). if indegree opts then (r b, r a) else (r a, r b)) (mset rows)"
    unfolding renumber_def orient(1) r unfolding orient_def row_edges_def by (simp add: multiset.map_comp comp_def split_def)
  show ?thesis
    using G g m V unfolding reads_rows_def r by (intro exI[of _ G]) (auto split: prod.splits)
qed

theorem gb_read_csr_weighted_witness:
  "\<exists>G. gb_read_csr \<lparr>weighted = True, maintain = False, indegree = True\<rparr>
      (Some (print_rows True [(7, 2, 5), (2, 2, 1), (7, 2, 4)])) empty_graph = Some (Some G) \<and> wf_csr (plain G) \<and>
    weights G (get_map_key (vertex_rank {2, 7} 7) (vertex_rank {2, 7} 2)) = Some 4"
proof -
  let ?rows = "[(7, 2, 5), (2, 2, 1), (7, 2, 4)] :: row list"
  have V: "fst ` set ?rows \<union> (fst \<circ> snd) ` set ?rows = {2, 7}" by auto
  show ?thesis
    using gb_read_csr_weighted[of ?rows "\<lparr>weighted = True, maintain = False, indegree = True\<rparr>" empty_graph, unfolded V]
    by (auto simp: row_weights_def)
qed

end
