(* ===== verification/PH_Reorder.thy ===== *)
theory PH_Reorder
  imports Program Block_Reorder
begin

text \<open>
  The greedy ordering of \<open>ph/pH\<close> (\<open>main.cpp\<close>): every vertex is placed on its own, parents with an out-degree
  above \<open>sqrt(numVertex)\<close> are left out of the cache model, and the last two vertices are placed by their cost. The
  copies of \<open>sort.cpp\<close>, \<open>cachefunc.cpp\<close> and \<open>graph.cpp\<close> are those of \<open>br/block_reordering\<close> except where a
  definition says otherwise.
\<close>

section \<open>The copies of the library functions\<close>

text \<open>The functions with the same text as in \<open>br/block_reordering\<close> (\<open>moveRight\<close> has a parameter that it does
  not use).\<close>

definition ph_moveRight :: "u32 \<Rightarrow> u32 \<Rightarrow> cache_state \<Rightarrow> cache_state option" where
  "ph_moveRight vid _ st = moveRight vid st"

definition ph_moveLeft :: "u32 \<Rightarrow> u32 \<Rightarrow> cache_state \<Rightarrow> cache_state option" where
  "ph_moveLeft = moveLeft"

definition ph_read_edge_list :: "string option \<Rightarrow> (u32 \<times> u32 list \<times> u32 list) option option" where
  "ph_read_edge_list = read_edge_list"

definition ph_filter :: "u32 list \<Rightarrow> u32 list \<Rightarrow> u32 \<Rightarrow> u32 \<Rightarrow> (u32 list \<times> u32 list \<times> u32) option" where
  "ph_filter = filter_graph"

definition ph_csr_convert :: "u32 list \<Rightarrow> u32 list \<Rightarrow> graph \<Rightarrow> graph option" where
  "ph_csr_convert = csr_convert"

definition ph_read_csr :: "string option \<Rightarrow> graph option option" where
  "ph_read_csr file = do {
     r \<leftarrow> ph_read_edge_list file;
     case r of
       None \<Rightarrow> Some None
     | Some (n, src, dst) \<Rightarrow>
         if U32 div 2 \<le> n then Some None
         else do {
           let m = length src mod U32;
           (src, dst, n) \<leftarrow> ph_filter src dst n m;
           G \<leftarrow> ph_csr_convert src dst \<lparr>numVertex = n, numEdges = m, VI = [], EI = []\<rparr>;
           Some (Some G)
         }
   }"

definition ph_write_csr :: "graph \<Rightarrow> nat list option" where
  "ph_write_csr = write_csr"

text \<open>\<open>write_edgelist\<close> does not return when the file cannot be opened: it then writes to a null pointer. (The
  rows are the same; a graph without rows writes nothing.)\<close>

definition ph_write_edgelist :: "(string \<Rightarrow> bool) \<Rightarrow> string \<Rightarrow> graph \<Rightarrow> (string \<times> string) option" where
  "ph_write_edgelist writable name G = do {
     s \<leftarrow> write_edgelist G;
     if writable name then Some (name, s) else None
   }"

text \<open>\<open>createReverseCSR\<close> has no parameter for the number of vertices of the reverse graph.\<close>

definition ph_createReverseCSR :: "graph \<Rightarrow> graph option" where
  "ph_createReverseCSR G1 = createReverseCSR G1 (numVertex G1)"

section \<open>The code of main\<close>

text \<open>\<open>unsigned int degThresh = sqrt(numVertex)\<close>: the square root rounded down.\<close>

definition degThresh :: "u32 \<Rightarrow> u32" where
  "degThresh n = length (takeWhile (\<lambda>m. m * m \<le> n) [1..<n + 1])"

definition ph_cost :: "graph \<Rightarrow> u32 list \<Rightarrow> u32 \<Rightarrow> (u32 list \<times> u32) option" where
  "ph_cost G outDeg thresh = for_range 0 (numVertex G) (\<lambda>i (cs, maxc). do {
     endId \<leftarrow> aget (VI G) (uadd i 1);
     a \<leftarrow> aget (VI G) i;
     cs \<leftarrow> for_range a endId (\<lambda>j cs. do {
       e \<leftarrow> aget (EI G) j;
       d \<leftarrow> aget outDeg e;
       if d \<le> thresh then do { c \<leftarrow> aget cs i; aput cs i (uadd c 1) } else Some cs
     }) cs;
     c \<leftarrow> aget cs i;
     Some (cs, if c > maxc then c else maxc)
   }) (replicate (numVertex G) 0, 0)"

text \<open>The initial arrays, and the loop that leaves the last two vertices.\<close>

definition ph_init_model :: "u32 \<Rightarrow> u32 list \<Rightarrow> u32 \<Rightarrow> cache_state option" where
  "ph_init_model n cs maxc = init_model n n n cs maxc"

definition ph_place_loop :: "reorder_params \<Rightarrow> window_state \<Rightarrow> window_state option" where
  "ph_place_loop P w = place_loop P (\<lambda>m. m \<ge> usub (numVertex (parG P)) 2) w"

definition ph_place :: "u32 \<Rightarrow> graph \<Rightarrow> (graph \<times> window_state) option" where
  "ph_place cache G1 = do {
     inDeg \<leftarrow> degrees G1;
     G2 \<leftarrow> ph_createReverseCSR G1;
     outDeg \<leftarrow> degrees G2;
     (cs, maxc) \<leftarrow> ph_cost G1 outDeg (degThresh (numVertex G1));
     st \<leftarrow> ph_init_model (numVertex G1) cs maxc;
     w \<leftarrow> ph_place_loop \<lparr>parG = G1, childG = G2, skipParent = ph_skip outDeg (degThresh (numVertex G1)),
         inDeg = inDeg, maxCost = maxc, CACHE_SIZE = cache, lag = 5\<rparr>
       \<lparr>cstate = st, currWinCost = 0, currWinStartId = 0, minPtr = 0\<rparr>;
     Some (G2, w)
   }"

text \<open>The order, the reverse graph (its arrays are reused for the result) and the node that is reported as
  not placed.\<close>

definition ph_order :: "u32 \<Rightarrow> graph \<Rightarrow> ((u32 list \<times> u32 list) \<times> graph \<times> u32 option) option" where
  "ph_order cache G1 = do {
     (G2, w) \<leftarrow> ph_place cache G1;
     pl \<leftarrow> place_last (numVertex G1) (cstate w);
     err \<leftarrow> failed_to_place (numVertex G1) pl;
     Some ((nodeMap (cstate w), nodeId (cstate w)), G2, err)
   }"

text \<open>The end of a row when the order is applied: \<open>G1.VI[prevNodeId+1]\<close>, also for the last vertex.\<close>

definition ph_row_end :: "graph \<Rightarrow> u32 \<Rightarrow> u32 option" where
  "ph_row_end G v = aget (VI G) (uadd v 1)"

definition ph_reorder :: "u32 \<Rightarrow> graph \<Rightarrow> (u32 list \<times> graph) option" where
  "ph_reorder cache G1 = do {
     ((nodeMap, nodeId), G2, err) \<leftarrow> ph_order cache G1;
     G' \<leftarrow> apply_order ph_row_end nodeId nodeMap G1 G2;
     Some (nodeMap, G')
   }"

definition ph_run :: "(string \<Rightarrow> bool) \<Rightarrow> u32 \<Rightarrow> string \<Rightarrow> graph \<Rightarrow> outcome option" where
  "ph_run writable cache out G = do {
     (nodeMap, G') \<leftarrow> ph_reorder cache G;
     f1 \<leftarrow> dump_order writable ''ph/new_order.el'' nodeMap (numVertex G);
     f2 \<leftarrow> ph_write_edgelist writable out G';
     Some (0, [f1, f2])
   }"

definition ph_main :: "file_system \<Rightarrow> (string \<Rightarrow> bool) \<Rightarrow> string list \<Rightarrow> outcome option" where
  "ph_main fs writable argv = (
     if length argv \<noteq> 4 \<and> length argv \<noteq> 3 then Some (1, [])
     else do {
       cache \<leftarrow> (if length argv = 4 then atoi (argv ! 1) else Some 100000);
       r \<leftarrow> ph_read_csr (fs (argv ! (length argv - 2)));
       case r of
         None \<Rightarrow> Some (1, [])
       | Some G \<Rightarrow> ph_run writable cache (argv ! (length argv - 1)) G
     })"

section \<open>The cost of a vertex\<close>

lemma ph_read_csr_eq: "ph_read_csr = read_csr"
  unfolding fun_eq_iff ph_read_csr_def read_csr_def ph_read_edge_list_def ph_filter_def ph_csr_convert_def by simp

definition ph_pre :: "nat \<Rightarrow> graph \<Rightarrow> bool" where
  "ph_pre cache G \<longleftrightarrow> wf_csr G \<and> (\<forall>e \<in> set (EI G). e < numVertex G) \<and> length (EI G) = numEdges G \<and>
     length (VI G) = numVertex G + 1 \<and> VI G ! numVertex G = numEdges G \<and> 2 \<le> numVertex G \<and>
     numVertex G \<le> U32 div 2 \<and> numEdges G + 1 < U32 \<and> cache < U32"

lemma ph_preD:
  assumes "ph_pre cache G"
  shows "wf_csr G" "\<forall>e \<in> set (EI G). e < numVertex G" "length (EI G) = numEdges G"
    "length (VI G) = numVertex G + 1" "VI G ! numVertex G = numEdges G" "2 \<le> numVertex G"
    "numVertex G \<le> U32 div 2" "numEdges G + 1 < U32" "cache < U32"
  using assms by (auto simp: ph_pre_def)

lemma ph_row_end_ok:
  assumes "ph_pre cache G" "v < numVertex G"
  shows "ph_row_end G v = Some (eend G v)"
proof -
  note p = ph_preD[OF assms(1)] and w = wf_csrD[OF ph_preD(1)[OF assms(1)]]
  have "uadd v 1 = Suc v" using assms(2) w(2) by (intro uadd_1) simp
  moreover have "VI G ! Suc v = eend G v" using assms(2) p(5) by (auto simp: eend_def)
  ultimately show ?thesis using assms(2) p(4) unfolding ph_row_end_def by simp
qed

lemma ph_count:
  fixes thresh :: nat
  assumes "\<And>e. e \<in> set es \<Longrightarrow> e < length outDeg" "i < length cs" "cs ! i + length es < U32"
  shows "mfold (\<lambda>e cs. do { d \<leftarrow> aget outDeg e; if d \<le> thresh then do { c \<leftarrow> aget cs i; aput cs i (uadd c 1) } else Some cs }) es cs =
    Some (cs[i := cs ! i + length (filter (\<lambda>e. \<not> outDeg ! e > thresh) es)])"
  using assms
proof (induction es arbitrary: cs)
  case (Cons e es)
  have u: "uadd (cs ! i) 1 = Suc (cs ! i)" using Cons.prems(3) by (intro uadd_1) simp
  have "e < length outDeg" using Cons.prems(1) by simp
  then show ?case
    using Cons.prems Cons.IH[of cs] Cons.IH[of "cs[i := Suc (cs ! i)]"] by (auto simp: u not_less simp del: One_nat_def)
qed simp

lemma ph_cost_ok:
  fixes thresh :: nat
  assumes pre: "ph_pre cache G" and od: "length outDeg = numVertex G"
  defines "sk \<equiv> (\<lambda>p. outDeg ! p > thresh)"
  shows "ok (ph_cost G outDeg thresh) (\<lambda>(cs, maxc). cs = map (\<lambda>v. length (parents G sk v)) [0..<numVertex G] \<and>
    (\<forall>v < numVertex G. length (parents G sk v) \<le> maxc) \<and> maxc \<le> numEdges G)"
proof -
  note p = ph_preD[OF pre] and w = wf_csrD[OF ph_preD(1)[OF pre]]
  let ?n = "numVertex G" and ?d = "\<lambda>v. length (parents G sk v)"
  let ?P = "\<lambda>i (cs, maxc). length cs = ?n \<and> (\<forall>v<i. cs ! v = ?d v \<and> ?d v \<le> maxc) \<and> (\<forall>v. i \<le> v \<and> v < ?n \<longrightarrow> cs ! v = 0) \<and>
    maxc \<le> numEdges G"
  have "ok (ph_cost G outDeg thresh) (?P ?n)"
    unfolding ph_cost_def
  proof (rule ok_for_range[where P = ?P])
    fix i s assume i: "i < ?n" and P: "?P i s"
    obtain cs maxc where s: "s = (cs, maxc)" by (cases s) auto
    have e: "aget (VI G) (uadd i 1) = Some (eend G i)" using ph_row_end_ok[OF pre i] by (simp add: ph_row_end_def)
    have l: "length (adj G i) \<le> numEdges G" using length_adj[OF p(1) i] w(8)[OF i] by simp
    have le: "length (filter (\<lambda>e. \<not> sk e) (adj G i)) \<le> length (adj G i)" by simp
    have es: "e < length outDeg" if "e \<in> set (adj G i)" for e
      using adj_less[OF p(1) i that] p(2) od by (auto dest: in_set_takeD)
    have f: "for_range (VI G ! i) (eend G i) (\<lambda>j cs. do { e \<leftarrow> aget (EI G) j; d \<leftarrow> aget outDeg e;
         if d \<le> thresh then do { c \<leftarrow> aget cs i; aput cs i (uadd c 1) } else Some cs }) cs = Some (cs[i := ?d i])"
    proof -
      have "eend G i \<le> length (EI G)" using w(8)[OF i] p(3) by simp
      then have "for_range (VI G ! i) (eend G i) (\<lambda>j cs. do { e \<leftarrow> aget (EI G) j; d \<leftarrow> aget outDeg e;
         if d \<le> thresh then do { c \<leftarrow> aget cs i; aput cs i (uadd c 1) } else Some cs }) cs =
        mfold (\<lambda>e cs. do { d \<leftarrow> aget outDeg e; if d \<le> thresh then do { c \<leftarrow> aget cs i; aput cs i (uadd c 1) } else Some cs }) (adj G i) cs"
        unfolding adj_def by (rule for_range_slice) (use \<open>eend G i \<le> length (EI G)\<close> in simp)
      also have "\<dots> = Some (cs[i := cs ! i + ?d i])"
        unfolding sk_def by (rule ph_count) (use es P i l p(8) s in auto)
      finally show ?thesis using P s i by simp
    qed
    show "ok (case s of (cs, maxc) \<Rightarrow> do {
       endId \<leftarrow> aget (VI G) (uadd i 1); a \<leftarrow> aget (VI G) i;
       cs \<leftarrow> for_range a endId (\<lambda>j cs. do { e \<leftarrow> aget (EI G) j; d \<leftarrow> aget outDeg e;
         if d \<le> thresh then do { c \<leftarrow> aget cs i; aput cs i (uadd c 1) } else Some cs }) cs;
       c \<leftarrow> aget cs i; Some (cs, if c > maxc then c else maxc) }) (?P (Suc i))"
      using P i w(5) s order.trans[OF le l] unfolding e s prod.case ok_bind ok_aget by (auto simp: f less_Suc_eq nth_list_update)
  qed auto
  then show ?thesis by (rule ok_mono) (auto intro!: nth_equalityI)
qed

section \<open>The order\<close>

text \<open>The last two nodes are the ones the loop leaves.\<close>

lemma place_last_two:
  assumes inv: "model_inv n N maxc par (n - 2) W st" and n: "2 \<le> n" "n < U32"
  shows "\<exists>pl. place_last n st = Some pl \<and> length pl = n \<and> (\<forall>v<n. pl ! v)"
proof -
  have ord: "ordered n maxc (n - 2) st" using inv by (simp add: model_inv_def)
  note o = orderedD[OF ord] and d = inv_pairD[OF orderedD(4)[OF ord]]
  have u: "usub n 2 = n - 2" "usub n 1 = n - 1" using n by (simp_all add: usub_exact)
  let ?a = "nodeId st ! (n - 2)" and ?b = "nodeId st ! (n - 1)"
  have ab: "?a < n" "?b < n" using d(5) n by auto
  have "((isPlaced st)[?a := True, ?b := True]) ! v" if v: "v < n" for v
  proof (cases "nodeMap st ! v < n - 2")
    case True
    then show ?thesis using o(5) v ab o(2) by (auto simp: nth_list_update)
  next
    case False
    then have "nodeMap st ! v = n - 2 \<or> nodeMap st ! v = n - 1" using d(3)[OF v] by linarith
    then have "v = ?a \<or> v = ?b" using d(4)[OF v] by auto
    then show ?thesis using ab o(2) v by (auto simp: nth_list_update)
  qed
  then show ?thesis
    unfolding place_last_def u using n d(2) ab o(2) by simp
qed

lemma ph_place_ok:
  assumes pre: "ph_pre cache G"
  shows "ok (ph_place cache G) (\<lambda>(G2, w). G2 = csr_graph (numVertex G) (numVertex G) (rev_edges G) \<and>
    (\<exists>P sk. place_inv P (numVertex G) (numVertex G) sk w \<and> minPtr w = numVertex G - 2))"
proof -
  note p = ph_preD[OF pre] and w = wf_csrD[OF ph_preD(1)[OF pre]]
  let ?n = "numVertex G"
  let ?G2 = "csr_graph ?n ?n (rev_edges G)" and ?deg = "map (\<lambda>v. length (adj G v)) [0..<?n]"
  let ?out = "map (\<lambda>v. length (adj (csr_graph ?n ?n (rev_edges G)) v)) [0..<?n]"
  let ?sk = "\<lambda>p. ?out ! p > degThresh ?n"
  let ?Q = "\<lambda>(G2, w). G2 = ?G2 \<and> (\<exists>P sk. place_inv P ?n ?n sk w \<and> minPtr w = ?n - 2)"
  have u: "usub ?n 2 = ?n - 2" using p(6) w(2) by (intro usub_exact) auto
  have ei: "\<forall>e \<in> set (take (numEdges G) (EI G)). e < ?n" using p(2) by (auto dest: in_set_takeD)
  have sk: "\<forall>v<?n. ph_skip ?out (degThresh ?n) v = Some (?sk v)" by (simp add: ph_skip_def)
  have cost: "ok (ph_cost G ?out (degThresh ?n)) (\<lambda>(cs, maxc). cs = map (\<lambda>v. length (parents G ?sk v)) [0..<?n] \<and>
    (\<forall>v < ?n. length (parents G ?sk v) \<le> maxc) \<and> maxc \<le> numEdges G)"
    by (rule ph_cost_ok[OF pre]) simp
  have rest: "ok (do {
      st \<leftarrow> init_model ?n ?n ?n cs maxc;
      w \<leftarrow> place_loop \<lparr>parG = G, childG = ?G2, skipParent = ph_skip ?out (degThresh ?n),
         inDeg = ?deg, maxCost = maxc, CACHE_SIZE = cache, lag = 5\<rparr> (\<lambda>m. m \<ge> ?n - 2)
       \<lparr>cstate = st, currWinCost = 0, currWinStartId = 0, minPtr = 0\<rparr>;
      Some (?G2, w) }) ?Q"
    if m: "length cs = ?n" "\<forall>v < ?n. length (parents G ?sk v) \<le> maxc" "maxc \<le> numEdges G" for cs maxc
  proof -
    let ?P = "\<lparr>parG = G, childG = ?G2, skipParent = ph_skip ?out (degThresh ?n),
         inDeg = ?deg, maxCost = maxc, CACHE_SIZE = cache, lag = 5\<rparr>"
    have m1: "maxc + 1 < U32" using m(3) p(8) by simp
    have "cache_graphs ?n ?n maxc G ?G2 (ph_skip ?out (degThresh ?n)) ?sk"
      by (rule reverse_graphs(1)[OF p(1) w(1,2) ei m1 sk m(2)])
    then have lp: "loop_params ?P ?n ?n ?sk" using p(9) by (simp add: loop_params_def)
    have im: "ok (init_model ?n ?n ?n cs maxc) (\<lambda>st. model_inv ?n ?n maxc (parents G ?sk) 0 {#} st \<and>
        updates st = replicate ?n 0 \<and> nodeId st = sort_key (\<lambda>v. - int (cs ! v)) [0..<?n])"
      by (rule init_model_ok) (use w(1) p(7) m m1 in auto)
    have loop: "ok (place_loop ?P (\<lambda>m. m \<ge> ?n - 2) \<lparr>cstate = st, currWinCost = 0, currWinStartId = 0, minPtr = 0\<rparr>)
        (\<lambda>w. ?Q (?G2, w))"
      if "model_inv ?n ?n maxc (parents G ?sk) 0 {#} st \<and> updates st = replicate ?n 0 \<and>
        nodeId st = sort_key (\<lambda>v. - int (cs ! v)) [0..<?n]" for st
    proof -
      have inv: "place_inv ?P ?n ?n ?sk \<lparr>cstate = st, currWinCost = 0, currWinStartId = 0, minPtr = 0\<rparr>"
        using that by (simp add: place_inv_def loop_inv_def)
      show ?thesis
      proof (rule ok_mono[OF place_loop_ok[OF lp inv]])
        fix w' assume h: "place_inv ?P ?n ?n ?sk w' \<and>
          minPtr \<lparr>cstate = st, currWinCost = 0, currWinStartId = 0, minPtr = 0\<rparr> \<le> minPtr w' \<and>
          (minPtr w' = ?n \<or> ?n - 2 \<le> minPtr w') \<and>
          (\<forall>m. minPtr \<lparr>cstate = st, currWinCost = 0, currWinStartId = 0, minPtr = 0\<rparr> \<le> m \<and> m < minPtr w' \<longrightarrow> \<not> ?n - 2 \<le> m)"
        have "?n - 2 \<le> minPtr w'" using h by auto
        moreover have "\<not> ?n - 2 < minPtr w'" using h by auto
        ultimately show "?Q (?G2, w')" using h by auto
      qed
    qed
    show ?thesis unfolding ok_bind ok_Some by (rule ok_mono[OF im], rule loop)
  qed
  have G2: "ph_createReverseCSR G = Some ?G2" "wf_csr ?G2"
    unfolding ph_createReverseCSR_def
    using reverse_graphs(2,3)[OF p(1) w(1,2) ei, of "numEdges G" "\<lambda>_. Some True" "\<lambda>_. True"] p(8) by auto
  have d: "degrees G = Some ?deg" by (rule degrees_ok[OF p(1)])
  have "numVertex ?G2 = ?n" by (simp add: csr_graph_def)
  with degrees_ok[OF G2(2)] have o: "degrees ?G2 = Some ?out" by simp
  show ?thesis
    unfolding ph_place_def ph_init_model_def ph_place_loop_def reorder_params.simps d G2(1) Option.bind.simps o u ok_bind
  proof (rule ok_mono[OF cost])
    fix x :: "u32 list \<times> u32"
    assume "case x of (cs, maxc) \<Rightarrow> cs = map (\<lambda>v. length (parents G ?sk v)) [0..<?n] \<and>
      (\<forall>v < ?n. length (parents G ?sk v) \<le> maxc) \<and> maxc \<le> numEdges G"
    then obtain cs mc where x: "x = (cs, mc)" "length cs = ?n" "\<forall>v < ?n. length (parents G ?sk v) \<le> mc" "mc \<le> numEdges G"
      by (cases x) auto
    show "ok (case x of (cs, mc) \<Rightarrow> do {
      st \<leftarrow> init_model ?n ?n ?n cs mc;
      w \<leftarrow> place_loop \<lparr>parG = G, childG = ?G2, skipParent = ph_skip ?out (degThresh ?n),
         inDeg = ?deg, maxCost = mc, CACHE_SIZE = cache, lag = 5\<rparr> (\<lambda>m. m \<ge> ?n - 2)
       \<lparr>cstate = st, currWinCost = 0, currWinStartId = 0, minPtr = 0\<rparr>;
      Some (?G2, w) }) ?Q"
      unfolding x(1) prod.case by (rule rest[OF x(2,3,4)])
  qed
qed

lemma ph_order_ok:
  assumes pre: "ph_pre cache G"
  shows "ok (ph_order cache G) (\<lambda>((nm, ni), G2, err). inv_pair (numVertex G) nm ni \<and>
    G2 = csr_graph (numVertex G) (numVertex G) (rev_edges G) \<and> err = None)"
  unfolding ph_order_def ok_bind
proof (rule ok_mono[OF ph_place_ok[OF pre]])
  note p = ph_preD[OF pre] and wf = wf_csrD[OF ph_preD(1)[OF pre]]
  let ?n = "numVertex G"
  fix x assume "case x of (G2, w) \<Rightarrow> G2 = csr_graph ?n ?n (rev_edges G) \<and>
    (\<exists>P sk. place_inv P ?n ?n sk w \<and> minPtr w = ?n - 2)"
  then obtain w P sk where x: "x = (csr_graph ?n ?n (rev_edges G), w)" "place_inv P ?n ?n sk w" "minPtr w = ?n - 2"
    by (cases x) auto
  have inv: "model_inv ?n ?n (maxCost P) (parents (parG P) sk) (?n - 2)
    (window P sk (cstate w) (currWinStartId w) (?n - 2)) (cstate w)"
    using x(2,3) unfolding place_inv_def loop_inv_def by metis
  have "ordered ?n (maxCost P) (?n - 2) (cstate w)" using inv by (simp add: model_inv_def)
  then have ip: "inv_pair ?n (nodeMap (cstate w)) (nodeId (cstate w))" by (rule orderedD(4))
  obtain pl where pl: "place_last ?n (cstate w) = Some pl" "length pl = ?n" "\<forall>v<?n. pl ! v"
    using place_last_two[OF inv p(6)] wf(2) by auto
  show "ok (case x of (G2, w) \<Rightarrow> do {
     pl \<leftarrow> place_last ?n (cstate w);
     err \<leftarrow> failed_to_place ?n pl;
     Some ((nodeMap (cstate w), nodeId (cstate w)), G2, err) }) (\<lambda>((nm, ni), G2, err). inv_pair ?n nm ni \<and>
    G2 = csr_graph ?n ?n (rev_edges G) \<and> err = None)"
    unfolding x(1) prod.case pl(1) Option.bind.simps failed_to_place_ok[OF pl(2,3)] using ip by simp
qed

interpretation ph: node_order "ph_pre cache" "\<lambda>G. map_option fst (ph_order cache G)" ph_row_end for cache
proof
  fix G assume h: "ph_pre cache G"
  show "ok (map_option fst (ph_order cache G)) (\<lambda>(nm, ni). inv_pair (numVertex G) nm ni)"
    using ph_order_ok[OF h] by (cases "ph_order cache G") auto
  show "wf_csr G" "\<forall>e \<in> set (take (numEdges G) (EI G)). e < numVertex G"
    using ph_preD(1,2)[OF h] by (auto dest: in_set_takeD)
  show "ph_row_end G v = Some (eend G v)" if "v < numVertex G" for v
    by (rule ph_row_end_ok[OF h that])
qed

text \<open>The arrays of the reverse graph, which are reused for the result, have the right sizes.\<close>

lemma ph_reverse_arrays:
  assumes pre: "ph_pre cache G"
  defines "G2 \<equiv> csr_graph (numVertex G) (numVertex G) (rev_edges G)"
  shows "numVertex G2 = numVertex G" "numEdges G2 = numEdges G" "length (VI G2) = numVertex G" "length (EI G2) = numEdges G"
proof -
  note p = ph_preD[OF pre]
  have len: "length (rev_edges G) = numEdges G" by (rule length_rev_edges[OF p(1)])
  have "starts (rev_edges G) (numVertex G) = numEdges G"
  proof (rule trans[OF starts_all[OF _ order.refl] len])
    fix q assume "q \<in> set (rev_edges G)"
    then have "fst q \<in> set (map snd (edges G))" by force
    then have "fst q \<in> set (take (numEdges G) (EI G))" by (simp only: snd_edges[OF p(1)])
    then show "fst q < numVertex G" using p(2) by (auto dest: in_set_takeD)
  qed
  then show "numVertex G2 = numVertex G" "numEdges G2 = numEdges G" "length (VI G2) = numVertex G" "length (EI G2) = numEdges G"
    using len by (simp_all add: G2_def csr_graph_def length_csr_of)
qed

lemma ph_reorder_ok:
  assumes pre: "ph_pre cache G"
  shows "ok (ph_reorder cache G) (\<lambda>(nm, G'). (\<exists>ni. inv_pair (numVertex G) nm ni) \<and> isomorphic_by nm G G')"
proof -
  let ?n = "numVertex G" and ?G2 = "csr_graph (numVertex G) (numVertex G) (rev_edges G)"
  obtain nm ni where o: "ph_order cache G = Some ((nm, ni), ?G2, None)" using ph_order_ok[OF pre] by (auto simp: ok_iff)
  have "ok (do { (nm, ni) \<leftarrow> map_option fst (ph_order cache G); G' \<leftarrow> apply_order ph_row_end ni nm G ?G2; Some (nm, ni, G') })
    (\<lambda>(nm, ni, G'). inv_pair ?n nm ni \<and> isomorphic_by nm G G')"
    by (rule ph.reorder_isomorphic[OF pre ph_reverse_arrays[OF pre]])
  then show ?thesis unfolding ph_reorder_def o by (auto simp: ok_iff bind_eq_Some_conv)
qed

section \<open>The whole program\<close>

lemma ph_pre_graph:
  assumes es: "\<forall>(a, b) \<in> set es. a < U32 div 2 - 1 \<and> b < U32 div 2 - 1" "length es < U32 - 1" "\<forall>(a, b) \<in> set es. a \<noteq> b" "es \<noteq> []"
    and cache: "cache < U32"
  shows "ph_pre cache (graph_of es)"
proof -
  have l: "length es < U32" using es(2) by simp
  note g = graph_pre[OF es(1) l es(3,4)]
  show ?thesis
    unfolding ph_pre_def g(5,6,7,8) using g(1-4,9) es(2) cache by (simp add: g(7))
qed

lemma ph_run_ok:
  assumes es: "\<forall>(a, b) \<in> set es. a < U32 div 2 - 1 \<and> b < U32 div 2 - 1" "length es < U32 - 1" "\<forall>(a, b) \<in> set es. a \<noteq> b" "es \<noteq> []"
    and cache: "cache < U32" and wr: "writable ''ph/new_order.el''" "writable out"
  shows "\<exists>nm s. ph_run writable cache out (graph_of es) =
      Some (0, [(''ph/new_order.el'', concat (map (\<lambda>x. print_d x @ [newline]) nm)), (out, s)]) \<and>
    length nm = card (ends es) \<and> bij_betw ((!) nm) {..<card (ends es)} {..<card (ends es)} \<and>
    holds_edges s (image_mset (\<lambda>(a, b). (nm ! vertex_rank (ends es) a, nm ! vertex_rank (ends es) b)) (mset es))"
proof -
  have l: "length es < U32" using es(2) by simp
  note g = graph_pre[OF es(1) l es(3,4)]
  obtain nm G' ni where r: "ph_reorder cache (graph_of es) = Some (nm, G')" "inv_pair (card (ends es)) nm ni"
    "isomorphic_by nm (graph_of es) G'"
    using ph_reorder_ok[OF ph_pre_graph[OF es cache]] unfolding g(7) by (auto simp: ok_iff)
  obtain s where s: "write_edgelist G' = Some s"
    "holds_edges s (image_mset (\<lambda>(a, b). (nm ! vertex_rank (ends es) a, nm ! vertex_rank (ends es) b)) (mset es))"
    using written_graph[OF es(1) l es(3,4) r(3)] by blast
  have ln: "length nm = card (ends es)" using r(2) by (simp add: inv_pair_def)
  then have d: "dump_order writable ''ph/new_order.el'' nm (numVertex (graph_of es)) =
    Some (''ph/new_order.el'', concat (map (\<lambda>x. print_d x @ [newline]) nm))"
    unfolding g(7) using wr(1) g(1) by (simp add: dump_order_ok)
  show ?thesis
    using s(2) ln inv_pair_bij[OF r(2)] wr(2)
    by (intro exI[of _ nm] exI[of _ s]) (simp add: ph_run_def r(1) d s(1) ph_write_edgelist_def)
qed

lemma ph_main_ok:
  assumes "fs inp = Some (print_edges es)" and args: "argv = [prog, c, inp, out] \<and> atoi c = Some cache \<or> argv = [prog, inp, out] \<and> cache = 100000" and "cache < U32"
    "\<forall>(a, b) \<in> set es. a < U32 div 2 - 1 \<and> b < U32 div 2 - 1" "length es < U32 - 1" "no_loops es \<noteq> []"
    "writable ''ph/new_order.el''" "writable out"
  shows "\<exists>nm s. ph_main fs writable argv =
      Some (0, [(''ph/new_order.el'', concat (map (\<lambda>x. print_d x @ [newline]) nm)), (out, s)]) \<and>
    length nm = card (ends (no_loops es)) \<and> bij_betw ((!) nm) {..<card (ends (no_loops es))} {..<card (ends (no_loops es))} \<and>
    holds_edges s (image_mset (\<lambda>(a, b). (nm ! vertex_rank (ends (no_loops es)) a, nm ! vertex_rank (ends (no_loops es)) b)) (mset (no_loops es)))"
proof -
  have l: "length (no_loops es) \<le> length es" unfolding no_loops_def by (rule length_filter_le)
  have h: "\<forall>(a, b) \<in> set (no_loops es). a < U32 div 2 - 1 \<and> b < U32 div 2 - 1" "length (no_loops es) < U32 - 1"
    "\<forall>(a, b) \<in> set (no_loops es). a \<noteq> b"
    using assms(4) le_less_trans[OF l assms(5)] by (auto simp: no_loops_def)
  have "length es < U32" using assms(5) by simp
  then have "ph_read_csr (fs inp) = Some (Some (graph_of (no_loops es)))"
    unfolding assms(1) ph_read_csr_eq by (intro read_csr_ok) (use assms(4) in \<open>simp_all add: edges_ok_def\<close>)
  then have "ph_main fs writable argv = ph_run writable cache out (graph_of (no_loops es))"
    using args by (auto simp: ph_main_def)
  then show ?thesis using ph_run_ok[OF h assms(6,3,7,8)] by simp
qed

section \<open>Properties\<close>

text \<open>C13: The whole program \<open>ph\<close>, with the cache size on the command line or its default: for an edge list with at least one edge that is not a self loop, it
  terminates with status 0 and writes the order and a graph; read back, the graph is the input without its
  self loops, with its vertices renamed by a bijection: the rank of the vertex among those that have an edge, followed
  by the order that \<open>ph/new_order.el\<close> lists. The graph is the text of an edge list. (The README of the program documents a
  binary CSR file instead, which no call in \<open>main\<close> writes, and only the command line without the cache size.)\<close>

theorem ph_main_isomorphic:
  defines "proper \<equiv> filter (\<lambda>(a, b). a \<noteq> b)"
  assumes "fs inp = Some (print_edges es)"
    "argv = [prog, c, inp, out] \<and> atoi c = Some cache \<or> argv = [prog, inp, out] \<and> cache = 100000" "cache < U32"
    "\<forall>(a, b) \<in> set es. a < U32 div 2 - 1 \<and> b < U32 div 2 - 1" "length es < U32 - 1" "proper es \<noteq> []"
    "writable ''ph/new_order.el''" "writable out"
  shows "\<exists>nm s. ph_main fs writable argv =
      Some (0, [(''ph/new_order.el'', concat (map (\<lambda>x. print_d x @ [newline]) nm)), (out, s)]) \<and>
    bij_betw (\<lambda>v. nm ! vertex_rank (ends (proper es)) v) (ends (proper es)) {..<length nm} \<and>
    holds_edges s (image_mset (\<lambda>(a, b). (nm ! vertex_rank (ends (proper es)) a, nm ! vertex_rank (ends (proper es)) b)) (mset (proper es)))"
proof -
  have p: "proper es = no_loops es" by (simp add: proper_def no_loops_def)
  obtain nm s where k: "ph_main fs writable argv =
      Some (0, [(''ph/new_order.el'', concat (map (\<lambda>x. print_d x @ [newline]) nm)), (out, s)])"
    "length nm = card (ends (no_loops es))" "bij_betw ((!) nm) {..<card (ends (no_loops es))} {..<card (ends (no_loops es))}"
    "holds_edges s (image_mset (\<lambda>(a, b). (nm ! vertex_rank (ends (no_loops es)) a, nm ! vertex_rank (ends (no_loops es)) b)) (mset (no_loops es)))"
    using ph_main_ok[where fs = fs and inp = inp and argv = argv and writable = writable and out = out, OF assms(2-6) _ assms(8,9)] assms(7) unfolding p by blast
  have "bij_betw (\<lambda>v. nm ! vertex_rank (ends (no_loops es)) v) (ends (no_loops es)) {..<length nm}"
    using bij_betw_trans[OF vertex_rank_bij[OF finite_ends] k(3)] by (simp add: k(2) comp_def)
  then show ?thesis unfolding p using k(1,4) by (intro exI[of _ nm] exI[of _ s]) simp
qed

theorem ph_main_isomorphic_witness:
  "\<exists>nm s. ph_main [''in'' \<mapsto> print_edges [(7, 2), (2, 2), (2, 9)]] (\<lambda>_. True) [''ph'', ''100'', ''in'', ''out''] =
      Some (0, [(''ph/new_order.el'', concat (map (\<lambda>x. print_d x @ [newline]) nm)), (''out'', s)]) \<and>
    (\<exists>r :: nat \<Rightarrow> nat. holds_edges s {#(r 7, r 2), (r 2, r 9)#})"
proof -
  let ?es = "[(7, 2), (2, 2), (2, 9 :: nat)]"
  have a: "atoi ''100'' = Some 100"
    by (simp add: atoi_def scan_d_def scan_sign_def is_space_def is_digit_def decimal_value_def digit_val_def)
  have f: "filter (\<lambda>(a, b). a \<noteq> b) ?es = [(7, 2), (2, 9)]" by simp
  have "\<exists>nm s. ph_main [''in'' \<mapsto> print_edges ?es] (\<lambda>_. True) [''ph'', ''100'', ''in'', ''out''] =
      Some (0, [(''ph/new_order.el'', concat (map (\<lambda>x. print_d x @ [newline]) nm)), (''out'', s)]) \<and>
    bij_betw (\<lambda>v. nm ! vertex_rank (ends [(7, 2), (2, 9)]) v) (ends [(7, 2), (2, 9)]) {..<length nm} \<and>
    holds_edges s (image_mset (\<lambda>(a, b). (nm ! vertex_rank (ends [(7, 2), (2, 9)]) a, nm ! vertex_rank (ends [(7, 2), (2, 9)]) b)) (mset [(7, 2), (2, 9)]))"
    by (rule ph_main_isomorphic[where es = ?es, unfolded f, of _ _ _ "''ph''" "''100''" _ 100]) (use a in auto)
  then show ?thesis by auto
qed

text \<open>The order that \<open>ph\<close> computes: whatever the cache size, \<open>nodeMap\<close> and \<open>nodeId\<close> are inverse
  permutations, no vertex is reported as not placed, and no access is out of bounds.\<close>

theorem ph_order_permutation:
  assumes "ph_pre cache G"
  shows "\<exists>nm ni G2. ph_order cache G = Some ((nm, ni), G2, None) \<and> inv_pair (numVertex G) nm ni \<and>
    mset ni = mset [0..<numVertex G]"
  using ph_order_ok[OF assms] inv_pair_perm(1) by (fastforce simp: ok_iff)

theorem ph_order_permutation_witness:
  "\<exists>nm ni G2. ph_order 1 \<lparr>numVertex = 3, numEdges = 2, VI = [0, 1, 2, 2], EI = [1, 2]\<rparr> = Some ((nm, ni), G2, None) \<and>
    mset ni = mset [0..<3]"
proof -
  have "ph_pre 1 \<lparr>numVertex = 3, numEdges = 2, VI = [0, 1, 2, 2], EI = [1, 2]\<rparr>"
    by (simp add: ph_pre_def wf_csr_eval eend_def upt_rec)
  from ph_order_permutation[OF this] show ?thesis by auto
qed

text \<open>An input without an edge (an empty file, or only self loops) makes \<open>ph\<close> undefined: \<open>filter\<close> leaves no
  vertex, and the loop over the degrees runs to \<open>0 - 1 = 2^32 - 1\<close>, past the end of the array.\<close>

theorem ph_main_no_edges:
  assumes "fs inp = Some (print_edges es)" "\<forall>(a, b) \<in> set es. a = b \<and> a < U32 div 2 - 1" "length es < U32"
  shows "ph_main fs writable [prog, inp, out] = None"
proof -
  have e: "no_loops es = []" using assms(2) by (auto simp: no_loops_def filter_empty_conv)
  have "ph_read_csr (fs inp) = Some (Some (graph_of []))"
    unfolding assms(1) ph_read_csr_eq e[symmetric] by (intro read_csr_ok) (use assms in \<open>auto simp: edges_ok_def\<close>)
  moreover have "degrees (graph_of []) = None"
    unfolding degrees_def graph_of_def
    by (simp add: ends_def csr_graph_def usub_def for_range_first uadd_def)
  ultimately show ?thesis by (simp add: ph_main_def ph_run_def ph_reorder_def ph_order_def ph_place_def)
qed

theorem ph_main_no_edges_witness: "ph_main [''in'' \<mapsto> print_edges [(3, 3)]] (\<lambda>_. True) [''ph'', ''in'', ''out''] = None"
  by (rule ph_main_no_edges[where es = "[(3, 3)]"]) simp_all

end
