(* ===== verification/Weighted_Main.thy ===== *)
theory Weighted_Main
  imports Weighted_Graph PH_Reorder Block_Main
begin

text \<open>
  The programs \<open>graphReordering/block_reordering\<close> and \<open>graphReordering/pH\<close>: block reordering and the greedy
  ordering of weighted graphs, with the options \<open>--maintain\<close>, \<open>--indegree\<close> and \<open>--weighted\<close>.
\<close>

section \<open>The code\<close>

text \<open>The loop over the options between the numbers and the file names; an unknown option is ignored.\<close>

definition set_option :: "string \<Rightarrow> options \<Rightarrow> options" where
  "set_option s opts = (
     if s = ''-m'' \<or> s = ''--maintain'' then opts\<lparr>maintain := True\<rparr>
     else if s = ''-i'' \<or> s = ''--indegree'' then opts\<lparr>indegree := True\<rparr>
     else if s = ''-w'' \<or> s = ''--weighted'' then opts\<lparr>weighted := True\<rparr>
     else opts)"

definition parse_options :: "nat \<Rightarrow> string list \<Rightarrow> options" where
  "parse_options first argv = fold set_option (slice argv first (length argv - 2))
     \<lparr>weighted = False, maintain = False, indegree = False\<rparr>"

subsection \<open>Block reordering\<close>

text \<open>The same text as in \<open>br/block_reordering\<close>, up to the names of variables.\<close>

definition gb_moveRight :: "u32 \<Rightarrow> cache_state \<Rightarrow> cache_state option" where
  "gb_moveRight = moveRight"

definition gb_moveLeft :: "u32 \<Rightarrow> u32 \<Rightarrow> cache_state \<Rightarrow> cache_state option" where
  "gb_moveLeft = moveLeft"

definition gb_evictParents :: "graph \<Rightarrow> graph \<Rightarrow> u32 \<Rightarrow> cache_state \<Rightarrow> (cache_state \<times> u32) option" where
  "gb_evictParents = evictParents"

definition gb_loadParents :: "graph \<Rightarrow> graph \<Rightarrow> u32 \<Rightarrow> u32 \<Rightarrow> cache_state \<Rightarrow> (cache_state \<times> u32) option" where
  "gb_loadParents = loadParents"

definition gb_compress_graph :: "u32 \<Rightarrow> graph \<Rightarrow> graph option" where
  "gb_compress_graph = compress_graph"

definition gb_degrees :: "graph \<Rightarrow> u32 list option" where
  "gb_degrees = degrees"

definition gb_initial_cost :: "graph \<Rightarrow> (u32 list \<times> u32) option" where
  "gb_initial_cost = initial_cost"

definition gb_init_model :: "u32 \<Rightarrow> u32 \<Rightarrow> u32 \<Rightarrow> u32 list \<Rightarrow> u32 \<Rightarrow> cache_state option" where
  "gb_init_model = init_model"

definition gb_place_loop :: "reorder_params \<Rightarrow> window_state \<Rightarrow> window_state option" where
  "gb_place_loop P w = place_loop P (\<lambda>_. False) w"

definition gb_place_clusters :: "u32 \<Rightarrow> u32 \<Rightarrow> graph \<Rightarrow> (u32 \<times> window_state) option" where
  "gb_place_clusters CLSize cache G1 = do {
     compG \<leftarrow> gb_compress_graph CLSize G1;
     deg \<leftarrow> gb_degrees compG;
     G2 \<leftarrow> createReverseCSR compG (numVertex G1);
     revDeg \<leftarrow> gb_degrees G2;
     (cs, maxc) \<leftarrow> gb_initial_cost compG;
     st \<leftarrow> gb_init_model (numVertex compG) (numVertex G1) (numVertex G2) cs maxc;
     w \<leftarrow> gb_place_loop \<lparr>parG = compG, childG = G2, skipParent = (\<lambda>_. Some False), inDeg = deg, maxCost = maxc,
        CACHE_SIZE = cache, lag = 3\<rparr>
       \<lparr>cstate = st, currWinCost = 0, currWinStartId = 0, minPtr = 0\<rparr>;
     Some (numVertex compG, w)
   }"

text \<open>The index \<open>numVertex-2\<close> is used only if there are two clusters.\<close>

definition gb_place_last :: "u32 \<Rightarrow> cache_state \<Rightarrow> bool list option" where
  "gb_place_last n st = do {
     pl \<leftarrow> (if n > 1 then do { a \<leftarrow> aget (nodeId st) (usub n 2); aput (isPlaced st) a True } else Some (isPlaced st));
     b \<leftarrow> aget (nodeId st) (usub n 1);
     aput pl b True
   }"

definition gb_order_clusters :: "options \<Rightarrow> u32 \<Rightarrow> u32 \<Rightarrow> graph \<Rightarrow> (u32 list \<times> u32 list \<times> u32 option) option" where
  "gb_order_clusters opts CLSize cache G1 = do {
     (nc, w) \<leftarrow> gb_place_clusters CLSize cache G1;
     pl \<leftarrow> gb_place_last nc (cstate w);
     err \<leftarrow> failed_to_place nc pl;
     (nodeMap, nodeId) \<leftarrow> pin_zero (maintain opts) (numVertex G1) (nodeMap (cstate w)) (nodeId (cstate w));
     Some (nodeMap, nodeId, err)
   }"

text \<open>The second exchange writes to the slot \<open>z_id\<close> (the vertex that was first), not to \<open>zeros_map\<close>.\<close>

definition pin_vertex :: "bool \<Rightarrow> u32 \<Rightarrow> u32 list \<Rightarrow> u32 list \<Rightarrow> (u32 list \<times> u32 list) option" where
  "pin_vertex on N nm ni = (if \<not> on then Some (nm, ni) else do {
     z \<leftarrow> aget nm 0;
     if z \<noteq> 0 then do {
       nm' \<leftarrow> aput nm 0 0;
       z_id \<leftarrow> aget ni 0;
       ni' \<leftarrow> aput ni 0 0;
       pin_search N z z_id 1 nm' ni'
     } else Some (nm, ni)
   })"

text \<open>\<open>N\<close> is the number of vertices of the graph that was ordered, \<open>n\<close> that of the graph that is read again.\<close>

definition gb_expand :: "options \<Rightarrow> u32 \<Rightarrow> u32 \<Rightarrow> u32 list \<Rightarrow> u32 \<Rightarrow> (u32 list \<times> u32 list) option" where
  "gb_expand opts CLSize N ni n = do {
     newNodeId \<leftarrow> expand_clusters CLSize (uadd (usub N 1 div CLSize) 1) ni n;
     newNodeMap \<leftarrow> invert_order newNodeId n;
     pin_vertex (maintain opts) N newNodeMap newNodeId
   }"

text \<open>The reordered graph keeps the weights of the graph it is made from.\<close>

definition with_weights :: "graph \<Rightarrow> wgraph \<Rightarrow> wgraph" where
  "with_weights G G1 = graph.extend G \<lparr>filtered_to_original = Map.empty, weights = weights G1\<rparr>"

definition gb_reorder :: "u32 list \<Rightarrow> u32 list \<Rightarrow> wgraph \<Rightarrow> wgraph option" where
  "gb_reorder newNodeMap newNodeId G1 = do {
     G2 \<leftarrow> apply_order edge_end newNodeId newNodeMap (plain G1)
       \<lparr>numVertex = numVertex G1, numEdges = numEdges G1, VI = replicate (numVertex G1) 0, EI = replicate (numEdges G1) 0\<rparr>;
     Some (with_weights G2 G1)
   }"

definition gb_run ::
  "options \<Rightarrow> (string \<Rightarrow> bool) \<Rightarrow> u32 \<Rightarrow> u32 \<Rightarrow> string option \<Rightarrow> string \<Rightarrow> outcome option" where
  "gb_run opts writable CLSize cache file out = do {
     r \<leftarrow> gb_read_csr opts file empty_graph;
     case r of
       None \<Rightarrow> Some (1, [])
     | Some G0 \<Rightarrow> do {
         (nodeMap, nodeId, err) \<leftarrow> gb_order_clusters opts CLSize cache (plain G0);
         r \<leftarrow> gb_read_csr opts file G0;
         case r of
           None \<Rightarrow> Some (1, [])
         | Some G1 \<Rightarrow> do {
             (newNodeMap, newNodeId) \<leftarrow> gb_expand opts CLSize (numVertex G0) nodeId (numVertex G1);
             G2 \<leftarrow> gb_reorder newNodeMap newNodeId G1;
             fl \<leftarrow> gb_write_edge_list opts writable out G2 newNodeMap;
             Some (0, fl)
           }
       }
   }"

definition gb_main :: "file_system \<Rightarrow> (string \<Rightarrow> bool) \<Rightarrow> string list \<Rightarrow> outcome option" where
  "gb_main fs writable argv = (
     if length argv \<le> 4 \<and> length argv \<noteq> 3 then Some (1, [])
     else do {
       (CLSize, cache) \<leftarrow> (if length argv > 4 then do { a \<leftarrow> atoi (argv ! 1); b \<leftarrow> atoi (argv ! 2); Some (a, b) }
         else Some (20, 100000));
       gb_run (parse_options 3 argv) writable CLSize cache (fs (argv ! (length argv - 2))) (argv ! (length argv - 1))
     })"

subsection \<open>The greedy ordering\<close>

definition gp_moveRight :: "u32 \<Rightarrow> u32 \<Rightarrow> cache_state \<Rightarrow> cache_state option" where
  "gp_moveRight = ph_moveRight"

definition gp_moveLeft :: "u32 \<Rightarrow> u32 \<Rightarrow> cache_state \<Rightarrow> cache_state option" where
  "gp_moveLeft = ph_moveLeft"

definition gp_evictParents ::
  "u32 list \<Rightarrow> u32 \<Rightarrow> graph \<Rightarrow> graph \<Rightarrow> u32 \<Rightarrow> cache_state \<Rightarrow> (cache_state \<times> u32) option" where
  "gp_evictParents = ph_evictParents"

definition gp_loadParents ::
  "u32 list \<Rightarrow> u32 \<Rightarrow> graph \<Rightarrow> graph \<Rightarrow> u32 \<Rightarrow> u32 \<Rightarrow> cache_state \<Rightarrow> (cache_state \<times> u32) option" where
  "gp_loadParents = ph_loadParents"

definition gp_degrees :: "graph \<Rightarrow> u32 list option" where
  "gp_degrees = degrees"

definition gp_cost :: "graph \<Rightarrow> u32 list \<Rightarrow> u32 \<Rightarrow> (u32 list \<times> u32) option" where
  "gp_cost = ph_cost"

definition gp_init_model :: "u32 \<Rightarrow> u32 list \<Rightarrow> u32 \<Rightarrow> cache_state option" where
  "gp_init_model = ph_init_model"

definition gp_place_loop :: "reorder_params \<Rightarrow> window_state \<Rightarrow> window_state option" where
  "gp_place_loop = ph_place_loop"

definition gp_place :: "u32 \<Rightarrow> graph \<Rightarrow> (graph \<times> window_state) option" where
  "gp_place cache G1 = do {
     deg \<leftarrow> gp_degrees G1;
     G2 \<leftarrow> ph_createReverseCSR G1;
     revDeg \<leftarrow> gp_degrees G2;
     (cs, maxc) \<leftarrow> gp_cost G1 revDeg (degThresh (numVertex G1));
     st \<leftarrow> gp_init_model (numVertex G1) cs maxc;
     w \<leftarrow> gp_place_loop \<lparr>parG = G1, childG = G2, skipParent = ph_skip revDeg (degThresh (numVertex G1)),
         inDeg = deg, maxCost = maxc, CACHE_SIZE = cache, lag = 5\<rparr>
       \<lparr>cstate = st, currWinCost = 0, currWinStartId = 0, minPtr = 0\<rparr>;
     Some (G2, w)
   }"

definition gp_order :: "options \<Rightarrow> u32 \<Rightarrow> graph \<Rightarrow> ((u32 list \<times> u32 list) \<times> graph \<times> u32 option) option" where
  "gp_order opts cache G1 = do {
     (G2, w) \<leftarrow> gp_place cache G1;
     pl \<leftarrow> place_last (numVertex G1) (cstate w);
     err \<leftarrow> failed_to_place (numVertex G1) pl;
     r \<leftarrow> pin_zero (maintain opts) (numVertex G2) (nodeMap (cstate w)) (nodeId (cstate w));
     Some (r, G2, err)
   }"

text \<open>\<open>dumpNewOrder\<close> writes the numbers in binary.\<close>

definition gp_dumpNewOrder :: "(string \<Rightarrow> bool) \<Rightarrow> string \<Rightarrow> u32 list \<Rightarrow> u32 \<Rightarrow> (string \<times> nat list) option" where
  "gp_dumpNewOrder writable name nm n = do {
     bytes \<leftarrow> fwrite_u32 nm n;
     if writable name then Some (name, bytes) else None
   }"

definition gp_run ::
  "options \<Rightarrow> (string \<Rightarrow> bool) \<Rightarrow> u32 \<Rightarrow> string option \<Rightarrow> string \<Rightarrow> (nat \<times> (string \<times> nat list) list \<times> (string \<times> string) list) option" where
  "gp_run opts writable cache file out = do {
     r \<leftarrow> gp_read_csr opts file empty_graph;
     case r of
       None \<Rightarrow> Some (1, [], [])
     | Some G1 \<Rightarrow> do {
         ((nodeMap, nodeId), G2, err) \<leftarrow> gp_order opts cache (plain G1);
         f1 \<leftarrow> gp_dumpNewOrder writable ''newOrder.bin'' nodeMap (numVertex G1);
         G' \<leftarrow> apply_order ph_row_end nodeId nodeMap (plain G1) G2;
         f2 \<leftarrow> gp_write_edge_list opts writable out (with_weights G' G1) nodeMap;
         Some (0, [f1], [f2])
       }
   }"

definition gp_main ::
  "file_system \<Rightarrow> (string \<Rightarrow> bool) \<Rightarrow> string list \<Rightarrow> (nat \<times> (string \<times> nat list) list \<times> (string \<times> string) list) option" where
  "gp_main fs writable argv = (
     if length argv < 3 then Some (1, [], [])
     else do {
       cache \<leftarrow> (if length argv > 3 then atoi (argv ! 1) else Some 100000);
       gp_run (parse_options 2 argv) writable cache (fs (argv ! (length argv - 2))) (argv ! (length argv - 1))
     })"

section \<open>The order of the vertices\<close>

lemma gb_place_clusters_eq: "gb_place_clusters = place_clusters"
  unfolding fun_eq_iff gb_place_clusters_def place_clusters_def gb_compress_graph_def gb_degrees_def gb_initial_cost_def
    gb_init_model_def gb_place_loop_def by simp

lemma gp_place_eq: "gp_place = ph_place"
  unfolding fun_eq_iff gp_place_def ph_place_def gp_degrees_def gp_cost_def gp_init_model_def gp_place_loop_def by simp

lemma gb_place_last_ok:
  assumes ip: "inv_pair n nm (nodeId st)" and n: "0 < n" "n < U32" "length (isPlaced st) = n" "\<forall>v<n. isPlaced st ! v"
  shows "gb_place_last n st = Some (isPlaced st)"
proof (cases "1 < n")
  case True
  then show ?thesis using place_last_ok[OF ip True n(2,3,4)] by (simp add: gb_place_last_def place_last_def)
next
  case False
  then have n1: "n = 1" using n(1) by simp
  have "usub 1 1 = 0" by (simp add: usub_exact)
  moreover have "(isPlaced st)[0 := True] = isPlaced st" using n n1 by (intro nth_equalityI) (auto simp: nth_list_update)
  ultimately show ?thesis using inv_pairD(2)[OF ip] inv_pairD(5)[OF ip, of 0] n(3) n1 by (simp add: gb_place_last_def)
qed

lemma gb_order_clusters_ok:
  assumes pre: "block_pre k cache G"
  shows "ok (gb_order_clusters opts k cache G) (\<lambda>(nm, ni, err). inv_pair (num_clusters k (numVertex G)) nm ni \<and> err = None \<and>
    (maintain opts \<longrightarrow> ni ! 0 = 0))"
proof -
  note p = block_preD[OF pre] and w = wf_csrD[OF block_preD(1)[OF pre]]
  let ?nc = "num_clusters k (numVertex G)"
  note ncl = num_clusters[OF p(6) w(1)]
  have n32: "numVertex G < U32" "?nc < U32" using ncl(2) w(2) by simp_all
  have step: "ok (do { pl \<leftarrow> gb_place_last nc (cstate w); err \<leftarrow> failed_to_place nc pl;
     (nodeMap, nodeId) \<leftarrow> pin_zero (maintain opts) (numVertex G) (nodeMap (cstate w)) (nodeId (cstate w));
     Some (nodeMap, nodeId, err) }) (\<lambda>(nm, ni, err). inv_pair ?nc nm ni \<and> err = None \<and> (maintain opts \<longrightarrow> ni ! 0 = 0))"
    if h: "nc = ?nc \<and> (\<exists>P. place_inv P nc (numVertex G) (\<lambda>_. False) w \<and> minPtr w = nc)" for nc w
  proof -
    obtain P where P: "place_inv P ?nc (numVertex G) (\<lambda>_. False) w" "minPtr w = ?nc" and nc: "nc = ?nc" using h by auto
    note a = loop_done[OF P]
    have l: "gb_place_last nc (cstate w) = Some (isPlaced (cstate w))"
      unfolding nc by (rule gb_place_last_ok[OF a(3) ncl(1) n32(2) a(1,2)])
    have f: "failed_to_place nc (isPlaced (cstate w)) = Some None" unfolding nc by (rule failed_to_place_ok[OF a(1,2)])
    show ?thesis
      unfolding l f Option.bind.simps ok_bind
      by (rule ok_mono[OF pin_zero_ok[OF a(3) ncl(1,2) n32(1), of "maintain opts"]]) auto
  qed
  show ?thesis
    unfolding gb_order_clusters_def gb_place_clusters_eq ok_bind[of "place_clusters k cache G"]
  proof (rule ok_mono[OF place_clusters_ok[OF pre]])
    fix x assume "case x of (nc, w) \<Rightarrow> nc = ?nc \<and> (\<exists>P. place_inv P nc (numVertex G) (\<lambda>_. False) w \<and> minPtr w = nc)"
    then obtain nc w where x: "x = (nc, w)" "nc = ?nc \<and> (\<exists>P. place_inv P nc (numVertex G) (\<lambda>_. False) w \<and> minPtr w = nc)"
      by (cases x) simp
    show "ok (case x of (nc, w) \<Rightarrow> do { pl \<leftarrow> gb_place_last nc (cstate w); err \<leftarrow> failed_to_place nc pl;
     (nodeMap, nodeId) \<leftarrow> pin_zero (maintain opts) (numVertex G) (nodeMap (cstate w)) (nodeId (cstate w));
     Some (nodeMap, nodeId, err) }) (\<lambda>(nm, ni, err). inv_pair ?nc nm ni \<and> err = None \<and> (maintain opts \<longrightarrow> ni ! 0 = 0))"
      unfolding x(1) prod.case by (rule step[OF x(2)])
  qed
qed

lemma gb_expand_ok:
  assumes k: "0 < k" "0 < n" "n < U32 - 1" and ip: "inv_pair (num_clusters k n) nm ni" and z: "maintain opts \<Longrightarrow> ni ! 0 = 0"
  shows "ok (gb_expand opts k n ni n) (\<lambda>(nm', ni'). inv_pair n nm' ni' \<and> ni' = concat (map (members k n) ni) \<and>
    (maintain opts \<longrightarrow> nm' ! 0 = 0))"
proof -
  let ?nc = "num_clusters k n" and ?l = "concat (map (members k n) ni)"
  note ncl = num_clusters[OF k(1,2)] and m = inv_pair_perm(1)[OF ip]
  have nc: "uadd (usub n 1 div k) 1 = ?nc"
  proof -
    have "usub n 1 = n - 1" using k by (intro usub_1) auto
    then show ?thesis using ncl(2) k(3) unfolding num_clusters_def by (subst uadd_exact) auto
  qed
  note e = expand_perm[OF k(1,2) m]
  have "distinct ?l" "set ?l = {..<n}" "length ?l = n"
    using mset_eq_setD[OF e] mset_eq_length[OF e] mset_eq_imp_distinct_iff[OF e] by (auto simp: atLeast0LessThan)
  then obtain nm' where i: "invert_order ?l n = Some nm'" "inv_pair n nm' ?l"
    using invert_order_ok[of ?l n] unfolding ok_iff by blast
  have first: "nm' ! 0 = 0" if mo: "maintain opts"
  proof -
    obtain xs where "ni = 0 # xs" using z[OF mo] inv_pairD(2)[OF ip] ncl(1) by (cases ni) auto
    then have "?l ! 0 = 0" using k by (simp add: members_def nth_append)
    then show ?thesis using inv_pairD(6)[OF i(2) k(2)] by simp
  qed
  have "pin_vertex (maintain opts) n nm' ?l = Some (nm', ?l)"
    using first inv_pairD(1)[OF i(2)] k(2) by (simp add: pin_vertex_def)
  then show ?thesis
    unfolding gb_expand_def nc expand_clusters_ok[OF k m refl] using i first by simp
qed

text \<open>The two steps on one graph: an order of its vertices.\<close>

definition gb_order :: "options \<Rightarrow> u32 \<Rightarrow> u32 \<Rightarrow> graph \<Rightarrow> (u32 list \<times> u32 list) option" where
  "gb_order opts CLSize cache G = do {
     (nm, ni, err) \<leftarrow> gb_order_clusters opts CLSize cache G;
     gb_expand opts CLSize (numVertex G) ni (numVertex G)
   }"

lemma gb_order_ok:
  assumes pre: "block_pre k cache G"
  shows "ok (gb_order opts k cache G) (\<lambda>(nm, ni). inv_pair (numVertex G) nm ni \<and> (maintain opts \<longrightarrow> nm ! 0 = 0) \<and>
    (\<exists>cs. mset cs = mset [0..<num_clusters k (numVertex G)] \<and> ni = concat (map (members k (numVertex G)) cs)))"
  unfolding gb_order_def ok_bind ok_case_prod
proof (rule ok_mono[OF gb_order_clusters_ok[OF pre]])
  note p = block_preD[OF pre] and w = wf_csrD[OF block_preD(1)[OF pre]]
  fix x assume h: "case x of (nm, ni, err) \<Rightarrow> inv_pair (num_clusters k (numVertex G)) nm ni \<and> err = None \<and>
    (maintain opts \<longrightarrow> ni ! 0 = 0)"
  obtain nm ni err where x: "x = (nm, ni, err)" by (cases x)
  have "ok (gb_expand opts k (numVertex G) ni (numVertex G)) (\<lambda>(nm', ni'). inv_pair (numVertex G) nm' ni' \<and>
    ni' = concat (map (members k (numVertex G)) ni) \<and> (maintain opts \<longrightarrow> nm' ! 0 = 0))"
    by (rule gb_expand_ok[OF p(6) w(1,2)]) (use h x in auto)
  then show "case x of (nm, ni, err) \<Rightarrow> ok (gb_expand opts k (numVertex G) ni (numVertex G))
    (\<lambda>(nm, ni). inv_pair (numVertex G) nm ni \<and> (maintain opts \<longrightarrow> nm ! 0 = 0) \<and>
    (\<exists>cs. mset cs = mset [0..<num_clusters k (numVertex G)] \<and> ni = concat (map (members k (numVertex G)) cs)))"
    unfolding x prod.case using h x inv_pair_perm(1)[of _ nm ni] by (elim ok_mono) auto
qed

interpretation gb: node_order "block_pre k cache" "gb_order opts k cache" edge_end for opts k cache
proof
  fix G assume h: "block_pre k cache G"
  show "ok (gb_order opts k cache G) (\<lambda>(nm, ni). inv_pair (numVertex G) nm ni)"
    by (rule ok_mono[OF gb_order_ok[OF h]]) auto
  show "wf_csr G" "\<forall>e \<in> set (take (numEdges G) (EI G)). e < numVertex G"
    using block_preD(1,2)[OF h] .
  show "edge_end G v = Some (eend G v)" if "v < numVertex G" for v
    by (rule edge_end_ok[OF block_preD(1)[OF h] that])
qed

lemma gp_order_ok:
  assumes pre: "ph_pre cache G"
  shows "ok (gp_order opts cache G) (\<lambda>((nm, ni), G2, err). inv_pair (numVertex G) nm ni \<and>
    G2 = csr_graph (numVertex G) (numVertex G) (rev_edges G) \<and> err = None \<and> (maintain opts \<longrightarrow> nm ! 0 = 0))"
  unfolding gp_order_def gp_place_eq ok_bind
proof (rule ok_mono[OF ph_place_ok[OF pre]])
  note p = ph_preD[OF pre] and wf = wf_csrD[OF ph_preD(1)[OF pre]]
  let ?n = "numVertex G" and ?G2 = "csr_graph (numVertex G) (numVertex G) (rev_edges G)"
  fix x assume "case x of (G2, w) \<Rightarrow> G2 = ?G2 \<and> (\<exists>P sk. place_inv P ?n ?n sk w \<and> minPtr w = ?n - 2)"
  then obtain w P sk where x: "x = (?G2, w)" "place_inv P ?n ?n sk w" "minPtr w = ?n - 2"
    by (cases x) auto
  have inv: "model_inv ?n ?n (maxCost P) (parents (parG P) sk) (?n - 2)
    (window P sk (cstate w) (currWinStartId w) (?n - 2)) (cstate w)"
    using x(2,3) unfolding place_inv_def loop_inv_def by metis
  have "ordered ?n (maxCost P) (?n - 2) (cstate w)" using inv by (simp add: model_inv_def)
  then have ip: "inv_pair ?n (nodeMap (cstate w)) (nodeId (cstate w))" by (rule orderedD(4))
  obtain pl where pl: "place_last ?n (cstate w) = Some pl" "length pl = ?n" "\<forall>v<?n. pl ! v"
    using place_last_two[OF inv p(6)] wf(2) by auto
  have nv: "numVertex ?G2 = ?n" by (simp add: csr_graph_def)
  have n: "0 < ?n" "?n \<le> ?n" "?n < U32" using wf(1,2) by auto
  show "ok (case x of (G2, w) \<Rightarrow> do {
     pl \<leftarrow> place_last ?n (cstate w);
     err \<leftarrow> failed_to_place ?n pl;
     r \<leftarrow> pin_zero (maintain opts) (numVertex G2) (nodeMap (cstate w)) (nodeId (cstate w));
     Some (r, G2, err) }) (\<lambda>((nm, ni), G2, err). inv_pair ?n nm ni \<and> G2 = ?G2 \<and> err = None \<and> (maintain opts \<longrightarrow> nm ! 0 = 0))"
    unfolding x(1) prod.case pl(1) Option.bind.simps failed_to_place_ok[OF pl(2,3)] nv ok_bind
    by (rule ok_mono[OF pin_zero_ok[OF ip n, of "maintain opts"]]) auto
qed

interpretation gp: node_order "ph_pre cache" "\<lambda>G. map_option fst (gp_order opts cache G)" ph_row_end for opts cache
proof
  fix G assume h: "ph_pre cache G"
  show "ok (map_option fst (gp_order opts cache G)) (\<lambda>(nm, ni). inv_pair (numVertex G) nm ni)"
    using gp_order_ok[OF h, of opts] by (cases "gp_order opts cache G") auto
  show "wf_csr G" "\<forall>e \<in> set (take (numEdges G) (EI G)). e < numVertex G"
    using ph_preD(1,2)[OF h] by (auto dest: in_set_takeD)
  show "ph_row_end G v = Some (eend G v)" if "v < numVertex G" for v
    by (rule ph_row_end_ok[OF h that])
qed

section \<open>The whole programs\<close>

lemma with_weights_simps [simp]:
  "plain (with_weights G G1) = G" "weights (with_weights G G1) = weights G1" "numVertex (with_weights G G1) = numVertex G"
  by (simp_all add: with_weights_def graph.extend_def graph.truncate_def)

lemma isomorphic_numVertex: "isomorphic_by nm G G' \<Longrightarrow> numVertex G' = numVertex G"
  by (simp add: isomorphic_by_def)

lemma gb_run_ok:
  assumes rows: "rows_ok rows" "length rows < U32" "rows \<noteq> []"
    and pre: "block_pre k cache (graph_of (orient opts (row_edges rows)))" and wr: "writable out"
  shows "\<exists>nm rows'. gb_run opts writable k cache (Some (print_rows (weighted opts) rows)) out =
      Some (0, [(out, print_rows (weighted opts) rows')]) \<and>
    (\<exists>ni. inv_pair (card (ends (row_edges rows))) nm ni) \<and> (maintain opts \<longrightarrow> nm ! 0 = 0) \<and>
    mset rows' = image_mset (final_row opts rows nm) (mset rows)"
proof -
  let ?C = "graph_of (orient opts (row_edges rows))" and ?n = "card (ends (row_edges rows))"
  let ?f = "Some (print_rows (weighted opts) rows)"
  note g = rows_pre(1,2)[OF rows] rows_pre(3-10)[OF rows, where opts = opts]
  obtain G0 where G0: "gb_read_csr opts ?f empty_graph = Some (Some G0)" "reads_rows opts rows G0"
    "\<not> weighted opts \<Longrightarrow> weights G0 = Map.empty"
    using gb_read_csr_ok[OF rows(1,2), of opts empty_graph] by (auto simp: empty_graph_def)
  obtain G1 where G1: "gb_read_csr opts ?f G0 = Some (Some G1)" "reads_rows opts rows G1"
    "\<not> weighted opts \<Longrightarrow> weights G1 = Map.empty"
    using gb_read_csr_ok[OF rows(1,2), of opts G0] G0(3) by auto
  have pl: "plain G0 = ?C" "plain G1 = ?C" using G0(2) G1(2) by (simp_all add: reads_rows_def)
  have n: "numVertex G0 = ?n" "numVertex G1 = ?n" "numEdges G1 = length rows"
    using g(6,7) unfolding pl(1)[symmetric] plain_simps by (simp_all add: pl[symmetric] flip: plain_simps) (simp_all add: pl g)
  let ?G2 = "\<lparr>numVertex = numVertex G1, numEdges = numEdges G1, VI = replicate (numVertex G1) 0, EI = replicate (numEdges G1) 0\<rparr>"
  have "ok (gb_order opts k cache ?C) (\<lambda>(nm, ni). inv_pair ?n nm ni \<and> (maintain opts \<longrightarrow> nm ! 0 = 0))"
    using gb_order_ok[OF pre, of opts] unfolding g(7) by (rule ok_mono) auto
  then obtain nm ni where o: "gb_order opts k cache ?C = Some (nm, ni)" "inv_pair ?n nm ni" "maintain opts \<longrightarrow> nm ! 0 = 0"
    by (auto simp: ok_iff)
  obtain nm0 ni0 err where o2: "gb_order_clusters opts k cache ?C = Some (nm0, ni0, err)" "gb_expand opts k ?n ni0 ?n = Some (nm, ni)"
    using o(1) unfolding gb_order_def g(7) by (auto simp: bind_eq_Some_conv)
  have "ok (do { (nm, ni) \<leftarrow> gb_order opts k cache ?C; G' \<leftarrow> apply_order edge_end ni nm ?C ?G2; Some (nm, ni, G') })
    (\<lambda>(nm, ni, G'). inv_pair (numVertex ?C) nm ni \<and> isomorphic_by nm ?C G')"
    by (rule gb.reorder_isomorphic[OF pre]) (simp_all add: n g(6,7))
  then obtain G' where G': "apply_order edge_end ni nm ?C ?G2 = Some G'" "isomorphic_by nm ?C G'"
    unfolding o(1) by (auto simp: ok_iff bind_eq_Some_conv)
  let ?H = "with_weights G' G1"
  have nH: "numVertex ?H = ?n" using isomorphic_numVertex[OF G'(2)] g(7) by simp
  obtain rows' where r: "edge_rows opts ?H ni = Some (print_rows (weighted opts) rows')" "mset rows' = image_mset (final_row opts rows nm) (mset rows)"
    using written_rows[OF G1(2) rows G1(3), of nm ?H ni] G'(2) o(2) pl(2) n(2) by auto
  have "gb_run opts writable k cache ?f out = Some (0, [(out, print_rows (weighted opts) rows')])"
    unfolding gb_run_def G0(1) Option.bind.simps option.case pl(1) o2(1) prod.case G1(1) n(1,2) o2(2) gb_reorder_def pl(2)
      G'(1)[unfolded n(2)] gb_write_edge_list_def nH invert_order_inv[OF o(2)] r(1)
    using wr by simp
  then show ?thesis using o(2,3) r(2) by blast
qed

lemma gp_run_ok:
  assumes rows: "rows_ok rows" "length rows < U32" "rows \<noteq> []"
    and pre: "ph_pre cache (graph_of (orient opts (row_edges rows)))" and wr: "writable ''newOrder.bin''" "writable out"
  shows "\<exists>nm rows'. gp_run opts writable cache (Some (print_rows (weighted opts) rows)) out =
      Some (0, [(''newOrder.bin'', concat (map le_bytes nm))], [(out, print_rows (weighted opts) rows')]) \<and>
    (\<exists>ni. inv_pair (card (ends (row_edges rows))) nm ni) \<and> (maintain opts \<longrightarrow> nm ! 0 = 0) \<and>
    mset rows' = image_mset (final_row opts rows nm) (mset rows)"
proof -
  let ?C = "graph_of (orient opts (row_edges rows))" and ?n = "card (ends (row_edges rows))"
  let ?f = "Some (print_rows (weighted opts) rows)" and ?G2 = "csr_graph (numVertex (graph_of (orient opts (row_edges rows))))
    (numVertex (graph_of (orient opts (row_edges rows)))) (rev_edges (graph_of (orient opts (row_edges rows))))"
  note g = rows_pre(1,2)[OF rows] rows_pre(3-10)[OF rows, where opts = opts]
  obtain G1 where G1: "gb_read_csr opts ?f empty_graph = Some (Some G1)" "reads_rows opts rows G1"
    "\<not> weighted opts \<Longrightarrow> weights G1 = Map.empty"
    using gb_read_csr_ok[OF rows(1,2), of opts empty_graph] by (auto simp: empty_graph_def)
  have pl: "plain G1 = ?C" using G1(2) by (simp add: reads_rows_def)
  have n: "numVertex G1 = ?n" using g(7) unfolding pl[symmetric] plain_simps .
  obtain nm ni where o: "gp_order opts cache ?C = Some ((nm, ni), ?G2, None)" "inv_pair ?n nm ni" "maintain opts \<longrightarrow> nm ! 0 = 0"
    using gp_order_ok[OF pre, of opts] g(7) by (auto simp: ok_iff)
  have len: "length (rev_edges ?C) = numEdges ?C" by (rule length_rev_edges[OF g(3)])
  have "ok (do { (nm, ni) \<leftarrow> map_option fst (gp_order opts cache ?C); G' \<leftarrow> apply_order ph_row_end ni nm ?C ?G2; Some (nm, ni, G') })
    (\<lambda>(nm, ni, G'). inv_pair (numVertex ?C) nm ni \<and> isomorphic_by nm ?C G')"
    by (rule gp.reorder_isomorphic[OF pre]) (use ph_reverse_arrays[OF pre] in simp_all)
  then obtain G' where G': "apply_order ph_row_end ni nm ?C ?G2 = Some G'" "isomorphic_by nm ?C G'"
    unfolding o(1) by (auto simp: ok_iff bind_eq_Some_conv)
  let ?H = "with_weights G' G1"
  have nH: "numVertex ?H = ?n" using isomorphic_numVertex[OF G'(2)] g(7) by simp
  obtain rows' where r: "edge_rows opts ?H ni = Some (print_rows (weighted opts) rows')" "mset rows' = image_mset (final_row opts rows nm) (mset rows)"
    using written_rows[OF G1(2) rows G1(3), of nm ?H ni] G'(2) o(2) pl n by auto
  have fw: "fwrite_u32 nm ?n = Some (concat (map le_bytes nm))" using inv_pairD(1)[OF o(2)] by (simp add: fwrite_u32_def)
  have "gp_run opts writable cache ?f out = Some (0, [(''newOrder.bin'', concat (map le_bytes nm))], [(out, print_rows (weighted opts) rows')])"
    unfolding gp_run_def gp_read_csr_def G1(1) Option.bind.simps option.case pl o(1) prod.case n gp_dumpNewOrder_def fw
    using wr by (simp add: G'(1) gp_write_edge_list_def nH[unfolded with_weights_simps] invert_order_inv[OF o(2)] r(1))
  then show ?thesis using o(2,3) r(2) by blast
qed

lemma row_order:
  assumes ip: "\<exists>ni. inv_pair (card (ends (row_edges rows))) nm ni"
  shows "bij_betw (\<lambda>v. nm ! vertex_rank (row_ends rows) v) (row_ends rows) {..<card (row_ends rows)}"
    "nm ! 0 = 0 \<Longrightarrow> nm ! vertex_rank (row_ends rows) (Min (row_ends rows)) = 0"
proof -
  let ?V = "row_ends rows"
  have fin: "finite ?V" by (simp add: row_ends_def)
  obtain ni where i: "inv_pair (card ?V) nm ni" using ip unfolding ends_row_edges by blast
  show "bij_betw (\<lambda>v. nm ! vertex_rank ?V v) ?V {..<card ?V}"
    using bij_betw_trans[OF vertex_rank_bij[OF fin] inv_pair_bij[OF i]] by (simp add: comp_def)
  have "{u \<in> ?V. u < Min ?V} = {}" using fin by (auto simp: not_less)
  then have "vertex_rank ?V (Min ?V) = 0" unfolding vertex_rank_def by (simp only: card.empty)
  then show "nm ! 0 = 0 \<Longrightarrow> nm ! vertex_rank ?V (Min ?V) = 0" by simp
qed

lemma parse_options_args: "length pre = first \<Longrightarrow> parse_options first (pre @ ol @ [inp, out]) =
    fold set_option ol \<lparr>weighted = False, maintain = False, indegree = False\<rparr>"
  by (simp add: parse_options_def slice_def)

lemma gb_block_pre:
  assumes rows: "rows_ok rows" "length rows \<le> U32 div 2" and cache: "cache < U32"
    and first: "\<exists>(a, b) \<in> set (orient opts (row_edges rows)). vertex_rank (ends (row_edges rows)) a < k"
  shows "block_pre k cache (graph_of (orient opts (row_edges rows)))"
proof -
  let ?es = "orient opts (row_edges rows)"
  obtain a b where ab: "(a, b) \<in> set ?es" "vertex_rank (ends (row_edges rows)) a < k" using first by blast
  then have ne: "?es \<noteq> []" by auto
  then have ne2: "rows \<noteq> []" by (auto simp: orient row_edges_def)
  have l: "length rows < U32" using rows(2) by simp
  note g = rows_pre(1,2)[OF rows(1) l ne2] rows_pre(3-10)[OF rows(1) l ne2, where opts = opts]
  have l2: "length ?es < U32" using l by (simp add: orient row_edges_def)
  have c: "card (ends ?es) < U32 - 1" using g(1) by (simp add: orient)
  have "0 < cl_start k (graph_of ?es) 1"
    by (rule cl_start_graph[OF ne l2 c ab(1)]) (simp add: orient ab(2))
  moreover have "\<forall>e \<in> set (take (length rows) (EI (graph_of ?es))). e < card (ends (row_edges rows))"
    using g(4) unfolding g(7) by (auto dest: in_set_takeD)
  moreover have "0 < k" using ab(2) by simp
  ultimately show ?thesis
    unfolding block_pre_def g(5,6,7) using g(1,3) rows(2) cache by simp
qed

section \<open>Properties\<close>

text \<open>C17: Block reordering of a weighted graph, from the command line (with the sizes and the options, or with neither) to the
  output file: the rows of the
  output are the rows of the input with the vertices renamed by a bijection onto \<open>0, 1, \<dots>\<close>; with
  \<open>--weighted\<close> every row carries the last weight that the input gives to its edge, with \<open>--indegree\<close> the
  direction of the edges is kept as well, and with \<open>--maintain\<close> the smallest vertex becomes vertex 0. (One of the first
  \<open>CLSize\<close> vertices needs an edge.) The rows are text. (The README of the program documents a binary CSR file instead; the call of
  \<open>write_csr\<close> is commented out in \<open>main\<close>.)\<close>

theorem gb_main_rows:
  defines "opts \<equiv> \<lambda>ol. fold set_option ol \<lparr>weighted = False, maintain = False, indegree = False\<rparr>"
  assumes "fs inp = Some (print_rows (weighted (opts ol)) rows)"
    "argv = [prog, a1, a2] @ ol @ [inp, out] \<and> atoi a1 = Some k \<and> atoi a2 = Some cache \<or>
      argv = [prog, inp, out] \<and> ol = [] \<and> k = 20 \<and> cache = 100000" "cache < U32"
    "\<forall>(a, b, w) \<in> set rows. a < U32 div 2 - 1 \<and> b < U32 div 2 - 1 \<and> w < U32" "length rows \<le> U32 div 2"
    "\<exists>(a, b, w) \<in> set rows. card {v \<in> row_ends rows. v < (if indegree (opts ol) then b else a)} < k" "writable out"
  shows "\<exists>\<pi> rows'. gb_main fs writable argv =
      Some (0, [(out, print_rows (weighted (opts ol)) rows')]) \<and>
    bij_betw \<pi> (row_ends rows) {..<card (row_ends rows)} \<and> (maintain (opts ol) \<longrightarrow> \<pi> (Min (row_ends rows)) = 0) \<and>
    mset rows' = image_mset (\<lambda>(a, b, w). (\<pi> a, \<pi> b,
      if weighted (opts ol) then the (row_weights rows Map.empty (a, b)) else 0)) (mset rows)"
proof -
  let ?o = "opts ol"
  have rows: "rows_ok rows" "length rows < U32" "rows \<noteq> []"
    using assms(5,6,7) by (auto simp: rows_ok_def)
  have first: "\<exists>(a, b) \<in> set (orient ?o (row_edges rows)). vertex_rank (ends (row_edges rows)) a < k"
  proof -
    obtain a b w where ab: "(a, b, w) \<in> set rows" "card {v \<in> row_ends rows. v < (if indegree ?o then b else a)} < k"
      using assms(7) by blast
    have "(if indegree ?o then (b, a) else (a, b)) \<in> set (orient ?o (row_edges rows))"
      using ab(1) by (force simp: orient_def row_edges_def)
    then show ?thesis using ab(2) unfolding ends_row_edges vertex_rank_def by (cases "indegree ?o") auto
  qed
  obtain nm rows' where r: "gb_run ?o writable k cache (fs inp) out = Some (0, [(out, print_rows (weighted ?o) rows')])"
    "\<exists>ni. inv_pair (card (ends (row_edges rows))) nm ni" "maintain ?o \<longrightarrow> nm ! 0 = 0"
    "mset rows' = image_mset (final_row ?o rows nm) (mset rows)"
    using gb_run_ok[where out = out and writable = writable, OF rows gb_block_pre[OF rows(1) assms(6,4) first] assms(8)] unfolding assms(2) by blast
  note v = row_order[OF r(2)]
  have "gb_main fs writable argv = gb_run ?o writable k cache (fs inp) out"
    using assms(3) parse_options_args[of "[prog, a1, a2]" 3 ol inp out]
    by (auto simp: gb_main_def nth_append opts_def numeral_2_eq_2 parse_options_def slice_def)
  then show ?thesis
    using r(1,3,4) v(1,2) unfolding final_row_def ends_row_edges
    by (intro exI[of _ "\<lambda>v. nm ! vertex_rank (row_ends rows) v"] exI[of _ rows']) auto
qed

theorem gb_main_rows_witness:
  "\<exists>(\<pi> :: nat \<Rightarrow> nat) rows'. gb_main [''in'' \<mapsto> print_rows True [(7, 2, 5), (2, 2, 1), (7, 2, 4)]] (\<lambda>_. True)
      [''br'', ''1'', ''100'', ''-w'', ''-m'', ''in'', ''out''] = Some (0, [(''out'', print_rows True rows')]) \<and>
    \<pi> 2 = 0 \<and> mset rows' = {#(\<pi> 7, \<pi> 2, 4), (\<pi> 2, \<pi> 2, 1), (\<pi> 7, \<pi> 2, 4)#}"
proof -
  let ?rows = "[(7, 2, 5), (2, 2, 1), (7, 2, 4)] :: row list"
  have a: "atoi ''1'' = Some 1" "atoi ''100'' = Some 100"
    by (simp_all add: atoi_def scan_d_def scan_sign_def is_space_def is_digit_def decimal_value_def digit_val_def)
  have o: "fold set_option [''-w'', ''-m''] \<lparr>weighted = False, maintain = False, indegree = False\<rparr> =
    \<lparr>weighted = True, maintain = True, indegree = False\<rparr>" by (simp add: set_option_def)
  have V: "row_ends ?rows = {2, 7}" by (auto simp: row_ends_def)
  have "{v \<in> {2, 7 :: nat}. v < 2} = {}" by auto
  then have "\<exists>\<pi> rows'. gb_main [''in'' \<mapsto> print_rows True ?rows] (\<lambda>_. True) ([''br'', ''1'', ''100''] @ [''-w'', ''-m''] @ [''in'', ''out'']) =
      Some (0, [(''out'', print_rows True rows')]) \<and>
    bij_betw \<pi> {2, 7} {..<card {2, 7 :: nat}} \<and> (True \<longrightarrow> \<pi> (Min {2, 7 :: nat}) = 0) \<and>
    mset rows' = image_mset (\<lambda>(a, b, w). (\<pi> a, \<pi> b, if True then the (row_weights ?rows Map.empty (a, b)) else 0)) (mset ?rows)"
    using gb_main_rows[of "[''in'' \<mapsto> print_rows True ?rows]" "''in''" "[''-w'', ''-m'']" ?rows, unfolded V o options.simps, of _ "''br''" "''1''" "''100''" "''out''" 1 100] a
    by simp
  then obtain \<pi> rows' where r: "gb_main [''in'' \<mapsto> print_rows True ?rows] (\<lambda>_. True) ([''br'', ''1'', ''100''] @ [''-w'', ''-m''] @ [''in'', ''out'']) =
      Some (0, [(''out'', print_rows True rows')])" "\<pi> (Min {2, 7 :: nat}) = (0 :: nat)"
    "mset rows' = image_mset (\<lambda>(a, b, w). (\<pi> a, \<pi> b, if True then the (row_weights ?rows Map.empty (a, b)) else 0)) (mset ?rows)"
    by blast
  show ?thesis
    using r by (intro exI[of _ \<pi>] exI[of _ rows']) (simp add: row_weights_def del: One_nat_def)
qed

text \<open>C18: The greedy ordering of a weighted graph, from the command line (with the cache size and the options, or with neither) to
  the output files: for an input with at least
  two vertices the rows of the output are the rows of the input with the vertices renamed by a bijection,
  with the weights kept as by the block reordering, and \<open>newOrder.bin\<close> holds the order in binary. The rows are
  text. (The README of the program documents a binary CSR file and two file names as arguments; the call of \<open>write_csr\<close> is commented
  out in \<open>main\<close>.)\<close>

theorem gp_main_rows:
  defines "opts \<equiv> \<lambda>ol. fold set_option ol \<lparr>weighted = False, maintain = False, indegree = False\<rparr>"
  assumes "fs inp = Some (print_rows (weighted (opts ol)) rows)"
    "argv = [prog, c] @ ol @ [inp, out] \<and> atoi c = Some cache \<or> argv = [prog, inp, out] \<and> ol = [] \<and> cache = 100000" "cache < U32"
    "\<forall>(a, b, w) \<in> set rows. a < U32 div 2 - 1 \<and> b < U32 div 2 - 1 \<and> w < U32" "length rows < U32 - 1"
    "2 \<le> card (row_ends rows)" "writable ''newOrder.bin''" "writable out"
  shows "\<exists>nm \<pi> rows'. gp_main fs writable argv =
      Some (0, [(''newOrder.bin'', concat (map le_bytes nm))], [(out, print_rows (weighted (opts ol)) rows')]) \<and>
    \<pi> = (\<lambda>v. nm ! card {u \<in> row_ends rows. u < v}) \<and>
    bij_betw \<pi> (row_ends rows) {..<card (row_ends rows)} \<and> (maintain (opts ol) \<longrightarrow> \<pi> (Min (row_ends rows)) = 0) \<and>
    mset rows' = image_mset (\<lambda>(a, b, w). (\<pi> a, \<pi> b,
      if weighted (opts ol) then the (row_weights rows Map.empty (a, b)) else 0)) (mset rows)"
proof -
  let ?o = "opts ol"
  have rows: "rows_ok rows" "length rows < U32" "rows \<noteq> []"
    using assms(5,6,7) by (auto simp: rows_ok_def row_ends_def)
  note g = rows_pre(1,2)[OF rows] rows_pre(3-10)[OF rows, where opts = ?o]
  have pre: "ph_pre cache (graph_of (orient ?o (row_edges rows)))"
    unfolding ph_pre_def g(5,6,7,8) using g(1,3,4,9) assms(4,6,7) unfolding g(7) ends_row_edges by simp
  obtain nm rows' where r: "gp_run ?o writable cache (fs inp) out =
      Some (0, [(''newOrder.bin'', concat (map le_bytes nm))], [(out, print_rows (weighted ?o) rows')])"
    "\<exists>ni. inv_pair (card (ends (row_edges rows))) nm ni" "maintain ?o \<longrightarrow> nm ! 0 = 0"
    "mset rows' = image_mset (final_row ?o rows nm) (mset rows)"
    using gp_run_ok[where out = out and writable = writable, OF rows pre assms(8,9)] unfolding assms(2) by blast
  note v = row_order[OF r(2), unfolded vertex_rank_def]
  have "gp_main fs writable argv = gp_run ?o writable cache (fs inp) out"
    using assms(3) parse_options_args[of "[prog, c]" 2 ol inp out]
    by (auto simp: gp_main_def nth_append opts_def numeral_2_eq_2 parse_options_def slice_def)
  then show ?thesis
    using r(1,3,4) v(1,2) unfolding final_row_def ends_row_edges vertex_rank_def
    by (intro exI[of _ nm] exI[of _ "\<lambda>v. nm ! card {u \<in> row_ends rows. u < v}"] exI[of _ rows']) auto
qed

theorem gp_main_rows_witness:
  "\<exists>(\<pi> :: nat \<Rightarrow> nat) rows' bs. gp_main [''in'' \<mapsto> print_rows False [(7, 2, 0), (2, 2, 0)]] (\<lambda>_. True)
      [''ph'', ''100'', ''--indegree'', ''in'', ''out''] = Some (0, [(''newOrder.bin'', bs)], [(''out'', print_rows False rows')]) \<and>
    mset rows' = {#(\<pi> 7, \<pi> 2, 0), (\<pi> 2, \<pi> 2, 0)#}"
proof -
  let ?rows = "[(7, 2, 0), (2, 2, 0)] :: row list"
  have a: "atoi ''100'' = Some 100"
    by (simp add: atoi_def scan_d_def scan_sign_def is_space_def is_digit_def decimal_value_def digit_val_def)
  have o: "fold set_option [''--indegree''] \<lparr>weighted = False, maintain = False, indegree = False\<rparr> =
    \<lparr>weighted = False, maintain = False, indegree = True\<rparr>" by (simp add: set_option_def)
  have V: "row_ends ?rows = {2, 7}" by (auto simp: row_ends_def)
  have "\<exists>nm \<pi> rows'. gp_main [''in'' \<mapsto> print_rows False ?rows] (\<lambda>_. True) ([''ph'', ''100''] @ [''--indegree''] @ [''in'', ''out'']) =
      Some (0, [(''newOrder.bin'', concat (map le_bytes nm))], [(''out'', print_rows False rows')]) \<and>
    \<pi> = (\<lambda>v. nm ! card {u \<in> {2, 7}. u < v}) \<and>
    bij_betw \<pi> {2, 7} {..<card {2, 7 :: nat}} \<and> (False \<longrightarrow> \<pi> (Min {2, 7 :: nat}) = 0) \<and>
    mset rows' = image_mset (\<lambda>(a, b, w). (\<pi> a, \<pi> b, if False then the (row_weights ?rows Map.empty (a, b)) else 0)) (mset ?rows)"
    using gp_main_rows[of "[''in'' \<mapsto> print_rows False ?rows]" "''in''" "[''--indegree'']" ?rows, unfolded V o options.simps, of _ "''ph''" "''100''" "''out''" 100] a
    by simp
  then obtain nm \<pi> rows' where r: "gp_main [''in'' \<mapsto> print_rows False ?rows] (\<lambda>_. True) ([''ph'', ''100''] @ [''--indegree''] @ [''in'', ''out'']) =
      Some (0, [(''newOrder.bin'', concat (map le_bytes nm))], [(''out'', print_rows False rows')])"
    "mset rows' = image_mset (\<lambda>(a, b, w). (\<pi> a, \<pi> b, if False then the (row_weights ?rows Map.empty (a, b)) else 0)) (mset ?rows)"
    by (elim exE conjE) (rule that; assumption)
  show ?thesis
    using r by (intro exI[of _ \<pi>] exI[of _ rows'] exI[of _ "concat (map le_bytes nm)"]) simp
qed

end
