(* ===== verification/CSR_Gen.thy ===== *)
theory CSR_Gen
  imports Program
begin

text \<open>
  The CSR generator \<open>graphReordering/csr_gen\<close>: \<open>main\<close> reads an edge list of \<open>int\<close>s, sorts it by source and
  writes the graph in binary; \<open>graph.cpp\<close> reads, prints, writes and reverses such graphs. Unlike the
  reordering programs it keeps the vertex numbers. \<open>int\<close> values are kept in two's complement; the
  comparisons of \<open>main\<close> are signed, and the loops with an \<open>int\<close> counter are undefined when the counter
  would pass \<open>2^31 - 1\<close>.
\<close>

section \<open>The code\<close>

definition sgt :: "u32 \<Rightarrow> u32 \<Rightarrow> bool" where
  "sgt a b = (if (U32 div 2 \<le> a) = (U32 div 2 \<le> b) then b < a else U32 div 2 \<le> b)"

text \<open>\<open>for (int i = a; i < b; i++)\<close> with an unsigned bound \<open>b\<close>, for \<open>a\<close> below \<open>2^31\<close>.\<close>

definition int_range :: "nat \<Rightarrow> u32 \<Rightarrow> (nat \<Rightarrow> 's \<Rightarrow> 's option) \<Rightarrow> 's \<Rightarrow> 's option" where
  "int_range a b body s = (if U32 div 2 \<le> b then None else for_range a b body s)"

text \<open>The variables of the input loop; \<open>srcVal\<close> and \<open>dstVal\<close> are not initialised.\<close>

record cg_input =
  cg_srcVal :: "u32 option"
  cg_dstVal :: "u32 option"
  cg_numVertex :: u32
  cg_src :: "u32 list"
  cg_dst :: "u32 list"

definition cg_row :: "cg_input \<Rightarrow> cg_input option" where
  "cg_row st = do {
     s \<leftarrow> cg_srcVal st;
     let n = (if sgt s (cg_numVertex st) then s else cg_numVertex st);
     d \<leftarrow> cg_dstVal st;
     let n = (if sgt d n then d else n);
     let st = st\<lparr>cg_numVertex := n\<rparr>;
     Some (if s \<noteq> d then st\<lparr>cg_src := cg_src st @ [s], cg_dst := cg_dst st @ [d]\<rparr> else st)
   }"

partial_function (option) cg_read_rows :: "string \<Rightarrow> cg_input \<Rightarrow> cg_input option" where
  "cg_read_rows s st =
     (if s = [] then Some st
      else do {
        a \<leftarrow> scan_d s;
        case fst a of
          None \<Rightarrow> Some st
        | Some x \<Rightarrow> do {
            b \<leftarrow> scan_d (snd a);
            let st = st\<lparr>cg_srcVal := Some x,
              cg_dstVal := (case fst b of None \<Rightarrow> cg_dstVal st | Some y \<Rightarrow> Some y)\<rparr>;
            st \<leftarrow> cg_row st;
            cg_read_rows (snd b) st
          }
      })"

text \<open>The out-degrees, then the graph: the start of every vertex, then every target at its place.\<close>

definition cg_degrees :: "u32 list \<Rightarrow> u32 \<Rightarrow> u32 \<Rightarrow> u32 list option" where
  "cg_degrees src n m = int_range 0 m (\<lambda>i deg. do {
     s \<leftarrow> aget src i;
     c \<leftarrow> aget deg s;
     aput deg s (uadd c 1)
   }) (replicate n 0)"

definition cg_convert :: "u32 list \<Rightarrow> u32 list \<Rightarrow> u32 list \<Rightarrow> u32 \<Rightarrow> u32 \<Rightarrow> graph option" where
  "cg_convert src dst deg n m = do {
     vi \<leftarrow> int_range 1 n (\<lambda>i vi. do {
       p \<leftarrow> aget vi (i - 1);
       c \<leftarrow> aget deg (i - 1);
       aput vi i (uadd p c)
     }) (replicate n 0);
     deg \<leftarrow> int_range 0 n (\<lambda>i deg. aput deg i 0) deg;
     (ei, deg) \<leftarrow> for_range 0 m (\<lambda>i s. do {
       a \<leftarrow> aget src i;
       b \<leftarrow> aget dst i;
       place vi a b s
     }) (replicate m 0, deg);
     Some \<lparr>numVertex = n, numEdges = m, VI = vi, EI = ei\<rparr>
   }"

definition cg_write_csr :: "graph \<Rightarrow> nat list option" where
  "cg_write_csr G = do {
     vi \<leftarrow> fwrite_u32 (VI G) (numVertex G);
     ei \<leftarrow> fwrite_u32 (EI G) (numEdges G);
     Some (le_bytes (numVertex G) @ le_bytes (numEdges G) @ vi @ ei)
   }"

text \<open>\<open>main\<close>: the exit status (\<open>-1\<close> is 255) and the binary file written, if it can be opened.\<close>

definition cg_main :: "string list \<Rightarrow> file_system \<Rightarrow> (string \<Rightarrow> bool) \<Rightarrow> (nat \<times> (string \<times> nat list) list) option" where
  "cg_main argv fs writable =
     (if length argv \<noteq> 3 then Some (1, [])
      else case fs (argv ! 1) of
        None \<Rightarrow> Some (255, [])
      | Some s \<Rightarrow> do {
          st \<leftarrow> cg_read_rows s \<lparr>cg_srcVal = None, cg_dstVal = None, cg_numVertex = 0, cg_src = [], cg_dst = []\<rparr>;
          let m = length (cg_src st) mod U32;
          n \<leftarrow> (if cg_numVertex st = U32 div 2 - 1 then None else Some (uadd (cg_numVertex st) 1));
          deg \<leftarrow> cg_degrees (cg_src st) n m;
          G \<leftarrow> cg_convert (cg_src st) (cg_dst st) deg n m;
          if writable (argv ! 2) then do {
            bytes \<leftarrow> cg_write_csr G;
            Some (0, [(argv ! 2, bytes)])
          } else Some (0, [])
        })"

text \<open>\<open>fread\<close> of numbers: the ones read, and whether the end of the file was hit. A file that ends before
  its first number leaves \<open>numVertex\<close> indeterminate and the size of the array undefined.\<close>

definition fread_u32 :: "nat list \<Rightarrow> u32 \<Rightarrow> u32 list \<times> nat list \<times> bool" where
  "fread_u32 bs n = (of_le_bytes (take (4 * n) bs), drop (4 * n) bs, length bs < 4 * n)"

definition cg_read_csr :: "nat list option \<Rightarrow> graph option option" where
  "cg_read_csr file = (case file of
     None \<Rightarrow> Some None
   | Some bs \<Rightarrow>
       let (nv, bs, eof1) = fread_u32 bs 1; (ne, bs, eof2) = fread_u32 bs 1 in
       if eof1 then None
       else let (vi, bs, eof3) = fread_u32 bs (hd nv) in
         if eof2 \<or> eof3 then Some None
         else let (ei, bs, eof4) = fread_u32 bs (hd ne) in
           if eof4 then Some None
           else Some (Some \<lparr>numVertex = hd nv, numEdges = hd ne, VI = vi, EI = ei\<rparr>))"

definition cg_printGraph :: "graph \<Rightarrow> string option" where
  "cg_printGraph G = do {
     vi \<leftarrow> int_range 0 (numVertex G) (\<lambda>i s. do { x \<leftarrow> aget (VI G) i; Some (s @ print_d x @ '' '') }) [];
     ei \<leftarrow> int_range 0 (numEdges G) (\<lambda>i s. do { x \<leftarrow> aget (EI G) i; Some (s @ print_d x @ '' '') }) [];
     Some (''number of vertices are '' @ print_d (numVertex G) @ [newline] @
       ''number of edges are '' @ print_d (numEdges G) @ [newline] @ vi @ [newline] @ ei @ [newline])
   }"

text \<open>The placement step of \<open>createReverseCSR\<close>: \<open>tempId\<close> is an array of \<open>int\<close>.\<close>

definition cg_place :: "u32 list \<Rightarrow> u32 \<Rightarrow> u32 \<Rightarrow> u32 list \<times> u32 list \<Rightarrow> (u32 list \<times> u32 list) option" where
  "cg_place vi a b s = do {
     base \<leftarrow> aget vi a;
     c \<leftarrow> aget (snd s) a;
     ei' \<leftarrow> aput (fst s) (uadd base c) b;
     if c = U32 div 2 - 1 then None
     else do {
       cnt' \<leftarrow> aput (snd s) a (uadd c 1);
       Some (ei', cnt')
     }
   }"

definition cg_createReverseCSR :: "graph \<Rightarrow> graph option" where
  "cg_createReverseCSR G1 = do {
     let n = numVertex G1;
     let m = numEdges G1;
     vi \<leftarrow> for_range 0 m (\<lambda>i vi. do {
       e \<leftarrow> aget (EI G1) i;
       if e < usub n 1 then do {
         c \<leftarrow> aget vi (uadd e 1);
         aput vi (uadd e 1) (uadd c 1)
       } else Some vi
     }) (replicate n 0);
     vi \<leftarrow> int_range 1 n (\<lambda>i vi. do {
       a \<leftarrow> aget vi i;
       b \<leftarrow> aget vi (i - 1);
       aput vi i (uadd a b)
     }) vi;
     (ei, tempId) \<leftarrow> for_range 0 n (\<lambda>i s. do {
       maxId \<leftarrow> edge_end G1 i;
       j0 \<leftarrow> aget (VI G1) i;
       for_range j0 maxId (\<lambda>j s. do {
         node \<leftarrow> aget (EI G1) j;
         cg_place vi node i s
       }) s
     }) (replicate m 0, replicate n 0);
     Some \<lparr>numVertex = n, numEdges = m, VI = vi, EI = ei\<rparr>
   }"


section \<open>Reading the rows\<close>

lemma int_range_ok: "b < U32 div 2 \<Longrightarrow> int_range a b body s = for_range a b body s"
  by (simp add: int_range_def)

lemma sgt_nonneg: "a < U32 div 2 \<Longrightarrow> b < U32 div 2 \<Longrightarrow> sgt a b \<longleftrightarrow> b < a"
  by (auto simp: sgt_def)

lemma sgt_neg: "U32 div 2 \<le> a \<Longrightarrow> b < U32 div 2 \<Longrightarrow> \<not> sgt a b"
  by (auto simp: sgt_def)

fun cg_step :: "nat \<times> nat \<Rightarrow> cg_input \<Rightarrow> cg_input" where
  "cg_step (a, b) st = st\<lparr>cg_srcVal := Some a, cg_dstVal := Some b,
     cg_numVertex := max b (max a (cg_numVertex st)),
     cg_src := cg_src st @ (if a \<noteq> b then [a] else []),
     cg_dst := cg_dst st @ (if a \<noteq> b then [b] else [])\<rparr>"

lemma cg_read_newline: "cg_read_rows (newline # s) st = cg_read_rows s st"
proof (cases "s = []")
  case True
  then show ?thesis by (simp add: cg_read_rows.simps scan_blank)
next
  case False
  then show ?thesis by (subst (1 2) cg_read_rows.simps) (simp add: scan_space)
qed

text \<open>A row of two numbers, negative ones included.\<close>

lemma cg_read_row:
  assumes "a < U32" "b < U32"
  shows "cg_read_rows (edge_line a b @ s) st =
    do { st \<leftarrow> cg_row (st\<lparr>cg_srcVal := Some a, cg_dstVal := Some b\<rparr>); cg_read_rows s st }"
proof -
  have l: "edge_line a b @ s = print_d a @ CHR '' '' # print_d b @ newline # s" by (simp add: edge_line_def)
  have c1: "scan_d (edge_line a b @ s) = Some (Some a, CHR '' '' # print_d b @ newline # s)"
    unfolding l by (rule scan_print) (use assms in auto)
  have c2: "scan_d (CHR '' '' # print_d b @ newline # s) = Some (Some b, newline # s)"
    using assms by (simp add: scan_space scan_print)
  have ne: "edge_line a b @ s \<noteq> []" unfolding l by simp
  have nl: "cg_read_rows (newline # s) = cg_read_rows s" by (rule ext) (rule cg_read_newline)
  show ?thesis using ne c1 c2 by (subst cg_read_rows.simps) (simp add: Let_def nl del: append_is_Nil_conv)
qed

lemma cg_row_step:
  assumes "a < U32 div 2" "b < U32 div 2" "cg_numVertex st < U32 div 2"
  shows "cg_row (st\<lparr>cg_srcVal := Some a, cg_dstVal := Some b\<rparr>) = Some (cg_step (a, b) st)"
  using assms by (auto simp: cg_row_def Let_def sgt_nonneg max_def)

lemma cg_read_edges:
  assumes "\<forall>(a, b) \<in> set es. a < U32 div 2 \<and> b < U32 div 2" "cg_numVertex st < U32 div 2"
  shows "cg_read_rows (print_edges es) st = Some (fold cg_step es st)"
  using assms
proof (induction es arbitrary: st)
  case Nil
  then show ?case by (simp add: print_edges_def cg_read_rows.simps)
next
  case (Cons e es)
  obtain a b where e: "e = (a, b)" by force
  have "a < U32 div 2" "b < U32 div 2" using Cons.prems e by auto
  moreover from this have "a < U32" "b < U32" by simp_all
  moreover have "print_edges (e # es) = edge_line a b @ print_edges es" by (simp add: print_edges_def e)
  ultimately show ?case
    using Cons cg_read_row[of a b "print_edges es" st] cg_row_step[of a b st] by (simp add: e)
qed

definition top_vertex :: "(nat \<times> nat) list \<Rightarrow> nat" where
  "top_vertex es = Max (insert 0 (ends es))"

lemma top_vertex_bounds:
  "(a, b) \<in> set es \<Longrightarrow> a \<le> top_vertex es \<and> b \<le> top_vertex es"
  "\<forall>(a, b) \<in> set es. a < k \<and> b < k \<Longrightarrow> 0 < k \<Longrightarrow> top_vertex es < k"
proof -
  have f: "finite (insert 0 (ends es))" using finite_ends by simp
  show "(a, b) \<in> set es \<Longrightarrow> a \<le> top_vertex es \<and> b \<le> top_vertex es"
    unfolding top_vertex_def by (intro conjI Max_ge[OF f]) (force simp: ends_def)+
  show "\<forall>(a, b) \<in> set es. a < k \<and> b < k \<Longrightarrow> 0 < k \<Longrightarrow> top_vertex es < k"
    unfolding top_vertex_def by (subst Max_less_iff[OF f]) (auto simp: ends_def)
qed

lemma fold_cg_step:
  "cg_src (fold cg_step es st) = cg_src st @ map fst (no_loops es)"
  "cg_dst (fold cg_step es st) = cg_dst st @ map snd (no_loops es)"
  "cg_numVertex st = 0 \<Longrightarrow> cg_numVertex (fold cg_step es st) = top_vertex es"
proof -
  show "cg_src (fold cg_step es st) = cg_src st @ map fst (no_loops es)"
    "cg_dst (fold cg_step es st) = cg_dst st @ map snd (no_loops es)"
    by (induction es arbitrary: st) (auto simp: no_loops_def)
  have "cg_numVertex (fold cg_step es st) = Max (insert (cg_numVertex st) (ends es))" for es
  proof (induction es arbitrary: st)
    case (Cons e es)
    obtain a b where e: "e = (a, b)" by force
    have i: "insert n (ends (e # es)) = insert n (insert a (insert b (ends es)))" for n by (auto simp: ends_def e)
    have f: "finite (insert a (insert b (ends es)))" using finite_ends by simp
    show ?case unfolding i using Cons[of "cg_step e st"] finite_ends[of es]
      by (cases "ends es = {}") (auto simp: e Max_insert ac_simps)
  qed (simp add: ends_def)
  then show "cg_numVertex st = 0 \<Longrightarrow> cg_numVertex (fold cg_step es st) = top_vertex es"
    by (simp add: top_vertex_def)
qed

section \<open>The conversion\<close>

lemma cg_degrees_ok:
  assumes "length src < U32 div 2" "\<And>s. s \<in> set src \<Longrightarrow> s < n"
  shows "cg_degrees src n (length src) = Some (map (count_list src) [0..<n])"
  unfolding cg_degrees_def int_range_ok[OF assms(1)]
  by (subst for_range_nth[where xs = src and f = "\<lambda>x c. do { k \<leftarrow> aget c x; aput c x (uadd k 1) }"])
    (use assms count_all[of src n] in simp_all)

lemma cg_convert_ok:
  assumes len: "length ps < U32 div 2" and n: "0 < n" "n < U32 div 2" and ps: "\<And>p. p \<in> set ps \<Longrightarrow> fst p < n"
  shows "cg_convert (map fst ps) (map snd ps) (map (count_list (map fst ps)) [0..<n]) n (length ps) = Some (csr_graph n n ps)"
proof -
  let ?deg = "map (count_list (map fst ps)) [0..<n]" and ?vi = "map (starts ps) [0..<n]"
  have "for_range 1 n (\<lambda>i vi. do { p \<leftarrow> aget vi (i - 1); c \<leftarrow> aget ?deg (i - 1); aput vi i (uadd p c) }) (replicate n 0) =
    for_range 1 (n - 1 + 1) (\<lambda>i vi. do { p \<leftarrow> aget vi (usub i 1); c \<leftarrow> aget ?deg (usub i 1); aput vi i (uadd p c) }) (replicate n 0)"
    unfolding for_range_def using n by (intro mfold_cong) (auto simp: usub_1)
  also have "\<dots> = Some (map (starts ps) [0..<n - 1 + 1])"
    by (rule prefix_sums) (use n len in \<open>auto simp: length_bucket_count\<close>)
  finally have vi: "int_range 1 n (\<lambda>i vi. do { p \<leftarrow> aget vi (i - 1); c \<leftarrow> aget ?deg (i - 1); aput vi i (uadd p c) })
      (replicate n 0) = Some ?vi"
    using n by (simp add: int_range_ok del: upt_Suc)
  have zero: "int_range 0 n (\<lambda>i deg. aput deg i 0) ?deg = Some (replicate n 0)"
    unfolding int_range_ok[OF n(2)] by (subst for_range_fill) (auto simp: map_replicate_const)
  have "for_range 0 (length ps) (\<lambda>i s. do { a \<leftarrow> aget (map fst ps) i; b \<leftarrow> aget (map snd ps) i; place ?vi a b s })
      (replicate (length ps) 0, replicate n 0) =
    mfold (\<lambda>(a, b). place ?vi a b) ps (replicate (length ps) 0, replicate n 0)"
    by (rule for_range_nth) (simp_all add: split_def)
  also have "\<dots> = Some (csr_of n ps, map (\<lambda>v. length (bucket ps v)) [0..<n])"
    by (rule place_all[OF ps]) (use len in simp_all)
  finally show ?thesis
    unfolding cg_convert_def vi zero by (simp add: csr_graph_def)
qed

section \<open>Binary files\<close>

lemma of_le_bytes_le: "\<forall>v \<in> set vs. v < U32 \<Longrightarrow> of_le_bytes (concat (map le_bytes vs)) = vs"
  using of_le_bytes_append[of vs "[]"] by simp

lemma fread_fwrite:
  assumes "\<forall>v \<in> set vs. v < U32" "length vs = n"
  shows "fread_u32 (concat (map le_bytes vs) @ bs) n = (vs, bs, False)"
  using assms of_le_bytes_le[of vs] by (simp add: fread_u32_def)

lemma fread_fwrite1: "v < U32 \<Longrightarrow> fread_u32 (le_bytes v @ bs) 1 = ([v], bs, False)"
  using fread_fwrite[of "[v]" 1 bs] by simp

lemma cg_read_write:
  assumes "numVertex G < U32" "numEdges G < U32" "length (VI G) = numVertex G" "length (EI G) = numEdges G"
    "\<forall>v \<in> set (VI G) \<union> set (EI G). v < U32"
  shows "\<exists>bs. cg_write_csr G = Some bs \<and> cg_read_csr (Some bs) = Some (Some G) \<and>
    length bs = 4 * (numVertex G + numEdges G + 2)"
proof -
  let ?bs = "le_bytes (numVertex G) @ le_bytes (numEdges G) @ concat (map le_bytes (VI G)) @ concat (map le_bytes (EI G))"
  have w: "cg_write_csr G = Some ?bs" using assms(3,4) by (simp add: cg_write_csr_def fwrite_u32_def)
  have e: "fread_u32 (concat (map le_bytes (EI G))) (numEdges G) = (EI G, [], False)"
    using fread_fwrite[of "EI G" "numEdges G" "[]"] assms by simp
  have "cg_read_csr (Some ?bs) = Some (Some G)"
    using assms e by (simp add: cg_read_csr_def fread_fwrite1 fread_fwrite del: One_nat_def)
  then show ?thesis using w assms(3,4) by simp
qed

section \<open>The reverse graph\<close>

lemma cg_place_all:
  assumes "\<forall>c \<in> set (snd s). c + length ps < U32 div 2"
  shows "mfold (\<lambda>(a, b). cg_place vi a b) ps s = mfold (\<lambda>(a, b). place vi a b) ps s"
  using assms
proof (induction ps arbitrary: s)
  case (Cons p ps)
  obtain a b where p: "p = (a, b)" by force
  show ?case
  proof (cases "place vi a b s")
    case None
    then have "cg_place vi a b s = None"
      by (cases s) (auto simp: place_def cg_place_def split: Option.bind_splits)
    then show ?thesis using None by (simp add: p)
  next
    case (Some s')
    then have a: "a < length (snd s)" by (auto simp: place_def aget_def split: Option.bind_splits if_splits)
    then have c: "snd s ! a + Suc (length ps) < U32 div 2" using Cons.prems by auto
    then have cg: "cg_place vi a b s = Some s'"
      using Some a by (auto simp: place_def cg_place_def split: Option.bind_splits)
    have "snd s' = (snd s)[a := Suc (snd s ! a)]"
      using Some a c by (auto simp: place_def uadd_exact split: Option.bind_splits)
    then have "\<forall>c \<in> set (snd s'). c + length ps < U32 div 2"
      using Cons.prems c set_update_subset_insert[of "snd s" a "Suc (snd s ! a)"] by fastforce
    then show ?thesis using Cons.IH Some cg by (simp add: p)
  qed
qed simp

lemma cg_createReverseCSR_ok:
  assumes wf: "wf_csr G" and n: "numVertex G < U32 div 2" "numEdges G < U32 div 2"
    and ei: "\<And>e. e \<in> set (take (numEdges G) (EI G)) \<Longrightarrow> e < numVertex G"
  shows "cg_createReverseCSR G = Some (csr_graph (numVertex G) (numVertex G) (rev_edges G))"
proof -
  let ?ps = "rev_edges G" and ?m = "numEdges G" and ?n = "numVertex G"
  let ?vi = "map (starts ?ps) [0..<?n]"
  note n0 = wf_csrD(1)[OF wf]
  have n32: "?n < U32" using n(1) by simp
  have len: "length ?ps = ?m" by (rule length_rev_edges[OF wf])
  obtain vi0 where l1: "for_range 0 ?m (\<lambda>i vi. do {
       e \<leftarrow> aget (EI G) i;
       if e < usub ?n 1 then do { c \<leftarrow> aget vi (uadd e 1); aput vi (uadd e 1) (uadd c 1) } else Some vi
     }) (replicate ?n 0) = Some vi0"
    and vi0: "length vi0 = ?n" "vi0 ! 0 = 0" "\<And>v. Suc v < ?n \<Longrightarrow> vi0 ! Suc v = length (bucket ?ps v)"
    using reverse_count_loop[OF wf n0 n32 ei] by auto
  have "for_range 1 ?n (\<lambda>i vi. do { a \<leftarrow> aget vi i; b \<leftarrow> aget vi (i - 1); aput vi i (uadd a b) }) vi0 =
    for_range 1 ?n (\<lambda>i vi. do { a \<leftarrow> aget vi i; b \<leftarrow> aget vi (usub i 1); aput vi i (uadd a b) }) vi0"
    unfolding for_range_def using n32 by (intro mfold_cong) (auto simp: usub_1)
  also have "\<dots> = Some ?vi"
    by (rule reverse_prefix) (use vi0 n0 n32 n(2) len in simp_all)
  finally have l2: "int_range 1 ?n (\<lambda>i vi. do { a \<leftarrow> aget vi i; b \<leftarrow> aget vi (i - 1); aput vi i (uadd a b) }) vi0 = Some ?vi"
    unfolding int_range_ok[OF n(1)] .
  have "mfold (\<lambda>(node, i). cg_place ?vi node i) ?ps (replicate ?m 0, replicate ?n 0) =
    mfold (\<lambda>(node, i). place ?vi node i) ?ps (replicate ?m 0, replicate ?n 0)"
    by (rule cg_place_all) (use n(2) len in auto)
  also have "\<dots> = Some (csr_of ?n ?ps, map (\<lambda>v. length (bucket ?ps v)) [0..<?n])"
    by (rule place_all[OF rev_edges_targets[OF wf ei]]) (use n(2) len in simp_all)
  finally show ?thesis
    unfolding cg_createReverseCSR_def Let_def l1 Option.bind.simps l2 edge_end_loop[OF wf]
    by (simp only: prod.case Option.bind.simps csr_graph_def len)
qed

section \<open>The program\<close>

lemma csr_graph_values:
  assumes "n < U32" "length ps < U32" "\<And>p. p \<in> set ps \<Longrightarrow> snd p < U32" "\<And>p. p \<in> set ps \<Longrightarrow> fst p < n"
  shows "numVertex (csr_graph n n ps) < U32" "numEdges (csr_graph n n ps) < U32"
    "length (VI (csr_graph n n ps)) = numVertex (csr_graph n n ps)"
    "length (EI (csr_graph n n ps)) = numEdges (csr_graph n n ps)"
    "\<forall>v \<in> set (VI (csr_graph n n ps)) \<union> set (EI (csr_graph n n ps)). v < U32"
proof -
  show "length (EI (csr_graph n n ps)) = numEdges (csr_graph n n ps)"
    using starts_all[OF assms(4) order.refl] by (simp add: csr_graph_def length_csr_of)
  show "\<forall>v \<in> set (VI (csr_graph n n ps)) \<union> set (EI (csr_graph n n ps)). v < U32"
    using csr_of_targets[OF assms(3), of ps _ n] le_less_trans[OF starts_le[of ps] assms(2)]
    by (auto simp: csr_graph_def)
qed (use assms in \<open>simp_all add: csr_graph_def\<close>)

lemma cg_main_ok:
  assumes es: "\<forall>(a, b) \<in> set es. a < U32 div 2 - 1 \<and> b < U32 div 2 - 1" "length es < U32 div 2"
    and fs: "fs i = Some (print_edges es)"
  defines "G \<equiv> csr_graph (top_vertex es + 1) (top_vertex es + 1) (no_loops es)"
  shows "cg_main [p, i, f] fs writable =
      (if writable f then do { bs \<leftarrow> cg_write_csr G; Some (0, [(f, bs)]) } else Some (0, []))"
    "top_vertex es + 1 < U32 div 2" "length (no_loops es) < U32 div 2"
    "q \<in> set (no_loops es) \<Longrightarrow> fst q < top_vertex es + 1" "q \<in> set (no_loops es) \<Longrightarrow> snd q < top_vertex es + 1"
proof -
  let ?es = "no_loops es" and ?n = "top_vertex es + 1"
  let ?st = "\<lparr>cg_srcVal = None, cg_dstVal = None, cg_numVertex = 0, cg_src = [], cg_dst = []\<rparr>"
  have top: "top_vertex es < U32 div 2 - 1" by (rule top_vertex_bounds(2)) (use es(1) in auto)
  then show n: "?n < U32 div 2" by simp
  show l: "length ?es < U32 div 2"
    using es(2) length_filter_le[of "\<lambda>(a, b). a \<noteq> b" es] unfolding no_loops_def by linarith
  show q: "fst q < ?n" "snd q < ?n" if "q \<in> set ?es" for q
    using top_vertex_bounds(1)[of "fst q" "snd q" es] that by (auto simp: no_loops_def)
  have "cg_read_rows (print_edges es) ?st = Some (fold cg_step es ?st)"
    by (rule cg_read_edges) (use es(1) in auto)
  moreover have d: "cg_degrees (map fst ?es) ?n (length ?es) = Some (map (count_list (map fst ?es)) [0..<?n])"
    using cg_degrees_ok[of "map fst ?es" ?n] l q by fastforce
  moreover have c: "cg_convert (map fst ?es) (map snd ?es) (map (count_list (map fst ?es)) [0..<?n]) ?n (length ?es) = Some G"
    unfolding G_def by (rule cg_convert_ok) (use l n q in auto)
  moreover have "length ?es mod U32 = length ?es" using l by simp
  ultimately show "cg_main [p, i, f] fs writable =
      (if writable f then do { bs \<leftarrow> cg_write_csr G; Some (0, [(f, bs)]) } else Some (0, []))"
    using top fs by (simp add: cg_main_def fold_cg_step uadd_exact Let_def del: upt_Suc)
qed

section \<open>Properties\<close>

text \<open>C20: Round trip through a binary file: \<open>read_csr\<close> reads back exactly the graph that \<open>write_csr\<close> wrote.\<close>

theorem cg_csr_roundtrip:
  assumes "numVertex G < U32" "numEdges G < U32" "length (VI G) = numVertex G" "length (EI G) = numEdges G"
    "\<forall>v \<in> set (VI G) \<union> set (EI G). v < U32"
  shows "\<exists>bs. cg_write_csr G = Some bs \<and> cg_read_csr (Some bs) = Some (Some G)"
  using cg_read_write[OF assms] by auto

theorem cg_csr_roundtrip_witness:
  "\<exists>bs. cg_write_csr \<lparr>numVertex = 2, numEdges = 3, VI = [0, 2], EI = [1, 0, 70000]\<rparr> = Some bs \<and>
    cg_read_csr (Some bs) = Some (Some \<lparr>numVertex = 2, numEdges = 3, VI = [0, 2], EI = [1, 0, 70000]\<rparr>)"
  by (rule cg_csr_roundtrip) simp_all

text \<open>C19: The whole generator: from the text of an edge list it writes a binary file that \<open>read_csr\<close> reads
  back as a well-formed graph over \<open>0 \<dots> max\<close>, in which every vertex keeps its number and lists the targets
  of its rows in input order, self loops dropped.\<close>

theorem cg_main_writes_graph:
  assumes "\<forall>(a, b) \<in> set es. a < U32 div 2 - 1 \<and> b < U32 div 2 - 1" "length es < U32 div 2"
    "fs i = Some (print_edges es)" "writable f"
  shows "\<exists>bs G. cg_main [p, i, f] fs writable = Some (0, [(f, bs)]) \<and> cg_read_csr (Some bs) = Some (Some G) \<and>
    wf_csr G \<and> numVertex G = Max (insert 0 (ends es)) + 1 \<and>
    (\<forall>v < numVertex G. adj G v = [b. (a, b) \<leftarrow> es, a = v, a \<noteq> b]) \<and>
    mset (edges G) = filter_mset (\<lambda>(a, b). a \<noteq> b) (mset es)"
proof -
  let ?n = "top_vertex es + 1" and ?es = "no_loops es"
  let ?G = "csr_graph ?n ?n ?es"
  note c1 = cg_main_ok(1)[of es fs i p f writable, OF assms(1-3)]
  note c = c1 cg_main_ok(2-)[of es fs i, OF assms(1-3)]
  have n32: "?n < U32 - 1" "length ?es < U32" using c(2,3) by simp_all
  have u: "snd q < U32" if "q \<in> set ?es" for q using c(2) c(5)[OF that] by linarith
  note g = csr_graph[of ?n ?es ?n, OF _ n32 order.refl c(4)]
  obtain bs where bs: "cg_write_csr ?G = Some bs" "cg_read_csr (Some bs) = Some (Some ?G)"
    using cg_read_write[OF csr_graph_values[of ?n ?es, OF _ n32(2) u c(4)]] n32(1) by auto
  have b: "[b. (a, b) \<leftarrow> es, a = v, a \<noteq> b] = bucket (no_loops es) v" for v and es :: "(nat \<times> nat) list"
    by (induction es) (auto simp: no_loops_def split: if_splits)
  show ?thesis
  proof (intro exI conjI)
    show "cg_main [p, i, f] fs writable = Some (0, [(f, bs)])" using c(1) bs(1) assms(4) by simp
    show "cg_read_csr (Some bs) = Some (Some ?G)" by (rule bs(2))
    show "wf_csr ?G" by (rule g(1)) simp
    show "numVertex ?G = Max (insert 0 (ends es)) + 1" by (simp add: csr_graph_def top_vertex_def)
    show "\<forall>v < numVertex ?G. adj ?G v = [b. (a, b) \<leftarrow> es, a = v, a \<noteq> b]"
    proof (intro allI impI)
      fix v assume "v < numVertex ?G"
      then have "v < ?n" by (simp add: csr_graph_def)
      then show "adj ?G v = [b. (a, b) \<leftarrow> es, a = v, a \<noteq> b]" unfolding b by (intro g(2)) simp_all
    qed
    show "mset (edges ?G) = filter_mset (\<lambda>(a, b). a \<noteq> b) (mset es)"
      by (subst g(3)) (simp_all add: no_loops_def)
  qed
qed

theorem cg_main_writes_graph_witness:
  "\<exists>bs G. cg_main [''csr_gen'', ''in'', ''out''] (\<lambda>_. Some (print_edges [(2, 1), (0, 2), (2, 2), (2, 0)])) (\<lambda>_. True) =
      Some (0, [(''out'', bs)]) \<and> cg_read_csr (Some bs) = Some (Some G) \<and> wf_csr G \<and>
    mset (edges G) = {#(2, 1), (0, 2), (2, 0)#}"
  using cg_main_writes_graph[of "[(2, 1), (0, 2), (2, 2), (2, 0)]" "\<lambda>_. Some (print_edges [(2, 1), (0, 2), (2, 2), (2, 0)])"
    "''in''" "\<lambda>_. True" "''out''" "''csr_gen''"] by auto

text \<open>\<open>createReverseCSR\<close> of a graph below the \<open>int\<close> limits: the edges with both ends exchanged, over the
  same vertices.\<close>

theorem cg_createReverseCSR_converse:
  assumes "wf_csr G" "numVertex G < U32 div 2" "numEdges G < U32 div 2" "\<forall>e \<in> set (take (numEdges G) (EI G)). e < numVertex G"
  shows "\<exists>G2. cg_createReverseCSR G = Some G2 \<and> numVertex G2 = numVertex G \<and> wf_csr G2 \<and>
    mset (edges G2) = mset (map prod.swap (edges G))"
proof -
  have ei: "\<And>e. e \<in> set (take (numEdges G) (EI G)) \<Longrightarrow> e < numVertex G" using assms(4) by blast
  note g = csr_graph[of "numVertex G" "rev_edges G" "numVertex G"]
  show ?thesis
    using cg_createReverseCSR_ok[OF assms(1-3) ei] g(1,3) wf_csrD(1-3)[OF assms(1)] length_rev_edges[OF assms(1)]
      rev_edges_targets[OF assms(1) ei]
    by (intro exI[of _ "csr_graph (numVertex G) (numVertex G) (rev_edges G)"]) (simp add: csr_graph_def)
qed

theorem cg_createReverseCSR_converse_witness:
  "\<exists>G2. cg_createReverseCSR \<lparr>numVertex = 2, numEdges = 3, VI = [0, 2], EI = [1, 1, 0]\<rparr> = Some G2 \<and>
    numVertex G2 = 2 \<and> mset (edges G2) = {#(1, 0), (1, 0), (0, 1)#}"
proof -
  let ?G = "\<lparr>numVertex = 2, numEdges = 3, VI = [0, 2], EI = [1, 1, 0 :: nat]\<rparr>"
  have "wf_csr ?G" by (simp add: wf_csr_eval eend_def upt_rec)
  moreover have "edges ?G = [(0, 1), (0, 1), (1, 0)]"
    by (simp add: edges_def adj_def eend_def slice_def numeral_2_eq_2 upt_rec)
  ultimately show ?thesis using cg_createReverseCSR_converse[of ?G] by auto
qed

text \<open>A file that is cut short is refused: \<open>read_csr\<close> returns \<open>-1\<close> for every proper prefix of a
  written graph that holds at least the first number.\<close>

theorem cg_read_csr_truncated:
  assumes "numVertex G < U32" "numEdges G < U32" "length (VI G) = numVertex G" "length (EI G) = numEdges G"
    "\<forall>v \<in> set (VI G) \<union> set (EI G). v < U32" "cg_write_csr G = Some bs" "4 \<le> k" "k < length bs"
  shows "cg_read_csr (Some (take k bs)) = Some None"
proof -
  let ?n = "numVertex G" and ?m = "numEdges G"
  let ?vi = "concat (map le_bytes (VI G))" and ?ei = "concat (map le_bytes (EI G))"
  have bs: "bs = le_bytes ?n @ le_bytes ?m @ ?vi @ ?ei"
    using assms(3,4,6) by (simp add: cg_write_csr_def fwrite_u32_def)
  have k: "k < 8 + 4 * ?n + 4 * ?m" using assms(3,4,8) by (simp add: bs)
  define r where "r = take (k - 8) (?vi @ ?ei)"
  have t: "take k bs = le_bytes ?n @ take (k - 4) (le_bytes ?m) @ r"
    using assms(7) by (simp add: bs r_def)
  have f1: "fread_u32 (take k bs) 1 = ([?n], take (k - 4) (le_bytes ?m) @ r, False)"
    unfolding t by (rule fread_fwrite1[OF assms(1)])
  show ?thesis
  proof (cases "k < 8")
    case True
    then have "r = []" "k - 4 < 4" using assms(7) by (simp_all add: r_def)
    then show ?thesis unfolding cg_read_csr_def option.case f1 by (simp add: fread_u32_def Let_def)
  next
    case False
    then have f2: "fread_u32 (take (k - 4) (le_bytes ?m) @ r) 1 = ([?m], r, False)"
      using fread_fwrite1[OF assms(2), of r] by simp
    have l: "length r < 4 * ?n + 4 * ?m" using k False by (simp add: r_def)
    show ?thesis
      unfolding cg_read_csr_def option.case f1 Let_def prod.case f2 using l by (simp add: fread_u32_def) linarith
  qed
qed

theorem cg_read_csr_truncated_witness:
  "\<exists>bs. cg_write_csr \<lparr>numVertex = 1, numEdges = 1, VI = [0], EI = [0]\<rparr> = Some bs \<and>
    cg_read_csr (Some (take 15 bs)) = Some None"
proof -
  let ?G = "\<lparr>numVertex = 1, numEdges = 1, VI = [0], EI = [0]\<rparr>"
  obtain bs where bs: "cg_write_csr ?G = Some bs" "length bs = 16"
    by (simp add: cg_write_csr_def fwrite_u32_def)
  have "cg_read_csr (Some (take 15 bs)) = Some None"
    by (rule cg_read_csr_truncated[of ?G]) (use bs in simp_all)
  then show ?thesis using bs(1) by blast
qed

text \<open>A row whose source is a negative \<open>int\<close> is not rejected: the program counts its degree outside the
  array, which is undefined.\<close>

theorem cg_main_negative_source:
  assumes "U32 div 2 \<le> a" "a < U32" "b < U32 div 2 - 1" "fs i = Some (print_edges [(a, b)])"
  shows "cg_main [p, i, f] fs writable = None"
proof -
  let ?st = "\<lparr>cg_srcVal = None, cg_dstVal = None, cg_numVertex = 0, cg_src = [], cg_dst = []\<rparr>"
  have l: "print_edges [(a, b)] = edge_line a b @ []" by (simp add: print_edges_def)
  have r: "cg_read_rows (print_edges [(a, b)]) ?st =
      Some \<lparr>cg_srcVal = Some a, cg_dstVal = Some b, cg_numVertex = b, cg_src = [a], cg_dst = [b]\<rparr>"
    unfolding l using assms(1-3)
    by (subst cg_read_row) (auto simp: cg_row_def Let_def sgt_neg sgt_nonneg cg_read_rows.simps)
  have "cg_degrees [a] (b + 1) 1 = None"
    using assms(1,3) by (simp add: cg_degrees_def int_range_def for_range_def del: replicate_Suc)
  moreover have "uadd b 1 = b + 1" using assms(3) by (simp add: uadd_exact)
  ultimately show ?thesis using assms(3,4) r by (simp add: cg_main_def)
qed

theorem cg_main_negative_source_witness:
  "cg_main [''csr_gen'', ''in'', ''out''] (\<lambda>_. Some (print_edges [(U32 - 1, 3)])) (\<lambda>_. True) = None"
  by (rule cg_main_negative_source[of "U32 - 1" 3]) simp_all

end
