(* ===== verification/Signed.thy ===== *)
theory Signed
  imports Prelude
begin

text \<open>
  The signed \<open>int\<close>s of C++: integers whose results outside \<open>-2^31 \<dots> 2^31 - 1\<close> are undefined, array
  accesses with an \<open>int\<close> index, loops with an \<open>int\<close> counter, and the conversion from 32 bits.
\<close>

section \<open>Operations\<close>

abbreviation INT_MAX :: int where "INT_MAX \<equiv> 2147483647"

definition int32 :: "int \<Rightarrow> int option" where
  "int32 x = (if - 2147483648 \<le> x \<and> x \<le> INT_MAX then Some x else None)"

definition to_int32 :: "u32 \<Rightarrow> int" where
  "to_int32 v = (if v < U32 div 2 then int v else int v - int U32)"

definition iget :: "'a list \<Rightarrow> int \<Rightarrow> 'a option" where
  "iget xs i = (if 0 \<le> i then aget xs (nat i) else None)"

definition iput :: "'a list \<Rightarrow> int \<Rightarrow> 'a \<Rightarrow> 'a list option" where
  "iput xs i v = (if 0 \<le> i then aput xs (nat i) v else None)"

definition new_array :: "int \<Rightarrow> 'a \<Rightarrow> 'a list option" where
  "new_array n v = (if n < 0 then None else Some (replicate (nat n) v))"

text \<open>\<open>for (int i = a; i < b; i++)\<close> and \<open>for (int i = a; i <= b; i++)\<close>; the second counter passes \<open>b\<close>.\<close>

definition int_for :: "int \<Rightarrow> int \<Rightarrow> (int \<Rightarrow> 's \<Rightarrow> 's option) \<Rightarrow> 's \<Rightarrow> 's option" where
  "int_for a b body s = mfold body [a..b - 1] s"

definition int_for_upto :: "int \<Rightarrow> int \<Rightarrow> (int \<Rightarrow> 's \<Rightarrow> 's option) \<Rightarrow> 's \<Rightarrow> 's option" where
  "int_for_upto a b body s = (if b = INT_MAX then None else mfold body [a..b] s)"

section \<open>In range\<close>

named_theorems int_simps \<open>the signed operations on natural numbers in range\<close>

lemma int32_in [int_simps]: "- 2147483648 \<le> x \<Longrightarrow> x \<le> INT_MAX \<Longrightarrow> int32 x = Some x"
  by (simp add: int32_def)

lemma int32_Suc [int_simps]: "Suc i < U32 div 2 \<Longrightarrow> int32 (int i + 1) = Some (int (Suc i))"
  by (simp add: int32_def)

lemma iget_int [simp]: "iget xs (int i) = aget xs i"
  by (simp add: iget_def)

lemma iput_int [simp]: "iput xs (int i) v = aput xs i v"
  by (simp add: iput_def)

lemma iget_neg: "i < 0 \<Longrightarrow> iget xs i = None"
  by (simp add: iget_def)

lemma new_array_int [simp]: "new_array (int n) v = Some (replicate n v)"
  by (simp add: new_array_def)

lemma to_int32_small: "v < U32 div 2 \<Longrightarrow> to_int32 v = int v"
  by (simp add: to_int32_def)

lemma upto_int: "[int a..int b - 1] = map int [a..<b]"
proof (induction b)
  case (Suc b)
  show ?case
  proof (cases "a \<le> b")
    case True
    then have "[int a..int (Suc b) - 1] = [int a..int b - 1] @ [int b]"
      using upto_rec2[of "int a" "int b"] by simp
    then show ?thesis using Suc True by simp
  qed simp
qed simp

lemma int_for_int: "int_for (int a) (int b) body s = for_range a b (\<lambda>i. body (int i)) s"
  by (simp add: int_for_def for_range_def upto_int mfold_map comp_def)

lemma int_for_0: "int_for 0 (int b) body s = for_range 0 b (\<lambda>i. body (int i)) s"
  using int_for_int[of 0] by simp

lemma int_for_upto_int:
  "Suc b < U32 div 2 \<Longrightarrow> int_for_upto (int a) (int b) body s = for_range a (Suc b) (\<lambda>i. body (int i)) s"
  using upto_int[of a "Suc b"] by (simp add: int_for_upto_def for_range_def mfold_map comp_def)

lemma agetD: "aget xs i = Some x \<Longrightarrow> i < length xs \<and> x = xs ! i"
  by (auto simp: aget_def split: if_splits)

lemma aputD: "aput xs i v = Some ys \<Longrightarrow> i < length xs \<and> ys = xs[i := v]"
  by (auto simp: aput_def split: if_splits)

end
