(* ===== verification/Int_Sort.thy ===== *)
theory Int_Sort
  imports Signed Merge_Sort "HOL-Library.Signed_Division"
begin

text \<open>
  The copies of \<open>sort.cpp\<close> in \<open>graphReordering/csr_gen\<close> and \<open>graphReordering/examples/pagerank\<close>: the same merge
  sort with \<open>int\<close> bounds instead of unsigned ones. Below \<open>2^30\<close> elements it computes what the unsigned copies
  compute; an empty array (\<open>high = -1\<close>) is left alone.
\<close>

section \<open>The code\<close>

partial_function (option) imerge_both ::
  "('a \<Rightarrow> 'a \<Rightarrow> bool) \<Rightarrow> 'a list \<Rightarrow> 'k list \<Rightarrow> int \<Rightarrow> int \<Rightarrow> int \<Rightarrow> int \<Rightarrow> int \<Rightarrow> 'a list \<Rightarrow> 'k list \<Rightarrow>
   (int \<times> int \<times> int \<times> 'a list \<times> 'k list) option" where
  "imerge_both ge arr key mid high i j k temp tempKey =
     (if i \<le> mid \<and> j \<le> high then do {
        x \<leftarrow> iget arr i;
        y \<leftarrow> iget arr j;
        if ge x y then do {
          kv \<leftarrow> iget key i;
          tempKey' \<leftarrow> iput tempKey k kv;
          temp' \<leftarrow> iput temp k x;
          i \<leftarrow> int32 (i + 1);
          k \<leftarrow> int32 (k + 1);
          imerge_both ge arr key mid high i j k temp' tempKey'
        } else do {
          kv \<leftarrow> iget key j;
          tempKey' \<leftarrow> iput tempKey k kv;
          temp' \<leftarrow> iput temp k y;
          j \<leftarrow> int32 (j + 1);
          k \<leftarrow> int32 (k + 1);
          imerge_both ge arr key mid high i j k temp' tempKey'
        }
      } else Some (i, j, k, temp, tempKey))"

partial_function (option) imerge_drain ::
  "'a list \<Rightarrow> 'k list \<Rightarrow> int \<Rightarrow> int \<Rightarrow> int \<Rightarrow> 'a list \<Rightarrow> 'k list \<Rightarrow> (int \<times> 'a list \<times> 'k list) option" where
  "imerge_drain arr key stop i k temp tempKey =
     (if i \<le> stop then do {
        kv \<leftarrow> iget key i;
        tempKey' \<leftarrow> iput tempKey k kv;
        x \<leftarrow> iget arr i;
        temp' \<leftarrow> iput temp k x;
        i \<leftarrow> int32 (i + 1);
        k \<leftarrow> int32 (k + 1);
        imerge_drain arr key stop i k temp' tempKey'
      } else Some (k, temp, tempKey))"

definition imerge_by ::
  "'a \<Rightarrow> 'k \<Rightarrow> ('a \<Rightarrow> 'a \<Rightarrow> bool) \<Rightarrow> 'a list \<Rightarrow> 'k list \<Rightarrow> int \<Rightarrow> int \<Rightarrow> int \<Rightarrow> ('a list \<times> 'k list) option" where
  "imerge_by fill fillk ge arr key low high mid = do {
     j \<leftarrow> int32 (mid + 1);
     d \<leftarrow> int32 (high - low);
     n \<leftarrow> int32 (d + 1);
     temp \<leftarrow> new_array n fill;
     tempKey \<leftarrow> new_array n fillk;
     (i, j, k, temp, tempKey) \<leftarrow> imerge_both ge arr key mid high low j 0 temp tempKey;
     (k, temp, tempKey) \<leftarrow> imerge_drain arr key mid i k temp tempKey;
     (k, temp, tempKey) \<leftarrow> imerge_drain arr key high j k temp tempKey;
     int_for_upto low high (\<lambda>i (arr, key). do {
       d \<leftarrow> int32 (i - low);
       kv \<leftarrow> iget tempKey d;
       key' \<leftarrow> iput key i kv;
       x \<leftarrow> iget temp d;
       arr' \<leftarrow> iput arr i x;
       Some (arr', key')
     }) (arr, key)
   }"

definition iswap_at :: "'a list \<Rightarrow> int \<Rightarrow> int \<Rightarrow> 'a list option" where
  "iswap_at xs i j = do {
     temp \<leftarrow> iget xs i;
     y \<leftarrow> iget xs j;
     xs' \<leftarrow> iput xs i y;
     iput xs' j temp
   }"

text \<open>\<open>(low + high)/2\<close> rounds toward zero.\<close>

definition imid :: "int \<Rightarrow> int \<Rightarrow> int option" where
  "imid low high = do { s \<leftarrow> int32 (low + high); Some (s sdiv 2) }"

partial_function (option) imergeSort_by ::
  "'a \<Rightarrow> 'k \<Rightarrow> ('a \<Rightarrow> 'a \<Rightarrow> bool) \<Rightarrow> ('a \<Rightarrow> 'a \<Rightarrow> bool) \<Rightarrow> 'a list \<Rightarrow> 'k list \<Rightarrow> int \<Rightarrow> int \<Rightarrow> ('a list \<times> 'k list) option" where
  "imergeSort_by fill fillk ge gt arr key low high =
     (if high \<le> low then Some (arr, key)
      else do {
        d \<leftarrow> int32 (high - low);
        if d = 1 then do {
          x \<leftarrow> iget arr high;
          y \<leftarrow> iget arr low;
          if gt x y then do {
            arr' \<leftarrow> iswap_at arr high low;
            key' \<leftarrow> iswap_at key high low;
            Some (arr', key')
          } else Some (arr, key)
        } else do {
          mid \<leftarrow> imid low high;
          ak \<leftarrow> imergeSort_by fill fillk ge gt arr key low mid;
          mid1 \<leftarrow> int32 (mid + 1);
          ak' \<leftarrow> imergeSort_by fill fillk ge gt (fst ak) (snd ak) mid1 high;
          imerge_by fill fillk ge (fst ak') (snd ak') low high mid
        }
      })"

partial_function (option) imergeWOkey_both ::
  "('a \<Rightarrow> 'a \<Rightarrow> bool) \<Rightarrow> 'a list \<Rightarrow> int \<Rightarrow> int \<Rightarrow> int \<Rightarrow> int \<Rightarrow> int \<Rightarrow> 'a list \<Rightarrow> (int \<times> int \<times> int \<times> 'a list) option" where
  "imergeWOkey_both ge arr mid high i j k temp =
     (if i \<le> mid \<and> j \<le> high then do {
        x \<leftarrow> iget arr i;
        y \<leftarrow> iget arr j;
        if ge x y then do {
          temp' \<leftarrow> iput temp k x;
          i \<leftarrow> int32 (i + 1);
          k \<leftarrow> int32 (k + 1);
          imergeWOkey_both ge arr mid high i j k temp'
        } else do {
          temp' \<leftarrow> iput temp k y;
          j \<leftarrow> int32 (j + 1);
          k \<leftarrow> int32 (k + 1);
          imergeWOkey_both ge arr mid high i j k temp'
        }
      } else Some (i, j, k, temp))"

partial_function (option) imergeWOkey_drain ::
  "'a list \<Rightarrow> int \<Rightarrow> int \<Rightarrow> int \<Rightarrow> 'a list \<Rightarrow> (int \<times> 'a list) option" where
  "imergeWOkey_drain arr stop i k temp =
     (if i \<le> stop then do {
        x \<leftarrow> iget arr i;
        temp' \<leftarrow> iput temp k x;
        i \<leftarrow> int32 (i + 1);
        k \<leftarrow> int32 (k + 1);
        imergeWOkey_drain arr stop i k temp'
      } else Some (k, temp))"

definition imergeWOkey_by ::
  "'a \<Rightarrow> ('a \<Rightarrow> 'a \<Rightarrow> bool) \<Rightarrow> 'a list \<Rightarrow> int \<Rightarrow> int \<Rightarrow> int \<Rightarrow> 'a list option" where
  "imergeWOkey_by fill ge arr low high mid = do {
     j \<leftarrow> int32 (mid + 1);
     d \<leftarrow> int32 (high - low);
     n \<leftarrow> int32 (d + 1);
     temp \<leftarrow> new_array n fill;
     (i, j, k, temp) \<leftarrow> imergeWOkey_both ge arr mid high low j 0 temp;
     (k, temp) \<leftarrow> imergeWOkey_drain arr mid i k temp;
     (k, temp) \<leftarrow> imergeWOkey_drain arr high j k temp;
     int_for_upto low high (\<lambda>i arr. do {
       d \<leftarrow> int32 (i - low);
       x \<leftarrow> iget temp d;
       iput arr i x
     }) arr
   }"

partial_function (option) imergeSortWOkey_by ::
  "'a \<Rightarrow> ('a \<Rightarrow> 'a \<Rightarrow> bool) \<Rightarrow> ('a \<Rightarrow> 'a \<Rightarrow> bool) \<Rightarrow> 'a list \<Rightarrow> int \<Rightarrow> int \<Rightarrow> 'a list option" where
  "imergeSortWOkey_by fill ge gt arr low high =
     (if high \<le> low then Some arr
      else do {
        d \<leftarrow> int32 (high - low);
        if d = 1 then do {
          x \<leftarrow> iget arr high;
          y \<leftarrow> iget arr low;
          if gt x y then iswap_at arr high low else Some arr
        } else do {
          mid \<leftarrow> imid low high;
          arr' \<leftarrow> imergeSortWOkey_by fill ge gt arr low mid;
          mid1 \<leftarrow> int32 (mid + 1);
          arr'' \<leftarrow> imergeSortWOkey_by fill ge gt arr' mid1 high;
          imergeWOkey_by fill ge arr'' low high mid
        }
      })"

text \<open>The copy of \<open>csr_gen\<close> sorts the keyed array in ascending order and the other one in descending order;
  the copy of the page-rank example sorts both in descending order, the second one holds numbers of type \<open>double\<close>.\<close>

definition cg_merge :: "int list \<Rightarrow> int list \<Rightarrow> int \<Rightarrow> int \<Rightarrow> int \<Rightarrow> (int list \<times> int list) option" where
  "cg_merge = imerge_by 0 0 (\<lambda>x y. x \<le> y)"

definition cg_mergeSort :: "int list \<Rightarrow> int list \<Rightarrow> int \<Rightarrow> int \<Rightarrow> (int list \<times> int list) option" where
  "cg_mergeSort = imergeSort_by 0 0 (\<lambda>x y. x \<le> y) (\<lambda>x y. x < y)"

definition cg_mergeWOkey :: "u32 list \<Rightarrow> int \<Rightarrow> int \<Rightarrow> int \<Rightarrow> u32 list option" where
  "cg_mergeWOkey = imergeWOkey_by 0 (\<lambda>x y. x \<ge> y)"

definition cg_mergeSortWOkey :: "u32 list \<Rightarrow> int \<Rightarrow> int \<Rightarrow> u32 list option" where
  "cg_mergeSortWOkey = imergeSortWOkey_by 0 (\<lambda>x y. x \<ge> y) (\<lambda>x y. x > y)"

definition pr_merge :: "int list \<Rightarrow> int list \<Rightarrow> int \<Rightarrow> int \<Rightarrow> int \<Rightarrow> (int list \<times> int list) option" where
  "pr_merge = imerge_by 0 0 (\<lambda>x y. x \<ge> y)"

definition pr_mergeSort :: "int list \<Rightarrow> int list \<Rightarrow> int \<Rightarrow> int \<Rightarrow> (int list \<times> int list) option" where
  "pr_mergeSort = imergeSort_by 0 0 (\<lambda>x y. x \<ge> y) (\<lambda>x y. x > y)"

section \<open>Agreement with the unsigned copies\<close>

lemma imerge_both_sim:
  "merge_both ge arr key mid high i j k temp tk = Some (i', j', k', t', tk') \<Longrightarrow>
   length arr < U32 div 2 \<Longrightarrow> length temp < U32 div 2 \<Longrightarrow>
   imerge_both ge arr key (int mid) (int high) (int i) (int j) (int k) temp tk =
     Some (int i', int j', int k', t', tk') \<and> length t' = length temp"
proof (rule merge_both.raw_induct[where P = "\<lambda>ge arr key mid high i j k temp tk (i', j', k', t', tk').
    length arr < U32 div 2 \<longrightarrow> length temp < U32 div 2 \<longrightarrow>
    imerge_both ge arr key (int mid) (int high) (int i) (int j) (int k) temp tk =
      Some (int i', int j', int k', t', tk') \<and> length t' = length temp"
    and y = "(i', j', k', t', tk')", simplified split_conv, rule_format, rotated], assumption+)
  fix f :: "('a \<Rightarrow> 'a \<Rightarrow> bool) \<Rightarrow> 'a list \<Rightarrow> 'b list \<Rightarrow> nat \<Rightarrow> nat \<Rightarrow> nat \<Rightarrow> nat \<Rightarrow> nat \<Rightarrow> 'a list \<Rightarrow>
    'b list \<Rightarrow> (nat \<times> nat \<times> nat \<times> 'a list \<times> 'b list) option"
    and ge arr key mid high i j k temp tk and r :: "nat \<times> nat \<times> nat \<times> 'a list \<times> 'b list"
  assume IH: "\<And>ge arr key mid high i j k temp tk r. f ge arr key mid high i j k temp tk = Some r \<Longrightarrow>
      case r of (i', j', k', t', tk') \<Rightarrow> length arr < U32 div 2 \<longrightarrow> length temp < U32 div 2 \<longrightarrow>
        imerge_both ge arr key (int mid) (int high) (int i) (int j) (int k) temp tk =
          Some (int i', int j', int k', t', tk') \<and> length t' = length temp"
    and eq: "(if i \<le> mid \<and> j \<le> high then do {
        x \<leftarrow> aget arr i;
        y \<leftarrow> aget arr j;
        if ge x y then do {
          kv \<leftarrow> aget key i;
          tempKey' \<leftarrow> aput tk k kv;
          temp' \<leftarrow> aput temp k x;
          f ge arr key mid high (uadd i 1) j (uadd k 1) temp' tempKey'
        } else do {
          kv \<leftarrow> aget key j;
          tempKey' \<leftarrow> aput tk k kv;
          temp' \<leftarrow> aput temp k y;
          f ge arr key mid high i (uadd j 1) (uadd k 1) temp' tempKey'
        }
      } else Some (i, j, k, temp, tk)) = Some r"
  show "case r of (i', j', k', t', tk') \<Rightarrow> length arr < U32 div 2 \<longrightarrow> length temp < U32 div 2 \<longrightarrow>
      imerge_both ge arr key (int mid) (int high) (int i) (int j) (int k) temp tk =
        Some (int i', int j', int k', t', tk') \<and> length t' = length temp"
  proof (cases "i \<le> mid \<and> j \<le> high")
    case True
    then obtain x y where xy: "aget arr i = Some x" "aget arr j = Some y" using eq by (auto split: Option.bind_splits)
    show ?thesis
    proof (cases "ge x y")
      case ge: True
      then show ?thesis using eq True xy by (subst imerge_both.simps)
        (auto split: Option.bind_splits dest!: IH agetD aputD simp: int32_Suc uadd_1)
    next
      case ge: False
      then show ?thesis using eq True xy by (subst imerge_both.simps)
        (auto split: Option.bind_splits dest!: IH agetD aputD simp: int32_Suc uadd_1)
    qed
  next
    case False
    then show ?thesis using eq by (subst imerge_both.simps) auto
  qed
qed

lemma imerge_drain_sim:
  "merge_drain arr key stop i k temp tk = Some (k', t', tk') \<Longrightarrow>
   length arr < U32 div 2 \<Longrightarrow> length temp < U32 div 2 \<Longrightarrow>
   imerge_drain arr key (int stop) (int i) (int k) temp tk = Some (int k', t', tk') \<and> length t' = length temp"
proof (rule merge_drain.raw_induct[where P = "\<lambda>arr key stop i k temp tk (k', t', tk').
    length arr < U32 div 2 \<longrightarrow> length temp < U32 div 2 \<longrightarrow>
    imerge_drain arr key (int stop) (int i) (int k) temp tk = Some (int k', t', tk') \<and> length t' = length temp"
    and y = "(k', t', tk')", simplified split_conv, rule_format, rotated], assumption+)
  fix f :: "'a list \<Rightarrow> 'b list \<Rightarrow> nat \<Rightarrow> nat \<Rightarrow> nat \<Rightarrow> 'a list \<Rightarrow> 'b list \<Rightarrow> (nat \<times> 'a list \<times> 'b list) option"
    and arr key stop i k temp tk and r :: "nat \<times> 'a list \<times> 'b list"
  assume IH: "\<And>arr key stop i k temp tk r. f arr key stop i k temp tk = Some r \<Longrightarrow>
      case r of (k', t', tk') \<Rightarrow> length arr < U32 div 2 \<longrightarrow> length temp < U32 div 2 \<longrightarrow>
        imerge_drain arr key (int stop) (int i) (int k) temp tk = Some (int k', t', tk') \<and> length t' = length temp"
    and eq: "(if i \<le> stop then do {
        kv \<leftarrow> aget key i;
        tempKey' \<leftarrow> aput tk k kv;
        x \<leftarrow> aget arr i;
        temp' \<leftarrow> aput temp k x;
        f arr key stop (uadd i 1) (uadd k 1) temp' tempKey'
      } else Some (k, temp, tk)) = Some r"
  show "case r of (k', t', tk') \<Rightarrow> length arr < U32 div 2 \<longrightarrow> length temp < U32 div 2 \<longrightarrow>
      imerge_drain arr key (int stop) (int i) (int k) temp tk = Some (int k', t', tk') \<and> length t' = length temp"
  proof (cases "i \<le> stop")
    case True
    then show ?thesis using eq by (subst imerge_drain.simps)
      (auto split: Option.bind_splits dest!: IH agetD aputD simp: int32_Suc uadd_1)
  next
    case False
    then show ?thesis using eq by (subst imerge_drain.simps) auto
  qed
qed

lemma imergeWOkey_both_sim:
  "mergeWOkey_both ge arr mid high i j k temp = Some (i', j', k', t') \<Longrightarrow>
   length arr < U32 div 2 \<Longrightarrow> length temp < U32 div 2 \<Longrightarrow>
   imergeWOkey_both ge arr (int mid) (int high) (int i) (int j) (int k) temp =
     Some (int i', int j', int k', t') \<and> length t' = length temp"
proof (rule mergeWOkey_both.raw_induct[where P = "\<lambda>ge arr mid high i j k temp (i', j', k', t').
    length arr < U32 div 2 \<longrightarrow> length temp < U32 div 2 \<longrightarrow>
    imergeWOkey_both ge arr (int mid) (int high) (int i) (int j) (int k) temp =
      Some (int i', int j', int k', t') \<and> length t' = length temp"
    and y = "(i', j', k', t')", simplified split_conv, rule_format, rotated], assumption+)
  fix f :: "('a \<Rightarrow> 'a \<Rightarrow> bool) \<Rightarrow> 'a list \<Rightarrow> nat \<Rightarrow> nat \<Rightarrow> nat \<Rightarrow> nat \<Rightarrow> nat \<Rightarrow> 'a list \<Rightarrow>
    (nat \<times> nat \<times> nat \<times> 'a list) option"
    and ge arr mid high i j k temp and r :: "nat \<times> nat \<times> nat \<times> 'a list"
  assume IH: "\<And>ge arr mid high i j k temp r. f ge arr mid high i j k temp = Some r \<Longrightarrow>
      case r of (i', j', k', t') \<Rightarrow> length arr < U32 div 2 \<longrightarrow> length temp < U32 div 2 \<longrightarrow>
        imergeWOkey_both ge arr (int mid) (int high) (int i) (int j) (int k) temp =
          Some (int i', int j', int k', t') \<and> length t' = length temp"
    and eq: "(if i \<le> mid \<and> j \<le> high then do {
        x \<leftarrow> aget arr i;
        y \<leftarrow> aget arr j;
        if ge x y then do {
          temp' \<leftarrow> aput temp k x;
          f ge arr mid high (uadd i 1) j (uadd k 1) temp'
        } else do {
          temp' \<leftarrow> aput temp k y;
          f ge arr mid high i (uadd j 1) (uadd k 1) temp'
        }
      } else Some (i, j, k, temp)) = Some r"
  show "case r of (i', j', k', t') \<Rightarrow> length arr < U32 div 2 \<longrightarrow> length temp < U32 div 2 \<longrightarrow>
      imergeWOkey_both ge arr (int mid) (int high) (int i) (int j) (int k) temp =
        Some (int i', int j', int k', t') \<and> length t' = length temp"
  proof (cases "i \<le> mid \<and> j \<le> high")
    case True
    then obtain x y where xy: "aget arr i = Some x" "aget arr j = Some y" using eq by (auto split: Option.bind_splits)
    show ?thesis
    proof (cases "ge x y")
      case ge: True
      then show ?thesis using eq True xy by (subst imergeWOkey_both.simps)
        (auto split: Option.bind_splits dest!: IH agetD aputD simp: int32_Suc uadd_1)
    next
      case ge: False
      then show ?thesis using eq True xy by (subst imergeWOkey_both.simps)
        (auto split: Option.bind_splits dest!: IH agetD aputD simp: int32_Suc uadd_1)
    qed
  next
    case False
    then show ?thesis using eq by (subst imergeWOkey_both.simps) auto
  qed
qed

lemma imergeWOkey_drain_sim:
  "mergeWOkey_drain arr stop i k temp = Some (k', t') \<Longrightarrow>
   length arr < U32 div 2 \<Longrightarrow> length temp < U32 div 2 \<Longrightarrow>
   imergeWOkey_drain arr (int stop) (int i) (int k) temp = Some (int k', t') \<and> length t' = length temp"
proof (rule mergeWOkey_drain.raw_induct[where P = "\<lambda>arr stop i k temp (k', t').
    length arr < U32 div 2 \<longrightarrow> length temp < U32 div 2 \<longrightarrow>
    imergeWOkey_drain arr (int stop) (int i) (int k) temp = Some (int k', t') \<and> length t' = length temp"
    and y = "(k', t')", simplified split_conv, rule_format, rotated], assumption+)
  fix f :: "'a list \<Rightarrow> nat \<Rightarrow> nat \<Rightarrow> nat \<Rightarrow> 'a list \<Rightarrow> (nat \<times> 'a list) option"
    and arr stop i k temp and r :: "nat \<times> 'a list"
  assume IH: "\<And>arr stop i k temp r. f arr stop i k temp = Some r \<Longrightarrow>
      case r of (k', t') \<Rightarrow> length arr < U32 div 2 \<longrightarrow> length temp < U32 div 2 \<longrightarrow>
        imergeWOkey_drain arr (int stop) (int i) (int k) temp = Some (int k', t') \<and> length t' = length temp"
    and eq: "(if i \<le> stop then do {
        x \<leftarrow> aget arr i;
        temp' \<leftarrow> aput temp k x;
        f arr stop (uadd i 1) (uadd k 1) temp'
      } else Some (k, temp)) = Some r"
  show "case r of (k', t') \<Rightarrow> length arr < U32 div 2 \<longrightarrow> length temp < U32 div 2 \<longrightarrow>
      imergeWOkey_drain arr (int stop) (int i) (int k) temp = Some (int k', t') \<and> length t' = length temp"
  proof (cases "i \<le> stop")
    case True
    then show ?thesis using eq by (subst imergeWOkey_drain.simps)
      (auto split: Option.bind_splits dest!: IH agetD aputD simp: int32_Suc uadd_1)
  next
    case False
    then show ?thesis using eq by (subst imergeWOkey_drain.simps) auto
  qed
qed

lemma int_bounds:
  assumes "low < high" "high < 1073741824"
  shows "uadd (high - low) 1 = Suc (high - low)" "int32 (int high - int low) = Some (int (high - low))"
    "usub high low = high - low" "uadd low high = low + high" "imid (int low) (int high) = Some (int ((low + high) div 2))"
    "int32 (int ((low + high) div 2) + 1) = Some (int (Suc ((low + high) div 2)))"
    "uadd ((low + high) div 2) 1 = Suc ((low + high) div 2)"
    "int32 (int (high - low) + 1) = Some (int (Suc (high - low)))"
  using assms by (auto simp: uadd_exact usub_exact int32_def imid_def zdiv_int nat_div_distrib signed_divide_int_def)

lemma imerge_by_sim:
  assumes "merge_by fill fillk ge arr key low high mid = Some r" "low < high" "mid < high" "high < 1073741824"
    "length arr < U32 div 2"
  shows "imerge_by fill fillk ge arr key (int low) (int high) (int mid) = Some r"
proof -
  let ?n = "Suc (high - low)"
  note b = int_bounds[OF assms(2,4)]
  have m: "uadd mid 1 = Suc mid" "int32 (int mid + 1) = Some (int (Suc mid))" using assms(3,4) by (simp_all add: uadd_exact int32_def)
  obtain i j k t tk k1 t1 tk1 k2 t2 tk2 where
    r: "merge_both ge arr key mid high low (Suc mid) 0 (replicate ?n fill) (replicate ?n fillk) = Some (i, j, k, t, tk)"
    "merge_drain arr key mid i k t tk = Some (k1, t1, tk1)"
    "merge_drain arr key high j k1 t1 tk1 = Some (k2, t2, tk2)"
    "for_range low (Suc high) (\<lambda>i (arr, key). do {
       kv \<leftarrow> aget tk2 (usub i low); key' \<leftarrow> aput key i kv; x \<leftarrow> aget t2 (usub i low);
       arr' \<leftarrow> aput arr i x; Some (arr', key') }) (arr, key) = Some r"
    using assms(1) unfolding merge_by_def Let_def b m by (auto split: Option.bind_splits)
  have n: "length (replicate ?n fill) < U32 div 2" using assms(4) by simp
  note s1 = imerge_both_sim[OF r(1) assms(5) n]
  have s2: "imerge_drain arr key (int mid) (int i) (int k) t tk = Some (int k1, t1, tk1) \<and> length t1 = length t"
    using imerge_drain_sim[OF r(2) assms(5)] s1 n by simp
  have s3: "imerge_drain arr key (int high) (int j) (int k1) t1 tk1 = Some (int k2, t2, tk2)"
    using imerge_drain_sim[OF r(3) assms(5)] s1 s2 n by simp
  have "int_for_upto (int low) (int high) (\<lambda>i (arr, key). do {
       d \<leftarrow> int32 (i - int low);
       kv \<leftarrow> iget tk2 d; key' \<leftarrow> iput key i kv; x \<leftarrow> iget t2 d; arr' \<leftarrow> iput arr i x; Some (arr', key') }) (arr, key) =
     for_range low (Suc high) (\<lambda>i (arr, key). do {
       kv \<leftarrow> aget tk2 (usub i low); key' \<leftarrow> aput key i kv; x \<leftarrow> aget t2 (usub i low);
       arr' \<leftarrow> aput arr i x; Some (arr', key') }) (arr, key)"
    unfolding int_for_upto_int[of high, simplified, OF order.strict_trans[OF assms(4)], simplified] for_range_def
  proof (rule mfold_cong[OF refl])
    fix i s assume "i \<in> set [low..<Suc high]"
    then have "int32 (int i - int low) = Some (int (i - low))" "usub i low = i - low"
      using assms(4) by (auto simp: int32_def usub_exact)
    then show "(case s of (arr, key) \<Rightarrow> do { d \<leftarrow> int32 (int i - int low);
       kv \<leftarrow> iget tk2 d; key' \<leftarrow> iput key (int i) kv; x \<leftarrow> iget t2 d; arr' \<leftarrow> iput arr (int i) x; Some (arr', key') }) =
      (case s of (arr, key) \<Rightarrow> do {
       kv \<leftarrow> aget tk2 (usub i low); key' \<leftarrow> aput key i kv; x \<leftarrow> aget t2 (usub i low);
       arr' \<leftarrow> aput arr i x; Some (arr', key') })" by simp
  qed
  then show ?thesis
    using s1 s2 s3 r(4) unfolding imerge_by_def m b Option.bind.simps new_array_int by simp
qed

lemma imergeWOkey_by_sim:
  assumes "mergeWOkey_by fill ge arr low high mid = Some r" "low < high" "mid < high" "high < 1073741824"
    "length arr < U32 div 2"
  shows "imergeWOkey_by fill ge arr (int low) (int high) (int mid) = Some r"
proof -
  let ?n = "Suc (high - low)"
  note b = int_bounds[OF assms(2,4)]
  have m: "uadd mid 1 = Suc mid" "int32 (int mid + 1) = Some (int (Suc mid))" using assms(3,4) by (simp_all add: uadd_exact int32_def)
  obtain i j k t k1 t1 k2 t2 where
    r: "mergeWOkey_both ge arr mid high low (Suc mid) 0 (replicate ?n fill) = Some (i, j, k, t)"
    "mergeWOkey_drain arr mid i k t = Some (k1, t1)"
    "mergeWOkey_drain arr high j k1 t1 = Some (k2, t2)"
    "for_range low (Suc high) (\<lambda>i arr. do { x \<leftarrow> aget t2 (usub i low); aput arr i x }) arr = Some r"
    using assms(1) unfolding mergeWOkey_by_def Let_def b m by (auto split: Option.bind_splits)
  have n: "length (replicate ?n fill) < U32 div 2" using assms(4) by simp
  note s1 = imergeWOkey_both_sim[OF r(1) assms(5) n]
  have s2: "imergeWOkey_drain arr (int mid) (int i) (int k) t = Some (int k1, t1) \<and> length t1 = length t"
    using imergeWOkey_drain_sim[OF r(2) assms(5)] s1 n by simp
  have s3: "imergeWOkey_drain arr (int high) (int j) (int k1) t1 = Some (int k2, t2)"
    using imergeWOkey_drain_sim[OF r(3) assms(5)] s1 s2 n by simp
  have "int_for_upto (int low) (int high) (\<lambda>i arr. do { d \<leftarrow> int32 (i - int low); x \<leftarrow> iget t2 d; iput arr i x }) arr =
     for_range low (Suc high) (\<lambda>i arr. do { x \<leftarrow> aget t2 (usub i low); aput arr i x }) arr"
    unfolding int_for_upto_int[of high, simplified, OF order.strict_trans[OF assms(4)], simplified] for_range_def
  proof (rule mfold_cong[OF refl])
    fix i s assume "i \<in> set [low..<Suc high]"
    then have "int32 (int i - int low) = Some (int (i - low))" "usub i low = i - low"
      using assms(4) by (auto simp: int32_def usub_exact)
    then show "do { d \<leftarrow> int32 (int i - int low); x \<leftarrow> iget t2 d; iput s (int i) x } =
      do { x \<leftarrow> aget t2 (usub i low); aput s i x }" by simp
  qed
  then show ?thesis
    using s1 s2 s3 r(4) unfolding imergeWOkey_by_def m b Option.bind.simps new_array_int by simp
qed

lemma iswap_at_int [simp]: "iswap_at xs (int i) (int j) = swap_at xs i j"
  by (simp add: iswap_at_def swap_at_def)

lemma swap_at_length: "swap_at xs i j = Some ys \<Longrightarrow> length ys = length xs"
  by (auto simp: swap_at_def split: Option.bind_splits dest!: agetD aputD)

lemma imergeSort_by_sim:
  "mergeSort_by fill fillk ge gt arr key low high = Some r \<Longrightarrow> high < 1073741824 \<Longrightarrow> length arr < U32 div 2 \<Longrightarrow>
   imergeSort_by fill fillk ge gt arr key (int low) (int high) = Some r \<and> length (fst r) = length arr"
proof (rule mergeSort_by.raw_induct[where P = "\<lambda>fill fillk ge gt arr key low high r.
    high < 1073741824 \<longrightarrow> length arr < U32 div 2 \<longrightarrow>
    imergeSort_by fill fillk ge gt arr key (int low) (int high) = Some r \<and> length (fst r) = length arr",
    rule_format, rotated], assumption+)
  fix f :: "'a \<Rightarrow> 'b \<Rightarrow> ('a \<Rightarrow> 'a \<Rightarrow> bool) \<Rightarrow> ('a \<Rightarrow> 'a \<Rightarrow> bool) \<Rightarrow> 'a list \<Rightarrow> 'b list \<Rightarrow> nat \<Rightarrow> nat \<Rightarrow>
    ('a list \<times> 'b list) option"
    and fill fillk ge gt arr key low high and r :: "'a list \<times> 'b list"
  assume IH: "\<And>fill fillk ge gt arr key low high r. f fill fillk ge gt arr key low high = Some r \<Longrightarrow>
      high < 1073741824 \<Longrightarrow> length arr < U32 div 2 \<Longrightarrow>
      imergeSort_by fill fillk ge gt arr key (int low) (int high) = Some r \<and> length (fst r) = length arr"
    and eq: "(if high \<le> low then Some (arr, key)
      else if usub high low = 1 then do {
        x \<leftarrow> aget arr high;
        y \<leftarrow> aget arr low;
        if gt x y then do {
          arr' \<leftarrow> swap_at arr high low;
          key' \<leftarrow> swap_at key high low;
          Some (arr', key')
        } else Some (arr, key)
      } else do {
        ak \<leftarrow> f fill fillk ge gt arr key low (uadd low high div 2);
        ak' \<leftarrow> f fill fillk ge gt (fst ak) (snd ak) (uadd (uadd low high div 2) 1) high;
        merge_by fill fillk ge (fst ak') (snd ak') low high (uadd low high div 2)
      }) = Some r"
    and h: "high < 1073741824" "length arr < U32 div 2"
  show "imergeSort_by fill fillk ge gt arr key (int low) (int high) = Some r \<and> length (fst r) = length arr"
  proof (cases "high \<le> low")
    case True
    then show ?thesis using eq by (subst imergeSort_by.simps) auto
  next
    case False
    have lt: "low < high" using False by simp
    note b = int_bounds[OF lt h(1)]
    let ?mid = "(low + high) div 2"
    have mid: "?mid < high" and nle: "\<not> int high \<le> int low" "\<not> high \<le> low" using lt by simp_all
    show ?thesis
    proof (cases "high - low = 1")
      case True
      have u: "usub high low = 1" "int (high - low) = 1" unfolding b(3) True by simp_all
      show ?thesis using eq
        by (subst imergeSort_by.simps, simp only: nle u if_False simp_thms if_True b Option.bind.simps iget_int iswap_at_int)
          (auto split: Option.bind_splits if_splits dest: swap_at_length)
    next
      case False
      obtain ak ak' where r: "f fill fillk ge gt arr key low ?mid = Some ak"
        "f fill fillk ge gt (fst ak) (snd ak) (Suc ?mid) high = Some ak'"
        "merge_by fill fillk ge (fst ak') (snd ak') low high ?mid = Some r"
        using eq lt False unfolding b by (auto split: Option.bind_splits simp: b)
      have i1: "imergeSort_by fill fillk ge gt arr key (int low) (int ?mid) = Some ak" "length (fst ak) = length arr"
        using IH[OF r(1)] mid h by simp_all
      have i2: "imergeSort_by fill fillk ge gt (fst ak) (snd ak) (int (Suc ?mid)) (int high) = Some ak'"
        "length (fst ak') = length arr"
        using IH[OF r(2)] h i1(2) by simp_all
      have "imerge_by fill fillk ge (fst ak') (snd ak') (int low) (int high) (int ?mid) = Some r"
        by (rule imerge_by_sim[OF r(3) lt mid h(1)]) (use i2(2) h in simp)
      moreover have "length (fst r) = length arr"
        using mergeWOkey_by_length[OF mergeWOkey_by_sim[OF r(3)]] i2(2) by simp
      ultimately show ?thesis
        using False by (subst imergeSort_by.simps)
          (simp only: nle b of_nat_eq_1_iff if_False simp_thms Option.bind.simps i1(1) i2(1))
    qed
  qed
qed

lemma imergeSortWOkey_by_sim:
  "mergeSortWOkey_by fill ge gt arr low high = Some r \<Longrightarrow> high < 1073741824 \<Longrightarrow> length arr < U32 div 2 \<Longrightarrow>
   imergeSortWOkey_by fill ge gt arr (int low) (int high) = Some r \<and> length r = length arr"
proof (rule mergeSortWOkey_by.raw_induct[where P = "\<lambda>fill ge gt arr low high r.
    high < 1073741824 \<longrightarrow> length arr < U32 div 2 \<longrightarrow>
    imergeSortWOkey_by fill ge gt arr (int low) (int high) = Some r \<and> length r = length arr",
    rule_format, rotated], assumption+)
  fix f :: "'a \<Rightarrow> ('a \<Rightarrow> 'a \<Rightarrow> bool) \<Rightarrow> ('a \<Rightarrow> 'a \<Rightarrow> bool) \<Rightarrow> 'a list \<Rightarrow> nat \<Rightarrow> nat \<Rightarrow> 'a list option"
    and fill ge gt arr low high and r
  assume IH: "\<And>fill ge gt arr low high r. f fill ge gt arr low high = Some r \<Longrightarrow>
      high < 1073741824 \<Longrightarrow> length arr < U32 div 2 \<Longrightarrow>
      imergeSortWOkey_by fill ge gt arr (int low) (int high) = Some r \<and> length r = length arr"
    and eq: "(if high \<le> low then Some arr
      else if usub high low = 1 then do {
        x \<leftarrow> aget arr high;
        y \<leftarrow> aget arr low;
        if gt x y then swap_at arr high low else Some arr
      } else do {
        ak \<leftarrow> f fill ge gt arr low (uadd low high div 2);
        ak' \<leftarrow> f fill ge gt ak (uadd (uadd low high div 2) 1) high;
        mergeWOkey_by fill ge ak' low high (uadd low high div 2)
      }) = Some r"
    and h: "high < 1073741824" "length arr < U32 div 2"
  show "imergeSortWOkey_by fill ge gt arr (int low) (int high) = Some r \<and> length r = length arr"
  proof (cases "high \<le> low")
    case True
    then show ?thesis using eq by (subst imergeSortWOkey_by.simps) auto
  next
    case False
    have lt: "low < high" using False by simp
    note b = int_bounds[OF lt h(1)]
    let ?mid = "(low + high) div 2"
    have mid: "?mid < high" and nle: "\<not> int high \<le> int low" "\<not> high \<le> low" using lt by simp_all
    show ?thesis
    proof (cases "high - low = 1")
      case True
      have u: "usub high low = 1" "int (high - low) = 1" unfolding b(3) True by simp_all
      show ?thesis using eq
        by (subst imergeSortWOkey_by.simps, simp only: nle u if_False simp_thms if_True b Option.bind.simps iget_int iswap_at_int)
          (auto split: Option.bind_splits if_splits dest: swap_at_length)
    next
      case False
      obtain ak ak' where r: "f fill ge gt arr low ?mid = Some ak"
        "f fill ge gt ak (Suc ?mid) high = Some ak'"
        "mergeWOkey_by fill ge ak' low high ?mid = Some r"
        using eq lt False unfolding b by (auto split: Option.bind_splits simp: b)
      have i1: "imergeSortWOkey_by fill ge gt arr (int low) (int ?mid) = Some ak" "length ak = length arr"
        using IH[OF r(1)] mid h by simp_all
      have i2: "imergeSortWOkey_by fill ge gt ak (int (Suc ?mid)) (int high) = Some ak'"
        "length ak' = length arr"
        using IH[OF r(2)] h i1(2) by simp_all
      have "imergeWOkey_by fill ge ak' (int low) (int high) (int ?mid) = Some r"
        by (rule imergeWOkey_by_sim[OF r(3) lt mid h(1)]) (use i2(2) h in simp)
      moreover have "length r = length arr"
        using mergeWOkey_by_length[OF r(3)] i2(2) by simp
      ultimately show ?thesis
        using False by (subst imergeSortWOkey_by.simps)
          (simp only: nle b of_nat_eq_1_iff if_False simp_thms Option.bind.simps i1(1) i2(1))
    qed
  qed
qed

section \<open>Descending order\<close>

text \<open>The order of a type turned round, the rank of a descending sort.\<close>

datatype 'a dual = Dual (undual: 'a)

instantiation dual :: (linorder) linorder
begin

definition "x \<le> y \<longleftrightarrow> undual y \<le> undual x"

definition "x < y \<longleftrightarrow> undual y < undual x"

instance
  by intro_classes (auto simp: less_eq_dual_def less_dual_def dual.expand)

end

interpretation descending: rank_order "\<lambda>x y :: 'a::linorder. x \<ge> y" "\<lambda>x y. x > y" Dual
  by unfold_locales (auto simp: less_eq_dual_def less_dual_def)

lemma sort_Dual: "sort_key Dual xs = rev (sort xs)"
proof -
  have "sorted (map Dual (sort_key Dual xs))" by simp
  then have "sorted_wrt (\<lambda>x y. y \<le> x) (sort_key Dual xs)" by (simp add: sorted_map less_eq_dual_def)
  then have "sorted (rev (sort_key Dual xs))" by (simp add: sorted_wrt_rev)
  then have "sort xs = rev (sort_key Dual xs)" by (intro properties_for_sort) simp_all
  then show ?thesis by simp
qed

text \<open>The whole array, as the page-rank programs sort it; an empty array has \<open>high = -1\<close>.\<close>

lemma imergeSortWOkey_desc:
  assumes "length arr \<le> 1073741824"
  shows "imergeSortWOkey_by fill (\<lambda>x y :: 'a::linorder. x \<ge> y) (\<lambda>x y. x > y) arr 0 (int (length arr) - 1) =
    Some (rev (sort arr))"
proof (cases "arr = []")
  case True
  then show ?thesis by (subst imergeSortWOkey_by.simps) simp
next
  case False
  let ?h = "length arr - 1" and ?Z = "zip arr (replicate (length arr) ())"
  have h: "Suc ?h = length arr" "int (length arr) - 1 = int ?h" "?h < 1073741824" using False assms by (cases arr, auto)+
  obtain a k where r: "mergeSort_by fill () (\<lambda>x y. x \<ge> y) (\<lambda>x y. x > y) arr (replicate (length arr) ()) 0 ?h = Some (a, k)"
    "length a = length arr" "length k = length arr" "zip a k = sort_key (Dual \<circ> fst) ?Z"
    using descending.mergeSort_by_ok[of 0 ?h arr "replicate (length arr) ()" fill "()"] assms h False by (auto simp: ok_iff)
  have "a = map fst (zip a k)" using r(2,3) by simp
  also have "\<dots> = rev (sort (map fst ?Z))" unfolding r(4) sort_key_map sort_Dual ..
  finally have "a = rev (sort arr)" by simp
  then show ?thesis
    using imergeSortWOkey_by_sim[OF mergeSortWOkey_by_sim[OF r(1)] h(3)] assms unfolding h(2) by simp
qed

section \<open>Properties\<close>

text \<open>The copies of \<open>sort.cpp\<close> with \<open>int\<close> bounds return exactly what the unsigned copies return, for every
  slice of at most \<open>2^30\<close> elements and every comparison: no intermediate value overflows.\<close>

theorem int_sort_refines:
  assumes "mergeSort_by fill fillk ge gt arr key low high = Some r" "high < 1073741824" "length arr < U32 div 2"
  shows "imergeSort_by fill fillk ge gt arr key (int low) (int high) = Some r \<and>
    imergeSortWOkey_by fill ge gt arr (int low) (int high) = Some (fst r)"
  using imergeSort_by_sim[OF assms] imergeSortWOkey_by_sim[OF mergeSortWOkey_by_sim[OF assms(1)] assms(2,3)] by simp

theorem int_sort_refines_witness:
  "imergeSort_by 0 0 (\<lambda>x y :: int. x \<le> y) (\<lambda>x y. x < y) [2, -1] [7, 8 :: int] 0 1 = Some ([-1, 2], [8, 7]) \<and>
   imergeSortWOkey_by 0 (\<lambda>x y :: int. x \<le> y) (\<lambda>x y. x < y) [2, -1] 0 1 = Some [-1, 2]"
proof -
  have "mergeSort_by 0 0 (\<lambda>x y :: int. x \<le> y) (\<lambda>x y. x < y) [2, -1] [7, 8 :: int] 0 1 = Some ([-1, 2], [8, 7])"
    by (subst mergeSort_by.simps) (simp add: usub_def swap_at_def)
  from int_sort_refines[OF this] show ?thesis by simp
qed

text \<open>\<open>mergeSort\<close> of \<open>csr_gen\<close> is the stable ascending sort of the slice.\<close>

theorem cg_mergeSort_stable:
  assumes "low \<le> Suc high" "high < length arr" "length key = length arr" "length arr \<le> 1073741824"
  shows "\<exists>a k. cg_mergeSort arr key (int low) (int high) = Some (a, k) \<and> length a = length arr \<and> length k = length arr \<and>
    zip a k = take low (zip arr key) @ sort_key fst (slice (zip arr key) low (Suc high)) @ drop (Suc high) (zip arr key)"
proof -
  obtain a k where r: "mergeSort_by 0 0 (\<lambda>x y. x \<le> y) (\<lambda>x y. x < y) arr key low high = Some (a, k)"
    "length a = length arr" "length k = length arr"
    "zip a k = take low (zip arr key) @ sort_key fst (slice (zip arr key) low (Suc high)) @ drop (Suc high) (zip arr key)"
    using asc.mergeSort_by_ok[of low high arr key 0 0] assms by (auto simp: ok_iff comp_def)
  then show ?thesis using imergeSort_by_sim[OF r(1)] assms by (simp add: cg_mergeSort_def)
qed

end
