(* ===== verification/PageRank.thy ===== *)
theory PageRank
  imports Complex_Main CSR_Gen Int_Sort
begin

text \<open>
  The page-rank example \<open>graphReordering/examples/pagerank\<close>: reading the binary graph (\<open>graph.cpp\<close>) and the
  single-threaded program \<open>prST.cpp\<close>. All its integers are \<open>int\<close>s. The arithmetic of \<open>double\<close> is the record
  \<open>floating\<close> of operations, so every result below that does not name an instance holds for IEEE numbers;
  the ones that need exact arithmetic say so.
\<close>

section \<open>The code\<close>

record 'f floating =
  fzero :: 'f
  fone :: 'f
  fdamping :: 'f
  fplus :: "'f \<Rightarrow> 'f \<Rightarrow> 'f"
  fminus :: "'f \<Rightarrow> 'f \<Rightarrow> 'f"
  ftimes :: "'f \<Rightarrow> 'f \<Rightarrow> 'f"
  fdivide :: "'f \<Rightarrow> 'f \<Rightarrow> 'f"
  fint :: "int \<Rightarrow> 'f"
  fge :: "'f \<Rightarrow> 'f \<Rightarrow> bool"
  fgt :: "'f \<Rightarrow> 'f \<Rightarrow> bool"
  print_lf :: "'f \<Rightarrow> string"

record pr_graph =
  pr_numVertex :: int
  pr_numEdges :: int
  pr_VI :: "int list"
  pr_EI :: "int list"

text \<open>\<open>read_csr\<close>. A missing second number is an indeterminate value that is copied into \<open>VI\<close>; a negative
  size is refused by \<open>new\<close> or writes outside.\<close>

definition pr_read_csr :: "nat list option \<Rightarrow> pr_graph option option" where
  "pr_read_csr file = (case file of
     None \<Rightarrow> Some None
   | Some bs \<Rightarrow> do {
       let (nv, bs, eof1) = fread_u32 bs 1;
       let (ne, bs, eof2) = fread_u32 bs 1;
       if eof1 \<or> eof2 then None
       else do {
         let n = to_int32 (hd nv);
         let m = to_int32 (hd ne);
         n1 \<leftarrow> int32 (n + 1);
         vi \<leftarrow> new_array n1 0;
         if n < 0 then None
         else do {
           let (vs, bs, eof3) = fread_u32 bs (nat n);
           let vi = map to_int32 vs @ drop (length vs) vi;
           vi \<leftarrow> iput vi n m;
           if eof3 then Some None
           else do {
             ei \<leftarrow> new_array m (0 :: int);
             let (es, bs, eof4) = fread_u32 bs (nat m);
             if eof4 then Some None
             else Some (Some \<lparr>pr_numVertex = n, pr_numEdges = m, pr_VI = vi, pr_EI = map to_int32 es\<rparr>)
           }
         }
       }
     })"

definition initGraph :: "'f floating \<Rightarrow> pr_graph \<Rightarrow> 'f list option" where
  "initGraph F G = do {
     attr \<leftarrow> new_array (pr_numVertex G) (fzero F);
     int_for 0 (pr_numVertex G) (\<lambda>i attr. iput attr i (fone F)) attr
   }"

definition findOutDeg :: "pr_graph \<Rightarrow> int list \<Rightarrow> int list option" where
  "findOutDeg G degArr = int_for 0 (pr_numEdges G) (\<lambda>i degArr. do {
     e \<leftarrow> iget (pr_EI G) i;
     c \<leftarrow> iget degArr e;
     c \<leftarrow> int32 (c + 1);
     iput degArr e c
   }) degArr"

text \<open>The sum of one row, and \<open>prIter\<close>: the even iterations write \<open>temp\<close>, the odd ones \<open>attr\<close>.\<close>

definition row_sum :: "'f floating \<Rightarrow> pr_graph \<Rightarrow> int list \<Rightarrow> 'f list \<Rightarrow> int \<Rightarrow> int \<Rightarrow> 'f option" where
  "row_sum F G degArr src a b = int_for a b (\<lambda>j tempVal. do {
     e \<leftarrow> iget (pr_EI G) j;
     x \<leftarrow> iget src e;
     c \<leftarrow> iget degArr e;
     Some (fplus F tempVal (fdivide F x (fint F c)))
   }) (fzero F)"

definition rank_of :: "'f floating \<Rightarrow> 'f \<Rightarrow> 'f \<Rightarrow> 'f" where
  "rank_of F d tempVal = fplus F d (ftimes F (fminus F (fone F) d) tempVal)"

definition pr_pass :: "'f floating \<Rightarrow> pr_graph \<Rightarrow> 'f \<Rightarrow> int list \<Rightarrow> 'f list \<Rightarrow> 'f list \<Rightarrow> 'f list option" where
  "pr_pass F G d degArr src dst = int_for 0 (pr_numVertex G) (\<lambda>i dst. do {
     a \<leftarrow> iget (pr_VI G) i;
     b \<leftarrow> iget (pr_VI G) (i + 1);
     tempVal \<leftarrow> row_sum F G degArr src a b;
     iput dst i (rank_of F d tempVal)
   }) dst"

definition prIter :: "'f floating \<Rightarrow> pr_graph \<Rightarrow> 'f \<Rightarrow> int list \<Rightarrow> nat \<Rightarrow> 'f list \<times> 'f list \<Rightarrow> ('f list \<times> 'f list) option" where
  "prIter F G d degArr numIter = (\<lambda>(attr, temp).
     if numIter mod 2 \<noteq> 0 then do { attr \<leftarrow> pr_pass F G d degArr temp attr; Some (attr, temp) }
     else do { temp \<leftarrow> pr_pass F G d degArr attr temp; Some (attr, temp) })"

text \<open>\<open>main\<close> up to the sort: degrees, initial ranks, two iterations to warm up and \<open>MAX_ITER\<close> more.\<close>

definition MAX_ITER :: nat where
  "MAX_ITER = 10"

definition st_ranks :: "'f floating \<Rightarrow> pr_graph \<Rightarrow> ('f list \<times> 'f list) option" where
  "st_ranks F G = do {
     deg \<leftarrow> new_array (pr_numVertex G) 0;
     deg \<leftarrow> findOutDeg G deg;
     attr \<leftarrow> initGraph F G;
     temp \<leftarrow> new_array (pr_numVertex G) (fzero F);
     s \<leftarrow> for_range 0 2 (prIter F G (fdamping F) deg) (attr, temp);
     for_range 0 MAX_ITER (prIter F G (fdamping F) deg) s
   }"

definition pr_mergeWOkey :: "'f floating \<Rightarrow> 'f list \<Rightarrow> int \<Rightarrow> int \<Rightarrow> int \<Rightarrow> 'f list option" where
  "pr_mergeWOkey F = imergeWOkey_by (fzero F) (fge F)"

definition pr_mergeSortWOkey :: "'f floating \<Rightarrow> 'f list \<Rightarrow> int \<Rightarrow> int \<Rightarrow> 'f list option" where
  "pr_mergeSortWOkey F = imergeSortWOkey_by (fzero F) (fge F) (fgt F)"

text \<open>The end of both programs: sort the ranks and write the first 1000 of \<open>attr\<close> or \<open>temp\<close>.\<close>

definition pr_dump ::
  "'f floating \<Rightarrow> int \<Rightarrow> nat \<Rightarrow> 'f list \<times> 'f list \<Rightarrow> (string \<Rightarrow> bool) \<Rightarrow> outcome option" where
  "pr_dump F n numIter = (\<lambda>(attr, temp) writable. do {
     high \<leftarrow> int32 (n - 1);
     attr \<leftarrow> pr_mergeSortWOkey F attr 0 high;
     if \<not> writable ''dumpPR.txt'' then Some (1, [])
     else do {
       let printVertices = (if n > 1000 then 1000 else n);
       s \<leftarrow> int_for 0 printVertices (\<lambda>i s. do {
         x \<leftarrow> iget (if numIter mod 2 = 0 then attr else temp) i;
         Some (s @ print_lf F x @ [newline])
       }) [];
       Some (0, [(''dumpPR.txt'', s)])
     }
   })"

definition prST_main ::
  "'f floating \<Rightarrow> string list \<Rightarrow> (string \<Rightarrow> nat list option) \<Rightarrow> (string \<Rightarrow> bool) \<Rightarrow> outcome option" where
  "prST_main F argv fs writable =
     (if length argv \<noteq> 2 then Some (1, [])
      else do {
        r \<leftarrow> pr_read_csr (fs (argv ! 1));
        case r of
          None \<Rightarrow> Some (1, [])
        | Some G \<Rightarrow> do {
            s \<leftarrow> st_ranks F G;
            pr_dump F (pr_numVertex G) MAX_ITER s writable
          }
      })"

section \<open>Reading a graph\<close>

text \<open>The graph of the file as the page-rank programs hold it.\<close>

definition pr_of :: "graph \<Rightarrow> pr_graph" where
  "pr_of G = \<lparr>pr_numVertex = int (numVertex G), pr_numEdges = int (numEdges G),
     pr_VI = map int (VI G) @ [int (numEdges G)], pr_EI = map int (EI G)\<rparr>"

text \<open>The graphs the programs take: below the \<open>int\<close> limits, with exact array sizes and targets in range.\<close>

definition pr_ok :: "graph \<Rightarrow> bool" where
  "pr_ok G \<longleftrightarrow> wf_csr G \<and> numVertex G < U32 div 2 - 1 \<and> numEdges G < U32 div 2 \<and>
     length (VI G) = numVertex G \<and> length (EI G) = numEdges G \<and> (\<forall>e \<in> set (EI G). e < numVertex G)"

lemma pr_okD:
  assumes "pr_ok G"
  shows "wf_csr G" "numVertex G < U32 div 2 - 1" "numEdges G < U32 div 2" "length (VI G) = numVertex G"
    "length (EI G) = numEdges G" "e \<in> set (EI G) \<Longrightarrow> e < numVertex G"
  using assms by (auto simp: pr_ok_def)

lemma pr_ok_VI: "pr_ok G \<Longrightarrow> v \<in> set (VI G) \<Longrightarrow> v \<le> numEdges G"
  using wf_csrD(7,8)[of G] pr_okD[of G] by (fastforce simp: in_set_conv_nth intro: order.trans)

lemma pr_read_write:
  assumes ok: "pr_ok G" and bs: "cg_write_csr G = Some bs"
  shows "pr_read_csr (Some bs) = Some (Some (pr_of G))"
proof -
  note G = pr_okD[OF ok]
  let ?n = "numVertex G" and ?m = "numEdges G"
  have b: "bs = le_bytes ?n @ le_bytes ?m @ concat (map le_bytes (VI G)) @ concat (map le_bytes (EI G))"
    using bs G(4,5) by (simp add: cg_write_csr_def fwrite_u32_def)
  have vi: "v < U32 div 2" if "v \<in> set (VI G)" for v using pr_ok_VI[OF ok that] G(3) by linarith
  have ei: "e < U32 div 2" if "e \<in> set (EI G)" for e using G(2) G(6)[OF that] by linarith
  have m1: "map to_int32 (VI G) = map int (VI G)" using vi by (simp add: to_int32_small)
  have m2: "map to_int32 (EI G) = map int (EI G)" using ei by (simp add: to_int32_small)
  have vb: "\<forall>v \<in> set (VI G). v < U32" "\<forall>v \<in> set (EI G). v < U32" using vi ei by fastforce+
  have f: "fread_u32 (concat (map le_bytes (VI G)) @ r) ?n = (VI G, r, False)"
    "fread_u32 (concat (map le_bytes (EI G))) ?m = (EI G, [], False)" for r
    using fread_fwrite[OF vb(1) G(4)] fread_fwrite[OF vb(2) G(5), of "[]"] by simp_all
  have nm: "to_int32 ?n = int ?n" "to_int32 ?m = int ?m" "?n < U32" "?m < U32" "int32 (int ?n + 1) = Some (int (Suc ?n))"
    using G(2,3) by (simp_all add: to_int32_small int32_Suc)
  have na: "new_array (1 + int ?n) (0 :: int) = Some (replicate (Suc ?n) 0)" using new_array_int[of "Suc ?n" "0 :: int"] by simp
  have d: "drop ?n (replicate (Suc ?n) (0::int)) = [0]" by (simp only: drop_replicate) simp
  show ?thesis
    using nm G(4) unfolding pr_read_csr_def b option.case fread_fwrite1[OF nm(3)] Let_def prod.case fread_fwrite1[OF nm(4)] f
    by (simp add: f m1 m2 d na pr_of_def list_update_append del: replicate_Suc One_nat_def) simp
qed

section \<open>One pass\<close>

text \<open>The ranks after a pass, as a function of the ranks before it.\<close>

definition row_total :: "'f floating \<Rightarrow> graph \<Rightarrow> 'f list \<Rightarrow> nat list \<Rightarrow> 'f" where
  "row_total F G xs es = foldl (\<lambda>acc e. fplus F acc (fdivide F (xs ! e) (fint F (int (count_list (EI G) e))))) (fzero F) es"

definition pr_step :: "'f floating \<Rightarrow> graph \<Rightarrow> 'f list \<Rightarrow> 'f list" where
  "pr_step F G xs = map (\<lambda>i. rank_of F (fdamping F) (row_total F G xs (adj G i))) [0..<numVertex G]"

definition degrees_of :: "graph \<Rightarrow> int list" where
  "degrees_of G = map (\<lambda>v. int (count_list (EI G) v)) [0..<numVertex G]"

lemma length_pr_step [simp]: "length (pr_step F G xs) = numVertex G"
  by (simp add: pr_step_def)

lemma mfold_foldl: "(\<And>x s. x \<in> set xs \<Longrightarrow> f x s = Some (g s x)) \<Longrightarrow> mfold f xs s = Some (foldl g s xs)"
  by (induction xs arbitrary: s) auto

lemma findOutDeg_ok:
  assumes ok: "pr_ok G"
  shows "findOutDeg (pr_of G) (replicate (numVertex G) 0) = Some (degrees_of G)"
proof -
  note G = pr_okD[OF ok]
  let ?P = "\<lambda>es deg. deg = map (\<lambda>v. int (count_list es v)) [0..<numVertex G]"
  let ?f = "\<lambda>e degArr. do { c \<leftarrow> iget degArr (int e); c \<leftarrow> int32 (c + 1); iput degArr (int e) c }"
  have "ok (mfold ?f (EI G) (replicate (numVertex G) 0)) (?P (EI G))"
  proof (rule ok_mfold[where P = ?P])
    fix pre e post deg assume es: "EI G = pre @ e # post" and P: "?P pre deg"
    have e: "e < numVertex G" using G(6)[of e] es by simp
    have "count_list pre e \<le> length pre" by (rule count_le_length)
    then have "int32 (int (count_list pre e) + 1) = Some (int (Suc (count_list pre e)))"
      using G(3,5) es by (intro int32_Suc) simp
    then show "ok (?f e deg) (?P (pre @ [e]))"
      using P e by (auto intro!: nth_equalityI simp: nth_list_update)
  qed (simp add: map_replicate_const)
  then have "mfold ?f (EI G) (replicate (numVertex G) 0) = Some (degrees_of G)" by (auto simp: ok_iff degrees_of_def)
  moreover have "findOutDeg (pr_of G) (replicate (numVertex G) 0) =
      for_range 0 (numEdges G) (\<lambda>i degArr. do { e \<leftarrow> aget (EI G) i; ?f e degArr }) (replicate (numVertex G) 0)"
    unfolding findOutDeg_def pr_of_def pr_graph.simps int_for_0 unfolding for_range_def
    using G(5) by (intro mfold_cong) simp_all
  moreover have "\<dots> = mfold ?f (slice (EI G) 0 (numEdges G)) (replicate (numVertex G) 0)"
    by (rule for_range_slice) (use G(5) in simp_all)
  ultimately show ?thesis using G(5) by simp
qed

lemma row_sum_ok:
  assumes ok: "pr_ok G" and len: "length src = numVertex G" and ab: "b \<le> numEdges G"
  shows "row_sum F (pr_of G) (degrees_of G) src (int a) (int b) = Some (row_total F G src (slice (EI G) a b))"
proof -
  note G = pr_okD[OF ok]
  let ?g = "\<lambda>acc e. fplus F acc (fdivide F (src ! e) (fint F (int (count_list (EI G) e))))"
  have "row_sum F (pr_of G) (degrees_of G) src (int a) (int b) =
    for_range a b (\<lambda>j s. do { e \<leftarrow> aget (EI G) j; Some (?g s e) }) (fzero F)"
    unfolding row_sum_def int_for_int unfolding for_range_def
    using G(5,6) len ab by (intro mfold_cong) (auto simp: pr_of_def degrees_of_def)
  also have "\<dots> = mfold (\<lambda>e s. Some (?g s e)) (slice (EI G) a b) (fzero F)"
    by (rule for_range_slice) (use G(5) ab in simp_all)
  also have "\<dots> = Some (row_total F G src (slice (EI G) a b))" unfolding row_total_def by (rule mfold_foldl) simp
  finally show ?thesis .
qed

lemma pr_of_bounds:
  assumes ok: "pr_ok G" and i: "i < numVertex G"
  shows "iget (pr_VI (pr_of G)) (int i) = Some (int (VI G ! i))" "iget (pr_VI (pr_of G)) (int i + 1) = Some (int (eend G i))"
    "eend G i \<le> numEdges G"
proof -
  note G = pr_okD[OF ok]
  have s: "int i + 1 = int (Suc i)" by simp
  show "iget (pr_VI (pr_of G)) (int i) = Some (int (VI G ! i))" "eend G i \<le> numEdges G"
    using G(4) i wf_csrD(8)[OF G(1) i] by (simp_all add: pr_of_def nth_append)
  show "iget (pr_VI (pr_of G)) (int i + 1) = Some (int (eend G i))"
    unfolding s iget_int using G(4) i by (auto simp: pr_of_def nth_append eend_def)
qed

lemma pr_pass_ok:
  assumes ok: "pr_ok G" and len: "length src = numVertex G" "length dst = numVertex G"
  shows "pr_pass F (pr_of G) (fdamping F) (degrees_of G) src dst = Some (pr_step F G src)"
proof -
  have n: "pr_numVertex (pr_of G) = int (numVertex G)" by (simp add: pr_of_def)
  have "pr_pass F (pr_of G) (fdamping F) (degrees_of G) src dst =
    for_range 0 (numVertex G) (\<lambda>i dst. aput dst i (pr_step F G src ! i)) dst"
    unfolding pr_pass_def n int_for_0 unfolding for_range_def
  proof (rule mfold_cong[OF refl])
    fix i s assume "i \<in> set [0..<numVertex G]"
    then have i: "i < numVertex G" by simp
    note b = pr_of_bounds[OF ok i]
    show "do { a \<leftarrow> iget (pr_VI (pr_of G)) (int i); b \<leftarrow> iget (pr_VI (pr_of G)) (int i + 1);
        tempVal \<leftarrow> row_sum F (pr_of G) (degrees_of G) src a b; iput s (int i) (rank_of F (fdamping F) tempVal) } =
      aput s i (pr_step F G src ! i)"
      unfolding b(1,2) Option.bind.simps row_sum_ok[OF ok len(1) b(3)] using i by (simp add: pr_step_def adj_def)
  qed
  also have "\<dots> = Some (map (\<lambda>i. pr_step F G src ! i) [0..<numVertex G])"
    by (subst for_range_fill) (use len in simp_all)
  also have "map (\<lambda>i. pr_step F G src ! i) [0..<numVertex G] = pr_step F G src"
    using map_nth[of "pr_step F G src"] by simp
  finally show ?thesis .
qed

section \<open>The single-threaded program\<close>

abbreviation ones :: "'f floating \<Rightarrow> graph \<Rightarrow> 'f list" where
  "ones F G \<equiv> replicate (numVertex G) (fone F)"

lemma initGraph_ok: "initGraph F (pr_of G) = Some (ones F G)"
proof -
  have n: "pr_numVertex (pr_of G) = int (numVertex G)" by (simp add: pr_of_def)
  show ?thesis
    unfolding initGraph_def n new_array_int Option.bind.simps int_for_0 iput_int
    by (subst for_range_fill) (simp_all add: map_replicate_const)
qed

lemma prIter_ok:
  assumes "pr_ok G" "length attr = numVertex G" "length temp = numVertex G"
  shows "prIter F (pr_of G) (fdamping F) (degrees_of G) k (attr, temp) =
    Some (if k mod 2 \<noteq> 0 then (pr_step F G temp, temp) else (attr, pr_step F G attr))"
  by (simp add: prIter_def pr_pass_ok[OF assms(1)] assms(2,3))

text \<open>An even iteration and the odd one after it are two steps.\<close>

lemma prIter_pairs:
  assumes ok: "pr_ok G" and len: "length attr = numVertex G" "length temp = numVertex G"
  shows "for_range 0 (2 * Suc k) (prIter F (pr_of G) (fdamping F) (degrees_of G)) (attr, temp) =
    Some ((pr_step F G ^^ (2 * Suc k)) attr, (pr_step F G ^^ (2 * k + 1)) attr)"
proof (induction k)
  case 0
  have "[0..<2 * Suc 0] = [0, 1]" by (simp add: upt_rec)
  then show ?case by (simp add: for_range_def prIter_ok[OF ok] len numeral_2_eq_2)
next
  case (Suc k)
  have u: "[0..<2 * Suc (Suc k)] = [0..<2 * Suc k] @ [2 * Suc k, Suc (2 * Suc k)]" by simp
  show ?case
    unfolding for_range_def u mfold_append Suc[unfolded for_range_def] Option.bind.simps
    by (simp add: prIter_ok[OF ok] len)
qed

lemma st_ranks_ok:
  assumes ok: "pr_ok G"
  shows "st_ranks F (pr_of G) = Some ((pr_step F G ^^ 12) (ones F G), (pr_step F G ^^ 11) (ones F G))"
proof -
  have n: "pr_numVertex (pr_of G) = int (numVertex G)" by (simp add: pr_of_def)
  have two: "for_range 0 2 (prIter F (pr_of G) (fdamping F) (degrees_of G)) (ones F G, replicate (numVertex G) (fzero F)) =
      Some ((pr_step F G ^^ 2) (ones F G), pr_step F G (ones F G))"
    using prIter_pairs[OF ok, of "ones F G" "replicate (numVertex G) (fzero F)" 0 F] by (simp add: numeral_2_eq_2)
  have "for_range 0 10 (prIter F (pr_of G) (fdamping F) (degrees_of G)) ((pr_step F G ^^ 2) (ones F G), pr_step F G (ones F G)) =
      Some ((pr_step F G ^^ 10) ((pr_step F G ^^ 2) (ones F G)), (pr_step F G ^^ 9) ((pr_step F G ^^ 2) (ones F G)))"
    using prIter_pairs[OF ok, of "(pr_step F G ^^ 2) (ones F G)" "pr_step F G (ones F G)" 4 F]
    by (simp add: numeral_2_eq_2)
  moreover have "(pr_step F G ^^ 10) ((pr_step F G ^^ 2) (ones F G)) = (pr_step F G ^^ 12) (ones F G)"
    "(pr_step F G ^^ 9) ((pr_step F G ^^ 2) (ones F G)) = (pr_step F G ^^ 11) (ones F G)"
    using funpow_add[of 10 2 "pr_step F G"] funpow_add[of 9 2 "pr_step F G"] by simp_all
  ultimately show ?thesis
    unfolding st_ranks_def n new_array_int Option.bind.simps findOutDeg_ok[OF ok] initGraph_ok two MAX_ITER_def by simp
qed

text \<open>What both programs write: the largest ranks first, at most 1000 of them.\<close>

definition rank_lines :: "'f::linorder floating \<Rightarrow> 'f list \<Rightarrow> string" where
  "rank_lines F xs = concat (map (\<lambda>x. print_lf F x @ [newline]) (take 1000 (rev (sort xs))))"

definition linear :: "'f::linorder floating \<Rightarrow> bool" where
  "linear F \<longleftrightarrow> fge F = (\<lambda>x y. x \<ge> y) \<and> fgt F = (\<lambda>x y. x > y)"

lemma pr_dump_ok:
  assumes lin: "linear F" and len: "length attr = n" "n \<le> 1073741824" and k: "k mod 2 = 0"
  shows "pr_dump F (int n) k (attr, temp) writable =
    Some (if writable ''dumpPR.txt'' then (0, [(''dumpPR.txt'', rank_lines F attr)]) else (1, []))"
proof -
  have sort: "pr_mergeSortWOkey F attr 0 (int n - 1) = Some (rev (sort attr))"
    using imergeSortWOkey_desc[of attr] len lin by (simp add: pr_mergeSortWOkey_def linear_def)
  have h: "int32 (int n - 1) = Some (int n - 1)" using len(2) by (simp add: int32_def)
  let ?b = "\<lambda>i s. do { x \<leftarrow> aget (rev (sort attr)) i; Some (s @ print_lf F x @ [newline]) }"
  have p: "(if int n > 1000 then 1000 else int n) = int (min 1000 n)" by simp
  have "for_range 0 (min 1000 n) ?b [] =
      mfold (\<lambda>x s. Some (s @ print_lf F x @ [newline])) (slice (rev (sort attr)) 0 (min 1000 n)) []"
    by (rule for_range_slice) (use len in simp_all)
  also have "\<dots> = Some (rank_lines F attr)"
    using mfold_append_text[of "\<lambda>x. print_lf F x @ [newline]" "take (min 1000 n) (rev (sort attr))" "[]"] len(1)
    by (simp add: rank_lines_def min_def)
  finally have "for_range 0 (min 1000 n) ?b [] = Some (rank_lines F attr)" .
  then show ?thesis
    unfolding pr_dump_def prod.case h Option.bind.simps sort Let_def p int_for_0 using k by simp
qed

lemma prST_main_ok:
  assumes "linear F" "pr_ok G" "numVertex G \<le> 1073741824" "cg_write_csr G = Some bs" "fs f = Some bs"
  shows "prST_main F [p, f] fs writable = Some (if writable ''dumpPR.txt''
    then (0, [(''dumpPR.txt'', rank_lines F ((pr_step F G ^^ 12) (ones F G)))]) else (1, []))"
proof -
  have l: "length ((pr_step F G ^^ 12) (ones F G)) = numVertex G" by (simp add: numeral_eq_Suc)
  have "pr_numVertex (pr_of G) = int (numVertex G)" by (simp add: pr_of_def)
  then show ?thesis
    using pr_read_write[OF assms(2,4)] assms(5) st_ranks_ok[OF assms(2), of F]
      pr_dump_ok[OF assms(1) l assms(3), of MAX_ITER]
    by (simp add: prST_main_def MAX_ITER_def)
qed

section \<open>Exact arithmetic\<close>

definition exact :: "'f::field_char_0 floating \<Rightarrow> bool" where
  "exact F \<longleftrightarrow> fzero F = 0 \<and> fone F = 1 \<and> fplus F = (+) \<and> fminus F = (-) \<and> ftimes F = (*) \<and> fdivide F = (/) \<and> fint F = of_int"

lemma foldl_sum: "foldl (\<lambda>acc e. acc + f e) a es = a + (\<Sum>e\<leftarrow>es. f e :: 'f::comm_monoid_add)"
  by (induction es arbitrary: a) (auto simp: ac_simps)

lemma sum_list_concat: "sum_list (concat xss) = (\<Sum>xs\<leftarrow>xss. sum_list xs :: 'f::comm_monoid_add)"
  by (induction xss) auto

lemma sum_list_count:
  "set es \<subseteq> {..<n :: nat} \<Longrightarrow> (\<Sum>e\<leftarrow>es. g e :: 'f::field_char_0) = (\<Sum>v<n. of_nat (count_list es v) * g v)"
proof (induction es)
  case (Cons e es)
  have "(\<Sum>v<n. of_nat (count_list (e # es) v) * g v) = (\<Sum>v<n. of_nat (count_list es v) * g v + (if v = e then g v else 0))"
    by (rule sum.cong) (auto simp: algebra_simps)
  also have "\<dots> = (\<Sum>v<n. of_nat (count_list es v) * g v) + g e"
    unfolding sum.distrib using Cons.prems by (subst sum.delta) auto
  finally show ?case using Cons by simp
qed simp

text \<open>Every rank is divided among the rows that list its vertex, so a pass keeps the total.\<close>

lemma sum_pr_step:
  assumes "exact F" "pr_ok G" "\<forall>v < numVertex G. v \<in> set (EI G)" "length xs = numVertex G"
  shows "sum_list (pr_step F G xs) = of_nat (numVertex G) * fdamping F + (1 - fdamping F) * sum_list xs"
proof -
  let ?n = "numVertex G" and ?d = "fdamping F"
  note G = pr_okD[OF assms(2)]
  let ?g = "\<lambda>e. xs ! e / of_nat (count_list (EI G) e)"
  have row: "row_total F G xs es = (\<Sum>e\<leftarrow>es. ?g e)" for es
    using assms(1) foldl_sum[of ?g 0 es] by (simp add: row_total_def exact_def)
  have "concat (map (adj G) [0..<?n]) = map snd (edges G)" by (simp add: edges_def map_concat comp_def)
  also have "\<dots> = EI G" using snd_edges[OF G(1)] G(5) by simp
  finally have all: "concat (map (adj G) [0..<?n]) = EI G" .
  have "(\<Sum>i\<leftarrow>[0..<?n]. row_total F G xs (adj G i)) = (\<Sum>e\<leftarrow>EI G. ?g e)"
    unfolding row all[symmetric] by (simp add: map_concat sum_list_concat comp_def)
  also have "\<dots> = (\<Sum>v<?n. of_nat (count_list (EI G) v) * ?g v)"
    by (rule sum_list_count) (use G(6) in auto)
  also have "\<dots> = (\<Sum>v<?n. xs ! v)"
    using assms(3) by (intro sum.cong) (simp_all add: count_list_0_iff)
  also have "\<dots> = sum_list xs" using assms(4) by (simp add: sum_list_sum_nth atLeast0LessThan)
  finally have tot: "(\<Sum>i\<leftarrow>[0..<?n]. row_total F G xs (adj G i)) = sum_list xs" .
  have "sum_list (pr_step F G xs) = (\<Sum>i\<leftarrow>[0..<?n]. ?d + (1 - ?d) * row_total F G xs (adj G i))"
    using assms(1) by (simp add: pr_step_def rank_of_def exact_def comp_def)
  also have "\<dots> = of_nat ?n * ?d + (1 - ?d) * (\<Sum>i\<leftarrow>[0..<?n]. row_total F G xs (adj G i))"
    by (simp add: sum_list_addf sum_list_const_mult sum_list_triv)
  finally show ?thesis unfolding tot .
qed

lemma sum_pr_steps:
  assumes "exact F" "pr_ok G" "\<forall>v < numVertex G. v \<in> set (EI G)"
  shows "sum_list ((pr_step F G ^^ k) (ones F G)) = of_nat (numVertex G) \<and> length ((pr_step F G ^^ k) (ones F G)) = numVertex G"
proof (induction k)
  case 0
  then show ?case using assms(1) by (simp add: exact_def sum_list_replicate)
next
  case (Suc k)
  then show ?case
    using sum_pr_step[OF assms, of "(pr_step F G ^^ k) (ones F G)"] by (simp add: algebra_simps)
qed

section \<open>Properties\<close>

text \<open>C21: The program \<open>prST\<close>, from the bytes of its input to its output file, for any arithmetic whose
  comparison is a linear order: it computes twelve passes from the ranks 1, each pass reading only the ranks
  of the pass before, and writes the 1000 largest in descending order.\<close>

theorem prST_main_ranks:
  assumes "linear F" "pr_ok G" "numVertex G \<le> 2 ^ 30" "cg_write_csr G = Some bs" "fs f = Some bs" "writable ''dumpPR.txt''"
  shows "prST_main F [p, f] fs writable = Some (0, [(''dumpPR.txt'',
    concat (map (\<lambda>x. print_lf F x @ [newline])
      (take 1000 (rev (sort ((pr_step F G ^^ 12) (replicate (numVertex G) (fone F))))))))])"
  using prST_main_ok[of F G bs fs f p writable] assms by (simp add: rank_lines_def)

theorem prST_main_ranks_witness:
  "prST_main \<lparr>fzero = 0, fone = 1, fdamping = 3, fplus = (+), fminus = (-), ftimes = (*), fdivide = (div), fint = (\<lambda>i. i),
      fge = (\<lambda>x y. x \<ge> y), fgt = (\<lambda>x y. x > y), print_lf = (\<lambda>x :: int. print_d (nat x))\<rparr> [''prST'', ''g'']
    (\<lambda>_. Some (concat (map le_bytes [2, 2, 0, 1, 1, 0]))) (\<lambda>_. True) = Some (0, [(''dumpPR.txt'', print_d 1 @ [newline] @ print_d 1 @ [newline])])"
  (is "prST_main ?F _ _ _ = _")
proof -
  let ?G = "\<lparr>numVertex = 2, numEdges = 2, VI = [0, 1], EI = [1, 0 :: nat]\<rparr>"
  have ok: "pr_ok ?G" by (simp add: pr_ok_def wf_csr_eval eend_def upt_rec)
  have w: "cg_write_csr ?G = Some (concat (map le_bytes [2, 2, 0, 1, 1, 0]))"
    by (simp add: cg_write_csr_def fwrite_u32_def)
  have s: "pr_step ?F ?G [1, 1] = [1, 1]"
    by (simp add: pr_step_def rank_of_def row_total_def adj_def eend_def slice_def upt_rec)
  have "(pr_step ?F ?G ^^ k) [1, 1] = [1, 1]" for k by (induction k) (simp_all only: funpow.simps id_apply comp_apply s)
  then have "(pr_step ?F ?G ^^ 12) (replicate (numVertex ?G) (fone ?F)) = [1, 1]" by (simp add: numeral_2_eq_2)
  moreover have "linear ?F" by (simp add: linear_def)
  ultimately show ?thesis
    using prST_main_ranks[of ?F ?G "concat (map le_bytes [2, 2, 0, 1, 1, 0])" "\<lambda>_. Some (concat (map le_bytes [2, 2, 0, 1, 1, 0]))"
      "''g''" "\<lambda>_. True" "''prST''"] ok w by (simp add: sort_key_def)
qed

text \<open>C22: Over exact arithmetic the ranks of a graph in which every vertex has an outgoing edge keep their
  sum, the number of vertices.\<close>

theorem st_ranks_mass:
  assumes "exact F" "pr_ok G" "\<forall>v < numVertex G. v \<in> set (EI G)"
  shows "\<exists>attr temp. st_ranks F (pr_of G) = Some (attr, temp) \<and> sum_list attr = of_nat (numVertex G) \<and>
    sum_list temp = of_nat (numVertex G)"
  using st_ranks_ok[OF assms(2), of F] sum_pr_steps[OF assms] by auto

theorem st_ranks_mass_witness:
  "\<exists>attr temp. st_ranks \<lparr>fzero = 0, fone = 1, fdamping = 85 / 100, fplus = (+), fminus = (-), ftimes = (*), fdivide = (/),
      fint = of_int, fge = (\<lambda>x y. x \<ge> y), fgt = (\<lambda>x y. x > y), print_lf = (\<lambda>x :: real. [])\<rparr>
      \<lparr>pr_numVertex = 2, pr_numEdges = 3, pr_VI = [0, 2, 3], pr_EI = [0, 1, 0]\<rparr> = Some (attr, temp) \<and>
    sum_list attr = 2 \<and> sum_list temp = 2"
  (is "\<exists>attr temp. st_ranks ?F _ = _ \<and> _")
proof -
  let ?G = "\<lparr>numVertex = 2, numEdges = 3, VI = [0, 2], EI = [0, 1, 0 :: nat]\<rparr>"
  have "pr_ok ?G" by (simp add: pr_ok_def wf_csr_eval eend_def upt_rec)
  moreover have "exact ?F" by (simp add: exact_def)
  moreover have "pr_of ?G = \<lparr>pr_numVertex = 2, pr_numEdges = 3, pr_VI = [0, 2, 3], pr_EI = [0, 1, 0]\<rparr>"
    by (simp add: pr_of_def)
  ultimately show ?thesis using st_ranks_mass[of ?F ?G] by (simp add: less_2_cases_iff)
qed

end
