(* ===== verification/PageRank_Threads.thy ===== *)
theory PageRank_Threads
  imports PageRank
begin

text \<open>
  The multi-threaded page rank \<open>prMT.cpp\<close>. The vertices are divided into ranges by \<open>main\<close>; every thread runs
  \<open>prIter\<close> over its range, ten times, with a barrier after every pass. A state holds the two shared arrays and
  the variables of every thread; one step is one iteration of a loop of one thread, or the barrier letting
  all threads go on. The interleaving is free. Undefined behaviour of one thread is the state \<open>None\<close>.
  The creation of the threads is taken to succeed.
\<close>

section \<open>The code\<close>

text \<open>The division: the \<open>while\<close> loop of one thread, and all threads.\<close>

partial_function (option) mt_scan :: "int list \<Rightarrow> int \<Rightarrow> int \<Rightarrow> int \<Rightarrow> int option" where
  "mt_scan vi n target vcount = do {
     x \<leftarrow> iget vi vcount;
     if x < target then do {
       vcount \<leftarrow> int32 (vcount + 1);
       if vcount = n - 1 then Some vcount else mt_scan vi n target vcount
     } else Some vcount
   }"

definition mt_partition :: "pr_graph \<Rightarrow> int \<Rightarrow> (int \<times> int) list option" where
  "mt_partition G threads =
     (if threads = 0 then None
      else do {
        let numEdgesPerThread = pr_numEdges G sdiv threads;
        (vcount, rs) \<leftarrow> int_for 0 threads (\<lambda>i (vcount, rs). do {
          startVertex \<leftarrow> int32 (vcount + 1);
          k \<leftarrow> int32 (i + 1);
          target \<leftarrow> int32 (k * numEdgesPerThread);
          endVertex \<leftarrow> mt_scan (pr_VI G) (pr_numVertex G) target startVertex;
          Some (endVertex, rs @ [(startVertex, endVertex)])
        }) (-1, []);
        Some rs
      })"

text \<open>A thread is at the test of its vertex loop, in the edge loop of a vertex, at the barrier, or done.\<close>

datatype mt_pc = AtVertex | InRow | AtBarrier | Finished

record 'f mt_thread =
  mt_iter :: nat
  mt_i :: int
  mt_j :: int
  mt_last :: int
  mt_acc :: 'f
  mt_pc :: mt_pc

record 'f mt_state =
  mt_temp :: "'f list"
  mt_attr :: "'f list"
  mt_threads :: "'f mt_thread list"

definition mt_thread_step ::
  "'f floating \<Rightarrow> pr_graph \<Rightarrow> int list \<Rightarrow> int \<Rightarrow> 'f mt_thread \<Rightarrow> 'f list \<times> 'f list \<Rightarrow> ('f mt_thread \<times> 'f list \<times> 'f list) option" where
  "mt_thread_step F G deg endVertex th = (\<lambda>(temp, attr).
     let n = pr_numVertex G; end = (if endVertex > n then n else endVertex); odd = (mt_iter th mod 2 \<noteq> 0) in
     if mt_pc th = AtVertex then
       if mt_i th \<le> end then do {
         lastId \<leftarrow> (if mt_i th = n then Some (pr_numEdges G) else iget (pr_VI G) (mt_i th + 1));
         j \<leftarrow> iget (pr_VI G) (mt_i th);
         Some (th\<lparr>mt_last := lastId, mt_j := j, mt_acc := fzero F, mt_pc := InRow\<rparr>, temp, attr)
       } else Some (th\<lparr>mt_iter := mt_iter th + 1, mt_pc := AtBarrier\<rparr>, temp, attr)
     else if mt_pc th = InRow then
       if mt_j th < mt_last th then do {
         e \<leftarrow> iget (pr_EI G) (mt_j th);
         x \<leftarrow> iget (if odd then temp else attr) e;
         c \<leftarrow> iget deg e;
         Some (th\<lparr>mt_acc := fplus F (mt_acc th) (fdivide F x (fint F c)), mt_j := mt_j th + 1\<rparr>, temp, attr)
       } else do {
         let th' = th\<lparr>mt_i := mt_i th + 1, mt_pc := AtVertex\<rparr>;
         let x = rank_of F (fdamping F) (mt_acc th);
         if odd then do { attr \<leftarrow> iput attr (mt_i th) x; Some (th', temp, attr) }
         else do { temp \<leftarrow> iput temp (mt_i th) x; Some (th', temp, attr) }
       }
     else Some (th, temp, attr))"

definition mt_run_thread ::
  "'f floating \<Rightarrow> pr_graph \<Rightarrow> int list \<Rightarrow> (int \<times> int) list \<Rightarrow> nat \<Rightarrow> 'f mt_state \<Rightarrow> 'f mt_state option" where
  "mt_run_thread F G deg rs t S = do {
     (th, temp, attr) \<leftarrow> mt_thread_step F G deg (snd (rs ! t)) (mt_threads S ! t) (mt_temp S, mt_attr S);
     Some \<lparr>mt_temp = temp, mt_attr = attr, mt_threads = (mt_threads S)[t := th]\<rparr>
   }"

text \<open>The barrier: every thread tests \<open>iter < MAX_ITER\<close> and starts its range again.\<close>

definition mt_release :: "(int \<times> int) list \<Rightarrow> 'f mt_state \<Rightarrow> 'f mt_state" where
  "mt_release rs S = S\<lparr>mt_threads := map2 (\<lambda>r th. th\<lparr>mt_i := fst r,
     mt_pc := (if mt_iter th < MAX_ITER then AtVertex else Finished)\<rparr>) rs (mt_threads S)\<rparr>"

inductive mt_step ::
  "'f floating \<Rightarrow> pr_graph \<Rightarrow> int list \<Rightarrow> (int \<times> int) list \<Rightarrow> 'f mt_state \<Rightarrow> 'f mt_state option \<Rightarrow> bool"
  for F G deg rs where
  run: "t < length (mt_threads S) \<Longrightarrow> mt_pc (mt_threads S ! t) = AtVertex \<or> mt_pc (mt_threads S ! t) = InRow \<Longrightarrow>
    mt_step F G deg rs S (mt_run_thread F G deg rs t S)"
| barrier: "mt_threads S \<noteq> [] \<Longrightarrow> list_all (\<lambda>th. mt_pc th = AtBarrier) (mt_threads S) \<Longrightarrow>
    mt_step F G deg rs S (Some (mt_release rs S))"

inductive mt_reach ::
  "'f floating \<Rightarrow> pr_graph \<Rightarrow> int list \<Rightarrow> (int \<times> int) list \<Rightarrow> 'f mt_state \<Rightarrow> 'f mt_state option \<Rightarrow> bool"
  for F G deg rs S0 where
  start: "mt_reach F G deg rs S0 (Some S0)"
| step: "mt_reach F G deg rs S0 (Some S) \<Longrightarrow> mt_step F G deg rs S r \<Longrightarrow> mt_reach F G deg rs S0 r"

inductive_cases mt_stepE: "mt_step F G deg rs S r"

definition mt_finished :: "'f mt_state \<Rightarrow> bool" where
  "mt_finished S \<longleftrightarrow> list_all (\<lambda>th. mt_pc th = Finished) (mt_threads S)"

definition mt_init :: "(int \<times> int) list \<Rightarrow> 'f floating \<Rightarrow> 'f list \<Rightarrow> 'f list \<Rightarrow> 'f mt_state" where
  "mt_init rs F temp attr = \<lparr>mt_temp = temp, mt_attr = attr,
     mt_threads = map (\<lambda>r. \<lparr>mt_iter = 0, mt_i = fst r, mt_j = 0, mt_last = 0, mt_acc = fzero F, mt_pc = AtVertex\<rparr>) rs\<rparr>"

definition mt_findOutDeg :: "pr_graph \<Rightarrow> int list \<Rightarrow> int list option" where
  "mt_findOutDeg G degArr = for_range 0 (nat (pr_numEdges G)) (\<lambda>i degArr. do {
     e \<leftarrow> aget (pr_EI G) i;
     c \<leftarrow> iget degArr e;
     c \<leftarrow> int32 (c + 1);
     iput degArr e c
   }) degArr"

definition mt_setup :: "'f floating \<Rightarrow> pr_graph \<Rightarrow> int \<Rightarrow> (int list \<times> (int \<times> int) list \<times> 'f mt_state) option" where
  "mt_setup F G threads = do {
     temp \<leftarrow> new_array (pr_numVertex G) (fzero F);
     deg \<leftarrow> new_array (pr_numVertex G) 0;
     deg \<leftarrow> mt_findOutDeg G deg;
     attr \<leftarrow> initGraph F G;
     rs \<leftarrow> mt_partition G threads;
     Some (deg, rs, mt_init rs F temp attr)
   }"

text \<open>The possible results of \<open>main\<close>; \<open>None\<close> is undefined behaviour.\<close>

inductive prMT_main ::
  "'f floating \<Rightarrow> string list \<Rightarrow> (string \<Rightarrow> nat list option) \<Rightarrow> (string \<Rightarrow> bool) \<Rightarrow> outcome option \<Rightarrow> bool"
  for F argv fs writable where
  usage: "length argv \<noteq> 3 \<Longrightarrow> prMT_main F argv fs writable (Some (1, []))"
| atoi: "length argv = 3 \<Longrightarrow> atoi (argv ! 2) = None \<Longrightarrow> prMT_main F argv fs writable None"
| read_undefined: "length argv = 3 \<Longrightarrow> atoi (argv ! 2) = Some k \<Longrightarrow> pr_read_csr (fs (argv ! 1)) = None \<Longrightarrow>
    prMT_main F argv fs writable None"
| unreadable: "length argv = 3 \<Longrightarrow> atoi (argv ! 2) = Some k \<Longrightarrow> pr_read_csr (fs (argv ! 1)) = Some None \<Longrightarrow>
    prMT_main F argv fs writable (Some (1, []))"
| setup_undefined: "length argv = 3 \<Longrightarrow> atoi (argv ! 2) = Some k \<Longrightarrow> pr_read_csr (fs (argv ! 1)) = Some (Some G) \<Longrightarrow>
    mt_setup F G (to_int32 k) = None \<Longrightarrow> prMT_main F argv fs writable None"
| run_undefined: "length argv = 3 \<Longrightarrow> atoi (argv ! 2) = Some k \<Longrightarrow> pr_read_csr (fs (argv ! 1)) = Some (Some G) \<Longrightarrow>
    mt_setup F G (to_int32 k) = Some (deg, rs, S0) \<Longrightarrow> mt_reach F G deg rs S0 None \<Longrightarrow> prMT_main F argv fs writable None"
| completed: "length argv = 3 \<Longrightarrow> atoi (argv ! 2) = Some k \<Longrightarrow> pr_read_csr (fs (argv ! 1)) = Some (Some G) \<Longrightarrow>
    mt_setup F G (to_int32 k) = Some (deg, rs, S0) \<Longrightarrow> mt_reach F G deg rs S0 (Some S) \<Longrightarrow> mt_finished S \<Longrightarrow>
    prMT_main F argv fs writable (pr_dump F (pr_numVertex G) 0 (mt_attr S, mt_temp S) writable)"

inductive_cases prMT_mainE: "prMT_main F argv fs writable r"

section \<open>One thread in a pass\<close>

text \<open>A step with the array that is read and the array that is written in place of the parity of the pass.\<close>

definition mt_core ::
  "'f floating \<Rightarrow> pr_graph \<Rightarrow> int list \<Rightarrow> int \<Rightarrow> 'f mt_thread \<Rightarrow> 'f list \<Rightarrow> 'f list \<Rightarrow> ('f mt_thread \<times> 'f list) option" where
  "mt_core F G deg endVertex th rd wr =
     (let n = pr_numVertex G; end = (if endVertex > n then n else endVertex) in
     if mt_pc th = AtVertex then
       if mt_i th \<le> end then do {
         lastId \<leftarrow> (if mt_i th = n then Some (pr_numEdges G) else iget (pr_VI G) (mt_i th + 1));
         j \<leftarrow> iget (pr_VI G) (mt_i th);
         Some (th\<lparr>mt_last := lastId, mt_j := j, mt_acc := fzero F, mt_pc := InRow\<rparr>, wr)
       } else Some (th\<lparr>mt_iter := mt_iter th + 1, mt_pc := AtBarrier\<rparr>, wr)
     else if mt_pc th = InRow then
       if mt_j th < mt_last th then do {
         e \<leftarrow> iget (pr_EI G) (mt_j th);
         x \<leftarrow> iget rd e;
         c \<leftarrow> iget deg e;
         Some (th\<lparr>mt_acc := fplus F (mt_acc th) (fdivide F x (fint F c)), mt_j := mt_j th + 1\<rparr>, wr)
       } else do {
         wr \<leftarrow> iput wr (mt_i th) (rank_of F (fdamping F) (mt_acc th));
         Some (th\<lparr>mt_i := mt_i th + 1, mt_pc := AtVertex\<rparr>, wr)
       }
     else Some (th, wr))"

lemma mt_step_core:
  "mt_thread_step F G deg e th (temp, attr) =
    (if mt_iter th mod 2 \<noteq> 0 then do { (th, wr) \<leftarrow> mt_core F G deg e th temp attr; Some (th, temp, wr) }
     else do { (th, wr) \<leftarrow> mt_core F G deg e th attr temp; Some (th, wr, attr) })"
  by (simp add: mt_thread_step_def mt_core_def Let_def)

text \<open>The state of a thread with the range \<open>a \<dots> b\<close> during pass \<open>k\<close>, when it reads the ranks \<open>src\<close>.\<close>

definition thread_ok :: "'f floating \<Rightarrow> graph \<Rightarrow> 'f list \<Rightarrow> nat \<Rightarrow> nat \<Rightarrow> nat \<Rightarrow> 'f mt_thread \<Rightarrow> bool" where
  "thread_ok F G src k a b th \<longleftrightarrow> (\<exists>i. mt_i th = int i \<and> a \<le> i \<and> i \<le> Suc b \<and> (case mt_pc th of
     AtVertex \<Rightarrow> mt_iter th = k
   | InRow \<Rightarrow> mt_iter th = k \<and> i \<le> b \<and> mt_last th = int (eend G i) \<and> (\<exists>j. mt_j th = int j \<and> VI G ! i \<le> j \<and> j \<le> eend G i \<and>
       mt_acc th = row_total F G src (slice (EI G) (VI G ! i) j))
   | AtBarrier \<Rightarrow> mt_iter th = Suc k \<and> i = Suc b
   | Finished \<Rightarrow> False))"

text \<open>A bound for the steps that remain for a thread.\<close>

definition mt_weight :: "graph \<Rightarrow> nat \<Rightarrow> 'f mt_thread \<Rightarrow> nat" where
  "mt_weight G b th = (let M = numEdges G + 3; B = (numVertex G + 1) * M + M in
     (MAX_ITER - mt_iter th) * (B + M) + (case mt_pc th of
       AtVertex \<Rightarrow> (Suc b - nat (mt_i th)) * M + M - 1
     | InRow \<Rightarrow> (Suc b - nat (mt_i th)) * M + nat (mt_last th - mt_j th) + 1
     | AtBarrier \<Rightarrow> B
     | Finished \<Rightarrow> 0))"

lemma row_total_snoc:
  "row_total F G src (es @ [e]) = fplus F (row_total F G src es) (fdivide F (src ! e) (fint F (int (count_list (EI G) e))))"
  by (simp add: row_total_def)

text \<open>A step of a thread: either it stays at its vertex and writes nothing, or it writes the new rank of its
  vertex and goes on to the next one. It never leaves its arrays, and it comes closer to the end.\<close>

lemma mt_core_ok:
  assumes ok: "pr_ok G" and th: "thread_ok F G src k a b th" and b: "b < numVertex G" and k: "k < MAX_ITER"
    and len: "length src = numVertex G" "length wr = numVertex G"
    and pc: "mt_pc th = AtVertex \<or> mt_pc th = InRow"
  shows "\<exists>th' wr'. mt_core F (pr_of G) (degrees_of G) (int b) th src wr = Some (th', wr') \<and> thread_ok F G src k a b th' \<and>
    mt_weight G b th' < mt_weight G b th \<and>
    (wr' = wr \<and> mt_i th' = mt_i th \<or>
     (\<exists>i. a \<le> i \<and> i \<le> b \<and> mt_i th = int i \<and> mt_i th' = int (Suc i) \<and> wr' = wr[i := pr_step F G src ! i]))"
proof -
  note G = pr_okD[OF ok]
  have n: "pr_numVertex (pr_of G) = int (numVertex G)" "pr_EI (pr_of G) = map int (EI G)" by (simp_all add: pr_of_def)
  have clip: "(if int b > int (numVertex G) then int (numVertex G) else int b) = int b" using b by simp
  obtain i where i: "mt_i th = int i" "a \<le> i" "i \<le> Suc b" using th by (auto simp: thread_ok_def)
  show ?thesis
  proof (cases "mt_pc th = AtVertex")
    case True
    then have it: "mt_iter th = k" using th by (auto simp: thread_ok_def)
    show ?thesis
    proof (cases "i \<le> b")
      case ib: True
      then have iv: "i < numVertex G" "int i \<noteq> int (numVertex G)" "int i \<le> int b" using b by simp_all
      let ?th = "th\<lparr>mt_last := int (eend G i), mt_j := int (VI G ! i), mt_acc := fzero F, mt_pc := InRow\<rparr>"
      have "mt_core F (pr_of G) (degrees_of G) (int b) th src wr = Some (?th, wr)"
        unfolding mt_core_def Let_def n(1) clip i(1)
        by (simp add: True ib iv less_imp_neq[OF iv(1)] pr_of_bounds(2)[OF ok iv(1)] pr_of_bounds(1)[OF ok iv(1), simplified])
      moreover have "VI G ! i \<le> eend G i" "eend G i \<le> numEdges G" using wf_csrD(7,8)[OF G(1) iv(1)] .
      moreover from this have "thread_ok F G src k a b ?th"
        using i it ib by (simp add: thread_ok_def row_total_def)
      moreover have "mt_weight G b ?th < mt_weight G b th"
        using True i(1) \<open>eend G i \<le> numEdges G\<close> by (simp add: mt_weight_def Let_def)
      ultimately show ?thesis using i by auto
    next
      case False
      let ?th = "th\<lparr>mt_iter := mt_iter th + 1, mt_pc := AtBarrier\<rparr>"
      have ib: "i = Suc b" using False i by simp
      have "mt_core F (pr_of G) (degrees_of G) (int b) th src wr = Some (?th, wr)"
        unfolding mt_core_def Let_def n(1) clip i(1) using True ib by simp
      moreover have "thread_ok F G src k a b ?th" using i it ib by (simp add: thread_ok_def)
      moreover have "mt_weight G b ?th < mt_weight G b th"
      proof -
        obtain r where r: "MAX_ITER - k = Suc r" using k by (metis Suc_diff_Suc)
        then have "MAX_ITER - Suc k = r" by simp
        then show ?thesis using True i(1) ib it r by (simp add: mt_weight_def Let_def)
      qed
      ultimately show ?thesis using i by auto
    qed
  next
    case False
    then have pcr: "mt_pc th = InRow" using pc by simp
    then obtain j where j: "mt_iter th = k" "i \<le> b" "mt_last th = int (eend G i)" "mt_j th = int j" "VI G ! i \<le> j" "j \<le> eend G i"
      "mt_acc th = row_total F G src (slice (EI G) (VI G ! i) j)"
      using th i(1) by (auto simp: thread_ok_def)
    have iv: "i < numVertex G" using j(2) b by simp
    have eend: "eend G i \<le> length (EI G)" using wf_csrD(8)[OF G(1) iv] G(5) by simp
    show ?thesis
    proof (cases "j < eend G i")
      case True
      let ?e = "EI G ! j"
      have e: "?e < numVertex G" "j < length (EI G)" using G(6)[of ?e] True eend by simp_all
      let ?th = "th\<lparr>mt_acc := fplus F (mt_acc th) (fdivide F (src ! ?e) (fint F (int (count_list (EI G) ?e)))), mt_j := int (Suc j)\<rparr>"
      have "mt_core F (pr_of G) (degrees_of G) (int b) th src wr = Some (?th, wr)"
        unfolding mt_core_def Let_def n i(1) j(3,4) using True pcr e len(1) by (simp add: degrees_of_def)
      moreover have "thread_ok F G src k a b ?th"
        unfolding thread_ok_def
        by (rule exI[of _ i]) (use i j True pcr in \<open>auto simp: row_total_snoc slice_snoc[OF j(5) e(2)] intro!: exI[of _ "Suc j"]\<close>)
      moreover have "mt_weight G b ?th < mt_weight G b th"
        using pcr i(1) j(3,4) True by (simp add: mt_weight_def Let_def)
      ultimately show ?thesis using i by auto
    next
      case False
      then have je: "j = eend G i" using j(6) by simp
      let ?th = "th\<lparr>mt_i := int (Suc i), mt_pc := AtVertex\<rparr>"
      have "rank_of F (fdamping F) (mt_acc th) = pr_step F G src ! i"
        using iv by (simp add: j(7) je pr_step_def adj_def)
      then have "mt_core F (pr_of G) (degrees_of G) (int b) th src wr = Some (?th, wr[i := pr_step F G src ! i])"
        unfolding mt_core_def Let_def n i(1) j(3,4) using je pcr iv len(2) by simp
      moreover have "thread_ok F G src k a b ?th"
        unfolding thread_ok_def by (rule exI[of _ "Suc i"]) (use i j in simp)
      moreover have "mt_weight G b ?th < mt_weight G b th"
      proof -
        obtain d where "Suc b - i = Suc d" using j(2) by (metis Suc_diff_le)
        moreover from this have "b - i = d" "nat (1 + int i) = Suc i" by simp_all
        ultimately show ?thesis using pcr i(1) j(3,4) je by (simp add: mt_weight_def Let_def)
      qed
      ultimately show ?thesis using i j(2) by auto
    qed
  qed
qed

section \<open>All threads\<close>

definition covered :: "(nat \<times> nat) list \<Rightarrow> nat \<Rightarrow> bool" where
  "covered ns v \<longleftrightarrow> list_ex (\<lambda>(a, b). a \<le> v \<and> v \<le> b) ns"

text \<open>A pass over the vertices of the ranges, and the arrays after \<open>k\<close> passes.\<close>

definition mt_pass :: "'f floating \<Rightarrow> graph \<Rightarrow> (nat \<times> nat) list \<Rightarrow> 'f list \<Rightarrow> 'f list \<Rightarrow> 'f list" where
  "mt_pass F G ns src dst = map (\<lambda>v. if covered ns v then pr_step F G src ! v else dst ! v) [0..<numVertex G]"

primrec mt_after :: "'f floating \<Rightarrow> graph \<Rightarrow> (nat \<times> nat) list \<Rightarrow> nat \<Rightarrow> 'f list \<times> 'f list" where
  "mt_after F G ns 0 = (replicate (numVertex G) (fzero F), ones F G)"
| "mt_after F G ns (Suc k) = (case mt_after F G ns k of (temp, attr) \<Rightarrow>
     if k mod 2 = 0 then (mt_pass F G ns attr temp, attr) else (temp, mt_pass F G ns temp attr))"

definition source :: "nat \<Rightarrow> 'f list \<times> 'f list \<Rightarrow> 'f list" where
  "source k p = (if k mod 2 = 0 then snd p else fst p)"

definition target :: "nat \<Rightarrow> 'f list \<times> 'f list \<Rightarrow> 'f list" where
  "target k p = (if k mod 2 = 0 then fst p else snd p)"

lemma mt_after_Suc:
  "source k (mt_after F G ns (Suc k)) = source k (mt_after F G ns k)"
  "target k (mt_after F G ns (Suc k)) = mt_pass F G ns (source k (mt_after F G ns k)) (target k (mt_after F G ns k))"
  "source (Suc k) p = target k p" "target (Suc k) p = source k p"
  by (auto simp: source_def target_def mod_Suc split: prod.split)

lemma source_target_eq: "source k p = source k q \<Longrightarrow> target k p = target k q \<Longrightarrow> p = q"
  by (cases p; cases q) (auto simp: source_def target_def split: if_splits)

lemma length_mt_after: "length (source k (mt_after F G ns j)) = numVertex G" "length (target k (mt_after F G ns j)) = numVertex G"
proof -
  have "length (fst (mt_after F G ns j)) = numVertex G \<and> length (snd (mt_after F G ns j)) = numVertex G"
    by (induction j) (auto simp: mt_pass_def split: prod.splits)
  then show "length (source k (mt_after F G ns j)) = numVertex G" "length (target k (mt_after F G ns j)) = numVertex G"
    by (auto simp: source_def target_def)
qed

text \<open>The ranges the results below need: in the graph, and disjoint in ascending order.\<close>

definition ranges_ok :: "graph \<Rightarrow> (nat \<times> nat) list \<Rightarrow> bool" where
  "ranges_ok G ns \<longleftrightarrow> ns \<noteq> [] \<and> list_all (\<lambda>(a, b). a \<le> b \<and> b < numVertex G) ns \<and> sorted_wrt (\<lambda>r s. snd r < fst s) ns"

abbreviation int_ranges :: "(nat \<times> nat) list \<Rightarrow> (int \<times> int) list" where
  "int_ranges ns \<equiv> map (\<lambda>r. (int (fst r), int (snd r))) ns"

lemma ranges_okD:
  assumes "ranges_ok G ns" "t < length ns"
  shows "fst (ns ! t) \<le> snd (ns ! t)" "snd (ns ! t) < numVertex G"
    "u < length ns \<Longrightarrow> u \<noteq> t \<Longrightarrow> v \<in> {fst (ns ! t)..snd (ns ! t)} \<Longrightarrow> v \<notin> {fst (ns ! u)..snd (ns ! u)}"
proof -
  have a: "fst (ns ! u) \<le> snd (ns ! u)" "snd (ns ! u) < numVertex G" if "u < length ns" for u
    using assms(1) that by (auto simp: ranges_ok_def list_all_length split_def)
  show "fst (ns ! t) \<le> snd (ns ! t)" "snd (ns ! t) < numVertex G" using a assms(2) by simp_all
  have s: "snd (ns ! i) < fst (ns ! j)" if "i < j" "j < length ns" for i j
    using assms(1) that by (auto simp: ranges_ok_def sorted_wrt_iff_nth_less)
  show "u < length ns \<Longrightarrow> u \<noteq> t \<Longrightarrow> v \<in> {fst (ns ! t)..snd (ns ! t)} \<Longrightarrow> v \<notin> {fst (ns ! u)..snd (ns ! u)}"
    using s[of t u] s[of u t] assms(2) by (cases t u rule: linorder_cases) auto
qed

text \<open>The array being written: every thread has written the part of its range below its vertex.\<close>

definition written :: "'f floating \<Rightarrow> graph \<Rightarrow> (nat \<times> nat) list \<Rightarrow> 'f list \<Rightarrow> 'f list \<Rightarrow> 'f mt_thread list \<Rightarrow> 'f list \<Rightarrow> bool" where
  "written F G ns src old ths wr \<longleftrightarrow> length wr = numVertex G \<and> (\<forall>v < numVertex G. \<not> covered ns v \<longrightarrow> wr ! v = old ! v) \<and>
     (\<forall>t < length ns. \<forall>v \<in> {fst (ns ! t)..snd (ns ! t)}. wr ! v = (if int v < mt_i (ths ! t) then pr_step F G src ! v else old ! v))"

definition in_pass :: "'f floating \<Rightarrow> graph \<Rightarrow> (nat \<times> nat) list \<Rightarrow> nat \<Rightarrow> 'f mt_state \<Rightarrow> bool" where
  "in_pass F G ns k S \<longleftrightarrow> k < MAX_ITER \<and> length (mt_threads S) = length ns \<and>
     source k (mt_temp S, mt_attr S) = source k (mt_after F G ns k) \<and>
     written F G ns (source k (mt_after F G ns k)) (target k (mt_after F G ns k)) (mt_threads S) (target k (mt_temp S, mt_attr S)) \<and>
     (\<forall>t < length ns. thread_ok F G (source k (mt_after F G ns k)) k (fst (ns ! t)) (snd (ns ! t)) (mt_threads S ! t))"

definition at_end :: "'f floating \<Rightarrow> graph \<Rightarrow> (nat \<times> nat) list \<Rightarrow> 'f mt_state \<Rightarrow> bool" where
  "at_end F G ns S \<longleftrightarrow> length (mt_threads S) = length ns \<and> mt_finished S \<and> (mt_temp S, mt_attr S) = mt_after F G ns MAX_ITER"

definition total_weight :: "graph \<Rightarrow> (nat \<times> nat) list \<Rightarrow> 'f mt_state \<Rightarrow> nat" where
  "total_weight G ns S = (\<Sum>t < length ns. mt_weight G (snd (ns ! t)) (mt_threads S ! t))"

lemma covered_iff: "covered ns v \<longleftrightarrow> (\<exists>t < length ns. v \<in> {fst (ns ! t)..snd (ns ! t)})"
  by (auto simp: covered_def list_ex_length split_def)

lemma written_step:
  assumes r: "ranges_ok G ns" and w: "written F G ns src old ths wr" and t: "t < length ns" "length ths = length ns"
    and i: "fst (ns ! t) \<le> i" "i \<le> snd (ns ! t)" "mt_i (ths ! t) = int i" "mt_i th = int (Suc i)"
  shows "written F G ns src old (ths[t := th]) (wr[i := pr_step F G src ! i])"
  unfolding written_def
proof (intro conjI allI impI ballI)
  note D = ranges_okD[OF r t(1)]
  have len: "length wr = numVertex G" using w by (simp add: written_def)
  then show "length (wr[i := pr_step F G src ! i]) = numVertex G" by simp
  show "wr[i := pr_step F G src ! i] ! v = old ! v" if "v < numVertex G" "\<not> covered ns v" for v
  proof -
    have "v \<noteq> i" using that(2) i(1,2) t(1) by (auto simp: covered_iff)
    then show ?thesis using w that by (simp add: written_def)
  qed
  fix u v assume u: "u < length ns" "v \<in> {fst (ns ! u)..snd (ns ! u)}"
  have old: "wr ! v = (if int v < mt_i (ths ! u) then pr_step F G src ! v else old ! v)"
    using w u by (simp add: written_def)
  show "wr[i := pr_step F G src ! i] ! v = (if int v < mt_i (ths[t := th] ! u) then pr_step F G src ! v else old ! v)"
  proof (cases "u = t")
    case True
    then show ?thesis using old i D(2) len t by (auto simp: nth_list_update)
  next
    case False
    then have "v \<noteq> i" using D(3)[OF u(1) False, of i] i(1,2) u(2) by auto
    then show ?thesis using old False by simp
  qed
qed

lemma run_ok:
  assumes ok: "pr_ok G" and r: "ranges_ok G ns" and p: "in_pass F G ns k S" and t: "t < length ns"
    and pc: "mt_pc (mt_threads S ! t) = AtVertex \<or> mt_pc (mt_threads S ! t) = InRow"
  shows "\<exists>S'. mt_run_thread F (pr_of G) (degrees_of G) (int_ranges ns) t S = Some S' \<and> in_pass F G ns k S' \<and>
    total_weight G ns S' < total_weight G ns S"
proof -
  let ?src = "source k (mt_after F G ns k)" and ?old = "target k (mt_after F G ns k)" and ?th = "mt_threads S ! t"
  let ?a = "fst (ns ! t)" and ?b = "snd (ns ! t)" and ?A = "(mt_temp S, mt_attr S)"
  note D = ranges_okD[OF r t]
  have P: "k < MAX_ITER" "length (mt_threads S) = length ns" "source k ?A = ?src"
    "written F G ns ?src ?old (mt_threads S) (target k ?A)" "\<And>u. u < length ns \<Longrightarrow> thread_ok F G ?src k (fst (ns ! u)) (snd (ns ! u)) (mt_threads S ! u)"
    using p by (auto simp: in_pass_def)
  have len: "length ?src = numVertex G" "length (target k ?A) = numVertex G" using P(4) length_mt_after by (auto simp: written_def)
  have it: "mt_iter ?th = k" using P(5)[OF t] pc by (auto simp: thread_ok_def)
  obtain th wr where c: "mt_core F (pr_of G) (degrees_of G) (int ?b) ?th ?src (target k ?A) = Some (th, wr)"
    and th: "thread_ok F G ?src k ?a ?b th" "mt_weight G ?b th < mt_weight G ?b ?th"
    and wr: "wr = target k ?A \<and> mt_i th = mt_i ?th \<or>
     (\<exists>i. ?a \<le> i \<and> i \<le> ?b \<and> mt_i ?th = int i \<and> mt_i th = int (Suc i) \<and> wr = (target k ?A)[i := pr_step F G ?src ! i])"
    using mt_core_ok[OF ok P(5)[OF t] D(2) P(1) len pc] by blast
  define S' where "S' = \<lparr>mt_temp = (if k mod 2 = 0 then wr else mt_temp S), mt_attr = (if k mod 2 = 0 then mt_attr S else wr),
    mt_threads = (mt_threads S)[t := th]\<rparr>"
  have S': "source k (mt_temp S', mt_attr S') = ?src" "target k (mt_temp S', mt_attr S') = wr" "mt_threads S' = (mt_threads S)[t := th]"
    using P(3) by (auto simp: S'_def source_def target_def)
  have run: "mt_run_thread F (pr_of G) (degrees_of G) (int_ranges ns) t S = Some S'"
    using c P(3) t it by (auto simp: mt_run_thread_def mt_step_core S'_def source_def target_def)
  have "written F G ns ?src ?old ((mt_threads S)[t := th]) wr"
    using wr
  proof
    assume w: "wr = target k ?A \<and> mt_i th = mt_i ?th"
    have "mt_i ((mt_threads S)[t := th] ! u) = mt_i (mt_threads S ! u)" for u
      using w t P(2) by (cases "u = t") simp_all
    then show ?thesis using w P(4) by (simp add: written_def)
  qed (use written_step[OF r P(4) t P(2)] in blast)
  moreover have "thread_ok F G ?src k (fst (ns ! u)) (snd (ns ! u)) ((mt_threads S)[t := th] ! u)" if "u < length ns" for u
    using that P(2,5) th(1) by (cases "u = t") simp_all
  ultimately have "in_pass F G ns k S'" using P(1,2) by (simp add: in_pass_def S')
  moreover have "total_weight G ns S' < total_weight G ns S"
    unfolding total_weight_def
  proof (rule sum_strict_mono_ex1)
    show "\<forall>u\<in>{..<length ns}. mt_weight G (snd (ns ! u)) (mt_threads S' ! u) \<le> mt_weight G (snd (ns ! u)) (mt_threads S ! u)"
      using th(2) t P(2) by (auto simp: S'(3) nth_list_update)
    show "\<exists>u\<in>{..<length ns}. mt_weight G (snd (ns ! u)) (mt_threads S' ! u) < mt_weight G (snd (ns ! u)) (mt_threads S ! u)"
      using th(2) t P(2) by (intro bexI[of _ t]) (auto simp: S'(3))
  qed simp
  ultimately show ?thesis using run by blast
qed

text \<open>When all threads wait, the array that was written is complete.\<close>

lemma barrier_ok:
  assumes ok: "pr_ok G" and r: "ranges_ok G ns" and p: "in_pass F G ns k S"
    and all: "list_all (\<lambda>th. mt_pc th = AtBarrier) (mt_threads S)"
  shows "in_pass F G ns (Suc k) (mt_release (int_ranges ns) S) \<or> at_end F G ns (mt_release (int_ranges ns) S)"
    "total_weight G ns (mt_release (int_ranges ns) S) < total_weight G ns S"
proof -
  let ?src = "source k (mt_after F G ns k)" and ?old = "target k (mt_after F G ns k)" and ?A = "(mt_temp S, mt_attr S)"
  let ?S = "mt_release (int_ranges ns) S"
  have P: "k < MAX_ITER" "length (mt_threads S) = length ns" "source k ?A = ?src"
    "written F G ns ?src ?old (mt_threads S) (target k ?A)" "\<And>u. u < length ns \<Longrightarrow> thread_ok F G ?src k (fst (ns ! u)) (snd (ns ! u)) (mt_threads S ! u)"
    using p by (auto simp: in_pass_def)
  have th: "mt_pc (mt_threads S ! u) = AtBarrier" "mt_iter (mt_threads S ! u) = Suc k" "mt_i (mt_threads S ! u) = int (Suc (snd (ns ! u)))"
    if "u < length ns" for u
    using all P(2) P(5)[OF that] that by (auto simp: list_all_length thread_ok_def)
  have new: "mt_threads ?S ! u = (mt_threads S ! u)\<lparr>mt_i := int (fst (ns ! u)),
      mt_pc := (if Suc k < MAX_ITER then AtVertex else Finished)\<rparr>" if "u < length ns" for u
    using that th P(2) by (simp add: mt_release_def)
  have A: "mt_temp ?S = mt_temp S" "mt_attr ?S = mt_attr S" "length (mt_threads ?S) = length ns"
    using P(2) by (simp_all add: mt_release_def)
  have full: "target k ?A = mt_pass F G ns ?src ?old"
  proof (rule nth_equalityI)
    show "length (target k ?A) = length (mt_pass F G ns ?src ?old)" using P(4) by (simp add: written_def mt_pass_def)
    fix v assume "v < length (target k ?A)"
    then have v: "v < numVertex G" using P(4) by (simp add: written_def)
    show "target k ?A ! v = mt_pass F G ns ?src ?old ! v"
    proof (cases "covered ns v")
      case True
      then obtain u where u: "u < length ns" "v \<in> {fst (ns ! u)..snd (ns ! u)}" by (auto simp: covered_iff)
      then have "target k ?A ! v = (if int v < mt_i (mt_threads S ! u) then pr_step F G ?src ! v else ?old ! v)"
        using P(4) by (simp add: written_def)
      then show ?thesis using u th(3)[OF u(1)] v True by (simp add: mt_pass_def)
    next
      case False
      then show ?thesis using P(4) v by (simp add: mt_pass_def written_def)
    qed
  qed
  have arrays: "?A = mt_after F G ns (Suc k)"
    by (rule source_target_eq[of k]) (simp_all only: mt_after_Suc P(3) full)
  show "in_pass F G ns (Suc k) ?S \<or> at_end F G ns ?S"
  proof (cases "Suc k < MAX_ITER")
    case True
    have "written F G ns (source (Suc k) (mt_after F G ns (Suc k))) (target (Suc k) (mt_after F G ns (Suc k))) (mt_threads ?S)
        (target (Suc k) (mt_temp ?S, mt_attr ?S))"
      unfolding A arrays using length_mt_after[of "Suc k" F G ns "Suc k"] by (auto simp: written_def new simp del: mt_after.simps)
    moreover have "thread_ok F G (source (Suc k) (mt_after F G ns (Suc k))) (Suc k) (fst (ns ! u)) (snd (ns ! u)) (mt_threads ?S ! u)"
      if "u < length ns" for u
      using True th[OF that] ranges_okD(1)[OF r that] by (simp add: new[OF that] thread_ok_def)
    ultimately show ?thesis using True A arrays by (simp add: in_pass_def del: mt_after.simps)
  next
    case False
    then have k: "Suc k = MAX_ITER" using P(1) by simp
    then have "mt_finished ?S" using A(3) by (simp add: mt_finished_def list_all_length new)
    then show ?thesis using A arrays k by (simp add: at_end_def)
  qed
  have less: "mt_weight G (snd (ns ! u)) (mt_threads ?S ! u) < mt_weight G (snd (ns ! u)) (mt_threads S ! u)" if u: "u < length ns" for u
  proof -
    have "Suc (snd (ns ! u)) - fst (ns ! u) \<le> numVertex G" using ranges_okD(2)[OF r u] by simp
    then have "(Suc (snd (ns ! u)) - fst (ns ! u)) * (numEdges G + 3) \<le> numVertex G * (numEdges G + 3)" by (rule mult_right_mono) simp
    then have "(Suc (snd (ns ! u)) - fst (ns ! u)) * (numEdges G + 3) < numEdges G + (4 + numVertex G * (numEdges G + 3))" by linarith
    then show ?thesis using th[OF u] by (simp add: new[OF u] mt_weight_def Let_def)
  qed
  show "total_weight G ns ?S < total_weight G ns S"
    unfolding total_weight_def using less r by (intro sum_strict_mono) (auto simp: ranges_ok_def)
qed

lemma mt_init_ok:
  assumes "ranges_ok G ns"
  shows "in_pass F G ns 0 (mt_init (int_ranges ns) F (replicate (numVertex G) (fzero F)) (ones F G))"
  using le_SucI[OF ranges_okD(1)[OF assms]] by (auto simp: in_pass_def mt_init_def MAX_ITER_def source_def target_def written_def thread_ok_def)

text \<open>Every step from a state of a run leads to a state of a run, with a smaller weight; a state from which
  there is none is the end.\<close>

definition mt_inv :: "'f floating \<Rightarrow> graph \<Rightarrow> (nat \<times> nat) list \<Rightarrow> 'f mt_state \<Rightarrow> bool" where
  "mt_inv F G ns S \<longleftrightarrow> (\<exists>k. in_pass F G ns k S) \<or> at_end F G ns S"

lemma mt_step_inv:
  assumes "pr_ok G" "ranges_ok G ns" "mt_inv F G ns S" "mt_step F (pr_of G) (degrees_of G) (int_ranges ns) S r"
  shows "\<exists>S'. r = Some S' \<and> mt_inv F G ns S' \<and> total_weight G ns S' < total_weight G ns S"
  using assms(4)
proof (cases rule: mt_step.cases)
  case (run t)
  then have "\<not> at_end F G ns S" by (auto simp: at_end_def mt_finished_def list_all_length)
  then obtain k where k: "in_pass F G ns k S" using assms(3) by (auto simp: mt_inv_def)
  then have t: "t < length ns" using run by (simp add: in_pass_def)
  show ?thesis using run_ok[OF assms(1,2) k t run(3)] run(1) unfolding mt_inv_def by blast
next
  case barrier
  then have "\<not> at_end F G ns S" by (cases "mt_threads S") (auto simp: at_end_def mt_finished_def)
  then obtain k where "in_pass F G ns k S" using assms(3) by (auto simp: mt_inv_def)
  then show ?thesis using barrier_ok[OF assms(1,2)] barrier by (auto simp: mt_inv_def)
qed

lemma mt_reach_inv:
  assumes "pr_ok G" "ranges_ok G ns" "mt_inv F G ns S0"
  shows "mt_reach F (pr_of G) (degrees_of G) (int_ranges ns) S0 r \<Longrightarrow> \<exists>S. r = Some S \<and> mt_inv F G ns S"
proof (induction rule: mt_reach.induct)
  case (step S r)
  then show ?case using mt_step_inv[OF assms(1,2)] by blast
qed (use assms(3) in simp)

lemma mt_progress:
  assumes "mt_inv F G ns S" "ns \<noteq> []" "\<not> mt_finished S"
  shows "\<exists>r. mt_step F H deg rs S r"
proof -
  obtain k where k: "in_pass F G ns k S" using assms(1,3) by (auto simp: mt_inv_def at_end_def)
  show ?thesis
  proof (cases "list_all (\<lambda>th. mt_pc th = AtBarrier) (mt_threads S)")
    case True
    moreover have "mt_threads S \<noteq> []" using k assms(2) by (auto simp: in_pass_def)
    ultimately show ?thesis using mt_step.barrier by blast
  next
    case False
    then obtain t where t: "t < length (mt_threads S)" "mt_pc (mt_threads S ! t) \<noteq> AtBarrier" by (auto simp: list_all_length)
    then have "thread_ok F G (source k (mt_after F G ns k)) k (fst (ns ! t)) (snd (ns ! t)) (mt_threads S ! t)"
      using k by (simp add: in_pass_def)
    then have "mt_pc (mt_threads S ! t) = AtVertex \<or> mt_pc (mt_threads S ! t) = InRow"
      using t(2) by (cases "mt_pc (mt_threads S ! t)") (auto simp: thread_ok_def)
    then show ?thesis using mt_step.run[OF t(1)] by blast
  qed
qed

text \<open>Some run reaches the end.\<close>

lemma mt_terminates:
  assumes "pr_ok G" "ranges_ok G ns" "mt_inv F G ns S0"
  shows "mt_reach F (pr_of G) (degrees_of G) (int_ranges ns) S0 (Some S) \<Longrightarrow>
    \<exists>S'. mt_reach F (pr_of G) (degrees_of G) (int_ranges ns) S0 (Some S') \<and> mt_finished S'"
proof (induction "total_weight G ns S" arbitrary: S rule: less_induct)
  case less
  have inv: "mt_inv F G ns S" using mt_reach_inv[OF assms less.prems] by simp
  show ?case
  proof (cases "mt_finished S")
    case False
    have ne: "ns \<noteq> []" using assms(2) by (auto simp: ranges_ok_def)
    obtain r where r: "mt_step F (pr_of G) (degrees_of G) (int_ranges ns) S r" using mt_progress[OF inv ne False] by blast
    then obtain S' where S': "r = Some S'" "total_weight G ns S' < total_weight G ns S"
      using mt_step_inv[OF assms(1,2) inv] by blast
    then show ?thesis using less.hyps[OF S'(2)] mt_reach.step[OF less.prems] r by blast
  qed (use less.prems in blast)
qed

section \<open>The division among the threads\<close>

text \<open>The ranges follow one another without a gap.\<close>

fun chain :: "nat \<Rightarrow> (nat \<times> nat) list \<Rightarrow> nat \<Rightarrow> bool" where
  "chain a [] e \<longleftrightarrow> e = a"
| "chain a ((x, y) # ns) e \<longleftrightarrow> x = a \<and> x \<le> y \<and> chain (Suc y) ns e"

lemma chain_snoc: "chain a (ns @ [(x, y)]) e \<longleftrightarrow> chain a ns x \<and> x \<le> y \<and> e = Suc y"
  by (induction a ns x rule: chain.induct) auto

lemma chain_bounds: "chain a ns e \<Longrightarrow> a + length ns \<le> e \<and> (\<forall>(x, y) \<in> set ns. a \<le> x \<and> x \<le> y \<and> y < e)"
  by (induction a ns e rule: chain.induct) force+

lemma chain_covered: "chain a ns e \<Longrightarrow> covered ns v \<longleftrightarrow> a \<le> v \<and> v < e"
proof (induction a ns e rule: chain.induct)
  case (2 a x y ns e)
  then have "Suc y \<le> e" using chain_bounds[of "Suc y" ns e] by simp
  then show ?case using 2 by (auto simp: covered_def)
qed (simp add: covered_def)

lemma chain_sorted: "chain a ns e \<Longrightarrow> sorted_wrt (\<lambda>r s. snd r < fst s) ns"
proof (induction a ns e rule: chain.induct)
  case (2 a x y ns e)
  then show ?case using chain_bounds[of "Suc y" ns e] by (force simp: split_def)
qed simp

lemma chain_ranges_ok:
  assumes "chain 0 ns e" "ns \<noteq> []" "e \<le> numVertex G"
  shows "ranges_ok G ns"
  using assms chain_bounds[OF assms(1)] chain_sorted[OF assms(1)] by (fastforce simp: ranges_ok_def list_all_iff)

lemma mt_scan_bounds:
  "mt_scan vi n t v = Some r \<Longrightarrow> v \<le> r \<and> v < int (length vi)"
proof (rule mt_scan.raw_induct[where P = "\<lambda>vi n t v r. v \<le> r \<and> v < int (length vi)", rotated], assumption)
  fix f vi n t v r
  assume IH: "\<And>vi n t v r. f vi n t v = Some r \<Longrightarrow> v \<le> r \<and> v < int (length vi)"
    and eq: "do { x \<leftarrow> iget vi v; if x < t then do { v \<leftarrow> int32 (v + 1); if v = n - 1 then Some v else f vi n t v } else Some v } = Some r"
  obtain x where x: "iget vi v = Some x" using eq by (auto split: Option.bind_splits)
  then have v: "v < int (length vi)" by (auto simp: iget_def split: if_splits dest!: agetD)
  show "v \<le> r \<and> v < int (length vi)"
  proof (cases "x < t")
    case True
    then obtain u where u: "int32 (v + 1) = Some u" "u = v + 1"
      using eq x by (auto simp: int32_def split: if_splits Option.bind_splits)
    then show ?thesis using eq x v True IH[of vi n t u r] by (auto split: if_splits)
  next
    case False
    then show ?thesis using eq x v by auto
  qed
qed

lemma mt_partition_loop:
  assumes "mfold (\<lambda>i (vcount, rs). do {
       startVertex \<leftarrow> int32 (vcount + 1); k \<leftarrow> int32 (i + 1); target \<leftarrow> int32 (k * per);
       endVertex \<leftarrow> mt_scan vi n target startVertex;
       Some (endVertex, rs @ [(startVertex, endVertex)]) }) xs (int e - 1, int_ranges ns) = Some (v, rs)"
    "chain 0 ns e" "\<forall>r \<in> set ns. fst r < length vi"
  shows "\<exists>ns' e'. rs = int_ranges ns' \<and> chain 0 ns' e' \<and> v = int e' - 1 \<and> length ns' = length ns + length xs \<and>
    (\<forall>r \<in> set ns'. fst r < length vi)"
  using assms
proof (induction xs arbitrary: e ns)
  case (Cons x xs)
  let ?f = "\<lambda>i (vcount, rs). do {
       startVertex \<leftarrow> int32 (vcount + 1); k \<leftarrow> int32 (i + 1); target \<leftarrow> int32 (k * per);
       endVertex \<leftarrow> mt_scan vi n target startVertex;
       Some (endVertex, rs @ [(startVertex, endVertex)]) }"
  obtain s where s: "?f x (int e - 1, int_ranges ns) = Some s" "mfold ?f xs s = Some (v, rs)"
    using Cons.prems(1) by (auto split: Option.bind_splits simp: split_def)
  then obtain target b where b: "mt_scan vi n target (int e) = Some b" "s = (b, int_ranges ns @ [(int e, b)])"
    by (auto split: Option.bind_splits if_splits simp: int32_def)
  have el: "e < length vi" using mt_scan_bounds[OF b(1)] by simp
  obtain y where y: "b = int y" "e \<le> y" using mt_scan_bounds[OF b(1)] by (metis nat_int_comparison(3) nonneg_int_cases of_nat_0_le_iff order_trans)
  have "s = (int (Suc y) - 1, int_ranges (ns @ [(e, y)]))" using b(2) y by simp
  moreover have "chain 0 (ns @ [(e, y)]) (Suc y)" using Cons.prems(2) y by (simp add: chain_snoc)
  ultimately show ?case using Cons.IH[of "Suc y" "ns @ [(e, y)]"] s(2) Cons.prems(3) el by auto
qed auto

lemma mt_partition_chain:
  assumes "mt_partition G (int k) = Some rs"
  shows "\<exists>ns e. rs = int_ranges ns \<and> chain 0 ns e \<and> length ns = k \<and> (\<forall>r \<in> set ns. fst r < length (pr_VI G))"
proof -
  have k: "int k \<noteq> 0" by (rule notI) (use assms in \<open>simp add: mt_partition_def\<close>)
  have s: "(-1, []) = (int 0 - 1, int_ranges [])" by simp
  obtain v where "int_for 0 (int k) (\<lambda>i (vcount, rs). do {
       startVertex \<leftarrow> int32 (vcount + 1); k' \<leftarrow> int32 (i + 1); target \<leftarrow> int32 (k' * (pr_numEdges G sdiv int k));
       endVertex \<leftarrow> mt_scan (pr_VI G) (pr_numVertex G) target startVertex;
       Some (endVertex, rs @ [(startVertex, endVertex)]) }) (-1, []) = Some (v, rs)"
    using assms k unfolding mt_partition_def by (auto simp: Let_def split: Option.bind_splits)
  from mt_partition_loop[OF this[unfolded int_for_def s]] show ?thesis by auto
qed

lemma mt_partition_last:
  assumes "mt_partition G (int k) = Some (int_ranges ns)"
  shows "chain 0 ns (Suc (snd (last ns)))" "ns \<noteq> []"
proof -
  obtain ns' e where c: "int_ranges ns = int_ranges ns'" "chain 0 ns' e" "length ns' = k"
    using mt_partition_chain[OF assms] by blast
  then have ns: "ns' = ns" by (auto intro: nth_equalityI simp: list_eq_iff_nth_eq prod_eq_iff)
  have "k \<noteq> 0" by (rule notI) (use assms in \<open>simp add: mt_partition_def\<close>)
  then show ne: "ns \<noteq> []" using c(3) ns by auto
  have "\<exists>pre x y. ns = pre @ [(x, y)]" using ne by (metis rev_exhaust surj_pair)
  then show "chain 0 ns (Suc (snd (last ns)))" using c(2) ns by (auto simp: chain_snoc)
qed

section \<open>The program\<close>

lemma mt_findOutDeg_eq: "pr_numEdges G = int m \<Longrightarrow> mt_findOutDeg G deg = findOutDeg G deg"
  by (simp add: mt_findOutDeg_def findOutDeg_def int_for_0)

lemma mt_setup_ok:
  assumes "pr_ok G" "mt_partition (pr_of G) k = Some rs"
  shows "mt_setup F (pr_of G) k =
    Some (degrees_of G, rs, mt_init rs F (replicate (numVertex G) (fzero F)) (ones F G))"
proof -
  have n: "pr_numVertex (pr_of G) = int (numVertex G)" "pr_numEdges (pr_of G) = int (numEdges G)" by (simp_all add: pr_of_def)
  show ?thesis
    unfolding mt_setup_def n(1) new_array_int Option.bind.simps mt_findOutDeg_eq[OF n(2)] findOutDeg_ok[OF assms(1)]
      initGraph_ok assms(2) ..
qed

text \<open>The results of \<open>main\<close> for readable arguments, in terms of the runs of the threads.\<close>

lemma prMT_main_cases:
  fixes F :: "'f floating"
  assumes ok: "pr_ok G" and f: "cg_write_csr G = Some bs" "fs f = Some bs" and k: "k < U32 div 2"
    and part: "mt_partition (pr_of G) (int k) = Some rs"
  defines "S0 \<equiv> mt_init rs F (replicate (numVertex G) (fzero F)) (ones F G)"
  shows "prMT_main F [p, f, print_d k] fs writable r \<longleftrightarrow>
    mt_reach F (pr_of G) (degrees_of G) rs S0 None \<and> r = None \<or>
    (\<exists>S. mt_reach F (pr_of G) (degrees_of G) rs S0 (Some S) \<and> mt_finished S \<and>
      r = pr_dump F (int (numVertex G)) 0 (mt_attr S, mt_temp S) writable)"
proof -
  let ?argv = "[p, f, print_d k]"
  have a: "length ?argv = 3" "atoi (?argv ! 2) = Some k" "to_int32 k = int k" using atoi_print k to_int32_small by simp_all
  have rd: "pr_read_csr (fs (?argv ! 1)) = Some (Some (pr_of G))" using pr_read_write[OF ok f(1)] f(2) by simp
  have st: "mt_setup F (pr_of G) (to_int32 k) = Some (degrees_of G, rs, S0)"
    unfolding a(3) S0_def by (rule mt_setup_ok[OF ok part])
  have n: "pr_numVertex (pr_of G) = int (numVertex G)" by (simp add: pr_of_def)
  show ?thesis
  proof (intro iffI; (elim disjE conjE exE)?)
    assume "prMT_main F ?argv fs writable r"
    then show "mt_reach F (pr_of G) (degrees_of G) rs S0 None \<and> r = None \<or>
      (\<exists>S. mt_reach F (pr_of G) (degrees_of G) rs S0 (Some S) \<and> mt_finished S \<and>
        r = pr_dump F (int (numVertex G)) 0 (mt_attr S, mt_temp S) writable)"
      by (cases rule: prMT_main.cases) (use a(2) rd st n in \<open>auto simp del: nth_Cons_0 nth_Cons_Suc\<close>)
  next
    assume "mt_reach F (pr_of G) (degrees_of G) rs S0 None" "r = None"
    then show "prMT_main F ?argv fs writable r" using prMT_main.run_undefined[where argv = ?argv and fs = fs, OF a(1,2) rd st] by simp
  next
    fix S assume "mt_reach F (pr_of G) (degrees_of G) rs S0 (Some S)" "mt_finished S"
      "r = pr_dump F (int (numVertex G)) 0 (mt_attr S, mt_temp S) writable"
    then show "prMT_main F ?argv fs writable r" using prMT_main.completed[where argv = ?argv and fs = fs, OF a(1,2) rd st] by (simp add: n)
  qed
qed

lemma mt_finished_at_end:
  assumes "ranges_ok G ns" "mt_inv F G ns S" "mt_finished S"
  shows "(mt_temp S, mt_attr S) = mt_after F G ns MAX_ITER"
proof -
  have "\<not> in_pass F G ns k S" for k
  proof
    assume p: "in_pass F G ns k S"
    have "0 < length ns" using assms(1) by (auto simp: ranges_ok_def)
    then have "mt_pc (mt_threads S ! 0) \<noteq> Finished" "0 < length (mt_threads S)"
      using p by (auto simp: in_pass_def thread_ok_def)
    then show False using assms(3) by (auto simp: mt_finished_def list_all_length)
  qed
  then show ?thesis using assms(2) by (auto simp: mt_inv_def at_end_def)
qed

text \<open>With ranges in the graph there is exactly one result, whatever the schedule.\<close>

lemma prMT_main_det:
  assumes lin: "linear F" and ok: "pr_ok G" and n: "numVertex G \<le> 1073741824" and f: "cg_write_csr G = Some bs" "fs f = Some bs"
    and k: "k < U32 div 2" and part: "mt_partition (pr_of G) (int k) = Some (int_ranges ns)" and r: "ranges_ok G ns"
    and w: "writable ''dumpPR.txt''"
  shows "prMT_main F [p, f, print_d k] fs writable res \<longleftrightarrow>
    res = Some (0, [(''dumpPR.txt'', rank_lines F (snd (mt_after F G ns MAX_ITER)))])"
proof -
  let ?S0 = "mt_init (int_ranges ns) F (replicate (numVertex G) (fzero F)) (ones F G)"
  have inv: "mt_inv F G ns ?S0" using mt_init_ok[OF r] by (auto simp: mt_inv_def)
  have no: "\<not> mt_reach F (pr_of G) (degrees_of G) (int_ranges ns) ?S0 None" using mt_reach_inv[OF ok r inv] by blast
  have end_state: "(mt_temp S, mt_attr S) = mt_after F G ns MAX_ITER"
    if "mt_reach F (pr_of G) (degrees_of G) (int_ranges ns) ?S0 (Some S)" "mt_finished S" for S
    using mt_reach_inv[OF ok r inv that(1)] that(2) mt_finished_at_end[OF r] by auto
  have dump: "pr_dump F (int (numVertex G)) 0 (mt_attr S, mt_temp S) writable =
      Some (0, [(''dumpPR.txt'', rank_lines F (snd (mt_after F G ns MAX_ITER)))])"
    if "mt_reach F (pr_of G) (degrees_of G) (int_ranges ns) ?S0 (Some S)" "mt_finished S" for S
  proof -
    have a: "mt_attr S = snd (mt_after F G ns MAX_ITER)" using end_state[OF that] by (metis snd_conv)
    then have "length (mt_attr S) = numVertex G" using length_mt_after[of 0 F G ns MAX_ITER] by (simp add: source_def)
    then show ?thesis using pr_dump_ok[OF lin _ n, of "mt_attr S" 0 "mt_temp S" writable] w a by simp
  qed
  obtain S where "mt_reach F (pr_of G) (degrees_of G) (int_ranges ns) ?S0 (Some S)" "mt_finished S"
    using mt_terminates[OF ok r inv mt_reach.start] by blast
  then show ?thesis
    unfolding prMT_main_cases[where fs = fs and f = f, OF ok f k part] using no dump by auto
qed

lemma mt_pass_all:
  assumes "chain 0 ns (numVertex G)" "length src = numVertex G"
  shows "mt_pass F G ns src dst = pr_step F G src"
  using chain_covered[OF assms(1)] by (intro nth_equalityI) (simp_all add: mt_pass_def)

lemma mt_after_all:
  assumes "chain 0 ns (numVertex G)"
  shows "snd (mt_after F G ns (2 * k)) = (pr_step F G ^^ (2 * k)) (ones F G)"
proof (induction k)
  case (Suc k)
  obtain temp attr where ta: "mt_after F G ns (2 * k) = (temp, attr)" by force
  have l: "length attr = numVertex G" using length_mt_after(1)[of 0 F G ns "2 * k"] ta by (simp add: source_def)
  have "mt_after F G ns (2 * Suc k) = (pr_step F G attr, pr_step F G (pr_step F G attr))"
    by (simp add: ta mt_pass_all[OF assms] l)
  then have s: "snd (mt_after F G ns (2 * Suc k)) = pr_step F G (pr_step F G attr)" by (simp only: snd_conv)
  have "attr = (pr_step F G ^^ (2 * k)) (ones F G)" using Suc ta by simp
  then show ?case unfolding s by simp
qed simp

text \<open>A vertex outside every range is never written.\<close>

lemma mt_after_uncovered:
  assumes "v < numVertex G" "\<not> covered ns v"
  shows "fst (mt_after F G ns k) ! v = fzero F \<and> snd (mt_after F G ns k) ! v = fone F"
  using assms by (induction k) (auto simp: mt_pass_def split: prod.splits)

text \<open>Integer arithmetic, for the examples below.\<close>

definition int_floating :: "int floating" where
  "int_floating = \<lparr>fzero = 0, fone = 1, fdamping = 3, fplus = (+), fminus = (-), ftimes = (*), fdivide = (div),
     fint = (\<lambda>i. i), fge = (\<lambda>x y. x \<ge> y), fgt = (\<lambda>x y. x > y), print_lf = (\<lambda>x. print_d (nat x))\<rparr>"

section \<open>Properties\<close>

text \<open>C23: The program \<open>prMT\<close>: when the ranges of the threads are the vertices of the graph, every schedule of
  the threads ends with the same file, the result of ten sequential passes; no schedule is undefined and one ends.\<close>

theorem prMT_main_ranks:
  assumes "linear F" "pr_ok G" "numVertex G \<le> 2 ^ 30" "cg_write_csr G = Some bs" "fs f = Some bs" "k < U32 div 2"
    "mt_partition (pr_of G) (int k) = Some (int_ranges ns)" "snd (last ns) = numVertex G - 1" "writable ''dumpPR.txt''"
  shows "prMT_main F [p, f, print_d k] fs writable r \<longleftrightarrow> r = Some (0, [(''dumpPR.txt'',
    concat (map (\<lambda>x. print_lf F x @ [newline])
      (take 1000 (rev (sort ((pr_step F G ^^ 10) (replicate (numVertex G) (fone F))))))))])"
proof -
  note c = mt_partition_last[OF assms(7)]
  have e: "Suc (snd (last ns)) = numVertex G" using assms(8) wf_csrD(1)[OF pr_okD(1)[OF assms(2)]] by simp
  have r: "ranges_ok G ns" using chain_ranges_ok[OF c] e by simp
  have "snd (mt_after F G ns MAX_ITER) = (pr_step F G ^^ 10) (ones F G)"
    using mt_after_all[of ns G F 5] c(1) e by (simp add: MAX_ITER_def)
  then show ?thesis
    using prMT_main_det[where fs = fs and f = f and p = p and res = r and writable = writable, OF assms(1,2) _ assms(4-7) r assms(9)] assms(3) by (simp add: rank_lines_def)
qed

theorem prMT_main_ranks_witness:
  "Collect (prMT_main int_floating [''prMT'', ''g'', print_d 2]
    (\<lambda>_. Some (concat (map le_bytes [5, 5, 0, 1, 2, 3, 4, 1, 2, 3, 4, 0]))) (\<lambda>_. True)) =
   {Some (0, [(''dumpPR.txt'', concat (replicate 5 (print_d 1 @ [newline])))])}"
  (is "Collect (prMT_main ?F _ _ _) = _")
proof -
  let ?G = "\<lparr>numVertex = 5, numEdges = 5, VI = [0, 1, 2, 3, 4], EI = [1, 2, 3, 4, 0 :: nat]\<rparr>"
  let ?bs = "concat (map le_bytes [5, 5, 0, 1, 2, 3, 4, 1, 2, 3, 4, 0])"
  have ok: "pr_ok ?G" by (simp add: pr_ok_def wf_csr_eval eend_def upt_rec)
  have w: "cg_write_csr ?G = Some ?bs" by (simp add: cg_write_csr_def fwrite_u32_def)
  have s: "pr_step ?F ?G [1, 1, 1, 1, 1] = [1, 1, 1, 1, 1]"
    by (simp add: int_floating_def pr_step_def rank_of_def row_total_def adj_def eend_def slice_def upt_rec)
  have "(pr_step ?F ?G ^^ k) [1, 1, 1, 1, 1] = [1, 1, 1, 1, 1]" for k by (induction k) (simp_all only: funpow.simps id_apply comp_apply s)
  moreover have "replicate (numVertex ?G) (fone ?F) = [1, 1, 1, 1, 1]" by (simp add: int_floating_def eval_nat_numeral)
  ultimately have r: "(pr_step ?F ?G ^^ 10) (replicate (numVertex ?G) (fone ?F)) = [1, 1, 1, 1, 1]" by simp
  have vi: "pr_VI (pr_of ?G) = [0, 1, 2, 3, 4, 5]" "pr_numVertex (pr_of ?G) = 5" "pr_numEdges (pr_of ?G) = 5" by (simp_all add: pr_of_def)
  have a: "mt_scan [0, 1, 2, 3, 4, 5] 5 2 0 = Some 2" "mt_scan [0, 1, 2, 3, 4, 5] 5 4 3 = Some 4"
    by (simp_all add: mt_scan.simps[of _ _ _ 0] mt_scan.simps[of _ _ _ 1] mt_scan.simps[of _ _ _ 2] mt_scan.simps[of _ _ _ 3] iget_def int32_def)
  have p: "mt_partition (pr_of ?G) (int 2) = Some (int_ranges [(0, 2), (3, 4)])"
    unfolding mt_partition_def vi by (simp add: int_for_def signed_divide_int_def int32_def a upto_rec1 Let_def)
  have lin: "linear ?F" by (simp add: int_floating_def linear_def)
  have rep: "replicate 5 s = [s, s, s, s, s]" for s :: string by (simp add: eval_nat_numeral)
  have l: "concat (map (\<lambda>x. print_lf ?F x @ [newline]) (take 1000 (rev (sort [1, 1, 1, 1, 1])))) =
      concat (replicate 5 (print_d 1 @ [newline]))"
    unfolding rep by (simp add: int_floating_def sort_key_def)
  show ?thesis
    using prMT_main_ranks[of ?F ?G ?bs "\<lambda>_. Some ?bs" "''g''" 2 "[(0, 2), (3, 4)]" "\<lambda>_. True" "''prMT''", OF lin ok _ w refl _ p]
    unfolding r l by (auto simp: set_eq_iff)
qed

text \<open>C24: No deadlock and no race to the end: from every state that the threads can reach, a step is possible unless
  all threads are done, every possible step is defined, and it lowers the number of steps that can still follow.\<close>

theorem prMT_live:
  assumes "pr_ok G" "ranges_ok G ns" "mt_reach F (pr_of G) (degrees_of G) (int_ranges ns)
    (mt_init (int_ranges ns) F (replicate (numVertex G) (fzero F)) (replicate (numVertex G) (fone F))) (Some S)"
  shows "(mt_finished S \<or> (\<exists>r. mt_step F (pr_of G) (degrees_of G) (int_ranges ns) S r)) \<and>
    (\<forall>r. mt_step F (pr_of G) (degrees_of G) (int_ranges ns) S r \<longrightarrow>
      (\<exists>S'. r = Some S' \<and> total_weight G ns S' < total_weight G ns S))"
proof -
  have "mt_inv F G ns (mt_init (int_ranges ns) F (replicate (numVertex G) (fzero F)) (ones F G))"
    using mt_init_ok[OF assms(2)] by (auto simp: mt_inv_def)
  from mt_reach_inv[OF assms(1,2) this assms(3)] have inv: "mt_inv F G ns S" by simp
  have "ns \<noteq> []" using assms(2) by (simp add: ranges_ok_def)
  then show ?thesis using mt_progress[OF inv] mt_step_inv[OF assms(1,2) inv] by blast
qed

theorem prMT_live_witness:
  "\<exists>r. mt_step int_floating \<lparr>pr_numVertex = 2, pr_numEdges = 2, pr_VI = [0, 1, 2], pr_EI = [1, 0]\<rparr> [1, 1] [(0, 1)]
    (mt_init [(0, 1)] int_floating (replicate 2 (fzero int_floating)) (replicate 2 (fone int_floating))) r"
proof -
  let ?G = "\<lparr>numVertex = 2, numEdges = 2, VI = [0, 1], EI = [1, 0 :: nat]\<rparr>"
  have ok: "pr_ok ?G" by (simp add: pr_ok_def wf_csr_eval eend_def upt_rec)
  have H: "pr_of ?G = \<lparr>pr_numVertex = 2, pr_numEdges = 2, pr_VI = [0, 1, 2], pr_EI = [1, 0]\<rparr>" by (simp add: pr_of_def)
  have d: "degrees_of ?G = [1, 1]" by (simp add: degrees_of_def upt_rec)
  have r: "ranges_ok ?G [(0, 1)]" by (simp add: ranges_ok_def)
  have "\<not> mt_finished (mt_init (int_ranges [(0, 1)]) int_floating (replicate 2 (fzero int_floating)) (replicate 2 (fone int_floating)))"
    by (simp add: mt_finished_def mt_init_def)
  then show ?thesis using prMT_live[OF ok r mt_reach.start, of int_floating] unfolding H d by simp
qed

text \<open>C25: The division can end before the last vertex (rows without edges at the end, or a number of edges that the
  number of threads does not divide): such a vertex keeps its initial rank through all passes.\<close>

theorem prMT_misses_vertices:
  assumes "pr_ok G" "mt_partition (pr_of G) (int k) = Some (int_ranges ns)" "snd (last ns) < v" "v < numVertex G"
    "mt_reach F (pr_of G) (degrees_of G) (int_ranges ns)
      (mt_init (int_ranges ns) F (replicate (numVertex G) (fzero F)) (replicate (numVertex G) (fone F))) (Some S)"
    "mt_finished S"
  shows "mt_attr S ! v = fone F"
proof -
  note c = mt_partition_last[OF assms(2)]
  have r: "ranges_ok G ns" using chain_ranges_ok[OF c] assms(3,4) by simp
  have "mt_inv F G ns (mt_init (int_ranges ns) F (replicate (numVertex G) (fzero F)) (ones F G))"
    using mt_init_ok[OF r] by (auto simp: mt_inv_def)
  from mt_reach_inv[OF assms(1) r this assms(5)] have "mt_inv F G ns S" by simp
  then have "mt_attr S = snd (mt_after F G ns MAX_ITER)" using mt_finished_at_end[OF r _ assms(6)] by (metis snd_conv)
  moreover have "\<not> covered ns v" using chain_covered[OF c(1), of v] assms(3) by simp
  ultimately show ?thesis using mt_after_uncovered[OF assms(4), of ns F MAX_ITER] by simp
qed

theorem prMT_misses_vertices_witness:
  "mt_partition \<lparr>pr_numVertex = 3, pr_numEdges = 2, pr_VI = [0, 2, 2, 2], pr_EI = [1, 2]\<rparr> 1 = Some [(0, 1)] \<and>
   (\<exists>S. mt_reach int_floating \<lparr>pr_numVertex = 3, pr_numEdges = 2, pr_VI = [0, 2, 2, 2], pr_EI = [1, 2]\<rparr> [0, 1, 1] [(0, 1)]
     (mt_init [(0, 1)] int_floating (replicate 3 (fzero int_floating)) (replicate 3 (fone int_floating))) (Some S) \<and> mt_finished S \<and> mt_attr S ! 2 = fone int_floating)"
proof -
  let ?G = "\<lparr>numVertex = 3, numEdges = 2, VI = [0, 2, 2], EI = [1, 2 :: nat]\<rparr>"
  let ?H = "\<lparr>pr_numVertex = 3, pr_numEdges = 2, pr_VI = [0, 2, 2, 2], pr_EI = [1, 2]\<rparr>"
  have ok: "pr_ok ?G" by (simp add: pr_ok_def wf_csr_eval eend_def upt_rec)
  have H: "pr_of ?G = ?H" by (simp add: pr_of_def)
  have d: "degrees_of ?G = [0, 1, 1]" by (simp add: degrees_of_def upt_rec)
  have a: "mt_scan [0, 2, 2, 2] 3 2 0 = Some 1"
    by (simp add: mt_scan.simps[of _ _ _ 0] mt_scan.simps[of _ _ _ 1] iget_def int32_def)
  have p: "mt_partition ?H 1 = Some [(0, 1)]"
    unfolding mt_partition_def by (simp add: int_for_def signed_divide_int_def int32_def a upto_rec1 Let_def)
  have p': "mt_partition (pr_of ?G) (int 1) = Some (int_ranges [(0, 1)])" unfolding H using p by simp
  have r: "ranges_ok ?G [(0, 1)]" by (simp add: ranges_ok_def)
  have "mt_inv int_floating ?G [(0, 1)] (mt_init (int_ranges [(0, 1)]) int_floating (replicate 3 (fzero int_floating)) (replicate 3 (fone int_floating)))"
    using mt_init_ok[OF r, of int_floating] by (auto simp: mt_inv_def)
  from mt_terminates[OF ok r this mt_reach.start]
  obtain S where S: "mt_reach int_floating (pr_of ?G) (degrees_of ?G) (int_ranges [(0, 1)])
      (mt_init (int_ranges [(0, 1)]) int_floating (replicate 3 (fzero int_floating)) (replicate 3 (fone int_floating))) (Some S)" "mt_finished S" by blast
  have "mt_attr S ! 2 = fone int_floating"
    using prMT_misses_vertices[OF ok p', of 2 int_floating S] S by simp
  then show ?thesis using S p unfolding H d by auto
qed

text \<open>C34: With more threads than vertices the program is undefined: the division reads past \<open>VI\<close>, or a thread
  whose range starts at \<open>numVertex\<close> writes past the end of the array of ranks.\<close>

theorem prMT_more_threads:
  assumes "pr_ok G" "cg_write_csr G = Some bs" "fs f = Some bs" "numVertex G < k" "k < U32 div 2"
  shows "prMT_main F [p, f, print_d k] fs writable None"
proof -
  let ?argv = "[p, f, print_d k]" and ?n = "numVertex G"
  have a: "length ?argv = 3" "atoi (?argv ! 2) = Some k" "to_int32 k = int k" using atoi_print assms(5) to_int32_small by simp_all
  have rd: "pr_read_csr (fs (?argv ! 1)) = Some (Some (pr_of G))" using pr_read_write[OF assms(1,2)] assms(3) by simp
  note G = pr_okD[OF assms(1)]
  show ?thesis
  proof (cases "mt_partition (pr_of G) (int k)")
    case None
    then have "mt_setup F (pr_of G) (to_int32 k) = None" by (simp add: mt_setup_def a(3) split: Option.bind_splits)
    then show ?thesis by (rule prMT_main.setup_undefined[where argv = ?argv and fs = fs, OF a(1,2) rd])
  next
    case (Some rs)
    obtain ns e where c: "rs = int_ranges ns" "chain 0 ns e" "length ns = k" "\<forall>r \<in> set ns. fst r < Suc ?n"
      using mt_partition_chain[OF Some] G(4) by (auto simp: pr_of_def)
    obtain x y where xy: "ns ! ?n = (x, y)" by force
    have n: "?n < length ns" using c(3) assms(4) by simp
    have le: "x \<le> ?n" using c(4) nth_mem[OF n] xy by fastforce
    have ch: "chain 0 (take ?n ns) x \<and> x \<le> y"
    proof -
      have "ns = take ?n ns @ (x, y) # drop (Suc ?n) ns" using id_take_nth_drop[OF n] xy by simp
      moreover have "chain a (us @ (x, y) # vs) e \<Longrightarrow> chain a us x \<and> x \<le> y" for a us vs
        by (induction a us x rule: chain.induct) auto
      ultimately show ?thesis using c(2) by metis
    qed
    then have x: "x = ?n" using chain_bounds[of 0 "take ?n ns" x] n le by simp
    let ?th = "\<lparr>mt_iter = 0, mt_i = int ?n, mt_j = 0, mt_last = 0, mt_acc = fzero F, mt_pc = AtVertex\<rparr>"
    let ?S0 = "mt_init rs F (replicate ?n (fzero F)) (ones F G)"
    let ?th1 = "?th\<lparr>mt_last := int (numEdges G), mt_j := int (numEdges G), mt_pc := InRow\<rparr>"
    let ?S1 = "?S0\<lparr>mt_threads := (mt_threads ?S0)[?n := ?th1]\<rparr>"
    have st: "mt_setup F (pr_of G) (to_int32 k) = Some (degrees_of G, rs, ?S0)"
      unfolding a(3) by (rule mt_setup_ok[OF assms(1) Some])
    have t0: "?n < length (mt_threads ?S0)" "mt_threads ?S0 ! ?n = ?th" "snd (rs ! ?n) = int y" "fst (rs ! ?n) = int ?n"
      using n c(1) xy x by (simp_all add: mt_init_def)
    have pn: "pr_numVertex (pr_of G) = int ?n" "pr_numEdges (pr_of G) = int (numEdges G)" "aget (pr_VI (pr_of G)) ?n = Some (int (numEdges G))"
      using G(4) by (simp_all add: pr_of_def nth_append)
    have "mt_run_thread F (pr_of G) (degrees_of G) rs ?n ?S0 = Some ?S1"
      using t0 ch x by (simp add: mt_run_thread_def mt_thread_step_def Let_def pn mt_init_def)
    then have r1: "mt_reach F (pr_of G) (degrees_of G) rs ?S0 (Some ?S1)"
      using mt_reach.step[OF mt_reach.start mt_step.run[OF t0(1)]] t0(2) by (metis mt_thread.select_convs(6))
    have "mt_run_thread F (pr_of G) (degrees_of G) rs ?n ?S1 = None"
      using t0(1) by (simp add: mt_run_thread_def mt_thread_step_def Let_def pn mt_init_def)
    then have "mt_reach F (pr_of G) (degrees_of G) rs ?S0 None"
      using mt_reach.step[OF r1 mt_step.run[of ?n]] t0(1) by fastforce
    then show ?thesis using prMT_main.run_undefined[where argv = ?argv and fs = fs, OF a(1,2) rd st] by blast
  qed
qed

theorem prMT_more_threads_witness:
  "prMT_main int_floating [''prMT'', ''g'', print_d 8]
    (\<lambda>_. Some (concat (map le_bytes [2, 2, 0, 1, 1, 0]))) (\<lambda>_. True) None"
proof -
  let ?G = "\<lparr>numVertex = 2, numEdges = 2, VI = [0, 1], EI = [1, 0 :: nat]\<rparr>"
  have ok: "pr_ok ?G" by (simp add: pr_ok_def wf_csr_eval eend_def upt_rec)
  have w: "cg_write_csr ?G = Some (concat (map le_bytes [2, 2, 0, 1, 1, 0]))"
    by (simp add: cg_write_csr_def fwrite_u32_def)
  show ?thesis by (rule prMT_more_threads[OF ok w]) simp_all
qed

end
