(* ===== verification/Gorder_Graph.thy ===== *)
theory Gorder_Graph
  imports Program Signed "HOL-Library.Product_Lexorder"
begin

text \<open>
  The graphs of \<open>gorder/Gorder_code\<close> (\<open>Graph.cpp\<close>, \<open>Graph.h\<close>), built with \<open>-DRelease\<close> as the makefile does:
  reading an edge list, writing a graph, and removing the duplicates of an edge list. Integers are
  \<open>int\<close>s with a range check. A call of \<open>quit\<close> (it ends the process with status 0) is the result \<open>None\<close> inside the
  \<open>option\<close> of undefined behaviour. \<open>std::sort\<close> is a parameter: the order of equal elements is up to the library.
\<close>

section \<open>The code\<close>

record vertex =
  outstart :: int
  outdegree :: int
  instart :: int
  indeg :: int

definition new_vertex :: vertex where
  "new_vertex = \<lparr>outstart = -1, outdegree = 0, instart = -1, indeg = 0\<rparr>"

record go_graph =
  vsize :: int
  edgenum :: int
  vertices :: "vertex list"
  outedge :: "int list"
  inedge :: "int list"

text \<open>The sorts of the library for the two element types, with the comparison that is passed.\<close>

record sorts =
  sort_edges :: "(int \<times> int \<Rightarrow> int \<times> int \<Rightarrow> bool) \<Rightarrow> (int \<times> int) list \<Rightarrow> (int \<times> int) list option"
  sort_ints :: "(int \<Rightarrow> int \<Rightarrow> bool) \<Rightarrow> int list \<Rightarrow> int list option"

text \<open>\<open>fgets(line, 40, fp)\<close>: up to 39 characters and a terminator into the buffer, whose other entries keep
  their (possibly indeterminate) contents.\<close>

type_synonym buffer = "char option list"

definition nul :: char where
  "nul = CHR 0x00"

fun fgets_take :: "nat \<Rightarrow> string \<Rightarrow> string \<times> string" where
  "fgets_take 0 s = ([], s)"
| "fgets_take (Suc k) [] = ([], [])"
| "fgets_take (Suc k) (c # s) = (if c = newline then ([c], s) else (case fgets_take k s of (a, b) \<Rightarrow> (c # a, b)))"

definition fgets :: "buffer \<Rightarrow> string \<Rightarrow> buffer \<times> string" where
  "fgets line s = (case fgets_take 39 s of (a, b) \<Rightarrow> (map Some (a @ [nul]) @ drop (length a + 1) line, b))"

text \<open>\<open>while(isdigit(*str)) u=u*10+(*str++ - '0')\<close>: the number and the position after it.\<close>

partial_function (option) parse_digits :: "buffer \<Rightarrow> nat \<Rightarrow> int \<Rightarrow> (int \<times> nat) option" where
  "parse_digits line pos u = do {
     c \<leftarrow> aget line pos;
     c \<leftarrow> c;
     if is_digit c then do {
       u \<leftarrow> int32 (u * 10);
       u \<leftarrow> int32 (u + int (digit_val c));
       parse_digits line (pos + 1) u
     } else Some (u, pos)
   }"

declare parse_digits.simps [code]

definition parse_edge :: "buffer \<Rightarrow> (int \<times> int) option" where
  "parse_edge line = do {
     (u, pos) \<leftarrow> parse_digits line 0 0;
     (v, pos) \<leftarrow> parse_digits line (pos + 1) 0;
     Some (u, v)
   }"

text \<open>The input loop: the largest vertex number and the edges. The end of the file is seen when a line ends at it.\<close>

partial_function (option) go_read_rows :: "string \<Rightarrow> buffer \<Rightarrow> int \<Rightarrow> (int \<times> int) list \<Rightarrow> (int \<times> (int \<times> int) list) option" where
  "go_read_rows s line n es =
     (if s = [] then Some (n, es)
      else do {
        let (line, s) = fgets line s;
        (u, v) \<leftarrow> parse_edge line;
        if u = v then go_read_rows s line n es
        else do {
          let n = (if u > n then u else n);
          let n = (if v > n then v else n);
          go_read_rows s line n (es @ [(u, v)])
        }
      })"

declare go_read_rows.simps [code]

text \<open>The degrees of the end points, and the start of every vertex.\<close>

definition go_degrees :: "(int \<times> int) list \<Rightarrow> vertex list \<Rightarrow> vertex list option" where
  "go_degrees es g = mfold (\<lambda>(a, b) g. do {
     x \<leftarrow> iget g a;
     d \<leftarrow> int32 (outdegree x + 1);
     g \<leftarrow> iput g a (x\<lparr>outdegree := d\<rparr>);
     y \<leftarrow> iget g b;
     d \<leftarrow> int32 (indeg y + 1);
     iput g b (y\<lparr>indeg := d\<rparr>)
   }) es g"

definition go_starts :: "int \<Rightarrow> vertex list \<Rightarrow> vertex list option" where
  "go_starts n g = do {
     x \<leftarrow> iget g 0;
     g \<leftarrow> iput g 0 (x\<lparr>outstart := 0, instart := 0\<rparr>);
     int_for 1 n (\<lambda>i g. do {
       p \<leftarrow> iget g (i - 1);
       x \<leftarrow> iget g i;
       a \<leftarrow> int32 (outstart p + outdegree p);
       b \<leftarrow> int32 (instart p + indeg p);
       iput g i (x\<lparr>outstart := a, instart := b\<rparr>)
     }) g
   }"

text \<open>The last entry holds the number of edges, converted to \<open>int\<close>.\<close>

definition go_last :: "int \<Rightarrow> int \<Rightarrow> vertex list \<Rightarrow> vertex list option" where
  "go_last n m g = do {
     x \<leftarrow> iget g n;
     iput g n (x\<lparr>outstart := to_int32 (nat (m mod int U32)), instart := to_int32 (nat (m mod int U32))\<rparr>)
   }"

definition edge_less :: "int \<times> int \<Rightarrow> int \<times> int \<Rightarrow> bool" where
  "edge_less a b = (if fst a < fst b then True else if fst a > fst b then False else snd a \<le> snd b)"

definition readGraph :: "sorts \<Rightarrow> string option \<Rightarrow> go_graph option option" where
  "readGraph lib file = (case file of
     None \<Rightarrow> Some None
   | Some s \<Rightarrow> do {
       (n, edges) \<leftarrow> go_read_rows s (replicate 40 None) 0 [];
       n \<leftarrow> int32 (n + 1);
       n1 \<leftarrow> int32 (n + 1);
       let g = replicate (nat n1) new_vertex;
       g \<leftarrow> go_degrees edges g;
       g \<leftarrow> go_starts n g;
       edges \<leftarrow> sort_edges lib edge_less edges;
       let m = int (length edges);
       g \<leftarrow> go_last n m g;
       Some (Some \<lparr>vsize = n, edgenum = m, vertices = g, outedge = map snd edges, inedge = []\<rparr>)
     })"

text \<open>\<open>writeGraph\<close>: a line per edge.\<close>

definition print_int :: "int \<Rightarrow> string" where
  "print_int x = (if x < 0 then CHR ''-'' # to_string (nat (- x)) else to_string (nat x))"

definition tab_line :: "int \<Rightarrow> int \<Rightarrow> string" where
  "tab_line a b = print_int a @ CHR 0x09 # print_int b @ [newline]"

definition writeGraph :: "go_graph \<Rightarrow> string option" where
  "writeGraph G = int_for 0 (vsize G) (\<lambda>u s. do {
     x \<leftarrow> iget (vertices G) u;
     limit \<leftarrow> int32 (outdegree x + outstart x);
     int_for (outstart x) limit (\<lambda>j s. do { v \<leftarrow> iget (outedge G) j; Some (s @ tab_line u v) }) s
   }) []"

text \<open>\<open>RemoveDuplicate\<close>: the edges as a set, written in ascending order.\<close>

partial_function (option) rd_read_rows :: "string \<Rightarrow> buffer \<Rightarrow> (int \<times> int) set \<Rightarrow> (int \<times> int) set option" where
  "rd_read_rows s line es =
     (if s = [] then Some es
      else do {
        let (line, s) = fgets line s;
        (u, v) \<leftarrow> parse_edge line;
        if u = v then rd_read_rows s line es else rd_read_rows s line (insert (u, v) es)
      })"

declare rd_read_rows.simps [code]

definition RemoveDuplicate :: "string option \<Rightarrow> string option option" where
  "RemoveDuplicate file = (case file of
     None \<Rightarrow> Some None
   | Some s \<Rightarrow> do {
       edges \<leftarrow> rd_read_rows s (replicate 40 None) {};
       Some (Some (concat (map (\<lambda>(u, v). tab_line u v) (sorted_list_of_set edges))))
     })"

section \<open>Lines of digits\<close>

lemma length_to_string: "n < 10 ^ k \<Longrightarrow> 0 < k \<Longrightarrow> length (to_string n) \<le> k"
proof (induction n arbitrary: k rule: to_string.induct)
  case (1 n)
  show ?case
  proof (cases "n < 10")
    case True
    then show ?thesis using 1 by (subst to_string.simps) simp
  next
    case False
    obtain j where k: "k = Suc j" using 1(3) gr0_implies_Suc by blast
    then have "n div 10 < 10 ^ j" "0 < j" using 1(2) False by (auto intro: Nat.gr0I)
    then have "length (to_string (n div 10)) \<le> j" using 1(1)[OF False] by blast
    then show ?thesis using False k by (subst to_string.simps) simp
  qed
qed

lemma newline_not_in_digits: "newline \<notin> set (to_string n)"
  using to_string_digits[of n] by auto

lemma fgets_take_line: "newline \<notin> set l \<Longrightarrow> length l < k \<Longrightarrow> fgets_take k (l @ newline # s) = (l @ [newline], s)"
proof (induction l arbitrary: k)
  case Nil
  then show ?case by (cases k) auto
next
  case (Cons c l)
  then show ?case by (cases k) auto
qed

lemma aget_append_first: "aget (xs @ y # ys) (length xs) = Some y"
  by (simp add: aget_def)

text \<open>A run of digits after \<open>pre\<close>, ended by another character.\<close>

lemma digits_mono: "u \<le> foldl (\<lambda>a c. 10 * a + digit_val c) u ds"
proof (induction ds arbitrary: u)
  case (Cons d ds)
  have "u \<le> 10 * u + digit_val d" by simp
  also have "\<dots> \<le> foldl (\<lambda>a c. 10 * a + digit_val c) (10 * u + digit_val d) ds" by (rule Cons.IH)
  finally show ?case by simp
qed simp

lemma parse_digits_run:
  assumes "\<forall>c \<in> set ds. is_digit c" "\<not> is_digit c" "foldl (\<lambda>a c. 10 * a + digit_val c) u ds < U32 div 2"
  shows "parse_digits (pre @ map Some ds @ Some c # rest) (length pre) (int u) =
    Some (int (foldl (\<lambda>a c. 10 * a + digit_val c) u ds), length pre + length ds)"
  using assms
proof (induction ds arbitrary: pre u)
  case Nil
  then show ?case by (subst parse_digits.simps) (simp add: aget_append_first)
next
  case (Cons d ds)
  let ?u = "10 * u + digit_val d"
  have u: "?u < U32 div 2"
    using digits_mono[of ?u ds] Cons.prems(3) by simp
  have "parse_digits (pre @ map Some (d # ds) @ Some c # rest) (length pre) (int u) =
    parse_digits ((pre @ [Some d]) @ map Some ds @ Some c # rest) (length (pre @ [Some d])) (int ?u)"
    using Cons.prems(1) u by (subst parse_digits.simps) (simp add: aget_append_first int32_in algebra_simps)
  also have "\<dots> = Some (int (foldl (\<lambda>a c. 10 * a + digit_val c) u (d # ds)), length pre + length (d # ds))"
    using Cons.IH[of ?u "pre @ [Some d]"] Cons.prems by simp
  finally show ?case .
qed

lemma parse_to_string:
  assumes "\<not> is_digit c" "n < U32 div 2"
  shows "parse_digits (pre @ map Some (to_string n) @ Some c # rest) (length pre) 0 =
    Some (int n, length pre + length (to_string n))"
proof -
  have v: "foldl (\<lambda>a c. 10 * a + digit_val c) 0 (to_string n) = n"
    using decimal_to_string[of n] by (simp add: decimal_value_def)
  then show ?thesis
    using parse_digits_run[OF to_string_digits assms(1), of 0 n pre rest] assms(2) by simp
qed

text \<open>The lines of the files: two numbers, separated by one character.\<close>

definition sep_line :: "char \<Rightarrow> nat \<times> nat \<Rightarrow> string" where
  "sep_line c e = to_string (fst e) @ c # to_string (snd e) @ [newline]"

definition edge_text :: "char \<Rightarrow> (nat \<times> nat) list \<Rightarrow> string" where
  "edge_text c es = concat (map (sep_line c) es)"

definition sep_ok :: "char \<Rightarrow> bool" where
  "sep_ok c \<longleftrightarrow> \<not> is_digit c \<and> c \<noteq> newline"

abbreviation tab :: char where "tab \<equiv> CHR 0x09"

lemma sep_ok_chars: "sep_ok tab" "sep_ok (CHR '' '')"
  by (simp_all add: sep_ok_def is_digit_def newline_def)

lemma edge_text_simps [simp]: "edge_text c [] = []" "edge_text c (e # es) = sep_line c e @ edge_text c es"
  "edge_text c (es @ es') = edge_text c es @ edge_text c es'"
  by (simp_all add: edge_text_def)

lemma sep_line_not_Nil: "sep_line c e \<noteq> []"
  by (simp add: sep_line_def)

lemma parse_line:
  assumes c: "sep_ok c" and a: "a < U32 div 2" and b: "b < U32 div 2"
  shows "\<exists>line'. fgets line (sep_line c (a, b) @ s) = (line', s) \<and> parse_edge line' = Some (int a, int b)"
proof -
  let ?A = "to_string a" and ?B = "to_string b"
  let ?l = "?A @ c # ?B" and ?rest = "drop (length (sep_line c (a, b)) + 1) line"
  have "length ?A \<le> 10" "length ?B \<le> 10" using a b by (simp_all add: length_to_string)
  then have "fgets_take 39 (?l @ newline # s) = (?l @ [newline], s)"
    using c by (intro fgets_take_line) (auto simp: newline_not_in_digits sep_ok_def)
  then have f: "fgets line (sep_line c (a, b) @ s) = (map Some (sep_line c (a, b) @ [nul]) @ ?rest, s)"
    by (simp add: fgets_def sep_line_def)
  have "parse_digits (map Some (sep_line c (a, b) @ [nul]) @ ?rest) 0 0 = Some (int a, length ?A)"
    using parse_to_string[of c a "[]" "map Some ?B @ Some newline # Some nul # ?rest"] c a
    by (simp add: sep_line_def sep_ok_def)
  moreover have "parse_digits (map Some (sep_line c (a, b) @ [nul]) @ ?rest) (length ?A + 1) 0 = Some (int b, length ?A + 1 + length ?B)"
    using parse_to_string[of newline b "map Some ?A @ [Some c]" "Some nul # ?rest"] b
    by (simp add: sep_line_def)
  ultimately have "parse_edge (map Some (sep_line c (a, b) @ [nul]) @ ?rest) = Some (int a, int b)"
    by (simp add: parse_edge_def)
  then show ?thesis using f by blast
qed

text \<open>Reading the lines of \<open>es\<close>: the edges that are no loops.\<close>

definition go_size :: "nat \<Rightarrow> (nat \<times> nat) list \<Rightarrow> nat" where
  "go_size m es = fold (\<lambda>(a, b) m. max b (max a m)) es m"

abbreviation int_edge :: "nat \<times> nat \<Rightarrow> int \<times> int" where
  "int_edge \<equiv> map_prod int int"

definition in_int :: "(nat \<times> nat) list \<Rightarrow> bool" where
  "in_int es \<longleftrightarrow> (\<forall>(a, b) \<in> set es. a < U32 div 2 \<and> b < U32 div 2)"

lemma in_int_Cons [simp]: "in_int ((a, b) # es) \<longleftrightarrow> a < U32 div 2 \<and> b < U32 div 2 \<and> in_int es"
  by (simp add: in_int_def)

lemma no_loops_simps [simp]: "no_loops [] = []" "no_loops ((a, b) # es) = (if a = b then no_loops es else (a, b) # no_loops es)"
  by (simp_all add: no_loops_def)

lemma go_size_simps [simp]: "go_size m [] = m" "go_size m ((a, b) # es) = go_size (max b (max a m)) es"
  by (simp_all add: go_size_def)

lemma go_read_rows_text:
  assumes "sep_ok c" "in_int es"
  shows "go_read_rows (edge_text c es) line (int m) qs =
    Some (int (go_size m (no_loops es)), qs @ map int_edge (no_loops es))"
  using assms(2)
proof (induction es arbitrary: line m qs)
  case Nil
  then show ?case by (subst go_read_rows.simps) simp
next
  case (Cons e es)
  obtain a b where e: "e = (a, b)" by force
  obtain line' where l: "fgets line (sep_line c (a, b) @ edge_text c es) = (line', edge_text c es)"
    "parse_edge line' = Some (int a, int b)"
    using parse_line[OF assms(1), of a b line "edge_text c es"] Cons.prems e by auto
  have IH: "go_read_rows (edge_text c es) line' (int m') qs' =
    Some (int (go_size m' (no_loops es)), qs' @ map int_edge (no_loops es))" for m' qs'
    using Cons e by simp
  have mx: "(let n = if int a > int m then int a else int m in if int b > n then int b else n) = int (max b (max a m))"
    by (auto simp: max_def)
  show ?case
  proof (cases "a = b")
    case True
    then show ?thesis using l IH e by (subst go_read_rows.simps) (simp add: sep_line_not_Nil)
  next
    case False
    then show ?thesis using l IH[of "max b (max a m)" "qs @ [(int a, int b)]"] e mx
      by (subst go_read_rows.simps) (simp add: sep_line_not_Nil Let_def del: of_nat_max)
  qed
qed

section \<open>The graph of a list of edges\<close>

abbreviation swaps :: "(nat \<times> nat) list \<Rightarrow> (nat \<times> nat) list" where
  "swaps \<equiv> map prod.swap"

definition vert :: "(nat \<times> nat) list \<Rightarrow> nat \<Rightarrow> vertex" where
  "vert es v = \<lparr>outstart = int (starts es v), outdegree = int (length (bucket es v)),
     instart = int (starts (swaps es) v), indeg = int (length (bucket (swaps es) v))\<rparr>"

definition go_of :: "nat \<Rightarrow> (nat \<times> nat) list \<Rightarrow> go_graph" where
  "go_of n es = \<lparr>vsize = int n, edgenum = int (length es), vertices = map (vert es) [0..<Suc n],
     outedge = map (int \<circ> snd) es, inedge = []\<rparr>"

definition go_wf :: "nat \<Rightarrow> (nat \<times> nat) list \<Rightarrow> bool" where
  "go_wf n es \<longleftrightarrow> 0 < n \<and> n < U32 div 2 - 1 \<and> length es < U32 div 2 \<and>
     (\<forall>(a, b) \<in> set es. a < n \<and> b < n \<and> a \<noteq> b) \<and> distinct es \<and> sorted es"

lemma go_wfD:
  assumes "go_wf n es"
  shows "0 < n" "n < U32 div 2 - 1" "length es < U32 div 2" "distinct es" "sorted es"
    "p \<in> set es \<Longrightarrow> fst p < n" "p \<in> set es \<Longrightarrow> snd p < n" "p \<in> set es \<Longrightarrow> fst p \<noteq> snd p"
    "p \<in> set (swaps es) \<Longrightarrow> fst p < n"
  using assms by (auto simp: go_wf_def)

text \<open>Counting the degrees.\<close>

definition with_degrees :: "(nat \<times> nat) list \<Rightarrow> vertex list \<Rightarrow> vertex list" where
  "with_degrees es g = map (\<lambda>v. (g ! v)\<lparr>outdegree := int (length (bucket es v)), indeg := int (length (bucket (swaps es) v))\<rparr>)
     [0..<length g]"

lemma with_degrees [simp]: "length (with_degrees es g) = length g"
  "v < length g \<Longrightarrow> with_degrees es g ! v =
     (g ! v)\<lparr>outdegree := int (length (bucket es v)), indeg := int (length (bucket (swaps es) v))\<rparr>"
  by (simp_all add: with_degrees_def)

lemma length_bucket_le: "length (bucket ps v) \<le> length ps"
  by (simp add: bucket_def)

lemma go_degrees_ok:
  assumes "\<forall>(a, b) \<in> set es. a < length g \<and> b < length g" "length es < U32 div 2"
  shows "go_degrees (map int_edge es) (with_degrees [] g) = Some (with_degrees es g)"
proof -
  have "ok (go_degrees (map int_edge es) (with_degrees [] g)) (\<lambda>g'. g' = with_degrees es g)"
    unfolding go_degrees_def mfold_map
  proof (rule ok_mfold[where P = "\<lambda>qs g'. g' = with_degrees qs g"])
    fix qs x rest g' assume es: "es = qs @ x # rest" and g': "g' = with_degrees qs g"
    obtain a b where x: "x = (a, b)" by force
    have ab: "a < length g" "b < length g" using assms(1) es x by auto
    have l: "length (bucket qs a) < U32 div 2 - 1" "length (bucket (swaps qs) b) < U32 div 2 - 1"
      using length_bucket_le[of qs a] length_bucket_le[of "swaps qs" b] assms(2) es by auto
    have "(with_degrees qs g)[a := (with_degrees qs g ! a)\<lparr>outdegree := int (Suc (length (bucket qs a)))\<rparr>,
       b := ((with_degrees qs g)[a := (with_degrees qs g ! a)\<lparr>outdegree := int (Suc (length (bucket qs a)))\<rparr>] ! b)
         \<lparr>indeg := int (Suc (length (bucket (swaps qs) b)))\<rparr>] = with_degrees (qs @ [x]) g"
      using ab x by (intro nth_equalityI) (auto simp: nth_list_update)
    then show "ok (((\<lambda>(a, b) g. do {
         x \<leftarrow> iget g a;
         d \<leftarrow> int32 (outdegree x + 1);
         g \<leftarrow> iput g a (x\<lparr>outdegree := d\<rparr>);
         y \<leftarrow> iget g b;
         d \<leftarrow> int32 (indeg y + 1);
         iput g b (y\<lparr>indeg := d\<rparr>)
       }) \<circ> int_edge) x g') (\<lambda>g'. g' = with_degrees (qs @ [x]) g)"
      using ab l x g' by (auto simp: int32_Suc nth_list_update)
  qed simp
  then show ?thesis by (auto simp: ok_iff)
qed

text \<open>The start of every vertex.\<close>

lemma int_for_1: "int_for 1 (int n) body = for_range 1 n (\<lambda>i. body (int i))"
  using int_for_int[of 1 n] by (intro ext) simp

lemma iget_0: "iget xs 0 = aget xs 0" "iput xs 0 v = aput xs 0 v"
  by (simp_all add: iget_def iput_def)

definition with_starts :: "nat \<Rightarrow> (nat \<times> nat) list \<Rightarrow> vertex list \<Rightarrow> vertex list" where
  "with_starts k es g = map (\<lambda>v. if v < k then (g ! v)\<lparr>outstart := int (starts es v), instart := int (starts (swaps es) v)\<rparr> else g ! v)
     [0..<length g]"

lemma with_starts [simp]: "length (with_starts k es g) = length g"
  "v < length g \<Longrightarrow> with_starts k es g ! v =
     (if v < k then (g ! v)\<lparr>outstart := int (starts es v), instart := int (starts (swaps es) v)\<rparr> else g ! v)"
  by (simp_all add: with_starts_def)

lemma go_starts_ok:
  assumes n: "0 < n" "n \<le> length g" and len: "length es < U32 div 2"
    and g: "\<And>v. v < n \<Longrightarrow> outdegree (g ! v) = int (length (bucket es v)) \<and> indeg (g ! v) = int (length (bucket (swaps es) v))"
  shows "go_starts (int n) g = Some (with_starts n es g)"
proof -
  have "ok (for_range 1 n (\<lambda>i g. do {
       p \<leftarrow> iget g (int i - 1);
       x \<leftarrow> iget g (int i);
       a \<leftarrow> int32 (outstart p + outdegree p);
       b \<leftarrow> int32 (instart p + indeg p);
       iput g (int i) (x\<lparr>outstart := a, instart := b\<rparr>)
     }) (with_starts 1 es g)) (\<lambda>g'. g' = with_starts n es g)"
  proof (rule ok_for_range[where P = "\<lambda>i g'. g' = with_starts i es g"])
    fix i g' assume i: "1 \<le> i" "i < n" and g': "g' = with_starts i es g"
    obtain j where j: "i = Suc j" using i(1) by (cases i) auto
    have s: "starts es j + length (bucket es j) < U32 div 2" "starts (swaps es) j + length (bucket (swaps es) j) < U32 div 2"
      using starts_le[of es i] starts_le[of "swaps es" i] len unfolding j starts_Suc by auto
    have ij: "int i - 1 = int j" "j < n" "j < i" "j < length g" and si: "starts es i = starts es j + length (bucket es j)"
        "starts (swaps es) i = starts (swaps es) j + length (bucket (swaps es) j)"
      using i n(2) by (simp_all add: j starts_Suc)
    have "(with_starts i es g)[i := (with_starts i es g ! i)\<lparr>outstart := int (starts es i), instart := int (starts (swaps es) i)\<rparr>] =
      with_starts (Suc i) es g"
      using i n by (intro nth_equalityI) (auto simp: nth_list_update less_Suc_eq)
    then show "ok (do {
       p \<leftarrow> iget g' (int i - 1);
       x \<leftarrow> iget g' (int i);
       a \<leftarrow> int32 (outstart p + outdegree p);
       b \<leftarrow> int32 (instart p + indeg p);
       iput g' (int i) (x\<lparr>outstart := a, instart := b\<rparr>)
     }) (\<lambda>g'. g' = with_starts (Suc i) es g)"
      using i n s g[OF ij(2)] g' si ij(3,4) unfolding ij(1) by (simp add: int32_in flip: of_nat_add)
  qed (use n in auto)
  moreover have "g[0 := (g ! 0)\<lparr>outstart := 0, instart := 0\<rparr>] = with_starts 1 es g"
    using n by (intro nth_equalityI) (auto simp: nth_list_update)
  moreover have "g \<noteq> []" using n by auto
  ultimately show ?thesis
    by (auto simp: go_starts_def ok_iff int_for_1 iget_0)
qed

lemma go_last_ok:
  assumes "go_wf n es" "length g = Suc n" "outdegree (g ! n) = 0" "indeg (g ! n) = 0"
    and g: "\<And>v. v < n \<Longrightarrow> g ! v = vert es v"
  shows "go_last (int n) (int (length es)) g = Some (map (vert es) [0..<Suc n])"
proof -
  note w = go_wfD[OF assms(1)]
  have b: "bucket es n = []" "bucket (swaps es) n = []"
    using w(6,9) by (force simp: bucket_def filter_empty_conv)+
  have s: "starts es n = length es" "starts (swaps es) n = length es"
    using starts_all[of es n n] starts_all[of "swaps es" n n] w(6,9) by auto
  have "nat (int (length es) mod int U32) = length es" using w(3) by simp
  then have l: "to_int32 (nat (int (length es) mod int U32)) = int (length es)"
    using w(3) by (simp only: to_int32_small)
  have "g[n := (g ! n)\<lparr>outstart := int (length es), instart := int (length es)\<rparr>] = map (vert es) [0..<Suc n]"
    using assms(2-4) g b s by (intro nth_equalityI) (auto simp: nth_list_update vert_def less_Suc_eq simp del: upt_Suc)
  then show ?thesis using assms(2) unfolding go_last_def l by simp
qed

text \<open>Counting, prefix sums and the last entry give the vertices of the edges.\<close>

lemma go_vertices:
  assumes wf: "go_wf n es'" and es: "mset es = mset es'" and g: "length g = Suc n"
  shows "do {
     g \<leftarrow> go_degrees (map int_edge es) (with_degrees [] g);
     g \<leftarrow> go_starts (int n) g;
     go_last (int n) (int (length es')) g
   } = Some (map (vert es') [0..<Suc n])"
proof -
  note w = go_wfD[OF wf]
  have st: "set es = set es'" and len: "length es = length es'"
    using es mset_eq_setD mset_eq_length by blast+
  have bk: "length (bucket es v) = length (bucket es' v)" "length (bucket (swaps es) v) = length (bucket (swaps es') v)"
      "starts es v = starts es' v" "starts (swaps es) v = starts (swaps es') v" for v
    unfolding bucket_def starts_def length_map using es by (metis mset_filter mset_map size_mset)+
  have d: "go_degrees (map int_edge es) (with_degrees [] g) = Some (with_degrees es g)"
    by (rule go_degrees_ok) (use w(3,6,7) st len g in fastforce)+
  have s: "go_starts (int n) (with_degrees es g) = Some (with_starts n es (with_degrees es g))"
    by (rule go_starts_ok) (use w len g in auto)
  have e: "bucket es n = []" "bucket (swaps es) n = []"
    using w(6,9) st by (force simp: bucket_def filter_empty_conv)+
  have "go_last (int n) (int (length es')) (with_starts n es (with_degrees es g)) = Some (map (vert es') [0..<Suc n])"
    by (rule go_last_ok[OF wf]) (use g e bk in \<open>auto simp: vert_def\<close>)
  then show ?thesis using d s by simp
qed

section \<open>std::sort\<close>

text \<open>
  What \<open>std::sort\<close> asks of a comparison on the elements of a list: a strict weak order, that is irreflexive, transitive, and with
  a transitive incomparability. What it then delivers: the elements in ascending order. Nothing is known of a call with
  another comparison.
\<close>

definition cmp_ok :: "('a \<Rightarrow> 'a \<Rightarrow> bool) \<Rightarrow> 'a list \<Rightarrow> bool" where
  "cmp_ok lt xs \<longleftrightarrow> (\<forall>a \<in> set xs. \<not> lt a a) \<and>
     (\<forall>a \<in> set xs. \<forall>b \<in> set xs. \<forall>c \<in> set xs. lt a b \<longrightarrow> lt b c \<longrightarrow> lt a c) \<and>
     (\<forall>a \<in> set xs. \<forall>b \<in> set xs. \<forall>c \<in> set xs.
        \<not> lt a b \<and> \<not> lt b a \<longrightarrow> \<not> lt b c \<and> \<not> lt c b \<longrightarrow> \<not> lt a c \<and> \<not> lt c a)"

definition sorts :: "('a \<Rightarrow> 'a \<Rightarrow> bool) \<Rightarrow> 'a list \<Rightarrow> 'a list option \<Rightarrow> bool" where
  "sorts lt xs r \<longleftrightarrow> (\<exists>ys. r = Some ys \<and> mset ys = mset xs \<and> sorted_wrt (\<lambda>a b. \<not> lt b a) ys)"

definition sorts_ok :: "sorts \<Rightarrow> bool" where
  "sorts_ok lib \<longleftrightarrow> (\<forall>lt xs. cmp_ok lt xs \<longrightarrow> sorts lt xs (sort_edges lib lt xs)) \<and>
     (\<forall>lt xs. cmp_ok lt xs \<longrightarrow> sorts lt xs (sort_ints lib lt xs))"

text \<open>A sort of the library: insertion sort.\<close>

fun insert_by :: "('a \<Rightarrow> 'a \<Rightarrow> bool) \<Rightarrow> 'a \<Rightarrow> 'a list \<Rightarrow> 'a list" where
  "insert_by lt x [] = [x]"
| "insert_by lt x (y # ys) = (if lt y x then y # insert_by lt x ys else x # y # ys)"

definition sort_by :: "('a \<Rightarrow> 'a \<Rightarrow> bool) \<Rightarrow> 'a list \<Rightarrow> 'a list option" where
  "sort_by lt xs = Some (foldr (insert_by lt) xs [])"

definition insertion_sorts :: sorts where
  "insertion_sorts = \<lparr>sort_edges = sort_by, sort_ints = sort_by\<rparr>"

lemma insert_by_mset [simp]: "mset (insert_by lt x ys) = add_mset x (mset ys)"
  by (induction ys) auto

lemma insert_by_set [simp]: "set (insert_by lt x ys) = insert x (set ys)"
  by (induction ys) auto

lemma count_list_distinct: "distinct xs \<Longrightarrow> a \<in> set xs \<Longrightarrow> count_list xs a = 1"
  by (induction xs) (auto simp: count_list_0_iff)

lemma sort_by_mset: "mset (foldr (insert_by lt) xs []) = mset xs"
  by (induction xs) auto

lemma insert_by_sorted:
  assumes asym: "\<And>a b. a \<in> A \<Longrightarrow> b \<in> A \<Longrightarrow> a \<noteq> b \<Longrightarrow> lt a b \<Longrightarrow> \<not> lt b a"
    and tr: "\<And>a b c. a \<in> A \<Longrightarrow> b \<in> A \<Longrightarrow> c \<in> A \<Longrightarrow> a \<noteq> b \<Longrightarrow> b \<noteq> c \<Longrightarrow> a \<noteq> c \<Longrightarrow>
      \<not> lt b a \<Longrightarrow> \<not> lt c b \<Longrightarrow> \<not> lt c a"
    and A: "x \<in> A" "set zs \<subseteq> A" and self: "x \<in> set zs \<Longrightarrow> \<not> lt x x" and zs: "sorted_wrt (\<lambda>a b. \<not> lt b a) zs"
  shows "sorted_wrt (\<lambda>a b. \<not> lt b a) (insert_by lt x zs)"
  using A(2) self zs
proof (induction zs)
  case (Cons z zs)
  have z: "z \<in> A" "set zs \<subseteq> A" using Cons.prems(1) by auto
  show ?case
  proof (cases "lt z x")
    case True
    then have "\<not> lt x z" using asym[OF z(1) A(1)] Cons.prems(2) by (cases "x = z") auto
    then show ?thesis using True Cons.IH Cons.prems(2,3) z(2) by auto
  next
    case False
    have "\<not> lt y x" if y: "y \<in> set zs" for y
    proof (cases "x = y \<or> y = z \<or> x = z")
      case True
      then show ?thesis using False Cons.prems(2,3) y by auto
    next
      case diff: False
      then show ?thesis using tr[of x z y] False y Cons.prems(3) z A(1) by auto
    qed
    then show ?thesis using False Cons.prems(3) by auto
  qed
qed simp

lemma cmp_okD:
  assumes "cmp_ok lt xs" "a \<in> set xs" "b \<in> set xs"
  shows "\<not> lt a a" "lt a b \<Longrightarrow> \<not> lt b a" "c \<in> set xs \<Longrightarrow> \<not> lt b a \<Longrightarrow> \<not> lt c b \<Longrightarrow> \<not> lt c a"
proof -
  show irr: "\<not> lt a a" using assms unfolding cmp_ok_def by blast
  have tr: "lt x y \<Longrightarrow> lt y z \<Longrightarrow> lt x z" if "x \<in> set xs" "y \<in> set xs" "z \<in> set xs" for x y z
    using assms(1) that unfolding cmp_ok_def by blast
  show "lt a b \<Longrightarrow> \<not> lt b a" using tr[of a b a] irr assms(2,3) by blast
  show "\<not> lt c a" if "c \<in> set xs" "\<not> lt b a" "\<not> lt c b"
  proof
    assume ca: "lt c a"
    have "\<not> lt a b" using tr[of c a b] ca that assms(2,3) by blast
    moreover have "\<not> lt b c" using tr[of b c a] ca that assms(2,3) by blast
    ultimately show False using assms that ca unfolding cmp_ok_def by blast
  qed
qed

lemma cmp_ok_subset:
  assumes "cmp_ok lt ys" "set xs \<subseteq> set ys"
  shows "cmp_ok lt xs"
  unfolding cmp_ok_def
proof (intro conjI ballI impI, goal_cases)
  case (1 a)
  then show ?case using assms unfolding cmp_ok_def by blast
next
  case (2 a b c)
  then have "a \<in> set ys" "b \<in> set ys" "c \<in> set ys" using assms(2) by auto
  with 2 show ?case using assms(1) unfolding cmp_ok_def by blast
next
  case (3 a b c)
  then have "a \<in> set ys" "b \<in> set ys" "c \<in> set ys" using assms(2) by auto
  with 3 show ?case using assms(1) unfolding cmp_ok_def by blast
next
  case (4 a b c)
  then have "a \<in> set ys" "b \<in> set ys" "c \<in> set ys" using assms(2) by auto
  with 4 show ?case using assms(1) unfolding cmp_ok_def by blast
qed

lemma sort_by_sorts:
  assumes "cmp_ok lt xs"
  shows "sorts lt xs (sort_by lt xs)"
proof -
  have "sorted_wrt (\<lambda>a b. \<not> lt b a) (foldr (insert_by lt) xs [])" using assms
  proof (induction xs)
    case (Cons x ys)
    have st: "set (foldr (insert_by lt) ys []) = set ys"
      using arg_cong[OF sort_by_mset, of set_mset lt ys] by simp
    note c = cmp_okD[OF Cons.prems]
    have "sorted_wrt (\<lambda>a b. \<not> lt b a) (insert_by lt x (foldr (insert_by lt) ys []))"
    proof (rule insert_by_sorted[where A = "set (x # ys)"])
      show "\<not> lt x x" by (rule c(1)[of x x]) simp_all
      show "sorted_wrt (\<lambda>a b. \<not> lt b a) (foldr (insert_by lt) ys [])" by (rule Cons.IH, rule cmp_ok_subset[OF Cons.prems]) auto
      show "set (foldr (insert_by lt) ys []) \<subseteq> set (x # ys)" using st by auto
    qed (erule c(2), assumption+, rule c(3), assumption+, simp)
    then show ?case by simp
  qed simp
  then show ?thesis by (simp add: sorts_def sort_by_def sort_by_mset)
qed

lemma insertion_sorts_ok: "sorts_ok insertion_sorts"
  by (simp add: sorts_ok_def insertion_sorts_def sort_by_sorts)

text \<open>The three comparisons that are used.\<close>

lemma edge_less_iff: "edge_less a b \<longleftrightarrow> a \<le> b"
  by (cases a; cases b) (auto simp: edge_less_def)

lemma sorts_linorder:
  assumes "sorts lt xs r" "\<And>a b. a \<in> set xs \<Longrightarrow> b \<in> set xs \<Longrightarrow> a \<noteq> b \<Longrightarrow> \<not> lt b a \<Longrightarrow> a \<le> (b :: 'a :: linorder)"
  shows "r = Some (sort xs)"
proof -
  obtain ys where ys: "r = Some ys" "mset ys = mset xs" "sorted_wrt (\<lambda>a b. \<not> lt b a) ys"
    using assms(1) by (auto simp: sorts_def)
  have st: "set ys = set xs" using ys(2) by (rule mset_eq_setD)
  have "a \<in> set ys \<Longrightarrow> b \<in> set ys \<Longrightarrow> \<not> lt b a \<Longrightarrow> a \<le> b" for a b
    using assms(2)[of a b] st by (cases "a = b") auto
  then have "sorted ys" by (rule sorted_wrt_mono_rel[OF _ ys(3)])
  then show ?thesis using ys(1,2) properties_for_sort[of ys xs] by simp
qed

text \<open>
  The comparison of edges is \<open>\<le>\<close>, which no list with an element takes for a strict weak order: the standard defines none of
  the calls with it. The theorems on whole programs that need the edges sorted (none of the numbered ones) name
  \<open>edge_sort_ok\<close> as a hypothesis of its own: the library sorts edges that are all different in spite of that.
\<close>

lemma edge_less_reflexive:
  assumes "es \<noteq> []"
  shows "\<not> cmp_ok edge_less es"
proof
  assume "cmp_ok edge_less es"
  from cmp_okD(1)[OF this, of "hd es" "hd es"] assms show False by (simp add: edge_less_iff)
qed

definition edge_sort_ok :: "sorts \<Rightarrow> bool" where
  "edge_sort_ok lib \<longleftrightarrow> (\<forall>es. distinct es \<longrightarrow> sort_edges lib edge_less es = Some (sort es))"

lemma sort_edges_ok: "edge_sort_ok lib \<Longrightarrow> distinct es \<Longrightarrow> sort_edges lib edge_less es = Some (sort es)"
  by (simp add: edge_sort_ok_def)

lemma insertion_edge_sort: "edge_sort_ok insertion_sorts"
proof -
  have "sorts edge_less es (sort_by edge_less es)" if "distinct es" for es
  proof -
    have "sorted_wrt (\<lambda>a b. \<not> edge_less b a) (foldr (insert_by edge_less) es [])" using that
    proof (induction es)
      case (Cons e es)
      have st: "set (foldr (insert_by edge_less) es []) = set es"
        using arg_cong[OF sort_by_mset, of set_mset edge_less es] by simp
      have "sorted_wrt (\<lambda>a b. \<not> edge_less b a) (insert_by edge_less e (foldr (insert_by edge_less) es []))"
      proof (rule insert_by_sorted[where A = "set (e # es)"])
        show "sorted_wrt (\<lambda>a b. \<not> edge_less b a) (foldr (insert_by edge_less) es [])" using Cons by simp
      qed (use Cons.prems st in \<open>auto simp: edge_less_iff\<close>)
      then show ?case by simp
    qed simp
    then show ?thesis by (simp add: sorts_def sort_by_def sort_by_mset)
  qed
  then show ?thesis
    using sorts_linorder[of edge_less] by (auto simp: edge_sort_ok_def insertion_sorts_def edge_less_iff)
qed

lemma sort_less_ok:
  assumes "sorts_ok lib"
  shows "sort_ints lib (\<lambda>a b. a < b) xs = Some (sort xs)"
proof -
  have "cmp_ok (\<lambda>a b. a < b) xs" by (auto simp: cmp_ok_def)
  then show ?thesis using assms sorts_linorder[of "\<lambda>a b. a < b" xs] by (auto simp: sorts_ok_def)
qed

lemma sort_key_less:
  assumes "sorts_ok lib"
  shows "\<exists>ys. sort_ints lib (\<lambda>a b. f a < (f b :: int)) xs = Some ys \<and> mset ys = mset xs \<and> sorted (map f ys)"
proof -
  have "cmp_ok (\<lambda>a b. f a < f b) xs" by (auto simp: cmp_ok_def)
  then have "sorts (\<lambda>a b. f a < f b) xs (sort_ints lib (\<lambda>a b. f a < f b) xs)"
    using assms by (simp add: sorts_ok_def)
  then show ?thesis by (auto simp: sorts_def sorted_map not_less)
qed

text \<open>Sorting commutes with the embedding of the numbers.\<close>

lemma sort_int_edge: "sort (map int_edge es) = map int_edge (sort es)"
  by (rule properties_for_sort) (auto simp: sorted_map intro: sorted_wrt_mono_rel[OF _ sorted_sort])


section \<open>Reading and writing a graph\<close>

lemma go_size_ge0: "m \<le> go_size m es"
proof (induction es arbitrary: m)
  case (Cons e es)
  obtain a b where e: "e = (a, b)" by force
  have "m \<le> max b (max a m)" by simp
  also have "\<dots> \<le> go_size (max b (max a m)) es" by (rule Cons.IH)
  finally show ?case using e by simp
qed simp

lemma go_size_ge: "p \<in> set es \<Longrightarrow> fst p \<le> go_size m es" "p \<in> set es \<Longrightarrow> snd p \<le> go_size m es"
proof (induction es arbitrary: m)
  case (Cons e es)
  obtain a b where e: "e = (a, b)" by force
  have le: "max b (max a k) \<le> go_size (max b (max a k)) es" for k by (rule go_size_ge0)
  case 1 then show ?case using Cons.IH(1)[of "max b (max a m)"] le[of m] e by auto
  case 2 then show ?case using Cons.IH(2)[of "max b (max a m)"] le[of m] e by auto
qed simp_all

lemma go_size_less: "m < k \<Longrightarrow> (\<And>a b. (a, b) \<in> set es \<Longrightarrow> a < k \<and> b < k) \<Longrightarrow> go_size m es < k"
proof (induction es arbitrary: m)
  case (Cons e es)
  obtain a b where e: "e = (a, b)" by force
  then show ?case using Cons.IH[of "max b (max a m)"] Cons.prems by auto
qed simp

text \<open>What \<open>readGraph\<close> accepts: numbers that fit, few enough edges, and no edge twice (self loops are skipped).\<close>

definition go_readable :: "(nat \<times> nat) list \<Rightarrow> bool" where
  "go_readable es \<longleftrightarrow> in_int es \<and> (\<forall>(a, b) \<in> set (no_loops es). a < U32 div 2 - 2 \<and> b < U32 div 2 - 2) \<and>
     distinct (no_loops es) \<and> length (no_loops es) < U32 div 2"

lemma go_wf_read:
  assumes "go_readable es"
  shows "go_wf (Suc (go_size 0 (no_loops es))) (sort (no_loops es))"
proof -
  let ?es = "no_loops es"
  have "go_size 0 ?es < U32 div 2 - 2"
    by (rule go_size_less) (use assms in \<open>auto simp: go_readable_def\<close>)
  moreover have "a < Suc (go_size 0 ?es) \<and> b < Suc (go_size 0 ?es) \<and> a \<noteq> b" if "(a, b) \<in> set ?es" for a b
    using go_size_ge[OF that, of 0] that by (simp add: no_loops_def)
  ultimately show ?thesis using assms by (auto simp: go_wf_def go_readable_def)
qed

lemma with_degrees_new: "with_degrees [] (replicate n new_vertex) = replicate n new_vertex"
  by (intro nth_equalityI) (auto simp: new_vertex_def)

text \<open>The table of the vertices before its last entry is set.\<close>

lemma go_table:
  assumes wf: "go_wf n es'" and es: "mset es = mset es'"
  shows "do { g \<leftarrow> go_degrees (map int_edge es) (replicate (Suc n) new_vertex); go_starts (int n) g } =
    Some (map (vert es') [0..<n] @ [new_vertex])"
proof -
  note w = go_wfD[OF wf]
  let ?g = "replicate (Suc n) new_vertex"
  have st: "set es = set es'" and len: "length es = length es'"
    using es mset_eq_setD mset_eq_length by blast+
  have bk: "length (bucket es v) = length (bucket es' v)" "length (bucket (swaps es) v) = length (bucket (swaps es') v)"
      "starts es v = starts es' v" "starts (swaps es) v = starts (swaps es') v" for v
    unfolding bucket_def starts_def length_map using es by (metis mset_filter mset_map size_mset)+
  have d: "go_degrees (map int_edge es) (with_degrees [] ?g) = Some (with_degrees es ?g)"
    by (rule go_degrees_ok) (use w(3,6,7) st len in fastforce)+
  have s: "go_starts (int n) (with_degrees es ?g) = Some (with_starts n es (with_degrees es ?g))"
    by (rule go_starts_ok) (use w len in auto)
  have e: "bucket es n = []" "bucket (swaps es) n = []"
    using w(6,9) st by (force simp: bucket_def filter_empty_conv)+
  have "with_starts n es (with_degrees es ?g) = map (vert es') [0..<n] @ [new_vertex]"
    using e bk by (intro nth_equalityI) (auto simp: vert_def new_vertex_def nth_append less_Suc_eq simp del: replicate_Suc)
  then show ?thesis using d s by (simp add: with_degrees_new del: replicate_Suc)
qed

lemma go_table_last:
  assumes "go_wf n es"
  shows "go_last (int n) (int (length es)) (map (vert es) [0..<n] @ [new_vertex]) = Some (map (vert es) [0..<Suc n])"
  by (rule go_last_ok[OF assms]) (auto simp: nth_append new_vertex_def simp del: upt_Suc)

text \<open>\<open>readGraph\<close> up to the call of \<open>std::sort\<close>, and what it makes of the list that this call returns.\<close>

lemma readGraph_sorting:
  assumes c: "sep_ok c" and es: "go_readable es"
  defines "n \<equiv> Suc (go_size 0 (no_loops es))"
  shows "readGraph lib (Some (edge_text c es)) = do {
     edges \<leftarrow> sort_edges lib edge_less (map int_edge (no_loops es));
     g \<leftarrow> go_last (int n) (int (length edges)) (map (vert (sort (no_loops es))) [0..<n] @ [new_vertex]);
     Some (Some \<lparr>vsize = int n, edgenum = int (length edges), vertices = g, outedge = map snd edges, inedge = []\<rparr>) }"
proof -
  let ?es = "no_loops es" and ?n = "Suc (go_size 0 (no_loops es))"
  have wf: "go_wf ?n (sort ?es)" by (rule go_wf_read[OF es])
  note w = go_wfD[OF wf]
  have rows: "go_read_rows (edge_text c es) (replicate 40 None) 0 [] = Some (int (go_size 0 ?es), map int_edge ?es)"
    using go_read_rows_text[OF c, of es "replicate 40 None" 0 "[]"] es by (simp add: go_readable_def)
  have n: "int32 (int (go_size 0 ?es) + 1) = Some (int ?n)" "int32 (int ?n + 1) = Some (int (Suc ?n))"
    using w(2) by (simp_all add: int32_Suc del: of_nat_Suc)
  obtain g1 where g: "go_degrees (map int_edge ?es) (replicate (Suc ?n) new_vertex) = Some g1"
      "go_starts (int ?n) g1 = Some (map (vert (sort ?es)) [0..<?n] @ [new_vertex])"
    using go_table[OF wf, of ?es] by (auto simp del: replicate_Suc upt_Suc of_nat_Suc split: Option.bind_splits)
  show ?thesis
    unfolding readGraph_def option.case Option.bind.simps rows prod.case n Let_def nat_int g n_def ..
qed

lemma readGraph_text:
  assumes lib: "edge_sort_ok lib" and c: "sep_ok c" and es: "go_readable es"
  shows "readGraph lib (Some (edge_text c es)) =
    Some (Some (go_of (Suc (go_size 0 (no_loops es))) (sort (no_loops es))))"
proof -
  let ?es = "no_loops es"
  have wf: "go_wf (Suc (go_size 0 ?es)) (sort ?es)" by (rule go_wf_read[OF es])
  have d: "distinct (map int_edge ?es)" using es by (auto simp: go_readable_def distinct_map inj_on_def)
  have so: "sort_edges lib edge_less (map int_edge ?es) = Some (map int_edge (sort ?es))"
    unfolding sort_edges_ok[OF lib d] sort_int_edge ..
  show ?thesis
    unfolding readGraph_sorting[OF c es] so Option.bind.simps length_map go_table_last[OF wf]
    by (simp add: go_of_def del: upt_Suc)
qed

text \<open>A row of a graph: the loop over the targets of a vertex.\<close>

lemma csr_of_sorted:
  assumes "sorted es" "\<And>p. p \<in> set es \<Longrightarrow> fst p < n"
  shows "csr_of n es = map snd es"
proof -
  have "concat (map (\<lambda>v. filter (\<lambda>p. fst p = v) es) [0..<n]) = filter (\<lambda>p. fst p < n) es"
  proof (induction n)
    case (Suc n)
    have "filter (\<lambda>p. fst p < n) qs @ filter (\<lambda>p. fst p = n) qs = filter (\<lambda>p. fst p < Suc n) qs" if "sorted qs" for qs :: "(nat \<times> nat) list"
      using that
    proof (induction qs)
      case (Cons q qs)
      have "filter (\<lambda>p. fst p < n) qs = []" if "n \<le> fst q"
      proof -
        have "n \<le> fst r" if "r \<in> set qs" for r
        proof -
          have "q \<le> r" using that Cons.prems by simp
          then show ?thesis using \<open>n \<le> fst q\<close> by (auto simp: less_eq_prod_def)
        qed
        then show ?thesis by (force simp: filter_empty_conv)
      qed
      then show ?case using Cons by (auto simp: not_less less_Suc_eq)
    qed simp
    then show ?case using Suc assms(1) by simp
  qed simp
  then have "map snd (concat (map (\<lambda>v. filter (\<lambda>p. fst p = v) es) [0..<n])) = map snd es"
    using assms(2) by simp
  then show ?thesis by (simp add: csr_of_def bucket_def[abs_def] map_concat comp_def)
qed

lemma go_row:
  assumes wf: "go_wf n es" and v: "v < n"
  shows "int_for (int (starts es v)) (int (starts es (Suc v))) (\<lambda>j s. do { w \<leftarrow> iget (map (int \<circ> snd) es) j; f w s }) s =
    mfold (\<lambda>w. f (int w)) (bucket es v) s"
proof -
  note w = go_wfD[OF wf]
  have c: "csr_of n es = map snd es" by (rule csr_of_sorted) (use w in auto)
  have le: "starts es (Suc v) \<le> length (map snd es)" using starts_le[of es "Suc v"] by simp
  have "int_for (int (starts es v)) (int (starts es (Suc v))) (\<lambda>j s. do { w \<leftarrow> iget (map (int \<circ> snd) es) j; f w s }) s =
    mfold (\<lambda>w. f (int w)) (slice (map snd es) (starts es v) (starts es (Suc v))) s"
    unfolding int_for_int by (rule for_range_slice[OF le]) (use le in simp)
  then show ?thesis using slice_csr_of[OF v, of es] c by simp
qed

text \<open>The accesses to a vertex of the graph.\<close>

lemma go_vertex [simp]:
  "v \<le> n \<Longrightarrow> vertices (go_of n es) ! v = vert es v" "length (vertices (go_of n es)) = Suc n"
  by (simp_all add: go_of_def del: upt_Suc)

lemma go_next_vertex [simp]: "v < n \<Longrightarrow> iget (vertices (go_of n es)) (int v + 1) = Some (vert es (Suc v))"
  using iget_int[of "vertices (go_of n es)" "Suc v"] by (simp add: add.commute)

lemma go_of_simps [simp]: "vsize (go_of n es) = int n" "edgenum (go_of n es) = int (length es)"
  "outedge (go_of n es) = map (int \<circ> snd) es"
  by (simp_all add: go_of_def)

lemma vert_simps: "outstart (vert es v) = int (starts es v)" "outdegree (vert es v) = int (length (bucket es v))"
  "instart (vert es v) = int (starts (swaps es) v)" "indeg (vert es v) = int (length (bucket (swaps es) v))"
  by (simp_all add: vert_def)

lemma row_end:
  assumes "go_wf n es"
  shows "int32 (int (starts es v) + int (length (bucket es v))) = Some (int (starts es (Suc v)))"
    "int32 (int (length (bucket es v)) + int (starts es v)) = Some (int (starts es (Suc v)))"
  using starts_le[of es "Suc v"] go_wfD(3)[OF assms] unfolding starts_Suc by (simp_all add: int32_in add.commute)

lemma print_int [simp]: "print_int (int n) = to_string n"
  by (simp add: print_int_def)

lemma tab_line [simp]: "tab_line (int a) (int b) = sep_line tab (a, b)"
  by (simp add: tab_line_def sep_line_def)

text \<open>The edges of a sorted list, row by row.\<close>

lemma sorted_rows:
  fixes es :: "(nat \<times> nat) list"
  assumes "sorted es" "\<And>p. p \<in> set es \<Longrightarrow> fst p < n"
  shows "concat (map (\<lambda>v. map (Pair v) (bucket es v)) [0..<n]) = es"
proof -
  have "map fst (concat (map (\<lambda>v. map (Pair v) (bucket es v)) [0..<n])) = map fst es"
  proof -
    let ?r = "concat (map (\<lambda>v. map (Pair v) (bucket es v)) [0..<n])"
    have m: "mset ?r = mset es" using mset_buckets[of es n] assms(2) by (simp add: filter_mset_eq_conv)
    have "sorted (map fst (concat (map (\<lambda>v. map (Pair v) (bucket es v)) [0..<k]))) \<and>
      (\<forall>p \<in> set (concat (map (\<lambda>v. map (Pair v) (bucket es v)) [0..<k])). fst p < k)" for k
      by (induction k) (auto simp: sorted_append less_Suc_eq less_imp_le comp_def map_replicate_const)
    moreover have "sorted (map fst es)" using assms(1) by (rule sorted_wrt_map_mono) (auto simp: less_eq_prod_def)
    moreover have "mset (map fst ?r) = mset (map fst es)" unfolding mset_map m ..
    ultimately show ?thesis using properties_for_sort[of "map fst es" "map fst ?r"] by (simp only: sorted_sort_id)
  qed
  moreover have "map snd (concat (map (\<lambda>v. map (Pair v) (bucket es v)) [0..<n])) = map snd es"
    using csr_of_sorted[OF assms] by (simp add: csr_of_def map_concat comp_def)
  ultimately show ?thesis by (metis zip_map_fst_snd)
qed

lemma edge_text_rows: "concat (map (\<lambda>v. edge_text c (map (Pair v) (r v))) vs) = edge_text c (concat (map (\<lambda>v. map (Pair v) (r v)) vs))"
  by (induction vs) simp_all

lemma writeGraph_ok:
  assumes wf: "go_wf n es"
  shows "writeGraph (go_of n es) = Some (edge_text tab es)"
proof -
  have "writeGraph (go_of n es) = mfold (\<lambda>u s. Some (s @ edge_text tab (map (Pair u) (bucket es u)))) [0..<n] []"
    unfolding writeGraph_def go_of_simps int_for_0 for_range_def
  proof (rule mfold_cong[OF refl])
    fix u s assume "u \<in> set [0..<n]"
    then have u: "u < n" by simp
    show "do { x \<leftarrow> iget (vertices (go_of n es)) (int u);
       limit \<leftarrow> int32 (outdegree x + outstart x);
       int_for (outstart x) limit (\<lambda>j s. do { v \<leftarrow> iget (map (int \<circ> snd) es) j; Some (s @ tab_line (int u) v) }) s
     } = Some (s @ edge_text tab (map (Pair u) (bucket es u)))"
      using u go_row[OF wf u, of "\<lambda>v s. Some (s @ tab_line (int u) v)" s]
      by (simp add: vert_simps row_end[OF wf] mfold_append_text edge_text_def comp_def)
  qed
  also have "\<dots> = Some (edge_text tab es)"
    unfolding mfold_append_text append_Nil edge_text_rows
    by (subst sorted_rows) (use go_wfD[OF wf] in auto)
  finally show ?thesis .
qed


section \<open>Removing duplicates\<close>

lemma rd_read_rows_text:
  assumes "sep_ok c" "in_int es"
  shows "rd_read_rows (edge_text c es) line qs = Some (int_edge ` set (no_loops es) \<union> qs)"
  using assms(2)
proof (induction es arbitrary: line qs)
  case Nil
  then show ?case by (subst rd_read_rows.simps) simp
next
  case (Cons e es)
  obtain a b where e: "e = (a, b)" by force
  obtain line' where l: "fgets line (sep_line c (a, b) @ edge_text c es) = (line', edge_text c es)"
    "parse_edge line' = Some (int a, int b)"
    using parse_line[OF assms(1), of a b line "edge_text c es"] Cons.prems e by auto
  have IH: "rd_read_rows (edge_text c es) line' qs' = Some (int_edge ` set (no_loops es) \<union> qs')" for qs'
    using Cons e by simp
  show ?case
    by (subst rd_read_rows.simps) (use l IH e in \<open>simp add: sep_line_not_Nil\<close>)
qed

lemma sorted_list_of_int_edges:
  assumes "finite A"
  shows "sorted_list_of_set (int_edge ` A) = map int_edge (sorted_list_of_set A)"
proof -
  let ?l = "map int_edge (sorted_list_of_set A)"
  have "sorted ?l" using sort_int_edge[of "sorted_list_of_set A"] by (metis sorted_list_of_set_sort_remdups sorted_sort sorted_sorted_list_of_set sorted_sort_id)
  moreover have "distinct ?l" by (auto simp: distinct_map inj_on_def)
  ultimately have "sorted_list_of_set (set ?l) = ?l" by (rule sorted_list_of_set.idem_if_sorted_distinct)
  then show ?thesis using assms by simp
qed

lemma RemoveDuplicate_ok:
  assumes "sep_ok c" "in_int es"
  shows "RemoveDuplicate (Some (edge_text c es)) = Some (Some (edge_text tab (sorted_list_of_set (set (no_loops es)))))"
proof -
  have "(\<lambda>(u, v). tab_line u v) \<circ> int_edge = sep_line tab" by (auto simp: fun_eq_iff)
  then show ?thesis
    using rd_read_rows_text[OF assms, of "replicate 40 None" "{}"]
    by (simp add: RemoveDuplicate_def sorted_list_of_int_edges edge_text_def del: replicate.simps)
qed

section \<open>Properties of the files\<close>

lemma no_loops_id: "\<forall>(a, b) \<in> set es. a \<noteq> b \<Longrightarrow> no_loops es = es"
  by (simp add: no_loops_def filter_id_conv)

lemma go_wf_readable:
  assumes "go_wf n es" "n = Suc (go_size 0 es)"
  shows "go_readable es" "no_loops es = es" "sort es = es"
proof -
  note w = go_wfD[OF assms(1)]
  have "\<forall>(a, b) \<in> set es. a \<noteq> b" using w(8) by fastforce
  then show nl: "no_loops es = es" "sort es = es" using w(5) by (simp_all add: no_loops_id sorted_sort_id)
  have "in_int es" "\<forall>(a, b) \<in> set es. a < U32 div 2 - 2 \<and> b < U32 div 2 - 2"
    using w(2,6,7) by (fastforce simp: in_int_def)+
  then show "go_readable es" using w unfolding go_readable_def nl(1) by simp
qed

text \<open>C33: Reading back what \<open>writeGraph\<close> writes, up to the call of \<open>std::sort\<close>, whose comparison the standard does not allow:
  the call gets exactly the edges of the graph, in ascending order, and the vertices have their degrees and
  starts again; whatever list the call returns becomes the targets. So the graph is the same again if the sort leaves a sorted
  list as it is. (The last vertex needs an edge, because the number of vertices is not stored.)\<close>

theorem go_write_read:
  assumes "go_wf n es" "n = Suc (go_size 0 es)"
  shows "\<exists>s. writeGraph (go_of n es) = Some s \<and>
    readGraph lib (Some s) = do {
      edges \<leftarrow> sort_edges lib edge_less (map (\<lambda>(a, b). (int a, int b)) es);
      g \<leftarrow> go_last (int n) (int (length edges)) (butlast (vertices (go_of n es)) @ [new_vertex]);
      Some (Some ((go_of n es)\<lparr>edgenum := int (length edges), vertices := g, outedge := map snd edges\<rparr>)) } \<and>
    (sort_edges lib edge_less (map (\<lambda>(a, b). (int a, int b)) es) = Some (map (\<lambda>(a, b). (int a, int b)) es) \<longrightarrow>
      readGraph lib (Some s) = Some (Some (go_of n es)))"
proof -
  note id = go_wf_readable(2,3)[OF assms]
  have e: "(\<lambda>(a, b). (int a, int b)) = int_edge" by auto
  have b: "butlast (vertices (go_of n es)) = map (vert es) [0..<n]" by (simp add: go_of_def)
  have r: "readGraph lib (Some (edge_text tab es)) = do {
      edges \<leftarrow> sort_edges lib edge_less (map int_edge es);
      g \<leftarrow> go_last (int n) (int (length edges)) (map (vert es) [0..<n] @ [new_vertex]);
      Some (Some ((go_of n es)\<lparr>edgenum := int (length edges), vertices := g, outedge := map snd edges\<rparr>)) }"
    using readGraph_sorting[OF sep_ok_chars(1) go_wf_readable(1)[OF assms], of lib] unfolding id assms(2)[symmetric]
    by (simp add: go_of_def)
  show ?thesis
    unfolding e b writeGraph_ok[OF assms(1)] using r go_table_last[OF assms(1)] by (simp add: go_of_def del: upt_Suc)
qed

theorem go_write_read_witness:
  "\<exists>s. writeGraph (go_of 3 [(0, 1), (0, 2), (1, 0)]) = Some s \<and>
     readGraph insertion_sorts (Some s) = Some (Some (go_of 3 [(0, 1), (0, 2), (1, 0)]))"
proof -
  let ?es = "[(0, 1), (0, 2), (1, 0)] :: (nat \<times> nat) list"
  have "sort_edges insertion_sorts edge_less (map (\<lambda>(a, b). (int a, int b)) ?es) = Some (map (\<lambda>(a, b). (int a, int b)) ?es)"
    by (simp add: insertion_sorts_def sort_by_def edge_less_def)
  then show ?thesis using go_write_read[of 3 ?es insertion_sorts] by (auto simp: go_wf_def)
qed

end
