(* ===== verification/Gorder_Transform.thy ===== *)
theory Gorder_Transform
  imports Gorder_Graph
begin

text \<open>
  The renaming of a graph by the reverse Cuthill-McKee order (\<open>Graph::RCMOrder\<close>, \<open>Graph::Transform\<close>), which also builds
  the incoming edges, and \<open>Graph::PrintReOrderedGraph\<close>.
\<close>

section \<open>The code\<close>

text \<open>\<open>RCMOrder\<close>: a breadth-first search from the vertices in the order of their degrees.\<close>

definition degree_of :: "go_graph \<Rightarrow> int \<Rightarrow> int option" where
  "degree_of G v = do { x \<leftarrow> iget (vertices G) v; int32 (outdegree x + indeg x) }"

definition sort_by_degree :: "sorts \<Rightarrow> go_graph \<Rightarrow> int list \<Rightarrow> int list option" where
  "sort_by_degree lib G vs = do {
     mfold (\<lambda>v u. do { d \<leftarrow> degree_of G v; Some u }) vs ();
     sort_ints lib (\<lambda>a b. the (degree_of G a) < the (degree_of G b)) vs
   }"

partial_function (option) rcm_visit ::
  "sorts \<Rightarrow> go_graph \<Rightarrow> int list \<Rightarrow> bool list \<Rightarrow> int list \<Rightarrow> (bool list \<times> int list) option" where
  "rcm_visit lib G que flags order = (case que of
     [] \<Rightarrow> Some (flags, order)
   | now # que \<Rightarrow> do {
       x \<leftarrow> iget (vertices G) now;
       y \<leftarrow> iget (vertices G) (now + 1);
       tmp \<leftarrow> int_for (outstart x) (outstart y) (\<lambda>it tmp. do { w \<leftarrow> iget (outedge G) it; Some (tmp @ [w]) }) [];
       tmp \<leftarrow> sort_by_degree lib G tmp;
       (que, flags, order) \<leftarrow> mfold (\<lambda>w (que, flags, order). do {
         f \<leftarrow> iget flags w;
         if \<not> f then do {
           flags \<leftarrow> iput flags w True;
           Some (que @ [w], flags, order @ [w])
         } else Some (que, flags, order)
       }) tmp (que, flags, order);
       rcm_visit lib G que flags order
     })"

declare rcm_visit.simps [code]

definition rcm_start :: "sorts \<Rightarrow> go_graph \<Rightarrow> int \<Rightarrow> bool list \<times> int list \<Rightarrow> (bool list \<times> int list) option" where
  "rcm_start lib G i st = (case st of (flags, order) \<Rightarrow> do {
     f \<leftarrow> iget flags i;
     if \<not> f then do {
       flags \<leftarrow> iput flags i True;
       rcm_visit lib G [i] flags (order @ [i])
     } else Some (flags, order)
   })"

definition RCMOrder :: "sorts \<Rightarrow> go_graph \<Rightarrow> int list option option" where
  "RCMOrder lib G = do {
     let n = vsize G;
     flags \<leftarrow> new_array n False;
     degreevertex \<leftarrow> sort_by_degree lib G [0..n - 1];
     (flags, order) \<leftarrow> mfold (rcm_start lib G) degreevertex (flags, []);
     if int (length order) \<noteq> n then Some None
     else do {
       retorder \<leftarrow> new_array n 0;
       retorder \<leftarrow> int_for 0 (int (length order)) (\<lambda>i r. do {
         v \<leftarrow> iget order i;
         iput r v (int (length order) - 1 - i)
       }) retorder;
       Some (Some retorder)
     }
   }"

text \<open>The incoming edges, by counting.\<close>

definition go_place :: "int \<Rightarrow> int \<Rightarrow> int list \<times> int list \<Rightarrow> (int list \<times> int list) option" where
  "go_place u w s = (case s of (inn, inpos) \<Rightarrow> do {
     p \<leftarrow> iget inpos w;
     inn \<leftarrow> iput inn p u;
     p \<leftarrow> int32 (p + 1);
     inpos \<leftarrow> iput inpos w p;
     Some (inn, inpos)
   })"

definition go_inedges :: "int \<Rightarrow> vertex list \<Rightarrow> int list \<Rightarrow> int list \<Rightarrow> int list option" where
  "go_inedges n g out inn = do {
     inpos \<leftarrow> new_array n 0;
     inpos \<leftarrow> int_for 0 n (\<lambda>i p. do { x \<leftarrow> iget g i; iput p i (instart x) }) inpos;
     (inn, inpos) \<leftarrow> int_for 0 n (\<lambda>u s. do {
       x \<leftarrow> iget g u;
       limit \<leftarrow> int32 (outstart x + outdegree x);
       int_for (outstart x) limit (\<lambda>j s. do { w \<leftarrow> iget out j; go_place u w s }) s
     }) (inn, inpos);
     Some inn
   }"

definition Transform :: "sorts \<Rightarrow> go_graph \<Rightarrow> go_graph option option" where
  "Transform lib G = do {
     let n = vsize G;
     let m = edgenum G;
     r \<leftarrow> RCMOrder lib G;
     case r of
       None \<Rightarrow> Some None
     | Some order \<Rightarrow>
         if int (length order) \<noteq> n \<or> int (length (vertices G)) \<noteq> n + 1 then Some None
         else do {
           edges \<leftarrow> int_for 0 n (\<lambda>i edges. do {
             x \<leftarrow> iget (vertices G) i;
             y \<leftarrow> iget (vertices G) (i + 1);
             a \<leftarrow> iget order i;
             int_for (outstart x) (outstart y) (\<lambda>j edges. do {
               w \<leftarrow> iget (outedge G) j;
               b \<leftarrow> iget order w;
               Some (edges @ [(a, b)])
             }) edges
           }) [];
           if int (length edges) \<noteq> m then Some None
           else if INT_MAX < int (length edges) then None
           else do {
             g \<leftarrow> int_for 0 n (\<lambda>i g. do { x \<leftarrow> iget g i; iput g i (x\<lparr>outdegree := 0, indeg := 0\<rparr>) }) (vertices G);
             g \<leftarrow> go_degrees edges g;
             g \<leftarrow> go_starts n g;
             g \<leftarrow> go_last n m g;
             edges \<leftarrow> sort_edges lib edge_less edges;
             let out = map snd edges;
             inn \<leftarrow> go_inedges n g out (replicate (nat m) 0);
             Some (Some (G\<lparr>vertices := g, outedge := out, inedge := inn\<rparr>))
           }
         }
   }"

text \<open>\<open>PrintReOrderedGraph\<close>: the graph with every vertex renamed by \<open>order\<close>.\<close>

definition PrintReOrderedGraph :: "sorts \<Rightarrow> go_graph \<Rightarrow> int list \<Rightarrow> string option" where
  "PrintReOrderedGraph lib G order = do {
     let n = vsize G;
     rows \<leftarrow> new_array n [];
     rows \<leftarrow> int_for 0 n (\<lambda>i rows. do {
       u \<leftarrow> iget order i;
       x \<leftarrow> iget (vertices G) i;
       y \<leftarrow> iget (vertices G) (i + 1);
       reserve \<leftarrow> (if outstart y < outstart x then None else Some ());
       limit \<leftarrow> int32 (outstart x + outdegree x);
       row \<leftarrow> iget rows u;
       row \<leftarrow> int_for (outstart x) limit (\<lambda>j row. do {
         w \<leftarrow> iget (outedge G) j;
         v \<leftarrow> iget order w;
         Some (row @ [v])
       }) row;
       row \<leftarrow> sort_ints lib (\<lambda>a b. a < b) row;
       iput rows u row
     }) rows;
     int_for 0 n (\<lambda>u s. do {
       row \<leftarrow> iget rows u;
       mfold (\<lambda>v s. Some (s @ tab_line u v)) row s
     }) []
   }"


section \<open>Permutations of the vertices\<close>

definition perm :: "nat \<Rightarrow> nat list \<Rightarrow> bool" where
  "perm n ord \<longleftrightarrow> length ord = n \<and> bij_betw ((!) ord) {..<n} {..<n}"

lemma permD:
  assumes "perm n ord"
  shows "length ord = n" "v < n \<Longrightarrow> ord ! v < n" "u < n \<Longrightarrow> v < n \<Longrightarrow> ord ! u = ord ! v \<longleftrightarrow> u = v"
    "v < n \<Longrightarrow> \<exists>u<n. ord ! u = v"
proof -
  have b: "bij_betw ((!) ord) {..<n} {..<n}" and "length ord = n" using assms by (simp_all add: perm_def)
  then show "length ord = n" "v < n \<Longrightarrow> ord ! v < n" using bij_betwE[OF b] by auto
  show "u < n \<Longrightarrow> v < n \<Longrightarrow> ord ! u = ord ! v \<longleftrightarrow> u = v"
    using b by (auto simp: bij_betw_def inj_on_def)
  show "v < n \<Longrightarrow> \<exists>u<n. ord ! u = v" using b unfolding bij_betw_def by (metis imageE lessThan_iff)
qed

lemma distinct_perm:
  assumes "distinct ord" "length ord = n" "set ord \<subseteq> {..<n}"
  shows "perm n ord"
proof -
  have "card (set ord) = card {..<n}" using assms(1,2) distinct_card by force
  then have "set ord = {..<n}" using card_subset_eq[of "{..<n}" "set ord"] assms(3) by simp
  then show ?thesis using bij_betw_nth[OF assms(1)] assms(2) by (simp add: perm_def)
qed

lemma perm_distinct: "perm n ord \<Longrightarrow> distinct ord \<and> set ord = {..<n}"
  by (auto simp: distinct_conv_nth permD in_set_conv_nth)

text \<open>The inverse of a list that holds every vertex once: \<open>ret[order[i]] = f(i)\<close>.\<close>

lemma invert_loop:
  assumes ord: "perm n ord" and f: "bij_betw f {..<n} {..<n}"
  obtains r where "for_range 0 n (\<lambda>i r. do { v \<leftarrow> aget (map int ord) i; iput r v (int (f i)) }) (replicate n 0) = Some (map int r)"
    "perm n r" "\<And>i. i < n \<Longrightarrow> r ! (ord ! i) = f i"
proof -
  note p = permD[OF ord]
  have "ok (for_range 0 n (\<lambda>i r. do { v \<leftarrow> aget (map int ord) i; iput r v (int (f i)) }) (replicate n 0))
    (\<lambda>r. length r = n \<and> (\<forall>j<n. r ! (ord ! j) = int (f j)))"
  proof (rule ok_for_range[where P = "\<lambda>i r. length r = n \<and> (\<forall>j<i. r ! (ord ! j) = int (f j))"])
    fix i r assume "0 \<le> i" "i < n" "length r = n \<and> (\<forall>j<i. r ! (ord ! j) = int (f j))"
    then show "ok (do { v \<leftarrow> aget (map int ord) i; iput r v (int (f i)) }) (\<lambda>r. length r = n \<and> (\<forall>j<Suc i. r ! (ord ! j) = int (f j)))"
      using p by (auto simp: nth_list_update less_Suc_eq)
  qed auto
  then obtain r' where r': "for_range 0 n (\<lambda>i r. do { v \<leftarrow> aget (map int ord) i; iput r v (int (f i)) }) (replicate n 0) = Some r'"
      "length r' = n" "\<And>j. j < n \<Longrightarrow> r' ! (ord ! j) = int (f j)"
    by (auto simp: ok_iff)
  let ?r = "map nat r'"
  have v: "\<exists>j<n. ord ! j = v \<and> ?r ! v = f j" if "v < n" for v
    using p(4)[OF that] r' that by force
  have "?r ! (ord ! i) = f i" if "i < n" for i using r' p(2)[OF that] that by simp
  moreover have "perm n ?r"
  proof (rule distinct_perm)
    have inj: "u = v" if uv: "u < n" "v < n" "?r ! u = ?r ! v" for u v
    proof -
      obtain i j where "i < n" "ord ! i = u" "?r ! u = f i" "j < n" "ord ! j = v" "?r ! v = f j" using v uv(1,2) by blast
      then show ?thesis using f uv(3) by (auto simp: bij_betw_def inj_on_def)
    qed
    show "distinct ?r" unfolding distinct_conv_nth using inj r'(2) by auto
    show "set ?r \<subseteq> {..<n}"
    proof
      fix x assume "x \<in> set ?r"
      then obtain u where "u < n" "x = ?r ! u" unfolding in_set_conv_nth using r'(2) by auto
      then show "x \<in> {..<n}" using v[of u] bij_betwE[OF f] by fastforce
    qed
  qed (use r' in simp)
  moreover have "r' = map int ?r"
  proof (rule nth_equalityI)
    fix u assume "u < length r'"
    then show "r' ! u = map int ?r ! u" using p(4)[of u] r'(2,3) by auto
  qed simp
  ultimately show ?thesis using that[of ?r] r'(1) by simp
qed

section \<open>The reverse Cuthill-McKee order\<close>

definition degree :: "(nat \<times> nat) list \<Rightarrow> nat \<Rightarrow> nat" where
  "degree es v = length (bucket es v) + length (bucket (swaps es) v)"

lemma degree_le:
  assumes "\<forall>(a, b) \<in> set es. a \<noteq> b"
  shows "degree es v \<le> length es"
  using assms unfolding degree_def by (induction es) auto

lemma degree_of_ok:
  assumes wf: "go_wf n es" and v: "v < n"
  shows "degree_of (go_of n es) (int v) = Some (int (degree es v))"
proof -
  have "degree es v < U32 div 2"
    using degree_le[of es v] go_wfD(3,8)[OF wf] by (fastforce simp: case_prod_beta)
  then show ?thesis using v by (simp add: degree_of_def vert_simps int32_in degree_def)
qed

lemma sort_by_degree_ok:
  assumes lib: "sorts_ok lib" and wf: "go_wf n es" and vs: "set vs \<subseteq> {..<n}"
  obtains ws where "sort_by_degree lib (go_of n es) (map int vs) = Some (map int ws)" "mset ws = mset vs" "sorted (map (degree es) ws)"
proof -
  have "mfold (\<lambda>v u. do { d \<leftarrow> degree_of (go_of n es) v; Some u }) (map int vs) () = Some ()"
    using vs by (induction vs) (auto simp: degree_of_ok[OF wf])
  moreover obtain ys where ys: "sort_ints lib (\<lambda>a b. the (degree_of (go_of n es) a) < the (degree_of (go_of n es) b)) (map int vs) = Some ys"
      "mset ys = mset (map int vs)" "sorted (map (\<lambda>a. the (degree_of (go_of n es) a)) ys)"
    using sort_key_less[OF lib, of "\<lambda>a. the (degree_of (go_of n es) a)" "map int vs"] by blast
  have st: "set ys = int ` set vs" using mset_eq_setD[OF ys(2)] by simp
  have "x \<in> set ys \<Longrightarrow> int (nat x) = x" for x using st by auto
  then have int: "ys = map int (map nat ys)" by (simp add: map_idI[symmetric] comp_def)
  moreover have "mset (map nat ys) = mset vs" using arg_cong[OF ys(2), of "image_mset nat"] by (simp add: comp_def multiset.map_comp)
  moreover have "sorted (map (degree es) (map nat ys))"
  proof -
    have eq: "map (\<lambda>a. the (degree_of (go_of n es) a)) ys = map int (map (degree es) (map nat ys))"
      using st vs by (auto simp: degree_of_ok[OF wf])
    have "sorted (map int xs) \<longleftrightarrow> sorted xs" for xs by (induction xs) auto
    then show ?thesis using ys(3) unfolding eq by blast
  qed
  ultimately show ?thesis using that[of "map nat ys"] ys(1) by (simp add: sort_by_degree_def)
qed

text \<open>The vertices of \<open>ws\<close> that are not in \<open>ord\<close> yet, each once.\<close>

fun fresh :: "nat list \<Rightarrow> nat list \<Rightarrow> nat list" where
  "fresh ord [] = []"
| "fresh ord (w # ws) = (if w \<in> set ord then fresh ord ws else w # fresh (ord @ [w]) ws)"

lemma set_fresh: "set (fresh ord ws) = set ws - set ord"
  by (induction ord ws rule: fresh.induct) auto

lemma distinct_fresh: "distinct ord \<Longrightarrow> distinct (ord @ fresh ord ws)"
  by (induction ord ws rule: fresh.induct) auto

definition flags_of :: "nat \<Rightarrow> nat list \<Rightarrow> bool list" where
  "flags_of n ord = map (\<lambda>v. v \<in> set ord) [0..<n]"

lemma flags_of [simp]: "length (flags_of n ord) = n" "v < n \<Longrightarrow> flags_of n ord ! v \<longleftrightarrow> v \<in> set ord"
  by (simp_all add: flags_of_def)

lemma flags_of_update [simp]: "v < n \<Longrightarrow> (flags_of n ord)[v := True] = flags_of n (ord @ [v])"
  by (rule nth_equalityI) (auto simp: nth_list_update)

lemma rcm_row:
  assumes "set ws \<subseteq> {..<n}"
  shows "mfold (\<lambda>w (que, flags, order). do {
       f \<leftarrow> iget flags w;
       if \<not> f then do {
         flags \<leftarrow> iput flags w True;
         Some (que @ [w], flags, order @ [w])
       } else Some (que, flags, order)
     }) (map int ws) (map int q, flags_of n ord, map int ord) =
   Some (map int (q @ fresh ord ws), flags_of n (ord @ fresh ord ws), map int (ord @ fresh ord ws))"
  using assms
proof (induction ws arbitrary: q ord)
  case (Cons w ws)
  show ?case using Cons.prems Cons.IH[of "q @ [w]" "ord @ [w]"] Cons.IH[of q ord] by simp
qed simp

lemma rcm_visit_ok:
  assumes lib: "sorts_ok lib" and wf: "go_wf n es"
  shows "set q \<subseteq> {..<n} \<Longrightarrow> distinct ord \<Longrightarrow> set ord \<subseteq> {..<n} \<Longrightarrow>
    \<exists>ord'. rcm_visit lib (go_of n es) (map int q) (flags_of n ord) (map int ord) = Some (flags_of n ord', map int ord') \<and>
      distinct ord' \<and> set ord \<subseteq> set ord' \<and> set ord' \<subseteq> {..<n}"
proof (induction "n - length ord + length q" arbitrary: q ord rule: less_induct)
  case less
  show ?case
  proof (cases q)
    case Nil
    then show ?thesis using less.prems by (subst rcm_visit.simps) auto
  next
    case (Cons v q')
    note w = go_wfD[OF wf]
    have v: "v < n" using less.prems(1) Cons by simp
    have b: "set (bucket es v) \<subseteq> {..<n}" using w(7) by (auto simp: bucket_def)
    have row: "int_for (int (starts es v)) (int (starts es (Suc v)))
        (\<lambda>it tmp. do { w \<leftarrow> iget (map (int \<circ> snd) es) it; Some (tmp @ [w]) }) [] = Some (map int (bucket es v))"
    proof -
      have "mfold (\<lambda>w tmp. Some (tmp @ [int w])) ws t = Some (t @ map int ws)" for ws t
        by (induction ws arbitrary: t) auto
      then show ?thesis using go_row[OF wf v, of "\<lambda>w tmp. Some (tmp @ [w])" "[]"] by simp
    qed
    obtain ws where ws: "sort_by_degree lib (go_of n es) (map int (bucket es v)) = Some (map int ws)" "mset ws = mset (bucket es v)"
      by (rule sort_by_degree_ok[OF lib wf b])
    have sw: "set ws \<subseteq> {..<n}" using mset_eq_setD[OF ws(2)] b by simp
    let ?f = "fresh ord ws"
    have d: "distinct (ord @ ?f)" "set (ord @ ?f) \<subseteq> {..<n}" "set (q' @ ?f) \<subseteq> {..<n}"
      using distinct_fresh[OF less.prems(2), of ws] set_fresh[of ord ws] sw less.prems Cons by auto
    have "length (ord @ ?f) \<le> n" using d(1,2) by (metis card_lessThan card_mono distinct_card finite_lessThan)
    then have "n - length (ord @ ?f) + length (q' @ ?f) < n - length ord + length q" using Cons by simp
    from less.hyps[OF this d(3,1,2)] obtain ord' where ord':
      "rcm_visit lib (go_of n es) (map int (q' @ ?f)) (flags_of n (ord @ ?f)) (map int (ord @ ?f)) = Some (flags_of n ord', map int ord')"
      "distinct ord'" "set (ord @ ?f) \<subseteq> set ord'" "set ord' \<subseteq> {..<n}" by blast
    have "rcm_visit lib (go_of n es) (map int q) (flags_of n ord) (map int ord) =
      rcm_visit lib (go_of n es) (map int (q' @ ?f)) (flags_of n (ord @ ?f)) (map int (ord @ ?f))"
      using v Cons by (subst rcm_visit.simps) (simp add: vert_simps row ws(1) rcm_row[OF sw] del: map_append)
    then show ?thesis using ord' by auto
  qed
qed

lemma rcm_start_ok:
  assumes lib: "sorts_ok lib" and wf: "go_wf n es" and v: "v < n" and ord: "distinct ord" "set ord \<subseteq> {..<n}"
  shows "\<exists>ord'. rcm_start lib (go_of n es) (int v) (flags_of n ord, map int ord) = Some (flags_of n ord', map int ord') \<and>
    distinct ord' \<and> insert v (set ord) \<subseteq> set ord' \<and> set ord' \<subseteq> {..<n}"
proof (cases "v \<in> set ord")
  case True
  then show ?thesis using ord v by (auto simp: rcm_start_def)
next
  case False
  have "\<exists>ord'. rcm_visit lib (go_of n es) (map int [v]) (flags_of n (ord @ [v])) (map int (ord @ [v])) = Some (flags_of n ord', map int ord') \<and>
    distinct ord' \<and> set (ord @ [v]) \<subseteq> set ord' \<and> set ord' \<subseteq> {..<n}"
    by (rule rcm_visit_ok[OF lib wf]) (use ord v False in auto)
  then show ?thesis using v False by (auto simp: rcm_start_def)
qed

lemma rcm_starts_ok:
  assumes lib: "sorts_ok lib" and wf: "go_wf n es"
  shows "set vs \<subseteq> {..<n} \<Longrightarrow> distinct ord \<Longrightarrow> set ord \<subseteq> {..<n} \<Longrightarrow>
    \<exists>ord'. mfold (rcm_start lib (go_of n es)) (map int vs) (flags_of n ord, map int ord) = Some (flags_of n ord', map int ord') \<and>
      distinct ord' \<and> set vs \<union> set ord \<subseteq> set ord' \<and> set ord' \<subseteq> {..<n}"
proof (induction vs arbitrary: ord)
  case (Cons v vs)
  have v: "v < n" using Cons.prems(1) by simp
  obtain ord1 where o1: "rcm_start lib (go_of n es) (int v) (flags_of n ord, map int ord) = Some (flags_of n ord1, map int ord1)"
    "distinct ord1" "insert v (set ord) \<subseteq> set ord1" "set ord1 \<subseteq> {..<n}"
    using rcm_start_ok[OF lib wf v Cons.prems(2,3)] by blast
  obtain ord' where "mfold (rcm_start lib (go_of n es)) (map int vs) (flags_of n ord1, map int ord1) = Some (flags_of n ord', map int ord')"
    "distinct ord'" "set vs \<union> set ord1 \<subseteq> set ord'" "set ord' \<subseteq> {..<n}"
    using Cons.IH[OF _ o1(2,4)] Cons.prems(1) by auto
  then show ?case using o1 by auto
qed auto

theorem RCMOrder_perm:
  assumes lib: "sorts_ok lib" and wf: "go_wf n es"
  shows "\<exists>ord. RCMOrder lib (go_of n es) = Some (Some (map int ord)) \<and> perm n ord"
proof -
  let ?G = "go_of n es"
  have sub: "set [0..<n] \<subseteq> {..<n}" by auto
  obtain ds where ds: "sort_by_degree lib ?G (map int [0..<n]) = Some (map int ds)" "mset ds = mset [0..<n]"
    by (rule sort_by_degree_ok[OF lib wf sub])
  have sd: "set ds = {..<n}" unfolding mset_eq_setD[OF ds(2)] by auto
  have flags0: "replicate n False = flags_of n []" by (intro nth_equalityI) auto
  obtain ord where o: "mfold (rcm_start lib ?G) (map int ds) (flags_of n [], []) = Some (flags_of n ord, map int ord)"
      "distinct ord" "set ord = {..<n}"
    using rcm_starts_ok[OF lib wf, of ds "[]"] sd by auto
  have len: "length ord = n" using o(2,3) distinct_card[of ord] by simp
  have p: "perm n ord" by (rule distinct_perm) (use o len in auto)
  have f: "bij_betw (\<lambda>i. n - 1 - i) {..<n} {..<n}" by (rule bij_betw_byWitness[where f' = "\<lambda>i. n - 1 - i"]) auto
  obtain r where r: "for_range 0 n (\<lambda>i r. do { v \<leftarrow> aget (map int ord) i; iput r v (int (n - 1 - i)) }) (replicate n 0) = Some (map int r)" "perm n r"
    by (rule invert_loop[OF p f])
  have inv: "for_range 0 n (\<lambda>i r. do { v \<leftarrow> aget (map int ord) i; iput r v (int n - 1 - int i) }) (replicate n 0) = Some (map int r)"
    unfolding r(1)[symmetric] for_range_def by (rule mfold_cong) (auto simp: of_nat_diff algebra_simps)
  have upto: "[0..int n - 1] = map int [0..<n]" using upto_int[of 0 n] by simp
  have "RCMOrder lib ?G = Some (Some (map int r))"
    unfolding RCMOrder_def Let_def go_of_simps upto ds(1) Option.bind.simps new_array_int flags0 o(1) prod.case length_map len
      int_for_0 iget_int inv by simp
  then show ?thesis using r(2) by blast
qed


section \<open>Renaming the vertices\<close>

definition rename :: "nat list \<Rightarrow> (nat \<times> nat) list \<Rightarrow> (nat \<times> nat) list" where
  "rename ord es = map (\<lambda>(a, b). (ord ! a, ord ! b)) es"

text \<open>The graph after \<open>Transform\<close>: with the incoming edges, by target.\<close>

definition go_full :: "nat \<Rightarrow> (nat \<times> nat) list \<Rightarrow> go_graph" where
  "go_full n es = (go_of n es)\<lparr>inedge := map int (csr_of n (swaps es))\<rparr>"

lemma go_wf_rename:
  assumes wf: "go_wf n es" and ord: "perm n ord"
  shows "go_wf n (sort (rename ord es))"
proof -
  note w = go_wfD[OF wf] and p = permD[OF ord]
  have "distinct (rename ord es)"
    unfolding rename_def distinct_map
  proof (intro conjI w(4) inj_onI)
    fix x y assume "x \<in> set es" "y \<in> set es" "(case x of (a, b) \<Rightarrow> (ord ! a, ord ! b)) = (case y of (a, b) \<Rightarrow> (ord ! a, ord ! b))"
    then show "x = y" using w(6,7)[of x] w(6,7)[of y] p(3) by (simp add: case_prod_beta prod_eq_iff)
  qed
  moreover have "ord ! a < n \<and> ord ! b < n \<and> ord ! a \<noteq> ord ! b" if "(a, b) \<in> set es" for a b
    using w(6-8)[OF that] p(2,3) by simp
  ultimately show ?thesis using w(1-3) by (auto simp: go_wf_def rename_def)
qed

lemma transform_edges:
  assumes wf: "go_wf n es" and ord: "perm n ord"
  shows "int_for 0 (int n) (\<lambda>i edges. do {
       x \<leftarrow> iget (vertices (go_of n es)) i;
       y \<leftarrow> iget (vertices (go_of n es)) (i + 1);
       a \<leftarrow> iget (map int ord) i;
       int_for (outstart x) (outstart y) (\<lambda>j edges. do {
         w \<leftarrow> iget (map (int \<circ> snd) es) j;
         b \<leftarrow> iget (map int ord) w;
         Some (edges @ [(a, b)])
       }) edges
     }) [] = Some (map int_edge (rename ord es))"
proof -
  note w = go_wfD[OF wf] and p = permD[OF ord]
  have row: "mfold (\<lambda>w edges. do { b \<leftarrow> aget (map int ord) w; Some (edges @ [(a, b)]) }) ws s =
    Some (s @ map (\<lambda>w. (a, int (ord ! w))) ws)" if "set ws \<subseteq> {..<n}" for ws s a
    using that by (induction ws arbitrary: s) (auto simp: p(1))
  have "int_for 0 (int n) (\<lambda>i edges. do {
       x \<leftarrow> iget (vertices (go_of n es)) i;
       y \<leftarrow> iget (vertices (go_of n es)) (i + 1);
       a \<leftarrow> iget (map int ord) i;
       int_for (outstart x) (outstart y) (\<lambda>j edges. do {
         w \<leftarrow> iget (map (int \<circ> snd) es) j;
         b \<leftarrow> iget (map int ord) w;
         Some (edges @ [(a, b)])
       }) edges
     }) [] = mfold (\<lambda>v s. Some (s @ map (\<lambda>w. (int (ord ! v), int (ord ! w))) (bucket es v))) [0..<n] []"
    unfolding int_for_0 for_range_def
  proof (rule mfold_cong[OF refl])
    fix v s assume "v \<in> set [0..<n]"
    then have v: "v < n" by simp
    have b: "set (bucket es v) \<subseteq> {..<n}" using w(7) by (auto simp: bucket_def)
    show "do {
       x \<leftarrow> iget (vertices (go_of n es)) (int v);
       y \<leftarrow> iget (vertices (go_of n es)) (int v + 1);
       a \<leftarrow> iget (map int ord) (int v);
       int_for (outstart x) (outstart y) (\<lambda>j edges. do {
         w \<leftarrow> iget (map (int \<circ> snd) es) j;
         b \<leftarrow> iget (map int ord) w;
         Some (edges @ [(a, b)])
       }) s
     } = Some (s @ map (\<lambda>w. (int (ord ! v), int (ord ! w))) (bucket es v))"
      using v p(1) go_row[OF wf v, of "\<lambda>w edges. do { b \<leftarrow> iget (map int ord) w; Some (edges @ [(int (ord ! v), b)]) }" s]
      by (simp add: vert_simps row[OF b])
  qed
  also have "\<dots> = Some (map (\<lambda>(v, w). (int (ord ! v), int (ord ! w))) (concat (map (\<lambda>v. map (Pair v) (bucket es v)) [0..<n])))"
    unfolding mfold_append_text by (simp add: map_concat comp_def)
  also have "\<dots> = Some (map int_edge (rename ord es))"
    by (subst sorted_rows) (use w in \<open>auto simp: rename_def\<close>)
  finally show ?thesis .
qed

text \<open>The counting sort of \<open>inedge\<close> is the placement of the CSR conversion with the positions in one array.\<close>

abbreviation in_step :: "nat \<times> nat \<Rightarrow> int list \<times> int list \<Rightarrow> (int list \<times> int list) option" where
  "in_step e \<equiv> go_place (int (fst e)) (int (snd e))"

definition positions :: "nat \<Rightarrow> nat list \<Rightarrow> nat list \<Rightarrow> int list" where
  "positions n vi c = map (\<lambda>v. int (vi ! v + c ! v)) [0..<n]"

lemma in_step_place:
  assumes "place vi (snd e) (fst e) (inn, c) = Some (inn', c')" "snd e < n" "length vi = n" "length c = n"
    "length inn < U32 div 2" "vi ! snd e < U32 div 2" "c ! snd e < U32 div 2"
  shows "in_step e (map int inn, positions n vi c) = Some (map int inn', positions n vi c')"
    "length inn' = length inn" "c' = c[snd e := Suc (c ! snd e)]"
proof -
  let ?v = "snd e" let ?p = "vi ! ?v + c ! ?v"
  have u: "uadd (vi ! ?v) (c ! ?v) = ?p" "uadd (c ! ?v) 1 = Suc (c ! ?v)" using assms by (simp_all add: uadd_exact)
  have i: "?p < length inn" "inn' = inn[?p := fst e]" "c' = c[?v := Suc (c ! ?v)]"
    using assms(1-4) u by (auto simp: place_def split: Option.bind_splits dest!: aputD)
  then show "length inn' = length inn" "c' = c[?v := Suc (c ! ?v)]" by simp_all
  have "(positions n vi c)[?v := int (Suc ?p)] = positions n vi c'"
    using assms(2,4) i(3) by (intro nth_equalityI) (auto simp: positions_def nth_list_update)
  moreover have "aget (positions n vi c) ?v = Some (int ?p)" using assms(2) by (simp add: positions_def)
  moreover have "int32 (int ?p + 1) = Some (int (Suc ?p))" using i(1) assms(5) by (intro int32_Suc) simp
  ultimately show "in_step e (map int inn, positions n vi c) = Some (map int inn', positions n vi c')"
    using i assms(2) by (simp add: go_place_def map_update positions_def del: of_nat_add of_nat_Suc)
qed

lemma in_steps_place:
  assumes "mfold (\<lambda>(a, b). place vi a b) (swaps es) (inn, c) = Some (inn', c')" "\<forall>e \<in> set es. snd e < n" "length vi = n" "length c = n"
    "length inn < U32 div 2" "\<forall>v<n. vi ! v < U32 div 2" "\<forall>v<n. c ! v + length es < U32 div 2"
  shows "mfold in_step es (map int inn, positions n vi c) = Some (map int inn', positions n vi c')"
  using assms
proof (induction es arbitrary: inn c)
  case (Cons e es)
  obtain inn1 c1 where s: "place vi (snd e) (fst e) (inn, c) = Some (inn1, c1)"
      "mfold (\<lambda>(a, b). place vi a b) (swaps es) (inn1, c1) = Some (inn', c')"
    using Cons.prems(1) by (cases e) (auto split: Option.bind_splits)
  have e: "snd e < n" "vi ! snd e < U32 div 2" "c ! snd e < U32 div 2" using Cons.prems by force+
  note st = in_step_place[OF s(1) e(1) Cons.prems(3,4,5) e(2,3)]
  have "\<forall>v<n. c1 ! v + length es < U32 div 2"
    using Cons.prems(4,7) st(3) e(1) by (auto simp: nth_list_update)
  then have "mfold in_step es (map int inn1, positions n vi c1) = Some (map int inn', positions n vi c')"
    using Cons.IH[OF s(2)] Cons.prems st by simp
  then show ?case using st(1) by simp
qed simp

lemma go_inedges_ok:
  assumes wf: "go_wf n es"
  shows "go_inedges (int n) (vertices (go_of n es)) (map (int \<circ> snd) es) (replicate (length es) 0) = Some (map int (csr_of n (swaps es)))"
proof -
  note w = go_wfD[OF wf]
  let ?vi = "map (starts (swaps es)) [0..<n]" and ?g = "vertices (go_of n es)" and ?z = "replicate n (0 :: nat)"
  have "ok (for_range 0 n (\<lambda>i p. do { x \<leftarrow> iget ?g (int i); iput p (int i) (instart x) }) (replicate n 0))
    (\<lambda>p. length p = n \<and> (\<forall>v<n. p ! v = int (starts (swaps es) v)))"
    by (rule ok_for_range[where P = "\<lambda>i p. length p = n \<and> (\<forall>v<i. p ! v = int (starts (swaps es) v))"])
      (auto simp: vert_simps nth_list_update less_Suc_eq)
  then obtain p where p: "for_range 0 n (\<lambda>i p. do { x \<leftarrow> iget ?g (int i); iput p (int i) (instart x) }) (replicate n 0) = Some p"
      "length p = n" "\<And>v. v < n \<Longrightarrow> p ! v = int (starts (swaps es) v)"
    by (auto simp: ok_iff)
  have pos: "p = positions n ?vi ?z" by (intro nth_equalityI) (auto simp: p positions_def)
  have rows: "for_range 0 n (\<lambda>i s. do {
       x \<leftarrow> iget ?g (int i);
       limit \<leftarrow> int32 (outstart x + outdegree x);
       int_for (outstart x) limit (\<lambda>j s. do { w \<leftarrow> iget (map (int \<circ> snd) es) j; go_place (int i) w s }) s
     }) s = mfold in_step es s" for s
  proof -
    have "for_range 0 n (\<lambda>i s. do {
       x \<leftarrow> iget ?g (int i);
       limit \<leftarrow> int32 (outstart x + outdegree x);
       int_for (outstart x) limit (\<lambda>j s. do { w \<leftarrow> iget (map (int \<circ> snd) es) j; go_place (int i) w s }) s
     }) s = mfold (\<lambda>v. mfold (\<lambda>w. in_step (v, w)) (bucket es v)) [0..<n] s"
      unfolding for_range_def
      by (rule mfold_cong) (simp_all add: vert_simps row_end[OF wf] go_row[OF wf])
    also have "\<dots> = mfold in_step (concat (map (\<lambda>v. map (Pair v) (bucket es v)) [0..<n])) s"
      unfolding mfold_concat mfold_map by (rule mfold_cong) (simp_all add: mfold_map comp_def)
    also have "\<dots> = mfold in_step es s" by (subst sorted_rows) (use w in auto)
    finally show ?thesis .
  qed
  have pl: "mfold (\<lambda>(a, b). place ?vi a b) (swaps es) (replicate (length es) 0, ?z) =
      Some (csr_of n (swaps es), map (\<lambda>v. length (bucket (swaps es) v)) [0..<n])"
    by (rule place_all) (use w in auto)
  have st: "starts (swaps es) v < U32 div 2" for v using starts_le[of "swaps es" v] w(3) by simp
  have "mfold in_step es (map int (replicate (length es) 0), positions n ?vi ?z) = Some (map int (csr_of n (swaps es)),
      positions n ?vi (map (\<lambda>v. length (bucket (swaps es) v)) [0..<n]))"
    by (rule in_steps_place[OF pl]) (use w st in auto)
  then show ?thesis
    unfolding go_inedges_def new_array_int Option.bind.simps int_for_0 p(1) rows pos by simp
qed


section \<open>Transform\<close>

text \<open>\<open>Transform\<close> up to the call of \<open>std::sort\<close>, and what it makes of the list that this call returns.\<close>

lemma Transform_sorting:
  assumes lib: "sorts_ok lib" and wf: "go_wf n es"
  shows "\<exists>ord. perm n ord \<and> RCMOrder lib (go_of n es) = Some (Some (map int ord)) \<and>
    Transform lib (go_of n es) = do {
      edges \<leftarrow> sort_edges lib edge_less (map int_edge (rename ord es));
      inn \<leftarrow> go_inedges (int n) (vertices (go_of n (sort (rename ord es)))) (map snd edges) (replicate (length es) 0);
      Some (Some ((go_of n (sort (rename ord es)))\<lparr>outedge := map snd edges, inedge := inn\<rparr>)) }"
proof -
  note w = go_wfD[OF wf]
  obtain ord where ord: "RCMOrder lib (go_of n es) = Some (Some (map int ord))" "perm n ord"
    using RCMOrder_perm[OF lib wf] by blast
  let ?es = "rename ord es" and ?g = "vertices (go_of n es)"
  note p = permD[OF ord(2)]
  have wf': "go_wf n (sort ?es)" by (rule go_wf_rename[OF wf ord(2)])
  have len: "length ?es = length es" by (simp add: rename_def)
  have "ok (for_range 0 n (\<lambda>i g. do { x \<leftarrow> iget g (int i); iput g (int i) (x\<lparr>outdegree := 0, indeg := 0\<rparr>) }) ?g)
    (\<lambda>g. length g = Suc n \<and> (\<forall>v<n. outdegree (g ! v) = 0 \<and> indeg (g ! v) = 0) \<and> (\<forall>v. n \<le> v \<longrightarrow> g ! v = ?g ! v))"
    by (rule ok_for_range[where P = "\<lambda>i g. length g = Suc n \<and> (\<forall>v<i. outdegree (g ! v) = 0 \<and> indeg (g ! v) = 0) \<and> (\<forall>v. i \<le> v \<longrightarrow> g ! v = ?g ! v)"])
      (auto simp: nth_list_update less_Suc_eq)
  then obtain g where g: "for_range 0 n (\<lambda>i g. do { x \<leftarrow> iget g (int i); iput g (int i) (x\<lparr>outdegree := 0, indeg := 0\<rparr>) }) ?g = Some g"
      "length g = Suc n" "\<And>v. v < n \<Longrightarrow> outdegree (g ! v) = 0 \<and> indeg (g ! v) = 0" "g ! n = vert es n"
    by (auto simp: ok_iff)
  have "bucket es n = []" "bucket (swaps es) n = []"
    using w(6,9) by (force simp: bucket_def filter_empty_conv)+
  then have "with_degrees [] g = g"
    using g by (intro nth_equalityI) (auto simp: less_Suc_eq vert_def)
  then obtain g1 g2 where v: "go_degrees (map int_edge ?es) g = Some g1" "go_starts (int n) g1 = Some g2"
      "go_last (int n) (int (length es)) g2 = Some (map (vert (sort ?es)) [0..<Suc n])"
    using go_vertices[OF wf', of ?es g] g(2) len by (auto simp del: upt_Suc split: Option.bind_splits)
  have "Transform lib (go_of n es) = do {
      edges \<leftarrow> sort_edges lib edge_less (map int_edge ?es);
      inn \<leftarrow> go_inedges (int n) (vertices (go_of n (sort ?es))) (map snd edges) (replicate (length es) 0);
      Some (Some ((go_of n (sort ?es))\<lparr>outedge := map snd edges, inedge := inn\<rparr>)) }"
    unfolding Transform_def go_of_simps Let_def ord(1) Option.bind.simps option.case int_for_0
      transform_edges[OF wf ord(2), unfolded int_for_0] g(1)
    using p(1) len w(3) v by (simp add: go_of_def comp_def del: upt_Suc)
  then show ?thesis using ord by blast
qed

theorem Transform_ok:
  assumes lib: "sorts_ok lib" and sort: "edge_sort_ok lib" and wf: "go_wf n es"
  shows "\<exists>ord. perm n ord \<and> RCMOrder lib (go_of n es) = Some (Some (map int ord)) \<and>
    Transform lib (go_of n es) = Some (Some (go_full n (sort (rename ord es))))"
proof -
  obtain ord where ord: "perm n ord" "RCMOrder lib (go_of n es) = Some (Some (map int ord))"
    "Transform lib (go_of n es) = do {
      edges \<leftarrow> sort_edges lib edge_less (map int_edge (rename ord es));
      inn \<leftarrow> go_inedges (int n) (vertices (go_of n (sort (rename ord es)))) (map snd edges) (replicate (length es) 0);
      Some (Some ((go_of n (sort (rename ord es)))\<lparr>outedge := map snd edges, inedge := inn\<rparr>)) }"
    using Transform_sorting[OF lib wf] by blast
  let ?es = "rename ord es"
  have wf': "go_wf n (sort ?es)" by (rule go_wf_rename[OF wf ord(1)])
  have d: "distinct (map int_edge ?es)" using go_wfD(4)[OF wf'] by (auto simp: distinct_map inj_on_def)
  have so: "sort_edges lib edge_less (map int_edge ?es) = Some (map int_edge (sort ?es))"
    unfolding sort_edges_ok[OF sort d] sort_int_edge ..
  have inn: "go_inedges (int n) (vertices (go_of n (sort ?es))) (map snd (map int_edge (sort ?es))) (replicate (length es) 0) =
      Some (map int (csr_of n (swaps (sort ?es))))"
    using go_inedges_ok[OF wf'] by (simp add: rename_def comp_def)
  show ?thesis
    using ord(1,2) ord(3)[unfolded so Option.bind.simps inn] by (intro exI[of _ ord]) (simp add: go_full_def go_of_def comp_def del: upt_Suc)
qed

section \<open>Printing the reordered graph\<close>

lemma bucket_sort:
  fixes ps :: "(nat \<times> nat) list"
  shows "bucket (sort ps) v = sort (bucket ps v)"
proof (rule sym, rule properties_for_sort)
  show "mset (bucket (sort ps) v) = mset (bucket ps v)"
    unfolding bucket_def by (metis mset_filter mset_map mset_sort)
  have "sorted (map snd (filter (\<lambda>p. fst p = v) qs))" if "sorted qs" for qs :: "(nat \<times> nat) list"
    using that by (induction qs) (auto simp: less_eq_prod_def)
  then show "sorted (bucket (sort ps) v)" by (simp add: bucket_def)
qed

lemma bucket_rename:
  assumes wf: "go_wf n es" and ord: "perm n ord" and v: "v < n"
  shows "bucket (rename ord es) (ord ! v) = map ((!) ord) (bucket es v)"
proof -
  have "\<forall>(a, b) \<in> set es. a < n" using go_wfD(6)[OF wf] by fastforce
  then show ?thesis by (induction es) (auto simp: rename_def permD(3)[OF ord _ v])
qed

lemma sort_map_int: "sort (map int xs) = map int (sort xs)"
  by (rule properties_for_sort) (auto simp: sorted_map intro: sorted_wrt_mono_rel[OF _ sorted_sort])

lemma reorder_row:
  assumes lib: "sorts_ok lib" and wf: "go_wf n es" and ord: "perm n ord" and v: "v < n"
    and rows: "length rows = n" "rows ! (ord ! v) = []"
  shows "do {
       u \<leftarrow> iget (map int ord) (int v);
       x \<leftarrow> iget (vertices (go_of n es)) (int v);
       y \<leftarrow> iget (vertices (go_of n es)) (int v + 1);
       reserve \<leftarrow> (if outstart y < outstart x then None else Some ());
       limit \<leftarrow> int32 (outstart x + outdegree x);
       row \<leftarrow> iget rows u;
       row \<leftarrow> int_for (outstart x) limit (\<lambda>j row. do {
         w \<leftarrow> iget (map (int \<circ> snd) es) j;
         v \<leftarrow> iget (map int ord) w;
         Some (row @ [v])
       }) row;
       row \<leftarrow> sort_ints lib (\<lambda>a b. a < b) row;
       iput rows u row
     } = Some (rows[ord ! v := map int (bucket (sort (rename ord es)) (ord ! v))])"
proof -
  note w = go_wfD[OF wf] and p = permD[OF ord]
  have b: "set (bucket es v) \<subseteq> {..<n}" using w(7) by (auto simp: bucket_def)
  have row: "mfold (\<lambda>w row. do { v \<leftarrow> aget (map int ord) w; Some (row @ [v]) }) ws s = Some (s @ map (\<lambda>w. int (ord ! w)) ws)"
    if "set ws \<subseteq> {..<n}" for ws s
    using that by (induction ws arbitrary: s) (auto simp: p(1))
  have "map (\<lambda>w. int (ord ! w)) (bucket es v) = map int (map ((!) ord) (bucket es v))" by simp
  then have "sort (map (\<lambda>w. int (ord ! w)) (bucket es v)) = map int (bucket (sort (rename ord es)) (ord ! v))"
    by (simp only: sort_map_int bucket_sort bucket_rename[OF wf ord v])
  then show ?thesis
    using v rows p(1,2) starts_mono[of v "Suc v" es]
    by (simp add: vert_simps row_end[OF wf] go_row[OF wf v, of "\<lambda>w row. do { v \<leftarrow> iget (map int ord) w; Some (row @ [v]) }"]
      row[OF b] sort_less_ok[OF lib])
qed

theorem PrintReOrderedGraph_ok:
  assumes lib: "sorts_ok lib" and wf: "go_wf n es" and ord: "perm n ord"
  shows "PrintReOrderedGraph lib (go_full n es) (map int ord) = Some (edge_text tab (sort (rename ord es)))"
proof -
  note w = go_wfD[OF wf] and p = permD[OF ord]
  let ?es = "sort (rename ord es)"
  let ?body = "\<lambda>v rows. do {
       u \<leftarrow> iget (map int ord) (int v);
       x \<leftarrow> iget (vertices (go_of n es)) (int v);
       y \<leftarrow> iget (vertices (go_of n es)) (int v + 1);
       reserve \<leftarrow> (if outstart y < outstart x then None else Some ());
       limit \<leftarrow> int32 (outstart x + outdegree x);
       row \<leftarrow> iget rows u;
       row \<leftarrow> int_for (outstart x) limit (\<lambda>j row. do {
         w \<leftarrow> iget (map (int \<circ> snd) es) j;
         v \<leftarrow> iget (map int ord) w;
         Some (row @ [v])
       }) row;
       row \<leftarrow> sort_ints lib (\<lambda>a b. a < b) row;
       iput rows u row
     }"
  let ?P = "\<lambda>i rows. length rows = n \<and> (\<forall>v<n. rows ! (ord ! v) = (if v < i then map int (bucket ?es (ord ! v)) else []))"
  have "ok (for_range 0 n ?body (replicate n [])) (?P n)"
  proof (rule ok_for_range[where P = ?P])
    fix i rows assume i: "i < n" and P: "?P i rows"
    have "?body i rows = Some (rows[ord ! i := map int (bucket ?es (ord ! i))])"
      by (rule reorder_row[OF lib wf ord i]) (use P i in auto)
    then show "ok (?body i rows) (?P (Suc i))"
      using P i p(2,3) by (auto simp: nth_list_update)
  qed (auto simp: p(2))
  then obtain rows where rows: "for_range 0 n ?body (replicate n []) = Some rows" "?P n rows" by (auto simp: ok_iff)
  have r: "rows = map (\<lambda>u. map int (bucket ?es u)) [0..<n]"
  proof (rule nth_equalityI)
    fix u assume "u < length rows"
    then show "rows ! u = map (\<lambda>u. map int (bucket ?es u)) [0..<n] ! u"
      using p(4)[of u] rows(2) by auto
  qed (use rows in simp)
  have "for_range 0 n (\<lambda>u s. do { row \<leftarrow> iget rows (int u); mfold (\<lambda>v s. Some (s @ tab_line (int u) v)) row s }) [] =
    mfold (\<lambda>u s. Some (s @ edge_text tab (map (Pair u) (bucket ?es u)))) [0..<n] []"
    unfolding for_range_def
    by (rule mfold_cong) (simp_all add: r mfold_append_text edge_text_def comp_def)
  also have "\<dots> = Some (edge_text tab ?es)"
    unfolding mfold_append_text append_Nil edge_text_rows
    by (subst sorted_rows) (use go_wfD[OF go_wf_rename[OF wf ord]] in auto)
  finally show ?thesis
    using rows(1) by (simp add: PrintReOrderedGraph_def go_full_def int_for_0)
qed

section \<open>Properties\<close>

text \<open>C27: The graph file that Gorder writes: for every permutation of the vertices, \<open>PrintReOrderedGraph\<close> writes the edges with both ends
  renamed by it, each once, in ascending order, one per line.\<close>

theorem PrintReOrderedGraph_isomorphic:
  assumes "sorts_ok lib" "go_wf n es" "length ord = n" "bij_betw ((!) ord) {..<n} {..<n}"
  shows "\<exists>qs. PrintReOrderedGraph lib (go_full n es) (map int ord) = Some (edge_text tab qs) \<and>
    mset qs = image_mset (\<lambda>(a, b). (ord ! a, ord ! b)) (mset es) \<and> sorted qs \<and> distinct qs"
proof -
  have ord: "perm n ord" using assms(3,4) by (simp add: perm_def)
  show ?thesis
    using PrintReOrderedGraph_ok[OF assms(1,2) ord] go_wfD(4)[OF go_wf_rename[OF assms(2) ord]]
    by (intro exI[of _ "sort (rename ord es)"]) (simp add: rename_def)
qed

theorem PrintReOrderedGraph_isomorphic_witness:
  "\<exists>qs. PrintReOrderedGraph insertion_sorts (go_full 3 [(0, 1), (0, 2), (1, 0)]) [2, 0, 1] = Some (edge_text tab qs) \<and>
    mset qs = {#(2, 0), (2, 1), (0, 2)#} \<and> sorted qs \<and> distinct qs"
proof -
  have "go_wf 3 [(0, 1), (0, 2), (1, 0)]" by (simp add: go_wf_def)
  moreover have "bij_betw ((!) [2, 0, 1 :: nat]) {..<3} {..<3}"
    using bij_betw_nth[of "[2, 0, 1 :: nat]" "{..<length [2, 0, 1 :: nat]}" "set [2, 0, 1]"] by (auto simp: numeral_eq_Suc lessThan_Suc insert_commute)
  ultimately show ?thesis
    using PrintReOrderedGraph_isomorphic[OF insertion_sorts_ok, of 3 "[(0, 1), (0, 2), (1, 0)]" "[2, 0, 1]"] by simp
qed

text \<open>C32: \<open>RCMOrder\<close> is a permutation of the vertices, and \<open>Transform\<close> renames the graph by it: up to the call of \<open>std::sort\<close>, whose
  comparison the standard does not allow, it is defined, gives the call exactly the renamed edges, and has the degrees and starts
  of the renamed graph; whatever list the call returns becomes the targets, from which the incoming edges are collected. So
  if that list is the sorted one, the result is the renamed graph with the incoming edges of every vertex.\<close>

theorem Transform_isomorphic:
  assumes "sorts_ok lib" "go_wf n es"
  shows "\<exists>ord qs. perm n ord \<and> RCMOrder lib (go_of n es) = Some (Some (map int ord)) \<and>
    qs = sort (map (\<lambda>(a, b). (ord ! a, ord ! b)) es) \<and> go_wf n qs \<and>
    Transform lib (go_of n es) = do {
      edges \<leftarrow> sort_edges lib edge_less (map (\<lambda>(a, b). (int (ord ! a), int (ord ! b))) es);
      inn \<leftarrow> go_inedges (int n) (vertices (go_of n qs)) (map snd edges) (replicate (length es) 0);
      Some (Some ((go_of n qs)\<lparr>outedge := map snd edges, inedge := inn\<rparr>)) } \<and>
    go_inedges (int n) (vertices (go_of n qs)) (map (int \<circ> snd) qs) (replicate (length es) 0) = Some (map int (csr_of n (swaps qs)))"
proof -
  obtain ord where ord: "perm n ord" "RCMOrder lib (go_of n es) = Some (Some (map int ord))"
    "Transform lib (go_of n es) = do {
      edges \<leftarrow> sort_edges lib edge_less (map int_edge (rename ord es));
      inn \<leftarrow> go_inedges (int n) (vertices (go_of n (sort (rename ord es)))) (map snd edges) (replicate (length es) 0);
      Some (Some ((go_of n (sort (rename ord es)))\<lparr>outedge := map snd edges, inedge := inn\<rparr>)) }"
    using Transform_sorting[OF assms] by blast
  have wf: "go_wf n (sort (rename ord es))" by (rule go_wf_rename[OF assms(2) ord(1)])
  have e: "map (\<lambda>(a, b). (int (ord ! a), int (ord ! b))) es = map int_edge (rename ord es)" by (auto simp: rename_def)
  have "go_inedges (int n) (vertices (go_of n (sort (rename ord es)))) (map (int \<circ> snd) (sort (rename ord es))) (replicate (length es) 0) =
      Some (map int (csr_of n (swaps (sort (rename ord es)))))"
    using go_inedges_ok[OF wf] by (simp add: rename_def)
  moreover have "map (\<lambda>(a, b). (ord ! a, ord ! b)) es = rename ord es" by (simp add: rename_def)
  ultimately show ?thesis
    using ord wf by (intro exI[of _ ord] exI[of _ "sort (rename ord es)"]) (simp add: e)
qed

theorem Transform_isomorphic_witness:
  "\<exists>ord qs. perm 3 ord \<and> RCMOrder insertion_sorts (go_of 3 [(0, 1), (0, 2), (1, 0)]) = Some (Some (map int ord)) \<and>
    qs = sort [(ord ! 0, ord ! 1), (ord ! 0, ord ! 2), (ord ! 1, ord ! 0)] \<and>
    Transform insertion_sorts (go_of 3 [(0, 1), (0, 2), (1, 0)]) = do {
      edges \<leftarrow> sort_edges insertion_sorts edge_less
        [(int (ord ! 0), int (ord ! 1)), (int (ord ! 0), int (ord ! 2)), (int (ord ! 1), int (ord ! 0))];
      inn \<leftarrow> go_inedges 3 (vertices (go_of 3 qs)) (map snd edges) [0, 0, 0];
      Some (Some ((go_of 3 qs)\<lparr>outedge := map snd edges, inedge := inn\<rparr>)) }"
proof -
  have "go_wf 3 [(0, 1), (0, 2), (1, 0)]" by (simp add: go_wf_def)
  from Transform_isomorphic[OF insertion_sorts_ok this] show ?thesis
    by (elim exE conjE) (intro exI conjI, assumption, assumption, simp, simp add: numeral_3_eq_3)
qed

end
