(* ===== verification/Unit_Heap.thy ===== *)
theory Unit_Heap
  imports Gorder_Graph
begin

text \<open>
  The priority queue of Gorder (\<open>UnitHeap.h\<close>, \<open>UnitHeap.cpp\<close>): a doubly linked list of the vertices in
  descending order of their keys, with the first and the last vertex of every key in \<open>Header\<close>. Priorities change by
  one; a decrease is only noted in \<open>update\<close> and paid when the vertex comes to the top.
\<close>

section \<open>The code\<close>

record list_element =
  lkey :: int
  lprev :: int
  lnext :: int

record head_end =
  hfirst :: int
  hsecond :: int

definition no_head :: head_end where
  "no_head = \<lparr>hfirst = -1, hsecond = -1\<rparr>"

record unit_heap =
  updates :: "int list"
  LinkedList :: "list_element list"
  Header :: "head_end list"
  heap_top :: int
  heapsize :: int

definition modify :: "'a list \<Rightarrow> int \<Rightarrow> ('a \<Rightarrow> 'a) \<Rightarrow> 'a list option" where
  "modify xs i f = do { x \<leftarrow> iget xs i; iput xs i (f x) }"

text \<open>A heap of no elements has indeterminate pointers, which its destructor deletes.\<close>

definition new_heap :: "int \<Rightarrow> unit_heap option" where
  "new_heap sz =
     (if sz \<le> 0 then None
      else do {
        let H = replicate (nat (max (sz div 16) 4)) no_head;
        let LL = map (\<lambda>i. \<lparr>lkey = 0, lprev = i - 1, lnext = i + 1\<rparr>) [0..sz - 1];
        LL \<leftarrow> modify LL (sz - 1) (\<lambda>e. e\<lparr>lnext := -1\<rparr>);
        H \<leftarrow> modify H 0 (\<lambda>b. b\<lparr>hfirst := 0, hsecond := sz - 1\<rparr>);
        Some \<lparr>updates = replicate (nat sz) 0, LinkedList = LL, Header = H, heap_top = 0, heapsize = sz\<rparr>
      })"

text \<open>Taking \<open>index\<close> out of the block of its key.\<close>

definition unblock :: "int \<Rightarrow> int \<Rightarrow> int \<Rightarrow> head_end \<Rightarrow> head_end" where
  "unblock index prev nxt b =
     (if hfirst b = hsecond b then no_head
      else if hfirst b = index then b\<lparr>hfirst := nxt\<rparr>
      else if hsecond b = index then b\<lparr>hsecond := prev\<rparr>
      else b)"

text \<open>Appending \<open>index\<close> to a block.\<close>

definition enblock :: "int \<Rightarrow> head_end \<Rightarrow> head_end" where
  "enblock index b = (let b = b\<lparr>hsecond := index\<rparr> in if hfirst b < 0 then b\<lparr>hfirst := index\<rparr> else b)"

definition DeleteElement :: "int \<Rightarrow> unit_heap \<Rightarrow> unit_heap option" where
  "DeleteElement index h = do {
     e \<leftarrow> iget (LinkedList h) index;
     let prev = lprev e;
     let nxt = lnext e;
     let key = lkey e;
     LL \<leftarrow> (if prev \<ge> 0 then modify (LinkedList h) prev (\<lambda>e. e\<lparr>lnext := nxt\<rparr>) else Some (LinkedList h));
     LL \<leftarrow> (if nxt \<ge> 0 then modify LL nxt (\<lambda>e. e\<lparr>lprev := prev\<rparr>) else Some LL);
     H \<leftarrow> modify (Header h) key (unblock index prev nxt);
     t \<leftarrow> (if heap_top h = index then do { e \<leftarrow> iget LL index; Some (lnext e) } else Some (heap_top h));
     LL \<leftarrow> modify LL index (\<lambda>e. e\<lparr>lprev := -1, lnext := -1\<rparr>);
     Some (h\<lparr>LinkedList := LL, Header := H, heap_top := t\<rparr>)
   }"

text \<open>The check of the header's size in \<open>IncrementKey\<close> is not compiled with \<open>-DRelease\<close>.\<close>

definition move_to_head :: "int \<Rightarrow> int \<Rightarrow> int \<Rightarrow> int \<Rightarrow> list_element list \<Rightarrow> list_element list option" where
  "move_to_head index head prev nxt LL = do {
     LL \<leftarrow> modify LL prev (\<lambda>e. e\<lparr>lnext := nxt\<rparr>);
     LL \<leftarrow> (if nxt \<ge> 0 then modify LL nxt (\<lambda>e. e\<lparr>lprev := prev\<rparr>) else Some LL);
     e \<leftarrow> iget LL head;
     let headprev = lprev e;
     LL \<leftarrow> modify LL index (\<lambda>e. e\<lparr>lprev := headprev, lnext := head\<rparr>);
     LL \<leftarrow> modify LL head (\<lambda>e. e\<lparr>lprev := index\<rparr>);
     if headprev \<ge> 0 then modify LL headprev (\<lambda>e. e\<lparr>lnext := index\<rparr>) else Some LL
   }"

definition IncrementKey :: "int \<Rightarrow> unit_heap \<Rightarrow> unit_heap option" where
  "IncrementKey index h = do {
     e \<leftarrow> iget (LinkedList h) index;
     let key = lkey e;
     b \<leftarrow> iget (Header h) key;
     let head = hfirst b;
     let prev = lprev e;
     let nxt = lnext e;
     LL \<leftarrow> (if head \<noteq> index then move_to_head index head prev nxt (LinkedList h) else Some (LinkedList h));
     key1 \<leftarrow> int32 (key + 1);
     LL \<leftarrow> modify LL index (\<lambda>e. e\<lparr>lkey := key1\<rparr>);
     H \<leftarrow> modify (Header h) key (unblock index prev nxt);
     H \<leftarrow> modify H key1 (enblock index);
     t \<leftarrow> iget LL (heap_top h);
     let t = (if lkey t < key1 then index else heap_top h);
     key4 \<leftarrow> int32 (key1 + 4);
     let H = (if key4 \<ge> int (length H) then H @ replicate (3 * length H div 2 - length H) no_head else H);
     Some (h\<lparr>LinkedList := LL, Header := H, heap_top := t\<rparr>)
   }"

definition DecrementKey :: "int \<Rightarrow> unit_heap \<Rightarrow> unit_heap option" where
  "DecrementKey index h = do {
     u \<leftarrow> iget (updates h) index;
     u \<leftarrow> int32 (u - 1);
     us \<leftarrow> iput (updates h) index u;
     Some (h\<lparr>updates := us\<rparr>)
   }"

text \<open>\<open>update[v] = u\<close>; a vertex that is placed gets \<open>INT_MAX/2\<close>.\<close>

abbreviation DONE :: int where "DONE \<equiv> 1073741823"

definition set_update :: "int \<Rightarrow> int \<Rightarrow> unit_heap \<Rightarrow> unit_heap option" where
  "set_update v u h = do { us \<leftarrow> iput (updates h) v u; Some (h\<lparr>updates := us\<rparr>) }"

text \<open>Division by two truncates towards zero.\<close>

definition half :: "int \<Rightarrow> int" where
  "half u = (if u < 0 then - (- u div 2) else u div 2)"

text \<open>The loop of \<open>DecreaseTop\<close>: the last key that is at least \<open>newkey\<close>.\<close>

partial_function (option) last_block :: "head_end list \<Rightarrow> list_element list \<Rightarrow> int \<Rightarrow> int \<Rightarrow> int \<Rightarrow> int option" where
  "last_block H LL newkey p tmp =
     (if tmp < 0 then Some p
      else do {
        t \<leftarrow> iget LL tmp;
        if lkey t \<ge> newkey then do {
          let p = lkey t;
          b \<leftarrow> iget H p;
          s \<leftarrow> iget LL (hsecond b);
          last_block H LL newkey p (lnext s)
        } else Some p
      })"

declare last_block.simps [code]

text \<open>Where the top is the only element, \<open>LinkedList[next].key\<close> is read in front of the array: undefined, as every other access
  outside an array.\<close>

definition DecreaseTop :: "unit_heap \<Rightarrow> unit_heap option" where
  "DecreaseTop h = do {
     let tmptop = heap_top h;
     e \<leftarrow> iget (LinkedList h) tmptop;
     u \<leftarrow> iget (updates h) tmptop;
     let key = lkey e;
     let nxt = lnext e;
     s \<leftarrow> int32 (key + u);
     newkey \<leftarrow> int32 (s - half u);
     x \<leftarrow> iget (LinkedList h) nxt;
     if newkey < lkey x then do {
       b \<leftarrow> iget (Header h) key;
       s \<leftarrow> iget (LinkedList h) (hsecond b);
       p \<leftarrow> last_block (Header h) (LinkedList h) newkey key (lnext s);
       LL \<leftarrow> modify (LinkedList h) nxt (\<lambda>e. e\<lparr>lprev := -1\<rparr>);
       b \<leftarrow> iget (Header h) p;
       let psecond = hsecond b;
       t \<leftarrow> iget LL psecond;
       let tailnext = lnext t;
       LL \<leftarrow> modify LL tmptop (\<lambda>e. e\<lparr>lprev := psecond, lnext := tailnext\<rparr>);
       LL \<leftarrow> modify LL psecond (\<lambda>e. e\<lparr>lnext := tmptop\<rparr>);
       LL \<leftarrow> (if tailnext \<ge> 0 then modify LL tailnext (\<lambda>e. e\<lparr>lprev := tmptop\<rparr>) else Some LL);
       H \<leftarrow> modify (Header h) key (\<lambda>b. if hfirst b = hsecond b then no_head else b\<lparr>hfirst := nxt\<rparr>);
       LL \<leftarrow> modify LL tmptop (\<lambda>e. e\<lparr>lkey := newkey\<rparr>);
       us \<leftarrow> iput (updates h) tmptop (half u);
       H \<leftarrow> modify H newkey (enblock tmptop);
       Some (h\<lparr>updates := us, LinkedList := LL, Header := H, heap_top := nxt\<rparr>)
     } else Some h
   }"

partial_function (option) extract_loop :: "unit_heap \<Rightarrow> unit_heap option" where
  "extract_loop h = do {
     let tmptop = heap_top h;
     u \<leftarrow> iget (updates h) tmptop;
     h \<leftarrow> (if u < 0 then DecreaseTop h else Some h);
     if heap_top h \<noteq> tmptop then extract_loop h else Some h
   }"

declare extract_loop.simps [code]

definition ExtractMax :: "unit_heap \<Rightarrow> (int \<times> unit_heap) option" where
  "ExtractMax h = do {
     h \<leftarrow> extract_loop h;
     let tmptop = heap_top h;
     h \<leftarrow> DeleteElement tmptop h;
     Some (tmptop, h)
   }"

text \<open>\<open>ReConstruct\<close>: the list and the header from the keys.\<close>

definition link_step :: "int list \<Rightarrow> int \<Rightarrow> list_element list \<times> head_end list \<times> int \<Rightarrow> (list_element list \<times> head_end list \<times> int) option" where
  "link_step tmp i st = (case st of (LL, H, key) \<Rightarrow> do {
     prev \<leftarrow> iget tmp (i - 1);
     v \<leftarrow> iget tmp i;
     nxt \<leftarrow> iget tmp (i + 1);
     LL \<leftarrow> modify LL v (\<lambda>e. e\<lparr>lprev := prev, lnext := nxt\<rparr>);
     e \<leftarrow> iget LL v;
     let tmpkey = lkey e;
     if tmpkey \<noteq> key then do {
       H \<leftarrow> modify H key (\<lambda>b. b\<lparr>hsecond := prev\<rparr>);
       H \<leftarrow> modify H tmpkey (\<lambda>b. b\<lparr>hfirst := v\<rparr>);
       Some (LL, H, tmpkey)
     } else Some (LL, H, key)
   })"

definition ReConstruct :: "sorts \<Rightarrow> unit_heap \<Rightarrow> unit_heap option" where
  "ReConstruct lib h = do {
     let n = heapsize h;
     tmp \<leftarrow> sort_ints lib (\<lambda>a b. lkey (LinkedList h ! nat a) > lkey (LinkedList h ! nat b)) [0..n - 1];
     first \<leftarrow> iget tmp 0;
     e \<leftarrow> iget (LinkedList h) first;
     let key = lkey e;
     nxt \<leftarrow> iget tmp 1;
     LL \<leftarrow> modify (LinkedList h) first (\<lambda>e. e\<lparr>lnext := nxt\<rparr>);
     LL \<leftarrow> modify LL first (\<lambda>e. e\<lparr>lprev := -1\<rparr>);
     lastone \<leftarrow> iget tmp (n - 1);
     LL \<leftarrow> modify LL lastone (\<lambda>e. e\<lparr>lnext := -1\<rparr>);
     prev \<leftarrow> iget tmp (n - 2);
     LL \<leftarrow> modify LL lastone (\<lambda>e. e\<lparr>lprev := prev\<rparr>);
     key1 \<leftarrow> int32 (key + 1);
     let H = replicate (nat (max key1 (int (length (Header h))))) no_head;
     H \<leftarrow> modify H key (\<lambda>b. b\<lparr>hfirst := first\<rparr>);
     (LL, H, key) \<leftarrow> int_for 1 (n - 1) (link_step tmp) (LL, H, key);
     e \<leftarrow> iget LL lastone;
     let lastkey = lkey e;
     H \<leftarrow> (if key = lastkey then modify H key (\<lambda>b. b\<lparr>hsecond := lastone\<rparr>)
       else do {
         H \<leftarrow> modify H key (\<lambda>b. b\<lparr>hsecond := prev\<rparr>);
         modify H lastkey (\<lambda>b. b\<lparr>hfirst := lastone, hsecond := lastone\<rparr>)
       });
     Some (h\<lparr>LinkedList := LL, Header := H, heap_top := first\<rparr>)
   }"


section \<open>Doubly linked lists\<close>

text \<open>The first and the last vertex of a list, as the code stores them.\<close>

definition first_or :: "int \<Rightarrow> nat list \<Rightarrow> int" where
  "first_or q xs = (case xs of [] \<Rightarrow> q | x # _ \<Rightarrow> int x)"

definition last_or :: "int \<Rightarrow> nat list \<Rightarrow> int" where
  "last_or p xs = (if xs = [] then p else int (last xs))"

lemma first_or_simps [simp]: "first_or q [] = q" "first_or q (x # xs) = int x" "first_or q (xs @ ys) = first_or (first_or q ys) xs"
  by (simp_all add: first_or_def split: list.splits)

lemma last_or_simps [simp]: "last_or p [] = p" "last_or p (x # xs) = last_or (int x) xs" "last_or p (xs @ ys) = last_or (last_or p xs) ys"
  by (simp_all add: last_or_def)

lemma first_or_neg: "first_or (-1) xs < 0 \<longleftrightarrow> xs = []" "0 \<le> first_or (-1) xs \<longleftrightarrow> xs \<noteq> []"
  by (simp_all add: first_or_def split: list.splits)

lemma last_or_neg: "last_or (-1) xs < 0 \<longleftrightarrow> xs = []" "0 \<le> last_or (-1) xs \<longleftrightarrow> xs \<noteq> []"
  by (simp_all add: last_or_def)

fun dll :: "list_element list \<Rightarrow> int \<Rightarrow> nat list \<Rightarrow> int \<Rightarrow> bool" where
  "dll LL p [] q \<longleftrightarrow> True"
| "dll LL p (x # xs) q \<longleftrightarrow> x < length LL \<and> lprev (LL ! x) = p \<and> lnext (LL ! x) = first_or q xs \<and> dll LL (int x) xs q"

lemma dll_append [simp]: "dll LL p (xs @ ys) q \<longleftrightarrow> dll LL p xs (first_or q ys) \<and> dll LL (last_or p xs) ys q"
  by (induction xs arbitrary: p) auto

lemma dll_out [simp]: "x \<notin> set xs \<Longrightarrow> dll (LL[x := e]) p xs q \<longleftrightarrow> dll LL p xs q"
  by (induction xs arbitrary: p) auto

lemma dll_in: "dll LL p xs q \<Longrightarrow> set xs \<subseteq> {..<length LL}"
  by (induction xs arbitrary: p) auto

lemma dll_cong:
  assumes "length LL' = length LL" "\<And>x. x \<in> set xs \<Longrightarrow> lprev (LL' ! x) = lprev (LL ! x) \<and> lnext (LL' ! x) = lnext (LL ! x)"
  shows "dll LL' p xs q \<longleftrightarrow> dll LL p xs q"
  using assms by (induction xs arbitrary: p) auto

lemma nth_update: "x < length xs \<Longrightarrow> xs[i := v] ! x = (if i = x then v else xs ! x)"
  by (cases "i = x") simp_all

lemma dll_set_key [simp]: "dll (LL[x := (LL ! x)\<lparr>lkey := k\<rparr>]) p xs q \<longleftrightarrow> dll LL p xs q"
  by (induction xs arbitrary: p) (auto simp: nth_update split: if_splits)

text \<open>\<open>if (p >= 0) LinkedList[p].next = q\<close>: the end of a list is redirected. The same for its start.\<close>

definition set_next :: "int \<Rightarrow> int \<Rightarrow> list_element list \<Rightarrow> list_element list" where
  "set_next p q LL = (if p \<ge> 0 then LL[nat p := (LL ! nat p)\<lparr>lnext := q\<rparr>] else LL)"

definition set_prev :: "int \<Rightarrow> int \<Rightarrow> list_element list \<Rightarrow> list_element list" where
  "set_prev q p LL = (if q \<ge> 0 then LL[nat q := (LL ! nat q)\<lparr>lprev := p\<rparr>] else LL)"

lemma set_links [simp]: "length (set_next p q LL) = length LL" "length (set_prev q p LL) = length LL"
  "x < length LL \<Longrightarrow> lkey (set_next p q LL ! x) = lkey (LL ! x)"
  "x < length LL \<Longrightarrow> lkey (set_prev q p LL ! x) = lkey (LL ! x)"
  "x < length LL \<Longrightarrow> lprev (set_next p q LL ! x) = lprev (LL ! x)"
  "x < length LL \<Longrightarrow> lnext (set_prev q p LL ! x) = lnext (LL ! x)"
  "x < length LL \<Longrightarrow> lnext (set_next p q LL ! x) = (if int x = p then q else lnext (LL ! x))"
  "x < length LL \<Longrightarrow> lprev (set_prev q p LL ! x) = (if int x = q then p else lprev (LL ! x))"
  by (auto simp: set_next_def set_prev_def nth_update)

lemma dll_set_next:
  assumes "dll LL p xs q" "distinct xs" "p < 0 \<or> (\<exists>a. p = int a)"
  shows "dll (set_next (last_or (-1) xs) q' LL) p xs q'"
proof (cases xs rule: rev_cases)
  case (snoc ys y)
  have "dll (set_next (int y) q' LL) p ys (int y) \<longleftrightarrow> dll LL p ys (int y)"
  proof (rule dll_cong)
    fix x assume x: "x \<in> set ys"
    then have "x < length LL" "x \<noteq> y" using dll_in[OF assms(1)] assms(2) snoc by auto
    then show "lprev (set_next (int y) q' LL ! x) = lprev (LL ! x) \<and> lnext (set_next (int y) q' LL ! x) = lnext (LL ! x)" by simp
  qed simp
  then show ?thesis using assms snoc by simp
qed simp

lemma dll_set_prev:
  assumes "dll LL p xs q" "distinct xs"
  shows "dll (set_prev (first_or (-1) xs) p' LL) p' xs q"
proof (cases xs)
  case (Cons y ys)
  have "dll (set_prev (int y) p' LL) (int y) ys q \<longleftrightarrow> dll LL (int y) ys q"
  proof (rule dll_cong)
    fix x assume x: "x \<in> set ys"
    then have "x < length LL" "x \<noteq> y" using dll_in[OF assms(1)] assms(2) Cons by auto
    then show "lprev (set_prev (int y) p' LL ! x) = lprev (LL ! x) \<and> lnext (set_prev (int y) p' LL ! x) = lnext (LL ! x)" by simp
  qed simp
  then show ?thesis using assms Cons by simp
qed simp

lemma dll_set_other:
  assumes "dll LL p xs q"
  shows "(\<And>x. x \<in> set xs \<Longrightarrow> int x \<noteq> a) \<Longrightarrow> dll (set_next a b LL) p xs q" "(\<And>x. x \<in> set xs \<Longrightarrow> int x \<noteq> a) \<Longrightarrow> dll (set_prev a b LL) p xs q"
proof -
  have l: "x \<in> set xs \<Longrightarrow> x < length LL" for x using dll_in[OF assms] by auto
  show "(\<And>x. x \<in> set xs \<Longrightarrow> int x \<noteq> a) \<Longrightarrow> dll (set_next a b LL) p xs q"
    by (subst dll_cong[of _ LL]) (use assms l in auto)
  show "(\<And>x. x \<in> set xs \<Longrightarrow> int x \<noteq> a) \<Longrightarrow> dll (set_prev a b LL) p xs q"
    by (subst dll_cong[of _ LL]) (use assms l in auto)
qed

section \<open>The heap\<close>

definition hkey :: "unit_heap \<Rightarrow> nat \<Rightarrow> int" where
  "hkey h v = lkey (LinkedList h ! v)"

definition block :: "(nat \<Rightarrow> int) \<Rightarrow> nat list \<Rightarrow> int \<Rightarrow> nat list" where
  "block key xs k = filter (\<lambda>x. key x = k) xs"

definition head_of :: "nat list \<Rightarrow> head_end" where
  "head_of b = \<lparr>hfirst = first_or (-1) b, hsecond = last_or (-1) b\<rparr>"

definition heads_ok :: "(nat \<Rightarrow> int) \<Rightarrow> nat list \<Rightarrow> head_end list \<Rightarrow> bool" where
  "heads_ok key xs H \<longleftrightarrow> (\<forall>k < length H. H ! k = head_of (block key xs (int k)))"

definition descending :: "(nat \<Rightarrow> int) \<Rightarrow> nat list \<Rightarrow> bool" where
  "descending key xs \<longleftrightarrow> sorted_wrt (\<lambda>a b. key b \<le> key a) xs"

lemma descending_simps [simp]: "descending key []" "descending key (x # xs) \<longleftrightarrow> (\<forall>y \<in> set xs. key y \<le> key x) \<and> descending key xs"
  "descending key (xs @ ys) \<longleftrightarrow> descending key xs \<and> descending key ys \<and> (\<forall>x \<in> set xs. \<forall>y \<in> set ys. key y \<le> key x)"
  by (auto simp: descending_def sorted_wrt_append)

lemma descending_cong: "(\<And>x. x \<in> set xs \<Longrightarrow> key x = key' x) \<Longrightarrow> descending key xs \<longleftrightarrow> descending key' xs"
  by (induction xs) auto

text \<open>The heap holds the vertices \<open>xs\<close>, in this order.\<close>

definition heap_ok :: "nat \<Rightarrow> nat list \<Rightarrow> unit_heap \<Rightarrow> bool" where
  "heap_ok n xs h \<longleftrightarrow> length (updates h) = n \<and> length (LinkedList h) = n \<and> distinct xs \<and>
     dll (LinkedList h) (-1) xs (-1) \<and> heap_top h = first_or (-1) xs \<and> descending (hkey h) xs \<and>
     heads_ok (hkey h) xs (Header h) \<and> 4 \<le> length (Header h) \<and>
     (\<forall>x \<in> set xs. 0 \<le> hkey h x \<and> hkey h x + 1 < int (length (Header h)))"

lemma heap_okD:
  assumes "heap_ok n xs h"
  shows "length (updates h) = n" "length (LinkedList h) = n" "distinct xs" "dll (LinkedList h) (-1) xs (-1)"
    "heap_top h = first_or (-1) xs" "descending (hkey h) xs" "heads_ok (hkey h) xs (Header h)" "4 \<le> length (Header h)"
    "x \<in> set xs \<Longrightarrow> 0 \<le> hkey h x" "x \<in> set xs \<Longrightarrow> hkey h x + 1 < int (length (Header h))" "x \<in> set xs \<Longrightarrow> x < n"
  using assms dll_in[of "LinkedList h" "-1" xs "-1"] by (auto simp: heap_ok_def)

lemma block_simps [simp]: "block key [] k = []" "block key (x # xs) k = (if key x = k then x # block key xs k else block key xs k)"
  "block key (xs @ ys) k = block key xs k @ block key ys k"
  by (simp_all add: block_def)

lemma set_block: "set (block key xs k) = {x \<in> set xs. key x = k}"
  by (auto simp: block_def)

lemma block_empty: "(\<And>x. x \<in> set xs \<Longrightarrow> key x \<noteq> k) \<Longrightarrow> block key xs k = []"
  by (auto simp: block_def filter_empty_conv)

lemma block_cong: "(\<And>x. x \<in> set xs \<Longrightarrow> key x = key' x) \<Longrightarrow> block key xs k = block key' xs k"
  by (auto simp: block_def intro!: filter_cong)

lemma heads_okD: "heads_ok key xs H \<Longrightarrow> 0 \<le> k \<Longrightarrow> k < int (length H) \<Longrightarrow> H ! nat k = head_of (block key xs k)"
  by (auto simp: heads_ok_def)

lemma block_all: "(\<And>x. x \<in> set xs \<Longrightarrow> key x = k) \<Longrightarrow> block key xs k = xs"
  by (simp add: block_def)

lemma heap_okI:
  assumes "length (updates h) = n" "length (LinkedList h) = n" "distinct xs" "dll (LinkedList h) (-1) xs (-1)"
    "heap_top h = first_or (-1) xs" and key: "\<And>y. y < n \<Longrightarrow> hkey h y = key y"
    and "descending key xs" "heads_ok key xs (Header h)" "4 \<le> length (Header h)"
    and k: "\<And>x. x \<in> set xs \<Longrightarrow> 0 \<le> key x \<and> key x + 1 < int (length (Header h))"
  shows "heap_ok n xs h"
proof -
  have in_n: "hkey h y = key y" if "y \<in> set xs" for y using dll_in[OF assms(4)] that assms(2) key by auto
  have "heads_ok (hkey h) xs (Header h)"
    using assms(8) block_cong[of xs "hkey h" key] in_n unfolding heads_ok_def by metis
  moreover have "descending (hkey h) xs" using assms(7) descending_cong[of xs "hkey h" key] in_n by blast
  ultimately show ?thesis using assms k in_n unfolding heap_ok_def by simp
qed

text \<open>A descending list at one of its elements: the larger keys, the block of its key, the smaller keys.\<close>

lemma descending_split:
  assumes "descending key xs" "x \<in> set xs"
  obtains A B C D where "xs = A @ B @ x # C @ D" "\<And>y. y \<in> set A \<Longrightarrow> key x < key y" "\<And>y. y \<in> set B \<Longrightarrow> key y = key x"
    "\<And>y. y \<in> set C \<Longrightarrow> key y = key x" "\<And>y. y \<in> set D \<Longrightarrow> key y < key x"
    "block key A (key x) = []" "block key B (key x) = B" "block key C (key x) = C" "block key D (key x) = []"
proof -
  obtain L R where xs: "xs = L @ x # R" using assms(2) by (metis split_list)
  have L: "key x \<le> key y" if "y \<in> set L" for y using assms(1) that by (auto simp: xs descending_def sorted_wrt_append)
  have R: "key y \<le> key x" if "y \<in> set R" for y using assms(1) that by (auto simp: xs descending_def sorted_wrt_append)
  have up: "filter (\<lambda>y. key x < key y) L @ filter (\<lambda>y. key y = key x) L = L"
    if "descending key L" "\<And>y. y \<in> set L \<Longrightarrow> key x \<le> key y" for L
    using that
  proof (induction L)
    case (Cons y L)
    have "filter (\<lambda>z. key x < key z) L = []" if "key y = key x"
      using Cons.prems(1) that by (fastforce simp: descending_def filter_empty_conv)
    then show ?case using Cons by (fastforce simp: descending_def)
  qed simp
  have down: "filter (\<lambda>y. key y = key x) R @ filter (\<lambda>y. key y < key x) R = R"
    if "descending key R" "\<And>y. y \<in> set R \<Longrightarrow> key y \<le> key x" for R
    using that
  proof (induction R)
    case (Cons y R)
    have "filter (\<lambda>z. key z = key x) R = []" if "key y < key x"
      using Cons.prems(1) that by (fastforce simp: descending_def filter_empty_conv)
    then show ?case using Cons by (fastforce simp: descending_def)
  qed simp
  have d: "descending key L" "descending key R" using assms(1) by (auto simp: xs descending_def sorted_wrt_append)
  show thesis
    by (rule that[of "filter (\<lambda>y. key x < key y) L" "filter (\<lambda>y. key y = key x) L" "filter (\<lambda>y. key y = key x) R" "filter (\<lambda>y. key y < key x) R"])
      (use up[OF d(1) L] down[OF d(2) R] xs in \<open>auto intro: block_empty block_all\<close>)
qed


lemma modify_ok: "0 \<le> i \<Longrightarrow> i < int (length xs) \<Longrightarrow> modify xs i f = Some (xs[nat i := f (xs ! nat i)])"
  by (simp add: modify_def iget_def iput_def)

lemma modify_int [simp]: "i < length xs \<Longrightarrow> modify xs (int i) f = Some (xs[i := f (xs ! i)])"
  by (simp add: modify_def)

lemma modify_links:
  "p < int (length LL) \<Longrightarrow> (if p \<ge> 0 then modify LL p (\<lambda>e. e\<lparr>lnext := q\<rparr>) else Some LL) = Some (set_next p q LL)"
  "p < int (length LL) \<Longrightarrow> (if p \<ge> 0 then modify LL p (\<lambda>e. e\<lparr>lprev := q\<rparr>) else Some LL) = Some (set_prev p q LL)"
  "0 \<le> p \<Longrightarrow> p < int (length LL) \<Longrightarrow> modify LL p (\<lambda>e. e\<lparr>lnext := q\<rparr>) = Some (set_next p q LL)"
  "0 \<le> p \<Longrightarrow> p < int (length LL) \<Longrightarrow> modify LL p (\<lambda>e. e\<lparr>lprev := q\<rparr>) = Some (set_prev p q LL)"
  by (simp_all add: modify_ok set_next_def set_prev_def)

lemma ends_in:
  assumes "set xs \<subseteq> {..<n}"
  shows "last_or (-1) xs < int n \<and> first_or (-1) xs < int n"
proof (cases xs)
  case (Cons y ys)
  then show ?thesis using assms last_in_set[of xs] by (auto simp: last_or_def)
qed simp

lemma ends_other: "x \<notin> set xs \<Longrightarrow> last_or (-1) xs \<noteq> int x \<and> first_or (-1) xs \<noteq> int x"
  using last_in_set[of xs] by (cases xs) (auto simp: last_or_def)

lemma ends_mem: "y \<in> set ys \<Longrightarrow> set xs \<inter> set ys = {} \<Longrightarrow> int y \<noteq> last_or (-1) xs \<and> int y \<noteq> first_or (-1) xs"
proof -
  assume "y \<in> set ys" "set xs \<inter> set ys = {}"
  then have "y \<notin> set xs" by auto
  then show ?thesis using ends_other[of y xs] by auto
qed

lemma set_next_prev: "set_next p q (set_prev p' q' LL) = set_prev p' q' (set_next p q LL)"
  by (auto simp: set_next_def set_prev_def intro!: nth_equalityI simp: nth_update)

text \<open>Taking a vertex out of the list, and putting one in.\<close>

lemma unlink:
  assumes d: "dll LL (-1) (L @ x # R) (-1)" "distinct (L @ x # R)"
  shows "dll (set_prev (first_or (-1) R) (last_or (-1) L) (set_next (last_or (-1) L) (first_or (-1) R) LL)) (-1) (L @ R) (-1)"
proof -
  have dL: "dll LL (-1) L (int x)" and dR: "dll LL (int x) R (-1)" using d(1) by simp_all
  have L1: "dll (set_next (last_or (-1) L) (first_or (-1) R) LL) (-1) L (first_or (-1) R)"
    by (rule dll_set_next[OF dL]) (use d(2) in auto)
  have R1: "dll (set_next (last_or (-1) L) (first_or (-1) R) LL) (int x) R (-1)"
    by (rule dll_set_other(1)[OF dR]) (use d(2) ends_mem in auto)
  have "dll (set_prev (first_or (-1) R) (last_or (-1) L) (set_next (last_or (-1) L) (first_or (-1) R) LL)) (last_or (-1) L) R (-1)"
    by (rule dll_set_prev[OF R1]) (use d(2) in auto)
  moreover have "dll (set_prev (first_or (-1) R) (last_or (-1) L) (set_next (last_or (-1) L) (first_or (-1) R) LL)) (-1) L (first_or (-1) R)"
    by (rule dll_set_other(2)[OF L1]) (use d(2) ends_mem[of _ L R] in auto)
  ultimately show ?thesis by simp
qed

lemma link:
  assumes d: "dll LL (-1) (L @ R) (-1)" "distinct (L @ x # R)" and x: "x < length LL"
    and e: "lprev (LL ! x) = last_or (-1) L" "lnext (LL ! x) = first_or (-1) R"
  shows "dll (set_next (last_or (-1) L) (int x) (set_prev (first_or (-1) R) (int x) LL)) (-1) (L @ x # R) (-1)"
proof -
  let ?l = "last_or (-1) L" and ?f = "first_or (-1) R"
  let ?LL = "set_next ?l (int x) (set_prev ?f (int x) LL)"
  have dL: "dll LL (-1) L ?f" and dR: "dll LL ?l R (-1)" using d(1) by simp_all
  have R1: "dll (set_prev ?f (int x) LL) (int x) R (-1)" by (rule dll_set_prev[OF dR]) (use d(2) in auto)
  have R2: "dll ?LL (int x) R (-1)" by (rule dll_set_other(1)[OF R1]) (use d(2) ends_mem in auto)
  have L1: "dll (set_prev ?f (int x) LL) (-1) L ?f" by (rule dll_set_other(2)[OF dL]) (use d(2) ends_mem[of _ L R] in auto)
  have L2: "dll ?LL (-1) L (int x)" by (rule dll_set_next[OF L1]) (use d(2) in auto)
  have "int x \<noteq> ?l" "int x \<noteq> ?f" using d(2) ends_other[of x L] ends_other[of x R] by auto
  then show ?thesis using L2 R2 e x by (simp add: eq_commute[of _ "int x"])
qed

text \<open>The header entries.\<close>

lemma head_of_Nil [simp]: "head_of [] = no_head"
  by (simp add: head_of_def no_head_def)

lemma unblock_ok:
  assumes "distinct (B @ x # C)" "C \<noteq> [] \<Longrightarrow> nxt = first_or (-1) C" "B \<noteq> [] \<Longrightarrow> prev = last_or (-1) B"
  shows "unblock (int x) prev nxt (head_of (B @ x # C)) = head_of (B @ C)"
proof (cases B)
  case Nil
  then show ?thesis using assms by (cases C rule: rev_cases) (auto simp: unblock_def head_of_def no_head_def split: list.splits)
next
  case (Cons b B')
  then show ?thesis using assms
    by (cases C rule: rev_cases; cases B' rule: rev_cases) (auto simp: unblock_def head_of_def no_head_def)
qed

lemma enblock_ok: "enblock (int x) (head_of b) = head_of (b @ [x])"
  by (cases b) (auto simp: enblock_def head_of_def no_head_def Let_def)

lemma heads_ok_update:
  assumes "heads_ok key xs H" "\<And>k'. 0 \<le> k' \<Longrightarrow> k' \<noteq> k \<Longrightarrow> block key' xs' k' = block key xs k'"
    "0 \<le> k" "k < int (length H)" "b = head_of (block key' xs' k)"
  shows "heads_ok key' xs' (H[nat k := b])"
  using assms by (auto simp: heads_ok_def nth_list_update)

lemma DeleteElement_ok:
  assumes ok: "heap_ok n xs h" and x: "x \<in> set xs"
  shows "\<exists>h'. DeleteElement (int x) h = Some h' \<and> heap_ok n (remove1 x xs) h' \<and> updates h' = updates h \<and>
    length (Header h') = length (Header h) \<and> (\<forall>y<n. hkey h' y = hkey h y)"
proof -
  note w = heap_okD[OF ok]
  obtain A B C D where xs: "xs = A @ B @ x # C @ D" "\<And>y. y \<in> set A \<Longrightarrow> hkey h x < hkey h y" "\<And>y. y \<in> set B \<Longrightarrow> hkey h y = hkey h x"
    "\<And>y. y \<in> set C \<Longrightarrow> hkey h y = hkey h x" "\<And>y. y \<in> set D \<Longrightarrow> hkey h y < hkey h x"
    "block (hkey h) A (hkey h x) = []" "block (hkey h) B (hkey h x) = B" "block (hkey h) C (hkey h x) = C" "block (hkey h) D (hkey h x) = []"
    by (rule descending_split[OF w(6) x], rule that, assumption+)
  let ?L = "A @ B" and ?R = "C @ D" and ?k = "hkey h x"
  let ?p = "last_or (-1) ?L" and ?q = "first_or (-1) ?R" and ?LL = "LinkedList h"
  have xs': "xs = ?L @ x # ?R" and rm: "remove1 x xs = ?L @ ?R" using xs(1) w(3) by (auto simp: remove1_append)
  have xn: "x < n" by (rule w(11)[OF x])
  have k: "0 \<le> ?k" "?k < int (length (Header h))" using w(9,10)[OF x] by auto
  have e: "lprev (?LL ! x) = ?p" "lnext (?LL ! x) = ?q" "lkey (?LL ! x) = ?k"
    using w(4) unfolding xs' by (simp_all add: hkey_def)
  have "set ?L \<subseteq> {..<n}" "set ?R \<subseteq> {..<n}" using w(11) xs' by auto
  then have pq: "?p < int n" "?q < int n" using ends_in by blast+
  let ?LL2 = "set_prev ?q ?p (set_next ?p ?q ?LL)"
  let ?LL3 = "?LL2[x := (?LL2 ! x)\<lparr>lprev := -1, lnext := -1\<rparr>]"
  have px: "?p \<noteq> int x" using w(3) ends_other[of x ?L] xs' by auto
  let ?H = "(Header h)[nat ?k := unblock (int x) ?p ?q (Header h ! nat ?k)]"
  let ?h = "h\<lparr>LinkedList := ?LL3, Header := ?H, heap_top := first_or (-1) (?L @ ?R)\<rparr>"
  have t: "(if heap_top h = int x then do { e \<leftarrow> iget ?LL2 (int x); Some (lnext e) } else Some (heap_top h)) = Some (first_or (-1) (?L @ ?R))"
  proof (cases "?L = []")
    case True
    then show ?thesis using w(2,5) xn e(2) px xs' by simp
  next
    case False
    have "x \<notin> set ?L" using w(3) xs' by auto
    then have "heap_top h \<noteq> int x" using w(5) False ends_other[of x ?L] unfolding xs' by (cases ?L) auto
    moreover have "heap_top h = first_or (-1) (?L @ ?R)" using w(5) False unfolding xs' by (cases ?L) simp_all
    ultimately show ?thesis by simp
  qed
  have run: "DeleteElement (int x) h = Some ?h"
  proof -
    have r: "iget ?LL (int x) = Some (?LL ! x)" using xn w(2) by simp
    have s: "(if 0 \<le> ?p then modify ?LL ?p (\<lambda>e. e\<lparr>lnext := ?q\<rparr>) else Some ?LL) = Some (set_next ?p ?q ?LL)"
      by (rule modify_links(1)) (use pq w(2) in simp)
    have s': "(if 0 \<le> ?q then modify (set_next ?p ?q ?LL) ?q (\<lambda>e. e\<lparr>lprev := ?p\<rparr>) else Some (set_next ?p ?q ?LL)) = Some ?LL2"
      by (rule modify_links(2)) (use pq w(2) in simp)
    have m: "modify (Header h) ?k (unblock (int x) ?p ?q) = Some ?H" by (rule modify_ok[OF k])
    have m': "modify ?LL2 (int x) (\<lambda>e. e\<lparr>lprev := -1, lnext := -1\<rparr>) = Some ?LL3" by (rule modify_int) (use xn w(2) in simp)
    show ?thesis
      unfolding DeleteElement_def r Option.bind.simps Let_def e s s' m t m' ..
  qed
  have key: "hkey ?h y = hkey h y" if "y < n" for y
    using that w(2) by (simp add: hkey_def nth_update)
  have "dll ?LL2 (-1) (?L @ ?R) (-1)" using unlink w(3,4) unfolding xs' by blast
  moreover have "x \<notin> set (?L @ ?R)" using w(3) xs' by auto
  ultimately have d: "dll ?LL3 (-1) (?L @ ?R) (-1)" by (subst dll_out)
  have "heads_ok (hkey h) (?L @ ?R) ?H"
  proof (rule heads_ok_update[OF w(7) _ k])
    show "block (hkey h) (?L @ ?R) k' = block (hkey h) xs k'" if "k' \<noteq> ?k" for k' using that by (simp add: xs')
    have b: "block (hkey h) xs ?k = B @ x # C" "block (hkey h) (?L @ ?R) ?k = B @ C"
      by (simp_all add: xs(1) xs(6-9))
    have "unblock (int x) ?p ?q (head_of (B @ x # C)) = head_of (B @ C)"
      by (rule unblock_ok) (use w(3) xs(1) in \<open>auto simp: last_or_def first_or_def split: list.splits\<close>)
    then show "unblock (int x) ?p ?q (Header h ! nat ?k) = head_of (block (hkey h) (?L @ ?R) ?k)"
      unfolding b(2) heads_okD[OF w(7) k] b(1) .
  qed
  then have "heap_ok n (?L @ ?R) ?h"
    by (intro heap_okI[where key = "hkey h"]) (use w xs' d key in auto)
  then show ?thesis unfolding rm using run key by auto
qed


lemma move_to_head_ok:
  assumes d: "dll LL (-1) (A @ B @ x # R) (-1)" "distinct (A @ B @ x # R)" and B: "B \<noteq> []"
  shows "\<exists>LL'. move_to_head (int x) (int (hd B)) (last_or (-1) (A @ B)) (first_or (-1) R) LL = Some LL' \<and> length LL' = length LL \<and>
    dll LL' (-1) (A @ x # B @ R) (-1) \<and> (\<forall>y<length LL. lkey (LL' ! y) = lkey (LL ! y))"
proof -
  obtain b B' where b: "B = b # B'" using B by (cases B) auto
  let ?p = "last_or (-1) (A @ B)" and ?q = "first_or (-1) R"
  let ?LL2 = "set_prev ?q ?p (set_next ?p ?q LL)"
  let ?LL3 = "?LL2[x := (?LL2 ! x)\<lparr>lprev := last_or (-1) A, lnext := int b\<rparr>]"
  let ?LL4 = "set_prev (int b) (int x) ?LL3"
  let ?LL5 = "set_next (last_or (-1) A) (int x) ?LL4"
  have sub: "set (A @ B @ x # R) \<subseteq> {..<length LL}" by (rule dll_in[OF d(1)])
  then have n: "x < length LL" "b < length LL" by (auto simp: b)
  have pq: "0 \<le> ?p" "?p < int (length LL)" "?q < int (length LL)" "last_or (-1) A < int (length LL)"
    using sub B ends_in[of "A @ B" "length LL"] ends_in[of R "length LL"] ends_in[of A "length LL"] last_or_neg(2)[of "A @ B"] by auto
  have d2: "dll ?LL2 (-1) (A @ B @ R) (-1)" using unlink[of LL "A @ B" x R] d by simp
  then have lp: "lprev (?LL2 ! b) = last_or (-1) A" by (simp add: b)
  have "x \<notin> set (A @ B @ R)" using d(2) by auto
  then have d3: "dll ?LL3 (-1) (A @ B @ R) (-1)" using d2 by (subst dll_out)
  have f: "first_or (-1) (B @ R) = int b" by (simp add: b)
  have "dll (set_next (last_or (-1) A) (int x) (set_prev (first_or (-1) (B @ R)) (int x) ?LL3)) (-1) (A @ x # B @ R) (-1)"
  proof (rule link[OF d3])
    show "distinct (A @ x # B @ R)" using d(2) by auto
    show "lnext (?LL3 ! x) = first_or (-1) (B @ R)" unfolding f using n(1) by simp
  qed (use n(1) in simp_all)
  then have d5: "dll ?LL5 (-1) (A @ x # B @ R) (-1)" unfolding f .
  have s1: "modify LL ?p (\<lambda>e. e\<lparr>lnext := ?q\<rparr>) = Some (set_next ?p ?q LL)" by (rule modify_links(3)[OF pq(1,2)])
  have s2: "(if 0 \<le> ?q then modify (set_next ?p ?q LL) ?q (\<lambda>e. e\<lparr>lprev := ?p\<rparr>) else Some (set_next ?p ?q LL)) = Some ?LL2"
    by (rule modify_links(2)) (use pq(3) in simp)
  have s3: "iget ?LL2 (int b) = Some (?LL2 ! b)" using n(2) by simp
  have s4: "modify ?LL2 (int x) (\<lambda>e. e\<lparr>lprev := last_or (-1) A, lnext := int b\<rparr>) = Some ?LL3"
    by (rule modify_int) (use n(1) in simp)
  have s5: "modify ?LL3 (int b) (\<lambda>e. e\<lparr>lprev := int x\<rparr>) = Some ?LL4"
    by (rule modify_links(4)) (use n(2) in simp_all)
  have s6: "(if 0 \<le> last_or (-1) A then modify ?LL4 (last_or (-1) A) (\<lambda>e. e\<lparr>lnext := int x\<rparr>) else Some ?LL4) = Some ?LL5"
    by (rule modify_links(1)) (use pq(4) in simp)
  have hb: "hd B = b" by (simp add: b)
  have "move_to_head (int x) (int (hd B)) ?p ?q LL = Some ?LL5"
    unfolding move_to_head_def hb s1 s2 Option.bind.simps s3 Let_def lp s4 s5 s6 ..
  moreover have "\<forall>y<length LL. lkey (?LL5 ! y) = lkey (LL ! y)" by (simp add: nth_update)
  ultimately show ?thesis using d5 by auto
qed

text \<open>The header after the vertex \<open>x\<close> has moved from one block to the end of the next.\<close>

lemma heads_move:
  assumes hd: "heads_ok key xs H" and xs: "distinct xs" "block key xs k = B @ x # C" "0 \<le> k" "k < int (length H)"
    and k1: "0 \<le> k1" "k1 < int (length H)" "k1 \<noteq> k" "k1 = k'" 
    and new: "block key' xs' k = B @ C" "block key' xs' k' = block key xs k' @ [x]"
      "\<And>j. 0 \<le> j \<Longrightarrow> j \<noteq> k \<Longrightarrow> j \<noteq> k' \<Longrightarrow> block key' xs' j = block key xs j"
    and b: "b = head_of (B @ C)" 
  shows "heads_ok key' xs' (H[nat k := b, nat k1 := enblock (int x) (H ! nat k1)])"
proof -
  have "H ! nat k1 = head_of (block key xs k1)" by (rule heads_okD[OF hd k1(1,2)])
  then have "enblock (int x) (H ! nat k1) = head_of (block key' xs' k1)" using new(2) k1(4) by (simp add: enblock_ok)
  then show ?thesis using hd new b xs(3,4) k1 by (auto simp: heads_ok_def nth_list_update)
qed

lemma heads_ok_extend: "heads_ok key xs H \<Longrightarrow> (\<And>x. x \<in> set xs \<Longrightarrow> key x < int (length H)) \<Longrightarrow> heads_ok key xs (H @ replicate m no_head)"
  unfolding heads_ok_def
proof (intro allI impI)
  fix k assume h: "\<forall>k<length H. H ! k = head_of (block key xs (int k))" "\<And>x. x \<in> set xs \<Longrightarrow> key x < int (length H)" "k < length (H @ replicate m no_head)"
  show "(H @ replicate m no_head) ! k = head_of (block key xs (int k))"
  proof (cases "k < length H")
    case False
    then have "block key xs (int k) = []" using h(2) by (intro block_empty) fastforce
    then show ?thesis using h(3) False by (simp add: nth_append)
  qed (use h(1) in \<open>simp add: nth_append\<close>)
qed

text \<open>Where \<open>x\<close> is in a descending list: behind \<open>A\<close> with higher keys and \<open>B\<close> with its key, before \<open>C\<close> with its key and \<open>D\<close> with
  lower ones.\<close>

definition placed_at :: "(nat \<Rightarrow> int) \<Rightarrow> nat list \<Rightarrow> nat \<Rightarrow> nat list \<Rightarrow> nat list \<Rightarrow> nat list \<Rightarrow> nat list \<Rightarrow> bool" where
  "placed_at key xs x A B C D \<longleftrightarrow> xs = A @ B @ x # C @ D \<and> distinct xs \<and> descending key xs \<and> (\<forall>y \<in> set A. key x < key y) \<and>
     (\<forall>y \<in> set B \<union> set C. key y = key x) \<and> (\<forall>y \<in> set D. key y < key x) \<and>
     block key A (key x) = [] \<and> block key B (key x) = B \<and> block key C (key x) = C \<and> block key D (key x) = []"

lemma placed_atD:
  assumes "placed_at key xs x A B C D"
  shows "xs = A @ B @ x # C @ D" "distinct xs" "descending key xs" "y \<in> set A \<Longrightarrow> key x < key y" "y \<in> set B \<Longrightarrow> key y = key x"
    "y \<in> set C \<Longrightarrow> key y = key x" "y \<in> set D \<Longrightarrow> key y < key x" "block key A (key x) = []" "block key B (key x) = B"
    "block key C (key x) = C" "block key D (key x) = []" "x \<notin> set A" "x \<notin> set B" "x \<notin> set C" "x \<notin> set D"
    "block key xs (key x) = B @ x # C"
proof -
  show xs: "xs = A @ B @ x # C @ D" "distinct xs" "descending key xs" and "y \<in> set A \<Longrightarrow> key x < key y" "y \<in> set B \<Longrightarrow> key y = key x"
    "y \<in> set C \<Longrightarrow> key y = key x" "y \<in> set D \<Longrightarrow> key y < key x" and b: "block key A (key x) = []" "block key B (key x) = B"
    "block key C (key x) = C" "block key D (key x) = []"
    using assms unfolding placed_at_def by blast+
  show "x \<notin> set A" "x \<notin> set B" "x \<notin> set C" "x \<notin> set D" using xs(2) by (simp_all add: xs(1))
  show "block key xs (key x) = B @ x # C" by (simp add: xs(1) b)
qed

lemma placed_at_exists:
  assumes "descending key xs" "distinct xs" "x \<in> set xs"
  obtains A B C D where "placed_at key xs x A B C D"
proof -
  obtain A B C D where "xs = A @ B @ x # C @ D" "\<And>y. y \<in> set A \<Longrightarrow> key x < key y" "\<And>y. y \<in> set B \<Longrightarrow> key y = key x"
    "\<And>y. y \<in> set C \<Longrightarrow> key y = key x" "\<And>y. y \<in> set D \<Longrightarrow> key y < key x"
    "block key A (key x) = []" "block key B (key x) = B" "block key C (key x) = C" "block key D (key x) = []"
    by (rule descending_split[OF assms(1,3)], rule that, assumption+)
  then show thesis using assms by (intro that[of A B C D]) (auto simp: placed_at_def)
qed

text \<open>The list after the key of \<open>x\<close> is raised.\<close>

lemma raised_list:
  assumes p: "placed_at key xs x A B C D"
  defines "key' \<equiv> key(x := key x + 1)" and "ys \<equiv> A @ x # B @ C @ D"
  shows "set ys = set xs" "distinct ys" "descending key' ys" "block key' ys (key x) = B @ C"
    "block key' ys (key x + 1) = block key xs (key x + 1) @ [x]"
    "j \<noteq> key x \<Longrightarrow> j \<noteq> key x + 1 \<Longrightarrow> block key' ys j = block key xs j"
proof -
  note d = placed_atD[OF p]
  show "set ys = set xs" "distinct ys" using d(2) by (auto simp: d(1) ys_def)
  have nb: "block key' zs j = block key zs j" if "x \<notin> set zs" for zs j
    using that by (intro block_cong) (auto simp: key'_def)
  have k1: "block key B (key x + 1) = []" "block key C (key x + 1) = []" "block key D (key x + 1) = []"
    using d(5-7) by (auto intro!: block_empty) fastforce
  have kx: "key' x = key x + 1" by (simp add: key'_def)
  show "block key' ys (key x) = B @ C" "block key' ys (key x + 1) = block key xs (key x + 1) @ [x]"
    "j \<noteq> key x \<Longrightarrow> j \<noteq> key x + 1 \<Longrightarrow> block key' ys j = block key xs j"
    using d(8-11) k1 by (simp_all add: nb d(12-15) d(1) ys_def kx)
  have dc: "descending key' zs \<longleftrightarrow> descending key zs" if "x \<notin> set zs" for zs
    using that by (intro descending_cong) (auto simp: key'_def)
  have kA: "key x + 1 \<le> key' y" if "y \<in> set A" for y using d(4)[OF that] that d(12) by (auto simp: key'_def)
  have kB: "key' y = key x" if "y \<in> set B \<union> set C" for y using d(5,6)[of y] that d(13,14) by (auto simp: key'_def)
  have kD: "key' y < key x" if "y \<in> set D" for y using d(7)[OF that] that d(15) by (auto simp: key'_def)
  have "descending key A" "descending key B" "descending key C" "descending key D" using d(3) by (simp_all add: d(1))
  then show "descending key' ys" using kx kA kB kD by (simp add: dc d(12-15) ys_def) fastforce
qed

text \<open>The header after the key of \<open>x\<close> is raised, and after it is enlarged.\<close>

lemma raised_heads:
  assumes p: "placed_at key xs x A B C D" and hd: "heads_ok key xs H" and k: "0 \<le> key x" "key x + 1 < int (length H)"
    and h4: "4 \<le> length H" and bound: "\<forall>y \<in> set xs. 0 \<le> key y \<and> key y + 1 < int (length H)"
  defines "key' \<equiv> key(x := key x + 1)" and "ys \<equiv> A @ x # B @ C @ D"
  defines "H' \<equiv> H[nat (key x) := unblock (int x) (last_or (-1) (A @ B)) (first_or (-1) (C @ D)) (H ! nat (key x)),
    nat (key x + 1) := enblock (int x) (H ! nat (key x + 1))]"
  defines "H'' \<equiv> if key x + 1 + 4 \<ge> int (length H') then H' @ replicate (3 * length H' div 2 - length H') no_head else H'"
  shows "heads_ok key' ys H''" "4 \<le> length H''" "y \<in> set ys \<Longrightarrow> 0 \<le> key' y \<and> key' y + 1 < int (length H'')"
proof -
  note d = placed_atD[OF p] and r = raised_list[OF p, folded key'_def ys_def]
  have k': "key x < int (length H)" "0 \<le> key x + 1" using k by simp_all
  have "H ! nat (key x) = head_of (B @ x # C)" using heads_okD[OF hd k(1) k'(1)] d(16) by simp
  then have ub: "unblock (int x) (last_or (-1) (A @ B)) (first_or (-1) (C @ D)) (H ! nat (key x)) = head_of (B @ C)"
    by (simp only:) (rule unblock_ok, use d(1,2) in \<open>auto simp: last_or_def first_or_def split: list.splits\<close>)
  have hd1: "heads_ok key' ys H'"
    unfolding H'_def by (rule heads_move[OF hd d(2) d(16) k(1) k'(1) k'(2) k(2), where k' = "key x + 1"]) (use r(4-6) ub in auto)
  have len: "length H' = length H" by (simp add: H'_def)
  have kx: "0 \<le> key' y \<and> key' y < int (length H)" if "y \<in> set xs" for y
    using bound that k by (fastforce simp: key'_def)
  show "heads_ok key' ys H''"
    unfolding H''_def using heads_ok_extend[OF hd1] hd1 kx r(1) len by auto
  have "3 * length H div 2 - length H \<ge> 2" using h4 by linarith
  then show "4 \<le> length H''" "y \<in> set ys \<Longrightarrow> 0 \<le> key' y \<and> key' y + 1 < int (length H'')"
    using h4 k bound r(1) by (fastforce simp: key'_def H''_def len)+
qed

text \<open>The linked list after \<open>x\<close> is moved to the front of its block and its key is raised.\<close>

lemma raised_links:
  assumes ok: "heap_ok n xs h" and p: "placed_at (hkey h) xs x A B C D"
  defines "LL \<equiv> LinkedList h" and "f \<equiv> first_or (int x) B" and "k \<equiv> hkey h x"
  shows "\<exists>LL'. (if f \<noteq> int x then move_to_head (int x) f (last_or (-1) (A @ B)) (first_or (-1) (C @ D)) LL else Some LL) = Some LL' \<and>
    length LL' = n \<and> dll (LL'[x := (LL' ! x)\<lparr>lkey := k + 1\<rparr>]) (-1) (A @ x # B @ C @ D) (-1) \<and>
    (\<forall>y<n. lkey (LL'[x := (LL' ! x)\<lparr>lkey := k + 1\<rparr>] ! y) = ((hkey h)(x := k + 1)) y)"
proof -
  note w = heap_okD[OF ok] and d = placed_atD[OF p]
  have "\<exists>LL'. (if f \<noteq> int x then move_to_head (int x) f (last_or (-1) (A @ B)) (first_or (-1) (C @ D)) LL else Some LL) = Some LL' \<and>
    length LL' = n \<and> dll LL' (-1) (A @ x # B @ C @ D) (-1) \<and> (\<forall>y<n. lkey (LL' ! y) = lkey (LL ! y))"
  proof (cases B)
    case Nil
    then show ?thesis using w(2,4) by (simp add: d(1) f_def LL_def)
  next
    case (Cons b' B')
    then have "f \<noteq> int x" "f = int (hd B)" using d(13) by (auto simp: f_def)
    then show ?thesis using move_to_head_ok[of LL A B x "C @ D"] w(2-4) Cons by (simp add: d(1) LL_def)
  qed
  then obtain LL' where LL': "(if f \<noteq> int x then move_to_head (int x) f (last_or (-1) (A @ B)) (first_or (-1) (C @ D)) LL else Some LL) = Some LL'"
    "length LL' = n" "dll LL' (-1) (A @ x # B @ C @ D) (-1)" "\<And>y. y < n \<Longrightarrow> lkey (LL' ! y) = lkey (LL ! y)" by blast
  have "lkey (LL'[x := (LL' ! x)\<lparr>lkey := k + 1\<rparr>] ! y) = ((hkey h)(x := k + 1)) y" if "y < n" for y
    using that LL'(2,4) by (simp add: nth_update hkey_def LL_def)
  then show ?thesis using LL'(1-3) by (intro exI[of _ LL']) (simp add: dll_set_key)
qed

text \<open>The front of the list is the raised vertex, if it was in the first block, and is unchanged otherwise.\<close>

lemma raised_top:
  assumes ok: "heap_ok n xs h" and p: "placed_at (hkey h) xs x A B C D"
    and key: "\<And>y. y < n \<Longrightarrow> lkey (LL ! y) = ((hkey h)(x := hkey h x + 1)) y"
  shows "(if lkey (LL ! nat (heap_top h)) < hkey h x + 1 then int x else heap_top h) = first_or (-1) (A @ x # B @ C @ D)"
    "0 \<le> heap_top h" "heap_top h < int n"
proof -
  note w = heap_okD[OF ok] and d = placed_atD[OF p]
  have x: "x \<in> set xs" by (simp add: d(1))
  show t: "0 \<le> heap_top h" "heap_top h < int n" using w(5,11) x by (cases xs; auto)+
  show "(if lkey (LL ! nat (heap_top h)) < hkey h x + 1 then int x else heap_top h) = first_or (-1) (A @ x # B @ C @ D)"
  proof (cases A)
    case Nil
    then have "nat (heap_top h) \<in> set (B @ [x])" using w(5) by (cases B) (auto simp: d(1))
    then have "nat (heap_top h) = x \<or> lkey (LL ! nat (heap_top h)) = hkey h x" using key[of "nat (heap_top h)"] t d(5) by auto
    then show ?thesis using Nil key[OF w(11)[OF x]] t by auto
  next
    case (Cons a A')
    then have a: "heap_top h = int a" "a \<in> set A" using w(5) by (auto simp: d(1))
    then have "a < n" "hkey h x < hkey h a" "a \<noteq> x" using w(11) d(4,12) by (auto simp: d(1))
    then show ?thesis using a Cons key[of a] by simp
  qed
qed

lemma IncrementKey_ok:
  assumes ok: "heap_ok n xs h" and x: "x \<in> set xs" and k30: "hkey h x < 2 ^ 30"
  shows "\<exists>h' xs'. IncrementKey (int x) h = Some h' \<and> heap_ok n xs' h' \<and> set xs' = set xs \<and> updates h' = updates h \<and>
    (\<forall>y<n. hkey h' y = (if y = x then hkey h y + 1 else hkey h y))"
proof -
  note w = heap_okD[OF ok]
  obtain A B C D where p: "placed_at (hkey h) xs x A B C D" using placed_at_exists[OF w(6,3) x] .
  note d = placed_atD[OF p]
  define k where "k = hkey h x"
  let ?p = "last_or (-1) (A @ B)" and ?q = "first_or (-1) (C @ D)" and ?xs = "A @ x # B @ C @ D" and ?key = "(hkey h)(x := k + 1)"
  have xn: "x < n" by (rule w(11)[OF x])
  have k: "0 \<le> k" "k < int (length (Header h))" "0 \<le> k + 1" "k + 1 < int (length (Header h))" using w(9,10)[OF x] by (auto simp: k_def)
  note r = raised_list[OF p, folded k_def]
  have bound: "\<forall>y \<in> set xs. 0 \<le> hkey h y \<and> hkey h y + 1 < int (length (Header h))" using w(9,10) by simp
  note hd = raised_heads[OF p w(7) k(1,4)[unfolded k_def] w(8) bound, folded k_def]
  obtain LL where LL: "(if first_or (int x) B \<noteq> int x then move_to_head (int x) (first_or (int x) B) ?p ?q (LinkedList h) else Some (LinkedList h)) = Some LL"
    "length LL = n" "dll (LL[x := (LL ! x)\<lparr>lkey := k + 1\<rparr>]) (-1) ?xs (-1)"
    "\<And>y. y < n \<Longrightarrow> lkey (LL[x := (LL ! x)\<lparr>lkey := k + 1\<rparr>] ! y) = ?key y"
    using raised_links[OF ok p, folded k_def] by blast
  let ?LL = "LL[x := (LL ! x)\<lparr>lkey := k + 1\<rparr>]"
  have t: "(if lkey (?LL ! nat (heap_top h)) < k + 1 then int x else heap_top h) = first_or (-1) ?xs" "0 \<le> heap_top h" "heap_top h < int n"
    using raised_top[OF ok p, of ?LL] LL(4) unfolding k_def by blast+
  let ?H = "(Header h)[nat k := unblock (int x) ?p ?q (Header h ! nat k), nat (k + 1) := enblock (int x) (Header h ! nat (k + 1))]"
  let ?H' = "if k + 1 + 4 \<ge> int (length ?H) then ?H @ replicate (3 * length ?H div 2 - length ?H) no_head else ?H"
  let ?h = "h\<lparr>LinkedList := ?LL, Header := ?H', heap_top := first_or (-1) ?xs\<rparr>"
  have e: "lprev (LinkedList h ! x) = ?p" "lnext (LinkedList h ! x) = ?q" "lkey (LinkedList h ! x) = k"
    using w(4) by (simp_all add: d(1) hkey_def k_def)
  have hf: "hfirst (Header h ! nat k) = first_or (int x) B"
    using heads_okD[OF w(7) k(1,2)] d(16) by (simp add: k_def head_of_def)
  have run: "IncrementKey (int x) h = Some ?h"
  proof -
    have g: "iget (LinkedList h) (int x) = Some (LinkedList h ! x)" "iget (Header h) k = Some (Header h ! nat k)"
      "int32 (k + 1) = Some (k + 1)" "int32 (k + 1 + 4) = Some (k + 1 + 4)" "iget ?LL (heap_top h) = Some (?LL ! nat (heap_top h))"
      using xn w(2) k k30 t(2,3) LL(2) by (auto simp: iget_def int32_def k_def)
    have m: "modify LL (int x) (\<lambda>e. e\<lparr>lkey := k + 1\<rparr>) = Some ?LL" by (rule modify_int) (use xn LL(2) in simp)
    have m1: "modify (Header h) k (unblock (int x) ?p ?q) = Some ((Header h)[nat k := unblock (int x) ?p ?q (Header h ! nat k)])"
      by (rule modify_ok[OF k(1,2)])
    have m2: "modify ((Header h)[nat k := unblock (int x) ?p ?q (Header h ! nat k)]) (k + 1) (enblock (int x)) = Some ?H"
      using k by (subst modify_ok) (auto simp: nth_update)
    show ?thesis unfolding IncrementKey_def g(1) Option.bind.simps Let_def e g(2,3) hf LL(1) m m1 m2 g(5,4) t(1) ..
  qed
  have hkey: "hkey ?h y = ?key y" if "y < n" for y using LL(4)[OF that] by (simp add: hkey_def)
  have "heap_ok n ?xs ?h"
  proof -
    have f: "updates ?h = updates h" "LinkedList ?h = ?LL" "Header ?h = ?H'" "heap_top ?h = first_or (-1) ?xs" by simp_all
    show ?thesis
    proof (rule heap_okI[where key = ?key], unfold f)
      show "y \<in> set ?xs \<Longrightarrow> 0 \<le> ?key y \<and> ?key y + 1 < int (length ?H')" for y by (rule hd(3))
      show "y < n \<Longrightarrow> hkey ?h y = ?key y" for y by (rule hkey)
      show "length (updates h) = n" "length ?LL = n" using w(1) LL(2) by simp_all
      show "dll ?LL (-1) ?xs (-1)" by (fact LL(3))
      show "distinct ?xs" by (fact r(2))
      show "descending ?key ?xs" by (fact r(3))
      show "heads_ok ?key ?xs ?H'" by (fact hd(1))
      show "4 \<le> length ?H'" by (fact hd(2))
    qed (rule refl)
  qed
  then show ?thesis using run r(1) hkey by (intro exI[of _ ?h] exI[of _ ?xs]) (auto simp: k_def)
qed


section \<open>Paying the decreases\<close>

lemma half_bounds:
  assumes "u < 0" "0 \<le> k + u"
  shows "0 \<le> k + u - half u" "k + u - half u < k" "u < half u" "half u \<le> 0" "half u = - (- u div 2)"
  using assms by (auto simp: half_def)

lemma descending_drop:
  assumes "descending key xs" "\<And>y. y \<in> set xs \<Longrightarrow> key y \<le> k" "y \<in> set (dropWhile (\<lambda>y. key y = k) xs)"
  shows "key y < k"
  using assms
proof (induction xs)
  case (Cons x xs)
  show ?case
  proof (cases "key x = k")
    case False
    then have "key x < k" "key y \<le> key x" using Cons.prems by fastforce+
    then show ?thesis by simp
  qed (use Cons in simp)
qed simp

lemma descending_takeWhile:
  assumes "descending key xs" "y \<in> set (dropWhile (\<lambda>y. k \<le> key y) xs)"
  shows "key y < k"
  using assms by (induction xs) (auto split: if_splits)

lemma last_block_ok:
  assumes "descending key (A @ B)" "\<And>a b. a \<in> set A \<Longrightarrow> b \<in> set B \<Longrightarrow> key b < key a" "dll LL (-1) (A @ B) (-1)"
    "heads_ok key (A @ B) H" "\<And>y. y \<in> set (A @ B) \<Longrightarrow> 0 \<le> key y \<and> key y < int (length H) \<and> lkey (LL ! y) = key y"
  shows "last_block H LL nk p (first_or (-1) B) =
    Some (if takeWhile (\<lambda>y. nk \<le> key y) B = [] then p else key (last (takeWhile (\<lambda>y. nk \<le> key y) B)))"
  using assms
proof (induction "length B" arbitrary: A B p rule: less_induct)
  case less
  show ?case
  proof (cases B)
    case Nil
    then show ?thesis by (subst last_block.simps) simp
  next
    case (Cons b B')
    let ?C = "takeWhile (\<lambda>y. key y = key b) B" and ?D = "dropWhile (\<lambda>y. key y = key b) B"
    have n: "b < length LL" using dll_in[OF less.prems(3)] Cons by auto
    have kb: "lkey (LL ! b) = key b" "0 \<le> key b" "key b < int (length H)" using less.prems(5)[of b] Cons by auto
    show ?thesis
    proof (cases "nk \<le> key b")
      case False
      then show ?thesis using Cons n kb by (subst last_block.simps) simp
    next
      case True
      have dB: "descending key B" "\<And>y. y \<in> set B \<Longrightarrow> key y \<le> key b" using less.prems(1) Cons by auto
      have D: "key y < key b" if "y \<in> set ?D" for y by (rule descending_drop[OF dB that])
      have C: "key y = key b" if "y \<in> set ?C" for y using that by (auto dest: set_takeWhileD)
      have Cne: "?C \<noteq> []" by (simp add: Cons)
      have AB: "A @ B = (A @ ?C) @ ?D" by simp
      have "block key A (key b) = []" using less.prems(2) Cons by (intro block_empty) fastforce
      moreover have "block key ?D (key b) = []" using D by (intro block_empty) force
      moreover have "block key ?C (key b) = ?C" using C by (rule block_all)
      ultimately have bl: "block key (A @ B) (key b) = ?C" unfolding AB by (simp del: takeWhile_dropWhile_id)
      have hs: "iget H (key b) = Some (head_of ?C)" using heads_okD[OF less.prems(4) kb(2,3)] kb(2,3) bl by (simp add: iget_def)
      have l: "last ?C < length LL" using dll_in[OF less.prems(3)] last_in_set[OF Cne] set_takeWhileD by fastforce
      have "dll LL (-1) ((A @ butlast ?C) @ last ?C # ?D) (-1)"
        using less.prems(3) Cne by (metis AB append.assoc append_Cons append_Nil append_butlast_last_id)
      then have nx: "lnext (LL ! last ?C) = first_or (-1) ?D" by (simp del: append_assoc)
      have step: "last_block H LL nk p (first_or (-1) B) = last_block H LL nk (key b) (first_or (-1) ?D)"
        using True Cons n kb hs l nx Cne by (subst last_block.simps) (simp add: head_of_def last_or_def Let_def del: takeWhile.simps dropWhile.simps)
      have "length ?D < length B" using Cons by (simp add: le_imp_less_Suc length_dropWhile_le)
      then have "last_block H LL nk (key b) (first_or (-1) ?D) =
        Some (if takeWhile (\<lambda>y. nk \<le> key y) ?D = [] then key b else key (last (takeWhile (\<lambda>y. nk \<le> key y) ?D)))"
      proof (rule less.hyps[of ?D "A @ ?C"])
        show "key d < key a" if "a \<in> set (A @ ?C)" "d \<in> set ?D" for a d
        proof (cases "a \<in> set A")
          case True
          moreover have "d \<in> set B" using that(2) by (rule set_dropWhileD)
          ultimately show ?thesis by (rule less.prems(2))
        next
          case False
          then have "a \<in> set ?C" using that(1) unfolding set_append by blast
          then have "key a = key b" by (rule C)
          then show ?thesis using D[OF that(2)] by simp
        qed
      qed (unfold AB[symmetric], (fact less.prems)+)
      moreover have "takeWhile (\<lambda>y. nk \<le> key y) B = ?C @ takeWhile (\<lambda>y. nk \<le> key y) ?D"
      proof -
        have "nk \<le> key y" if "y \<in> set ?C" for y using C[OF that] True by simp
        then have "takeWhile (\<lambda>y. nk \<le> key y) (?C @ ?D) = ?C @ takeWhile (\<lambda>y. nk \<le> key y) ?D"
          by (rule takeWhile_append2)
        then show ?thesis by simp
      qed
      ultimately show ?thesis using step Cne C[OF last_in_set[OF Cne]] by auto
    qed
  qed
qed


text \<open>The top goes behind the vertices whose keys are at least the new one; here is how it finds the last of them.\<close>

lemma top_block:
  assumes d: "descending key xs" "xs = x # R"
  shows "block key xs (key x) = takeWhile (\<lambda>y. key y = key x) xs"
proof -
  let ?C = "takeWhile (\<lambda>y. key y = key x) xs" and ?B = "dropWhile (\<lambda>y. key y = key x) xs"
  have lek: "key y \<le> key x" if "y \<in> set xs" for y using d that by auto
  have "block key ?B (key x) = []"
    by (rule block_empty) (use descending_drop[OF d(1) lek] in force)
  moreover have "block key ?C (key x) = ?C"
    by (rule block_all) (auto dest: set_takeWhileD)
  ultimately have "block key (?C @ ?B) (key x) = ?C" unfolding block_simps(3) by simp
  then show ?thesis by simp
qed

lemma find_block:
  assumes ok: "heap_ok n xs h" "xs = x # R" and nk: "nk < hkey h x" and P: "P = takeWhile (\<lambda>y. nk \<le> hkey h y) R" "P \<noteq> []"
  shows "\<exists>b s. iget (Header h) (hkey h x) = Some b \<and> iget (LinkedList h) (hsecond b) = Some s \<and>
    last_block (Header h) (LinkedList h) nk (hkey h x) (lnext s) = Some (hkey h (last P))"
proof -
  note w = heap_okD[OF ok(1)]
  let ?k = "hkey h x" and ?H = "Header h" and ?LL = "LinkedList h"
  let ?C = "takeWhile (\<lambda>y. hkey h y = ?k) xs" and ?B = "dropWhile (\<lambda>y. hkey h y = ?k) xs"
  have lek: "hkey h y \<le> ?k" if "y \<in> set xs" for y using w(6) that ok(2) by auto
  have k: "0 \<le> ?k" "?k < int (length ?H)" using w(9,10)[of x] by (auto simp: ok(2))
  have C: "hkey h y = ?k \<and> y \<in> set xs" if "y \<in> set ?C" for y using set_takeWhileD[OF that] by blast
  have Cne: "?C \<noteq> []" by (simp add: ok(2))
  have lC: "hkey h (last ?C) = ?k" "last ?C < n" using C[OF last_in_set[OF Cne]] w(11) by auto
  have Hk: "?H ! nat ?k = head_of ?C" using heads_okD[OF w(7) k] top_block[OF w(6) ok(2)] by simp
  have "dll ?LL (-1) ((butlast ?C) @ last ?C # ?B) (-1)"
    using w(4) Cne by (metis append.assoc append_Cons append_Nil append_butlast_last_id takeWhile_dropWhile_id)
  then have nC: "lnext (?LL ! last ?C) = first_or (-1) ?B" by simp
  have keys: "0 \<le> hkey h y \<and> hkey h y < int (length ?H) \<and> lkey (?LL ! y) = hkey h y" if "y \<in> set xs" for y
    using w(9,10)[OF that] by (simp add: hkey_def)
  have CB: "hkey h b < hkey h a" if "a \<in> set ?C" "b \<in> set ?B" for a b
    using descending_drop[OF w(6) lek that(2)] C[OF that(1)] by (simp only:)
  have eq: "?C @ ?B = xs" by simp
  have lb: "last_block ?H ?LL nk ?k (first_or (-1) ?B) =
    Some (if takeWhile (\<lambda>y. nk \<le> hkey h y) ?B = [] then ?k else hkey h (last (takeWhile (\<lambda>y. nk \<le> hkey h y) ?B)))"
    by (rule last_block_ok[where A = ?C], unfold eq) (fact w(6) CB w(4) w(7) keys)+
  have "takeWhile (\<lambda>y. nk \<le> hkey h y) (?C @ ?B) = ?C @ takeWhile (\<lambda>y. nk \<le> hkey h y) ?B"
    by (rule takeWhile_append2) (drule C, use nk in linarith)
  then have xP: "x # P = ?C @ takeWhile (\<lambda>y. nk \<le> hkey h y) ?B" using nk by (simp add: P ok(2))
  have "last P = last (?C @ takeWhile (\<lambda>y. nk \<le> hkey h y) ?B)" unfolding xP[symmetric] using P(2) by simp
  then have "last_block ?H ?LL nk ?k (first_or (-1) ?B) = Some (hkey h (last P))"
    unfolding lb using Cne lC(1) by (auto simp only: last_append split: if_splits)
  moreover have "hsecond (head_of ?C) = int (last ?C)" using Cne by (simp add: head_of_def last_or_def)
  ultimately show ?thesis
    using k Hk lC(2) w(2) nC by (intro exI[of _ "head_of ?C"] exI[of _ "?LL ! last ?C"]) (simp add: iget_def)
qed

lemma second_of_last:
  assumes ok: "heap_ok n (x # P @ D) h" and P: "P \<noteq> []" "hkey h (last P) \<le> hkey h x" and D: "\<And>y. y \<in> set D \<Longrightarrow> hkey h y < hkey h (last P)"
  shows "\<exists>b. iget (Header h) (hkey h (last P)) = Some b \<and> hsecond b = int (last P)"
proof -
  note w = heap_okD[OF ok]
  let ?k = "hkey h (last P)"
  have k: "0 \<le> ?k" "?k < int (length (Header h))" using w(9,10)[of "last P"] P(1) by auto
  have "block (hkey h) D ?k = []" using D by (intro block_empty) force
  moreover have "block (hkey h) P ?k = block (hkey h) (butlast P) ?k @ [last P]"
    using P(1) by (metis append_butlast_last_id block_simps)
  ultimately have "last_or (-1) (block (hkey h) (x # P @ D) ?k) = int (last P)" by simp
  then show ?thesis using heads_okD[OF w(7) k] k by (simp add: iget_def head_of_def)
qed

text \<open>The links of the moved top.\<close>

lemma move_links:
  assumes d: "dll LL (-1) (x # P @ D) (-1)" "distinct (x # P @ D)" and P: "P \<noteq> []"
  shows "\<exists>LL1 LL2 LL3 LL4. modify LL (int (hd P)) (\<lambda>e. e\<lparr>lprev := -1\<rparr>) = Some LL1 \<and>
    iget LL1 (int (last P)) = Some (LL1 ! last P) \<and> lnext (LL1 ! last P) = first_or (-1) D \<and>
    modify LL1 (int x) (\<lambda>e. e\<lparr>lprev := int (last P), lnext := first_or (-1) D\<rparr>) = Some LL2 \<and>
    modify LL2 (int (last P)) (\<lambda>e. e\<lparr>lnext := int x\<rparr>) = Some LL3 \<and>
    (if first_or (-1) D \<ge> 0 then modify LL3 (first_or (-1) D) (\<lambda>e. e\<lparr>lprev := int x\<rparr>) else Some LL3) = Some LL4 \<and>
    length LL4 = length LL \<and> dll LL4 (-1) (P @ x # D) (-1) \<and> (\<forall>y<length LL. lkey (LL4 ! y) = lkey (LL ! y))"
proof -
  obtain p P' where p: "P = p # P'" using P by (cases P) auto
  let ?l = "last P" and ?f = "first_or (-1) D"
  let ?LL1 = "set_prev (int p) (-1) LL"
  let ?LL2 = "?LL1[x := (?LL1 ! x)\<lparr>lprev := int ?l, lnext := ?f\<rparr>]"
  let ?LL3 = "set_next (int ?l) (int x) ?LL2"
  let ?LL4 = "set_prev ?f (int x) ?LL3"
  have "set (x # P @ D) \<subseteq> {..<length LL}" by (rule dll_in[OF d(1)])
  then have n: "x < length LL" "p < length LL" "?l < length LL" "?f < int (length LL)"
    using last_in_set[OF P] ends_in[of D "length LL"] by (auto simp: p)
  have "dll LL (int x) (P @ D) (-1)" using d(1) by simp
  then have "dll (set_prev (first_or (-1) (P @ D)) (-1) LL) (-1) (P @ D) (-1)" by (rule dll_set_prev) (use d(2) in simp)
  then have d1: "dll ?LL1 (-1) (P @ D) (-1)" by (simp add: p)
  then have "dll ?LL1 (-1) (butlast P @ ?l # D) (-1)" using P by (metis append.assoc append_Cons append_Nil append_butlast_last_id)
  then have tn: "lnext (?LL1 ! ?l) = ?f" by simp
  have d2: "dll ?LL2 (-1) (P @ D) (-1)" using d(2) by (subst dll_out) (use d1 in auto)
  have lo: "last_or (-1) P = int ?l" using P by (simp add: last_or_def)
  have "dll (set_next (last_or (-1) P) (int x) (set_prev ?f (int x) ?LL2)) (-1) (P @ x # D) (-1)"
  proof (rule link[OF d2])
    show "distinct (P @ x # D)" using d(2) by auto
    show "lprev (?LL2 ! x) = last_or (-1) P" unfolding lo using n(1) by simp
  qed (use n(1) in simp_all)
  then have "dll ?LL4 (-1) (P @ x # D) (-1)" unfolding lo set_next_prev .
  moreover have "modify LL (int p) (\<lambda>e. e\<lparr>lprev := -1\<rparr>) = Some ?LL1" by (rule modify_links(4)) (use n in simp_all)
  moreover have "modify ?LL2 (int ?l) (\<lambda>e. e\<lparr>lnext := int x\<rparr>) = Some ?LL3" by (rule modify_links(3)) (use n in simp_all)
  moreover have "(if ?f \<ge> 0 then modify ?LL3 ?f (\<lambda>e. e\<lparr>lprev := int x\<rparr>) else Some ?LL3) = Some ?LL4"
    by (rule modify_links(2)) (use n in simp)
  moreover have "modify ?LL1 (int x) (\<lambda>e. e\<lparr>lprev := int ?l, lnext := ?f\<rparr>) = Some ?LL2"
    by (rule modify_int) (use n in simp)
  moreover have "\<forall>y<length LL. lkey (?LL4 ! y) = lkey (LL ! y)" by (simp add: nth_update)
  moreover have "hd P = p" "iget ?LL1 (int ?l) = Some (?LL1 ! ?l)" "length ?LL4 = length LL" using n(3) by (simp_all add: p)
  ultimately show ?thesis using tn by metis
qed

text \<open>Its header entries.\<close>

lemma move_heads:
  assumes ok: "heap_ok n (x # P @ D) h" and P: "P \<noteq> []" and nk: "0 \<le> nk" "nk < hkey h x"
    and D: "\<And>y. y \<in> set D \<Longrightarrow> hkey h y < nk"
  shows "\<exists>H1 H2. modify (Header h) (hkey h x) (\<lambda>b. if hfirst b = hsecond b then no_head else b\<lparr>hfirst := int (hd P)\<rparr>) = Some H1 \<and>
    modify H1 nk (enblock (int x)) = Some H2 \<and> length H2 = length (Header h) \<and> heads_ok ((hkey h)(x := nk)) (P @ x # D) H2"
proof -
  note w = heap_okD[OF ok]
  let ?k = "hkey h x" and ?H = "Header h" and ?key = "(hkey h)(x := nk)"
  have k: "0 \<le> ?k" "?k < int (length ?H)" using w(9,10)[of x] by auto
  obtain p P' where p: "P = p # P'" using P by (cases P) auto
  define C where "C = takeWhile (\<lambda>y. hkey h y = ?k) (P @ D)"
  have bl: "block (hkey h) (x # P @ D) ?k = [] @ x # C" using top_block[OF w(6) refl] by (simp add: C_def)
  have Hk: "?H ! nat ?k = head_of ([] @ x # C)" using heads_okD[OF w(7) k] bl by simp
  have x: "x \<notin> set P" "x \<notin> set D" "x \<notin> set C" using w(3) by (auto simp: C_def dest: set_takeWhileD)
  have f: "C \<noteq> [] \<Longrightarrow> int p = first_or (-1) C" by (auto simp: C_def p split: if_splits)
  let ?u = "unblock (int x) (-1) (int p)"
  have "distinct C" using w(3) unfolding C_def by simp
  then have "?u (head_of ([] @ x # C)) = head_of ([] @ C)" using f x by (intro unblock_ok) auto
  then have ub: "?u (?H ! nat ?k) = head_of ([] @ C)" unfolding Hk .
  let ?H1 = "?H[nat ?k := ?u (?H ! nat ?k)]" and ?H2 = "?H[nat ?k := ?u (?H ! nat ?k), nat nk := enblock (int x) (?H ! nat nk)]"
  have nb: "block ?key ys j = block (hkey h) ys j" if "x \<notin> set ys" for ys j
    using that by (intro block_cong) auto
  have Dn: "block (hkey h) D nk = []" using D by (intro block_empty) force
  have "heads_ok ?key (P @ x # D) ?H2"
  proof (rule heads_move[OF w(7,3) bl k _ _ _ refl])
    show "block ?key (P @ x # D) ?k = [] @ C" using bl nk by (simp add: nb x)
    show "block ?key (P @ x # D) nk = block (hkey h) (x # P @ D) nk @ [x]" using Dn nk by (simp add: nb x)
    show "block ?key (P @ x # D) j = block (hkey h) (x # P @ D) j" if "j \<noteq> ?k" "j \<noteq> nk" for j using that by (simp add: nb x)
  qed (use nk k ub in auto)
  moreover have "modify ?H ?k (\<lambda>b. if hfirst b = hsecond b then no_head else b\<lparr>hfirst := int (hd P)\<rparr>) = Some ?H1"
    using modify_ok[OF k] Hk by (simp add: unblock_def head_of_def p)
  moreover have "modify ?H1 nk (enblock (int x)) = Some ?H2"
    using modify_ok[of nk ?H1] nk k by (simp add: nth_update)
  moreover have "length ?H2 = length ?H" by simp
  ultimately show ?thesis by blast
qed

lemma DecreaseTop_move:
  assumes ok: "heap_ok n (x # R) h" and u: "updates h ! x < 0" "0 \<le> hkey h x + updates h ! x" and k30: "hkey h x < 2 ^ 30"
    and nk: "nk = hkey h x + updates h ! x - half (updates h ! x)" and r: "R \<noteq> []" "nk < hkey h (hd R)"
  shows "\<exists>h' xs'. DecreaseTop h = Some h' \<and> heap_ok n xs' h' \<and> set xs' = set (x # R) \<and> heap_top h' \<noteq> int x \<and>
    updates h' = (updates h)[x := half (updates h ! x)] \<and> (\<forall>y<n. hkey h' y = (if y = x then nk else hkey h y))"
proof -
  note w = heap_okD[OF ok]
  define us where "us = updates h ! x"
  define P where "P = takeWhile (\<lambda>y. nk \<le> hkey h y) R"
  define D where "D = dropWhile (\<lambda>y. nk \<le> hkey h y) R"
  let ?k = "hkey h x" and ?LL = "LinkedList h" and ?H = "Header h" and ?xs = "P @ x # D" and ?key = "(hkey h)(x := nk)"
  have nk0: "0 \<le> nk" "nk < ?k" using half_bounds(1,2)[of us ?k] u by (simp_all add: nk us_def)
  have R: "R = P @ D" by (simp add: P_def D_def)
  have ok': "heap_ok n (x # P @ D) h" using ok by (simp add: R)
  have P: "P \<noteq> []" using r by (cases R) (simp_all add: P_def)
  then have hP: "hd P = hd R" by (cases P) (simp_all add: R)
  have PK: "nk \<le> hkey h y" if "y \<in> set P" for y using set_takeWhileD that unfolding P_def by fast
  have DK: "hkey h y < nk" if "y \<in> set D" for y using descending_takeWhile[of "hkey h" R] w(6) that by (simp add: D_def)
  have lek: "hkey h y \<le> ?k" if "y \<in> set R" for y using w(6) that by simp
  have xn: "x < n" "hd R < n" using w(11) r(1) by auto
  have dis: "distinct ?xs" "x \<notin> set P" "x \<notin> set D" using w(3) by (auto simp: R)
  obtain b s where f: "iget ?H ?k = Some b" "iget ?LL (hsecond b) = Some s" "last_block ?H ?LL nk ?k (lnext s) = Some (hkey h (last P))"
    using find_block[OF ok refl nk0(2) P_def P] by blast
  have lP: "hkey h (last P) \<le> ?k" "\<And>y. y \<in> set D \<Longrightarrow> hkey h y < hkey h (last P)"
    using lek[of "last P"] PK[of "last P"] DK P by (auto simp: R) force
  obtain b' where b': "iget ?H (hkey h (last P)) = Some b'" "hsecond b' = int (last P)"
    using second_of_last[OF ok' P lP] by blast
  have "dll ?LL (-1) (x # P @ D) (-1)" "distinct (x # P @ D)" using w(3,4) by (simp_all add: R)
  from move_links[OF this P] obtain LL1 LL2 LL3 LL4 where m: "modify ?LL (int (hd R)) (\<lambda>e. e\<lparr>lprev := -1\<rparr>) = Some LL1"
    "iget LL1 (int (last P)) = Some (LL1 ! last P)" "lnext (LL1 ! last P) = first_or (-1) D"
    "modify LL1 (int x) (\<lambda>e. e\<lparr>lprev := int (last P), lnext := first_or (-1) D\<rparr>) = Some LL2"
    "modify LL2 (int (last P)) (\<lambda>e. e\<lparr>lnext := int x\<rparr>) = Some LL3"
    "(if first_or (-1) D \<ge> 0 then modify LL3 (first_or (-1) D) (\<lambda>e. e\<lparr>lprev := int x\<rparr>) else Some LL3) = Some LL4"
    and LL4: "length LL4 = n" "dll LL4 (-1) ?xs (-1)" "\<And>y. y < n \<Longrightarrow> lkey (LL4 ! y) = hkey h y"
    unfolding hP w(2) by (auto simp: hkey_def)
  obtain H1 H2 where H: "modify ?H ?k (\<lambda>b. if hfirst b = hsecond b then no_head else b\<lparr>hfirst := int (hd R)\<rparr>) = Some H1"
    "modify H1 nk (enblock (int x)) = Some H2" "length H2 = length ?H" "heads_ok ?key ?xs H2"
    using move_heads[OF ok' P nk0 DK] unfolding hP by blast
  let ?LL5 = "LL4[x := (LL4 ! x)\<lparr>lkey := nk\<rparr>]"
  have m5: "modify LL4 (int x) (\<lambda>e. e\<lparr>lkey := nk\<rparr>) = Some ?LL5" by (rule modify_int) (use xn LL4(1) in simp)
  let ?h = "h\<lparr>updates := (updates h)[x := half us], LinkedList := ?LL5, Header := H2, heap_top := int (hd R)\<rparr>"
  have hkey: "hkey ?h y = ?key y" if "y < n" for y using that LL4 by (simp add: hkey_def nth_update)
  have dc: "descending ?key ys \<longleftrightarrow> descending (hkey h) ys" if "x \<notin> set ys" for ys
    using that by (intro descending_cong) auto
  have "descending (hkey h) P" "descending (hkey h) D" using w(6) by (simp_all add: R)
  then have dP: "descending ?key P" "descending ?key D" unfolding dc[OF dis(2)] dc[OF dis(3)] .
  have kP: "nk \<le> ?key y" if "y \<in> set P" for y using PK[OF that] by simp
  have kD: "?key y < nk" if "y \<in> set D" for y using DK[OF that] that dis(3) by auto
  have desc: "descending ?key ?xs"
    using dP kP kD by (simp del: fun_upd_apply add: fun_upd_same) (meson less_imp_le order.trans)
  have "heap_ok n ?xs ?h"
  proof (rule heap_okI[where key = ?key])
    show "heap_top ?h = first_or (-1) ?xs" using P hP by (cases P) simp_all
    show "y \<in> set ?xs \<Longrightarrow> 0 \<le> ?key y \<and> ?key y + 1 < int (length (Header ?h))" for y
      using w(9,10)[of y] w(10)[of x] nk0 H(3) by (auto simp: R)
  qed (use w(1,2,8) LL4 dis(1) desc H(3,4) hkey in simp_all)
  moreover have "DecreaseTop h = Some ?h"
  proof -
    have top: "heap_top h = int x" using w(5) by simp
    have e: "lnext (?LL ! x) = int (hd R)" "lkey (?LL ! x) = ?k" "lkey (?LL ! hd R) = hkey h (hd R)"
      using w(4) r(1) by (cases R; simp add: hkey_def)+
    have g: "iget ?LL (int x) = Some (?LL ! x)" "iget (updates h) (int x) = Some us" "iget ?LL (int (hd R)) = Some (?LL ! hd R)"
      "iput (updates h) (int x) (half us) = Some ((updates h)[x := half us])"
      using xn w(1,2) by (simp_all add: us_def)
    have i: "int32 (?k + us) = Some (?k + us)" "int32 (?k + us - half us) = Some nk"
      using u k30 nk0 nk by (simp_all add: int32_def us_def)
    have c: "nk < hkey h (hd R)" by (rule r(2))
    show ?thesis
      unfolding DecreaseTop_def top g(1,2) Option.bind.simps Let_def e(1,2) i g(3) e(3) if_P[OF c] f
        m(1) b' m(2-6) H(1) m5 g(4) H(2) ..
  qed
  moreover have "int (hd R) \<noteq> int x" using w(3) r(1) by (cases R) auto
  ultimately show ?thesis
    using hkey by (intro exI[of _ ?h] exI[of _ ?xs]) (auto simp: us_def R)
qed

lemma DecreaseTop_stay:
  assumes ok: "heap_ok n (x # R) h" and u: "updates h ! x < 0" "0 \<le> hkey h x + updates h ! x" and k30: "hkey h x < 2 ^ 30"
    and nk: "nk = hkey h x + updates h ! x - half (updates h ! x)"
    and r: "R \<noteq> []" "hkey h (hd R) \<le> nk"
  shows "DecreaseTop h = Some h"
proof -
  note w = heap_okD[OF ok]
  have nk0: "0 \<le> nk" "nk < hkey h x" using half_bounds(1,2)[of "updates h ! x" "hkey h x"] u by (simp_all add: nk)
  have top: "heap_top h = int x" using w(5) by simp
  have xn: "x < n" "R \<noteq> [] \<Longrightarrow> hd R < n" using w(11) by auto
  have e: "lnext (LinkedList h ! x) = first_or (-1) R" "lkey (LinkedList h ! x) = hkey h x"
    using w(4) by (simp_all add: hkey_def)
  have i: "int32 (hkey h x + updates h ! x) = Some (hkey h x + updates h ! x)" "int32 (hkey h x + updates h ! x - half (updates h ! x)) = Some nk"
    using u k30 nk0 nk by (simp_all add: int32_def)
  have g: "iget (LinkedList h) (int x) = Some (LinkedList h ! x)" "iget (updates h) (int x) = Some (updates h ! x)"
    using xn w(1,2) by simp_all
  have m: "iget (LinkedList h) (first_or (-1) R) = Some (LinkedList h ! hd R)" "\<not> nk < lkey (LinkedList h ! hd R)"
    using r xn(2) w(2) by (cases R; simp add: hkey_def)+
  show ?thesis
    unfolding DecreaseTop_def top g Option.bind.simps Let_def e i m(1) if_not_P[OF m(2)] ..
qed


section \<open>Extracting a vertex\<close>

text \<open>The steps of \<open>ExtractMax\<close> keep the sum of key and update of every vertex: its score.\<close>

definition pays :: "nat \<Rightarrow> nat set \<Rightarrow> unit_heap \<Rightarrow> unit_heap \<Rightarrow> bool" where
  "pays n S h h' \<longleftrightarrow> (\<forall>y<n. hkey h' y + updates h' ! y = hkey h y + updates h ! y \<and> hkey h' y \<le> hkey h y \<and>
     (updates h ! y \<le> 0 \<longrightarrow> updates h' ! y \<le> 0) \<and> (y \<notin> S \<longrightarrow> updates h' ! y = updates h ! y))"

lemma pays_refl: "pays n S h h"
  by (simp add: pays_def)

lemma pays_trans: "pays n S h h1 \<Longrightarrow> pays n S h1 h2 \<Longrightarrow> pays n S h h2"
  by (fastforce simp: pays_def)

definition owed :: "unit_heap \<Rightarrow> nat list \<Rightarrow> nat" where
  "owed h xs = (\<Sum>x \<in> set xs. nat (- updates h ! x))"

definition payable :: "unit_heap \<Rightarrow> nat list \<Rightarrow> bool" where
  "payable h xs \<longleftrightarrow> (\<forall>x \<in> set xs. updates h ! x \<le> 0 \<and> 0 \<le> hkey h x + updates h ! x \<and> hkey h x < 2 ^ 30)"

lemma payable_pays:
  assumes "payable h xs" "pays n S h h'" "set xs' = set xs" "set xs \<subseteq> {..<n}"
  shows "payable h' xs'"
proof -
  have "updates h' ! x \<le> 0 \<and> 0 \<le> hkey h' x + updates h' ! x \<and> hkey h' x < 2 ^ 30" if "x \<in> set xs" for x
  proof -
    have "x < n" using that assms(4) by auto
    then have "hkey h' x + updates h' ! x = hkey h x + updates h ! x" "hkey h' x \<le> hkey h x" "updates h ! x \<le> 0 \<longrightarrow> updates h' ! x \<le> 0"
      using assms(2) by (auto simp: pays_def)
    then show ?thesis using assms(1) that unfolding payable_def by fastforce
  qed
  then show ?thesis by (simp add: payable_def assms(3))
qed

text \<open>The last vertex of the queue, if it owes a decrease: \<open>DecreaseTop\<close> reads the key of its successor, which is
  \<open>LinkedList[-1]\<close>.\<close>

definition lone_debt :: "nat set \<Rightarrow> unit_heap \<Rightarrow> bool" where
  "lone_debt S h \<longleftrightarrow> (\<exists>v. S = {v} \<and> updates h ! v < 0)"

lemma DecreaseTop_last:
  assumes h: "heap_ok n [v] h"
  shows "DecreaseTop h = None"
proof -
  note w = heap_okD[OF h]
  have "v < n" by (rule w(11)) simp
  moreover have "lnext (LinkedList h ! v) = -1" using w(4) by simp
  ultimately show ?thesis
    using w(1,2,5) by (simp add: DecreaseTop_def Let_def iget_def split: Option.bind_split)
qed

theorem ExtractMax_last:
  assumes "heap_ok n [v] h" "updates h ! v < 0"
  shows "ExtractMax h = None"
proof -
  note w = heap_okD[OF assms(1)]
  have "v < n" by (rule w(11)) simp
  then have "extract_loop h = None"
    using w(1,5) assms(2) DecreaseTop_last[OF assms(1)] by (subst extract_loop.simps) simp
  then show ?thesis by (simp add: ExtractMax_def)
qed

lemma extract_loop_ok:
  assumes "heap_ok n xs h" "xs \<noteq> []" "payable h xs" "\<not> lone_debt (set xs) h"
  shows "\<exists>h' v R. extract_loop h = Some h' \<and> heap_ok n (v # R) h' \<and> set (v # R) = set xs \<and> pays n (set xs) h h' \<and>
    (\<forall>y \<in> set R. hkey h' y \<le> hkey h' v + updates h' ! v - half (updates h' ! v))"
  using assms
proof (induction "owed h xs" arbitrary: h xs rule: less_induct)
  case less
  obtain x R where xs: "xs = x # R" using less.prems(2) by (cases xs) auto
  note w = heap_okD[OF less.prems(1)]
  have top: "heap_top h = int x" using w(5) by (simp add: xs)
  have xn: "x < n" using w(11) by (simp add: xs)
  have Rmax: "hkey h y \<le> hkey h (hd R)" if "y \<in> set R" for y using w(6) that by (cases R) (auto simp: xs)
  have p: "updates h ! x \<le> 0" "0 \<le> hkey h x + updates h ! x" "hkey h x < 2 ^ 30" using less.prems(3) by (auto simp: payable_def xs)
  define nk where "nk = hkey h x + updates h ! x - half (updates h ! x)"
  have stay: ?case if "(if updates h ! x < 0 then DecreaseTop h else Some h) = Some h" "\<And>y. y \<in> set R \<Longrightarrow> hkey h y \<le> nk"
  proof -
    have "extract_loop h = Some h"
      using that(1) xn w(1) by (subst extract_loop.simps) (simp add: top Let_def)
    then show ?thesis using less.prems(1) that(2) pays_refl unfolding xs nk_def by blast
  qed
  show ?case
  proof (cases "updates h ! x < 0")
    case False
    then have "nk = hkey h x" using p(1) by (simp add: nk_def half_def)
    then show ?thesis using False stay w(6) by (simp add: xs)
  next
    case u: True
    have R: "R \<noteq> []" using less.prems(4) u by (auto simp: lone_debt_def xs)
    show ?thesis
    proof (cases "hkey h (hd R) \<le> nk")
      case True
      have "DecreaseTop h = Some h"
        by (rule DecreaseTop_stay[OF less.prems(1)[unfolded xs] u p(2,3) nk_def]) (fact R, fact True)
      moreover have "hkey h y \<le> nk" if "y \<in> set R" for y using Rmax[OF that] True by simp
      ultimately show ?thesis using stay by simp
    next
      case False
      then have r: "R \<noteq> []" "nk < hkey h (hd R)" using R by auto
      obtain h1 xs1 where h1: "DecreaseTop h = Some h1" "heap_ok n xs1 h1" "set xs1 = set (x # R)" "heap_top h1 \<noteq> int x"
        "updates h1 = (updates h)[x := half (updates h ! x)]" "\<And>y. y < n \<Longrightarrow> hkey h1 y = (if y = x then nk else hkey h y)"
        using DecreaseTop_move[OF less.prems(1)[unfolded xs] u p(2,3) nk_def r] by blast
      note hb = half_bounds[OF u p(2)]
      have pay: "pays n (set xs) h h1" using h1(5,6) hb xn w(1) by (auto simp: pays_def nk_def xs nth_list_update)
      have sub: "set xs \<subseteq> {..<n}" using w(11) by auto
      have "payable h1 xs1" by (rule payable_pays[OF less.prems(3) pay _ sub]) (simp add: h1(3) xs)
      moreover have "owed h1 xs1 < owed h xs"
      proof -
        have "owed h1 xs1 = (\<Sum>y \<in> set xs. nat (- updates h1 ! y))" unfolding owed_def h1(3) xs ..
        also have "\<dots> < owed h xs" unfolding owed_def
        proof (rule sum_strict_mono_ex1)
          show "\<forall>y \<in> set xs. nat (- updates h1 ! y) \<le> nat (- updates h ! y)"
          proof
            fix y assume "y \<in> set xs"
            then have "y < n" using sub by auto
            then show "nat (- updates h1 ! y) \<le> nat (- updates h ! y)" using h1(5) hb(3) w(1) by (auto simp: nth_update)
          qed
          show "\<exists>y \<in> set xs. nat (- updates h1 ! y) < nat (- updates h ! y)"
            using h1(5) hb(3) xn w(1) u by (intro bexI[of _ x]) (auto simp: xs)
        qed simp
        finally show ?thesis .
      qed
      moreover have "xs1 \<noteq> []" using h1(3) by auto
      moreover have "\<not> lone_debt (set xs1) h1"
      proof -
        have "hd R \<in> set R" "x \<notin> set R" using R w(3) by (simp_all add: xs)
        then have "hd R \<in> set xs1" "x \<in> set xs1" "hd R \<noteq> x" using h1(3) by auto
        then show ?thesis by (auto simp: lone_debt_def)
      qed
      ultimately obtain h' v R' where h': "extract_loop h1 = Some h'" "heap_ok n (v # R') h'" "set (v # R') = set xs1" "pays n (set xs1) h1 h'"
        "\<forall>y \<in> set R'. hkey h' y \<le> hkey h' v + updates h' ! v - half (updates h' ! v)"
        using less.hyps[of h1 xs1] h1(2) by blast
      have "extract_loop h = Some h'"
        using u h1(1,4) h'(1) xn w(1) by (subst extract_loop.simps) (simp add: top Let_def)
      moreover have "pays n (set xs) h h'" using pays_trans[OF pay] h'(4) h1(3) by (simp add: xs)
      ultimately show ?thesis using h' h1(3) unfolding xs by blast
    qed
  qed
qed

text \<open>What the queue promises: \<open>S\<close> are the queued vertices, \<open>sc\<close> their scores (and those of the others, for which
  \<open>update\<close> never becomes 0), \<open>M\<close> a bound on the scores.\<close>

definition queue_ok :: "nat \<Rightarrow> int \<Rightarrow> nat set \<Rightarrow> (nat \<Rightarrow> int) \<Rightarrow> unit_heap \<Rightarrow> bool" where
  "queue_ok n M S sc h \<longleftrightarrow> M < DONE \<and> (\<exists>xs. heap_ok n xs h \<and> set xs = S) \<and> (\<forall>x<n. 0 \<le> sc x \<and> sc x \<le> M) \<and>
     (\<forall>x<n. if x \<in> S then updates h ! x \<le> 0 \<and> hkey h x + updates h ! x = sc x \<and> hkey h x \<le> M
        else DONE - M \<le> updates h ! x - sc x \<and> updates h ! x - sc x \<le> DONE)"

lemma queue_okD:
  assumes "queue_ok n M S sc h"
  shows "M < DONE" "x < n \<Longrightarrow> 0 \<le> sc x" "x < n \<Longrightarrow> sc x \<le> M" "x \<in> S \<Longrightarrow> x < n"
    "x \<in> S \<Longrightarrow> updates h ! x \<le> 0" "x \<in> S \<Longrightarrow> hkey h x + updates h ! x = sc x" "x \<in> S \<Longrightarrow> hkey h x \<le> M"
    "x < n \<Longrightarrow> x \<notin> S \<Longrightarrow> DONE - M \<le> updates h ! x - sc x" "x < n \<Longrightarrow> x \<notin> S \<Longrightarrow> updates h ! x - sc x \<le> DONE"
    "length (updates h) = n" "finite S"
proof -
  obtain xs where xs: "heap_ok n xs h" "set xs = S" using assms by (auto simp: queue_ok_def)
  show n: "x \<in> S \<Longrightarrow> x < n" using heap_okD(11)[OF xs(1)] xs(2) by auto
  show "length (updates h) = n" "finite S" using heap_okD(1)[OF xs(1)] xs(2) by auto
  show "M < DONE" "x < n \<Longrightarrow> 0 \<le> sc x" "x < n \<Longrightarrow> sc x \<le> M" "x < n \<Longrightarrow> x \<notin> S \<Longrightarrow> DONE - M \<le> updates h ! x - sc x"
    "x < n \<Longrightarrow> x \<notin> S \<Longrightarrow> updates h ! x - sc x \<le> DONE" using assms by (auto simp: queue_ok_def)
  show "x \<in> S \<Longrightarrow> updates h ! x \<le> 0" "x \<in> S \<Longrightarrow> hkey h x + updates h ! x = sc x" "x \<in> S \<Longrightarrow> hkey h x \<le> M"
    using assms n by (auto simp: queue_ok_def)
qed

lemma set_update_ok: "v < length (updates h) \<Longrightarrow> set_update (int v) u h = Some (h\<lparr>updates := (updates h)[v := u]\<rparr>)"
  by (simp add: set_update_def)

lemma hkey_updates [simp]: "hkey (h\<lparr>updates := us\<rparr>) = hkey h"
  by (simp add: hkey_def fun_eq_iff)

lemma heap_ok_updates: "length us = length (updates h) \<Longrightarrow> heap_ok n xs (h\<lparr>updates := us\<rparr>) = heap_ok n xs h"
  by (simp add: heap_ok_def)

theorem ExtractMax_ok:
  assumes q: "queue_ok n M S sc h" and S: "S \<noteq> {}" and l: "\<not> lone_debt S h"
  shows "\<exists>v h'. ExtractMax h = Some (int v, h') \<and> v \<in> S \<and> (\<forall>y \<in> S. sc y \<le> sc v - half (updates h' ! v)) \<and>
    queue_ok n M (S - {v}) sc (h'\<lparr>updates := (updates h')[v := DONE]\<rparr>) \<and> length (updates h') = n"
proof -
  note d = queue_okD[OF q]
  obtain xs where xs: "heap_ok n xs h" "set xs = S" using q by (auto simp: queue_ok_def)
  have "payable h xs" unfolding payable_def xs(2)
  proof
    fix x assume x: "x \<in> S"
    then show "updates h ! x \<le> 0 \<and> 0 \<le> hkey h x + updates h ! x \<and> hkey h x < 2 ^ 30"
      using d(1) d(2)[OF d(4)[OF x]] d(5-7)[OF x] by simp
  qed
  moreover have "xs \<noteq> []" using S xs(2) by auto
  ultimately obtain h1 v R where h1: "extract_loop h = Some h1" "heap_ok n (v # R) h1" "set (v # R) = S" "pays n S h h1"
    "\<forall>y \<in> set R. hkey h1 y \<le> hkey h1 v + updates h1 ! v - half (updates h1 ! v)"
    using extract_loop_ok[OF xs(1)] l unfolding xs(2) by blast
  note w = heap_okD[OF h1(2)]
  have v: "v \<in> S" "v < n" "heap_top h1 = int v" using h1(3) w(11)[of v] w(5) by auto
  obtain h' where h': "DeleteElement (int v) h1 = Some h'" "heap_ok n R h'" "updates h' = updates h1" "\<forall>y<n. hkey h' y = hkey h1 y"
    using DeleteElement_ok[OF h1(2), of v] by auto
  have pay: "hkey h' y + updates h' ! y = hkey h y + updates h ! y" "hkey h' y \<le> hkey h y"
     "updates h ! y \<le> 0 \<Longrightarrow> updates h' ! y \<le> 0" "y \<notin> S \<Longrightarrow> updates h' ! y = updates h ! y" if "y < n" for y
    using h1(4) h'(3,4) that by (auto simp: pays_def)
  have sc: "hkey h' y + updates h' ! y = sc y" "updates h' ! y \<le> 0" "hkey h' y \<le> M" if "y \<in> S" for y
    using pay[OF d(4)[OF that]] d(5-7)[OF that] by auto
  have R: "set R = S - {v}" using h1(3) w(3) by auto
  have "sc y \<le> sc v - half (updates h' ! v)" if "y \<in> S" for y
  proof (cases "y = v")
    case True
    then show ?thesis using sc(2)[OF v(1)] by (simp add: half_def)
  next
    case False
    then have "y \<in> set R" using that R by simp
    then have "hkey h' y \<le> hkey h' v + updates h' ! v - half (updates h' ! v)" using h1(5) h'(3,4) v(2) d(4)[OF that] by simp
    then show ?thesis using sc[OF that] sc(1)[OF v(1)] by linarith
  qed
  moreover have "queue_ok n M (S - {v}) sc (h'\<lparr>updates := (updates h')[v := DONE]\<rparr>)"
  proof -
    let ?h = "h'\<lparr>updates := (updates h')[v := DONE]\<rparr>"
    have "if x \<in> S - {v} then updates ?h ! x \<le> 0 \<and> hkey ?h x + updates ?h ! x = sc x \<and> hkey ?h x \<le> M
      else DONE - M \<le> updates ?h ! x - sc x \<and> updates ?h ! x - sc x \<le> DONE" if "x < n" for x
    proof (cases "x = v")
      case True
      then show ?thesis using d(2,3)[OF v(2)] v(2) w(1) h'(3) by simp
    next
      case False
      then show ?thesis using sc[of x] d(8,9)[OF that] pay(4)[OF that] by auto
    qed
    moreover have "\<exists>xs. heap_ok n xs ?h \<and> set xs = S - {v}"
      using h'(2) R by (intro exI[of _ R]) (simp add: heap_ok_updates)
    ultimately show ?thesis using d(1-3) unfolding queue_ok_def by blast
  qed
  ultimately show ?thesis
    using h1(1) h'(1,3) v w(1) by (intro exI[of _ v] exI[of _ h']) (simp add: ExtractMax_def)
qed

lemma ExtractMax_debt:
  assumes "queue_ok n M S sc h" "lone_debt S h"
  shows "ExtractMax h = None"
proof -
  obtain v where v: "S = {v}" "updates h ! v < 0" using assms(2) by (auto simp: lone_debt_def)
  obtain xs where xs: "heap_ok n xs h" "set xs = {v}" using assms(1) v(1) by (auto simp: queue_ok_def)
  have "xs = [v]" using heap_okD(3)[OF xs(1)] xs(2) by (cases xs; cases "tl xs") auto
  then show ?thesis using ExtractMax_last[of n v h] xs(1) v by auto
qed


section \<open>Building the list\<close>

text \<open>The header while the block of the current key is still open.\<close>

definition heads_open :: "(nat \<Rightarrow> int) \<Rightarrow> nat list \<Rightarrow> int \<Rightarrow> head_end list \<Rightarrow> bool" where
  "heads_open key xs k H \<longleftrightarrow> (\<forall>j<length H. H ! j =
     (if int j = k then \<lparr>hfirst = first_or (-1) (block key xs k), hsecond = -1\<rparr> else head_of (block key xs (int j))))"

lemma heads_open_start: "0 \<le> key x \<Longrightarrow> key x < int m \<Longrightarrow>
    heads_open key [x] (key x) ((replicate m no_head)[nat (key x) := (replicate m no_head ! nat (key x))\<lparr>hfirst := int x\<rparr>])"
  by (auto simp: heads_open_def nth_update no_head_def)

lemma block_snoc_other: "key x \<noteq> k \<Longrightarrow> block key (ys @ [x]) k = block key ys k"
  by simp

lemma block_last: "ys \<noteq> [] \<Longrightarrow> block key ys (key (last ys)) \<noteq> [] \<and> last_or (-1) (block key ys (key (last ys))) = int (last ys)"
  by (cases ys rule: rev_cases) simp_all

lemma block_below:
  assumes "descending key (ys @ [x])" "ys \<noteq> []" "key x \<noteq> key (last ys)"
  shows "block key ys (key x) = []"
proof (rule block_empty)
  fix y assume "y \<in> set ys"
  moreover have "descending key (butlast ys @ [last ys])" using assms(1,2) by simp
  ultimately have "key (last ys) \<le> key y" using assms(2)
    by (metis append_butlast_last_id descending_simps(3) list.set_intros(1) set_ConsD rotate1.simps(2) set_rotate1 order_refl)
  moreover have "key x < key (last ys)" using assms by (simp add: order.not_eq_order_implies_strict)
  ultimately show "key y \<noteq> key x" by simp
qed

lemma heads_open_same:
  assumes "heads_open key ys k H" "k = key (last ys)" "ys \<noteq> []" "key x = k"
  shows "heads_open key (ys @ [x]) k H"
  using assms block_last[of ys key] by (auto simp: heads_open_def first_or_def split: list.splits)

lemma heads_close:
  assumes "heads_open key ys k H" "k = key (last ys)" "ys \<noteq> []" "0 \<le> k" "k < int (length H)"
  shows "heads_ok key ys (H[nat k := (H ! nat k)\<lparr>hsecond := int (last ys)\<rparr>])"
  using assms block_last[of ys key] by (auto simp: heads_open_def heads_ok_def nth_update head_of_def)

lemma heads_open_next:
  assumes hd: "heads_ok key ys H" and d: "descending key (ys @ [x])" "ys \<noteq> []" "key x \<noteq> key (last ys)" and k: "0 \<le> key x" "key x < int (length H)"
  shows "heads_open key (ys @ [x]) (key x) (H[nat (key x) := (H ! nat (key x))\<lparr>hfirst := int x\<rparr>])"
    "heads_ok key (ys @ [x]) (H[nat (key x) := (H ! nat (key x))\<lparr>hfirst := int x, hsecond := int x\<rparr>])"
proof -
  have b: "block key ys (key x) = []" by (rule block_below[OF d])
  have H: "H ! nat (key x) = no_head" using heads_okD[OF hd k] b by simp
  show "heads_open key (ys @ [x]) (key x) (H[nat (key x) := (H ! nat (key x))\<lparr>hfirst := int x\<rparr>])"
    using hd k b H by (auto simp: heads_open_def heads_ok_def nth_update no_head_def)
  show "heads_ok key (ys @ [x]) (H[nat (key x) := (H ! nat (key x))\<lparr>hfirst := int x, hsecond := int x\<rparr>])"
    using hd k b H by (auto simp: heads_ok_def nth_update head_of_def no_head_def)
qed

text \<open>Links by index.\<close>

definition linked :: "nat list \<Rightarrow> list_element list \<Rightarrow> nat \<Rightarrow> bool" where
  "linked xs LL j \<longleftrightarrow> lprev (LL ! (xs ! j)) = (if j = 0 then -1 else int (xs ! (j - 1))) \<and>
     lnext (LL ! (xs ! j)) = (if Suc j = length xs then -1 else int (xs ! Suc j))"

lemma dll_index:
  assumes "\<forall>j<length xs. lprev (LL ! (xs ! j)) = (if j = 0 then p else int (xs ! (j - 1))) \<and>
     lnext (LL ! (xs ! j)) = (if Suc j = length xs then -1 else int (xs ! Suc j))" "set xs \<subseteq> {..<length LL}"
  shows "dll LL p xs (-1)"
  using assms
proof (induction xs arbitrary: p)
  case (Cons x xs)
  have "dll LL (int x) xs (-1)"
  proof (rule Cons.IH)
    show "\<forall>j<length xs. lprev (LL ! (xs ! j)) = (if j = 0 then int x else int (xs ! (j - 1))) \<and>
      lnext (LL ! (xs ! j)) = (if Suc j = length xs then -1 else int (xs ! Suc j))"
    proof (intro allI impI)
      fix j assume "j < length xs"
      then show "lprev (LL ! (xs ! j)) = (if j = 0 then int x else int (xs ! (j - 1))) \<and>
        lnext (LL ! (xs ! j)) = (if Suc j = length xs then -1 else int (xs ! Suc j))"
        using Cons.prems(1)[rule_format, of "Suc j"] by (cases j) auto
    qed
  qed (use Cons.prems in auto)
  moreover have "lprev (LL ! x) = p" "lnext (LL ! x) = first_or (-1) xs"
    using Cons.prems(1)[rule_format, of 0] by (auto simp: first_or_def split: list.splits)
  ultimately show ?case using Cons.prems(2) by simp
qed simp

lemma linked_update:
  assumes "distinct xs" "j < length xs" "i < length xs" "set xs \<subseteq> {..<length LL}"
  shows "linked xs (LL[xs ! i := e]) j \<longleftrightarrow> (if i = j then lprev e = (if j = 0 then -1 else int (xs ! (j - 1))) \<and>
     lnext e = (if Suc j = length xs then -1 else int (xs ! Suc j)) else linked xs LL j)"
proof -
  have "xs ! j < length LL" using nth_mem[OF assms(2)] assms(4) by blast
  then show ?thesis using assms(1-3) by (simp add: linked_def nth_update nth_eq_iff_index_eq)
qed

lemma link_step_ok:
  assumes xs: "distinct xs" "set xs = {..<n}" "length xs = n" and i: "1 \<le> i" "Suc i < n"
    and LL: "length LL = n" "\<And>y. y < n \<Longrightarrow> lkey (LL ! y) = key y"
    and hd: "heads_open key (take i xs) k H" "k = key (xs ! (i - 1))" and d: "descending key xs"
    and key: "\<And>y. y < n \<Longrightarrow> 0 \<le> key y \<and> key y < int (length H)"
  shows "\<exists>LL' H'. link_step (map int xs) (int i) (LL, H, k) = Some (LL', H', key (xs ! i)) \<and>
    LL' = LL[xs ! i := (LL ! (xs ! i))\<lparr>lprev := int (xs ! (i - 1)), lnext := int (xs ! Suc i)\<rparr>] \<and>
    length H' = length H \<and> heads_open key (take (Suc i) xs) (key (xs ! i)) H'"
proof -
  let ?x = "xs ! i"
  let ?LL = "LL[?x := (LL ! ?x)\<lparr>lprev := int (xs ! (i - 1)), lnext := int (xs ! Suc i)\<rparr>]"
  have x: "?x < n" "xs ! (i - 1) < n" using xs i nth_mem[of i xs] nth_mem[of "i - 1" xs] by auto
  have tk: "take (Suc i) xs = take i xs @ [?x]" "take i xs \<noteq> []" using i xs(3) by (auto simp: take_Suc_conv_app_nth)
  then have tk: "take (Suc i) xs = take i xs @ [?x]" "take i xs \<noteq> []" "last (take i xs) = xs ! (i - 1)"
    using i xs(3) by (simp_all add: last_conv_nth min_def)
  have "descending key (take (Suc i) xs @ drop (Suc i) xs)" using d by simp
  then have "descending key (take (Suc i) xs)" unfolding descending_simps(3)[of key "take (Suc i) xs"] by blast
  then have dt: "descending key (take i xs @ [?x])" unfolding tk(1) .
  have k: "0 \<le> k" "k < int (length H)" "0 \<le> key ?x" "key ?x < int (length H)" using key[OF x(1)] key[OF x(2)] hd(2) by auto
  have ij: "int i - 1 = int (i - 1)" "int i + 1 = int (Suc i)" using i by simp_all
  have g: "iget (map int xs) (int i - 1) = Some (int (xs ! (i - 1)))" "iget (map int xs) (int i) = Some (int ?x)"
    "iget (map int xs) (int i + 1) = Some (int (xs ! Suc i))" "iget ?LL (int ?x) = Some (?LL ! ?x)"
    unfolding ij iget_int using i xs(3) x LL(1) by simp_all
  have m: "modify LL (int ?x) (\<lambda>e. e\<lparr>lprev := int (xs ! (i - 1)), lnext := int (xs ! Suc i)\<rparr>) = Some ?LL"
    by (rule modify_int) (use x LL(1) in simp)
  have kx: "lkey (?LL ! ?x) = key ?x" using LL x by simp
  have step: "link_step (map int xs) (int i) (LL, H, k) =
    (if key ?x \<noteq> k then do {
       H \<leftarrow> modify H k (\<lambda>b. b\<lparr>hsecond := int (xs ! (i - 1))\<rparr>);
       H \<leftarrow> modify H (key ?x) (\<lambda>b. b\<lparr>hfirst := int ?x\<rparr>);
       Some (?LL, H, key ?x)
     } else Some (?LL, H, k))"
    unfolding link_step_def prod.case g Option.bind.simps m Let_def kx ..
  show ?thesis
  proof (cases "key ?x = k")
    case True
    then show ?thesis using step heads_open_same[OF hd(1), of ?x] tk hd(2) by auto
  next
    case False
    let ?H = "H[nat k := (H ! nat k)\<lparr>hsecond := int (xs ! (i - 1))\<rparr>]"
    have "heads_ok key (take i xs) ?H" using heads_close[OF hd(1), of ] tk hd(2) k by simp
    then have "heads_open key (take (Suc i) xs) (key ?x) (?H[nat (key ?x) := (?H ! nat (key ?x))\<lparr>hfirst := int ?x\<rparr>])"
      unfolding tk(1) by (rule heads_open_next(1)[OF _ dt tk(2)]) (use tk(3) hd(2) False k in simp_all)
    moreover have "modify H k (\<lambda>b. b\<lparr>hsecond := int (xs ! (i - 1))\<rparr>) = Some ?H"
      "modify ?H (key ?x) (\<lambda>b. b\<lparr>hfirst := int ?x\<rparr>) = Some (?H[nat (key ?x) := (?H ! nat (key ?x))\<lparr>hfirst := int ?x\<rparr>])"
      using k by (simp_all only: modify_ok length_list_update)
    ultimately show ?thesis using step False by simp
  qed
qed

lemma link_loop:
  assumes xs: "distinct xs" "set xs = {..<n}" "length xs = n" "2 \<le> n"
    and LL: "length LL = n" "\<And>y. y < n \<Longrightarrow> lkey (LL ! y) = key y" "linked xs LL 0" "linked xs LL (n - 1)"
    and hd: "heads_open key (take 1 xs) (key (xs ! 0)) H" and d: "descending key xs"
    and key: "\<And>y. y < n \<Longrightarrow> 0 \<le> key y \<and> key y < int (length H)"
  shows "\<exists>LL' H'. int_for 1 (int n - 1) (link_step (map int xs)) (LL, H, key (xs ! 0)) = Some (LL', H', key (xs ! (n - 2))) \<and>
    length LL' = n \<and> (\<forall>y<n. lkey (LL' ! y) = key y) \<and> (\<forall>j<n. linked xs LL' j) \<and> length H' = length H \<and>
    heads_open key (take (n - 1) xs) (key (xs ! (n - 2))) H'"
proof -
  let ?P = "\<lambda>i (LL', H', k). length LL' = n \<and> (\<forall>y<n. lkey (LL' ! y) = key y) \<and> (\<forall>j<n. j < i \<or> j = n - 1 \<longrightarrow> linked xs LL' j) \<and>
    length H' = length H \<and> k = key (xs ! (i - 1)) \<and> heads_open key (take i xs) k H'"
  have "ok (for_range 1 (n - 1) (\<lambda>i. link_step (map int xs) (int i)) (LL, H, key (xs ! 0))) (?P (n - 1))"
  proof (rule ok_for_range[where P = ?P])
    fix i s assume i: "1 \<le> i" "i < n - 1" and P: "?P i s"
    obtain LL1 H1 k where s: "s = (LL1, H1, k)" by (cases s)
    have P1: "length LL1 = n" "\<And>y. y < n \<Longrightarrow> lkey (LL1 ! y) = key y" "\<And>j. j < n \<Longrightarrow> j < i \<or> j = n - 1 \<Longrightarrow> linked xs LL1 j"
      "length H1 = length H" "k = key (xs ! (i - 1))" "heads_open key (take i xs) k H1" using P unfolding s by auto
    have i': "Suc i < n" using i by simp
    let ?e = "(LL1 ! (xs ! i))\<lparr>lprev := int (xs ! (i - 1)), lnext := int (xs ! Suc i)\<rparr>"
    have key1: "0 \<le> key y \<and> key y < int (length H1)" if "y < n" for y using key[OF that] P1(4) by simp
    obtain H2 where r: "link_step (map int xs) (int i) s = Some (LL1[xs ! i := ?e], H2, key (xs ! i))"
      "length H2 = length H1" "heads_open key (take (Suc i) xs) (key (xs ! i)) H2"
      using link_step_ok[OF xs(1-3) i(1) i' P1(1,2) P1(6,5) d key1] unfolding s by blast
    have "lkey (LL1[xs ! i := ?e] ! y) = key y" if "y < n" for y using P1(1,2) that by (auto simp: nth_update)
    moreover have "linked xs (LL1[xs ! i := ?e]) j" if "j < n" "j < Suc i \<or> j = n - 1" for j
    proof -
      have "linked xs (LL1[xs ! i := ?e]) j \<longleftrightarrow> (if i = j then lprev ?e = (if j = 0 then -1 else int (xs ! (j - 1))) \<and>
        lnext ?e = (if Suc j = length xs then -1 else int (xs ! Suc j)) else linked xs LL1 j)"
        by (rule linked_update) (use that i P1(1) xs in simp_all)
      moreover have "i \<noteq> j \<Longrightarrow> linked xs LL1 j" using that P1(3)[OF that(1)] by auto
      ultimately show ?thesis using i' i(1) xs(3) by simp
    qed
    ultimately show "ok (link_step (map int xs) (int i) s) (?P (Suc i))"
      using r P1(1,4) by simp
  next
    have "linked xs LL j" if "j < n" "j < 1 \<or> j = n - 1" for j using that LL(3,4) by auto
    then show "?P 1 (LL, H, key (xs ! 0))" using LL(1,2) hd by simp
    show "1 \<le> n - 1" using xs(4) by simp
  qed
  then obtain LL' H' where r: "for_range 1 (n - 1) (\<lambda>i. link_step (map int xs) (int i)) (LL, H, key (xs ! 0)) = Some (LL', H', key (xs ! (n - 1 - 1)))"
    "length LL' = n" "\<forall>y<n. lkey (LL' ! y) = key y" "\<forall>j<n. j < n - 1 \<or> j = n - 1 \<longrightarrow> linked xs LL' j" "length H' = length H"
    "heads_open key (take (n - 1) xs) (key (xs ! (n - 1 - 1))) H'"
    unfolding ok_iff by fastforce
  have l: "\<forall>j<n. linked xs LL' j"
  proof (intro allI impI)
    fix j assume "j < n"
    then show "linked xs LL' j" using r(4)[rule_format, of j] by linarith
  qed
  have eq: "int n - 1 = int (n - 1)" "n - 1 - 1 = n - 2" using xs(4) by auto
  have "int_for 1 (int n - 1) (link_step (map int xs)) (LL, H, key (xs ! 0)) = Some (LL', H', key (xs ! (n - 2)))"
    using r(1) unfolding eq int_for_1 .
  then show ?thesis using r(2,3,5) r(6)[unfolded eq] l by (intro exI conjI)
qed

theorem ReConstruct_ok:
  assumes lib: "sorts_ok lib" and n: "2 \<le> n" "heapsize h = int n" "length (LinkedList h) = n" "length (updates h) = n"
    and key: "\<And>y. y < n \<Longrightarrow> 0 \<le> hkey h y \<and> hkey h y + 1 < int (length (Header h))" and H: "4 \<le> length (Header h)"
    and small: "\<And>y. y < n \<Longrightarrow> hkey h y < 2 ^ 30"
  shows "\<exists>h' xs. ReConstruct lib h = Some h' \<and> heap_ok n xs h' \<and> set xs = {..<n} \<and> updates h' = updates h \<and>
    (\<forall>y<n. hkey h' y = hkey h y)"
proof -
  let ?LL = "LinkedList h" and ?key = "hkey h"
  obtain ys where ys: "sort_ints lib (\<lambda>a b. lkey (?LL ! nat a) > lkey (?LL ! nat b)) [0..int n - 1] = Some ys"
      "mset ys = mset [0..int n - 1]" "sorted (map (\<lambda>a. - lkey (?LL ! nat a)) ys)"
    using sort_key_less[OF lib, of "\<lambda>a. - lkey (?LL ! nat a)" "[0..int n - 1]"] by auto
  define xs where "xs = map nat ys"
  have st: "set ys = int ` {..<n}" unfolding mset_eq_setD[OF ys(2)] using upto_int[of 0 n] by auto
  have "x \<in> set ys \<Longrightarrow> int (nat x) = x" for x unfolding st by auto
  then have ysx: "ys = map int xs" by (simp add: xs_def map_idI[symmetric] comp_def)
  have len: "length xs = n" using arg_cong[OF ys(2), of size] upto_int[of 0 n] by (simp add: xs_def)
  have sx: "set xs = {..<n}" using st by (auto simp: xs_def image_image)
  have dx: "distinct xs" using sx len by (intro card_distinct) simp
  have desc: "descending ?key xs" using ys(3) unfolding ysx descending_def sorted_map by (simp add: hkey_def sorted_wrt_map)
  have sub: "set xs \<subseteq> {..<length ?LL}" using sx n(3) by simp
  let ?x0 = "xs ! 0" and ?x1 = "xs ! 1" and ?l = "xs ! (n - 1)" and ?m = "xs ! (n - 2)"
  have b: "?x0 < n" "?l < n" using nth_mem[of 0 xs] nth_mem[of "n - 1" xs] sx len n(1) by auto
  have ne: "?x0 \<noteq> ?l" using nth_eq_iff_index_eq[OF dx, of 0 "n - 1"] len n(1) by auto
  let ?LL1 = "?LL[?x0 := (?LL ! ?x0)\<lparr>lnext := int ?x1\<rparr>]"
  let ?LL2 = "?LL1[?x0 := (?LL1 ! ?x0)\<lparr>lprev := -1\<rparr>]"
  let ?LL3 = "?LL2[?l := (?LL2 ! ?l)\<lparr>lnext := -1\<rparr>]"
  let ?LL4 = "?LL3[?l := (?LL3 ! ?l)\<lparr>lprev := int ?m\<rparr>]"
  have k4: "lkey (?LL4 ! y) = ?key y" if "y < n" for y using that n(3) by (simp add: nth_update hkey_def)
  have l4: "linked xs ?LL4 0" "linked xs ?LL4 (n - 1)"
    using b ne n(1,3) len by (auto simp: linked_def nth_update numeral_2_eq_2)
  let ?m' = "length (Header h)"
  have k0: "0 \<le> ?key ?x0" "?key ?x0 < int ?m'" using key[OF b(1)] by auto
  have mx: "nat (max (?key ?x0 + 1) (int ?m')) = ?m'" using key[OF b(1)] by simp
  let ?H0 = "(replicate ?m' no_head)[nat (?key ?x0) := (replicate ?m' no_head ! nat (?key ?x0))\<lparr>hfirst := int ?x0\<rparr>]"
  have "take 1 xs = [?x0]" using len n(1) by (cases xs) auto
  then have h0: "heads_open ?key (take 1 xs) (?key ?x0) ?H0" using heads_open_start[of ?key ?x0 ?m'] k0 by simp
  have kH: "\<And>y. y < n \<Longrightarrow> 0 \<le> ?key y \<and> ?key y < int (length ?H0)" using key by fastforce
  obtain LL' H' where loop: "int_for 1 (int n - 1) (link_step (map int xs)) (?LL4, ?H0, ?key ?x0) = Some (LL', H', ?key ?m)"
    and L: "length LL' = n" "\<And>y. y < n \<Longrightarrow> lkey (LL' ! y) = ?key y" "\<And>j. j < n \<Longrightarrow> linked xs LL' j" "length H' = ?m'"
    "heads_open ?key (take (n - 1) xs) (?key ?m) H'"
    using link_loop[OF dx sx len n(1) _ k4 l4 h0 desc kH] n(3) by auto
  have tk: "take (n - 1) xs @ [?l] = xs" "take (n - 1) xs \<noteq> []"
    using len n(1) by (auto simp: take_Suc_conv_app_nth[symmetric])
  then have tk: "take (n - 1) xs @ [?l] = xs" "take (n - 1) xs \<noteq> []" "last (take (n - 1) xs) = ?m"
    using len n(1) by (simp_all add: last_conv_nth numeral_2_eq_2)
  have d: "dll LL' (-1) xs (-1)"
    by (rule dll_index) (use L len sx in \<open>auto simp: linked_def\<close>)
  have mb: "?m < n" using nth_mem[of "n - 2" xs] sx len n(1) by auto
  have kl: "0 \<le> ?key ?l" "?key ?l < int (length H')" "0 \<le> ?key ?m" "?key ?m < int (length H')"
    using key[OF b(2)] key[OF mb] L(4) by auto
  have "\<exists>H''. (if ?key ?m = ?key ?l then modify H' (?key ?m) (\<lambda>b. b\<lparr>hsecond := int ?l\<rparr>)
       else do {
         H \<leftarrow> modify H' (?key ?m) (\<lambda>b. b\<lparr>hsecond := int ?m\<rparr>);
         modify H (?key ?l) (\<lambda>b. b\<lparr>hfirst := int ?l, hsecond := int ?l\<rparr>)
       }) = Some H'' \<and> heads_ok ?key xs H'' \<and> length H'' = ?m'"
  proof (cases "?key ?m = ?key ?l")
    case True
    have "heads_open ?key xs (?key ?l) H'" using heads_open_same[OF L(5) _ tk(2), of ?l] tk True by simp
    moreover have "?key ?l = ?key (last xs)" using tk(1) by (metis last_snoc)
    ultimately have "heads_ok ?key xs (H'[nat (?key ?l) := (H' ! nat (?key ?l))\<lparr>hsecond := int (last xs)\<rparr>])"
      using heads_close[of ?key xs "?key ?l" H'] kl tk by force
    moreover have "last xs = ?l" using tk(1) by (metis last_snoc)
    ultimately show ?thesis using True kl L(4) by (simp add: modify_ok)
  next
    case False
    let ?H1 = "H'[nat (?key ?m) := (H' ! nat (?key ?m))\<lparr>hsecond := int ?m\<rparr>]"
    have "heads_ok ?key (take (n - 1) xs) ?H1" using heads_close[OF L(5) _ tk(2)] tk(3) kl by simp
    then have "heads_ok ?key (take (n - 1) xs @ [?l]) (?H1[nat (?key ?l) := (?H1 ! nat (?key ?l))\<lparr>hfirst := int ?l, hsecond := int ?l\<rparr>])"
      by (rule heads_open_next(2)[OF _ _ tk(2)]) (use desc tk False kl in simp_all)
    then show ?thesis using False kl L(4) unfolding tk(1) by (simp add: modify_ok)
  qed
  then obtain H'' where H'': "(if ?key ?m = ?key ?l then modify H' (?key ?m) (\<lambda>b. b\<lparr>hsecond := int ?l\<rparr>)
       else do {
         H \<leftarrow> modify H' (?key ?m) (\<lambda>b. b\<lparr>hsecond := int ?m\<rparr>);
         modify H (?key ?l) (\<lambda>b. b\<lparr>hfirst := int ?l, hsecond := int ?l\<rparr>)
       }) = Some H''" "heads_ok ?key xs H''" "length H'' = ?m'" by blast
  let ?h = "h\<lparr>LinkedList := LL', Header := H'', heap_top := int ?x0\<rparr>"
  have hkey: "hkey ?h y = ?key y" if "y < n" for y using L(2)[OF that] by (simp add: hkey_def)
  have "heap_ok n xs ?h"
  proof (rule heap_okI[where key = ?key])
    show "heap_top ?h = first_or (-1) xs" using len n(1) by (cases xs) auto
    show "y \<in> set xs \<Longrightarrow> 0 \<le> ?key y \<and> ?key y + 1 < int (length (Header ?h))" for y using key[of y] sx H''(3) by auto
  qed (use n L(1) dx d desc H'' H hkey in simp_all)
  moreover have "ReConstruct lib h = Some ?h"
  proof -
    have i: "iget (map int xs) 0 = Some (int ?x0)" "iget (map int xs) 1 = Some (int ?x1)" "iget (map int xs) (int n - 1) = Some (int ?l)"
      "iget (map int xs) (int n - 2) = Some (int ?m)" "iget ?LL (int ?x0) = Some (?LL ! ?x0)" "iget LL' (int ?l) = Some (LL' ! ?l)"
      using len n b L(1) by (auto simp: iget_def nat_diff_distrib)
    have m: "modify ?LL (int ?x0) (\<lambda>e. e\<lparr>lnext := int ?x1\<rparr>) = Some ?LL1" "modify ?LL1 (int ?x0) (\<lambda>e. e\<lparr>lprev := -1\<rparr>) = Some ?LL2"
      "modify ?LL2 (int ?l) (\<lambda>e. e\<lparr>lnext := -1\<rparr>) = Some ?LL3" "modify ?LL3 (int ?l) (\<lambda>e. e\<lparr>lprev := int ?m\<rparr>) = Some ?LL4"
      by (rule modify_int; use b n(3) in simp)+
    have k1: "int32 (?key ?x0 + 1) = Some (?key ?x0 + 1)" using small[OF b(1)] k0 by (simp add: int32_def)
    have mH: "modify (replicate ?m' no_head) (?key ?x0) (\<lambda>b. b\<lparr>hfirst := int ?x0\<rparr>) = Some ?H0" using k0 by (subst modify_ok) simp_all
    have ks: "lkey (?LL ! ?x0) = ?key ?x0" "lkey (LL' ! ?l) = ?key ?l" using L(2)[OF b(2)] by (simp_all add: hkey_def)
    show ?thesis
      unfolding ReConstruct_def Let_def n(2) ys(1)[unfolded ysx] Option.bind.simps i m ks k1 mx mH loop prod.case H''(1) ..
  qed
  ultimately show ?thesis using sx hkey by (intro exI[of _ ?h] exI[of _ xs]) simp
qed

lemma new_heap_ok:
  assumes "0 < n"
  shows "\<exists>h. new_heap (int n) = Some h \<and> heapsize h = int n \<and> length (LinkedList h) = n \<and> updates h = replicate n 0 \<and>
    length (Header h) = max (n div 16) 4"
proof -
  have "length (map (\<lambda>i. \<lparr>lkey = 0, lprev = i - 1, lnext = i + 1\<rparr>) [0..int n - 1]) = n" by simp
  moreover have "nat (max (int n div 16) 4) = max (n div 16) 4" using zdiv_int[of n 16] by simp
  ultimately show ?thesis using assms by (simp add: new_heap_def Let_def modify_ok)
qed

section \<open>What the heap promises\<close>

text \<open>C31: A unit heap stays one: moving a vertex up to the next key and taking a vertex out keep the links, the order
  and the header consistent, and change nothing else.\<close>

theorem unit_heap_typed:
  assumes "heap_ok n xs h" "x \<in> set xs" "hkey h x < 2 ^ 30"
  shows "(\<exists>h' xs'. IncrementKey (int x) h = Some h' \<and> heap_ok n xs' h' \<and> set xs' = set xs \<and>
      (\<forall>y<n. hkey h' y = (if y = x then hkey h y + 1 else hkey h y))) \<and>
    (\<exists>h'. DeleteElement (int x) h = Some h' \<and> heap_ok n (remove1 x xs) h' \<and> (\<forall>y<n. hkey h' y = hkey h y))"
  using IncrementKey_ok[OF assms] DeleteElement_ok[OF assms(1,2)] by blast

theorem unit_heap_typed_witness:
  defines "h \<equiv> \<lparr>updates = [0, 0], LinkedList = [\<lparr>lkey = 0, lprev = -1, lnext = 1\<rparr>, \<lparr>lkey = 0, lprev = 0, lnext = -1\<rparr>],
     Header = [\<lparr>hfirst = 0, hsecond = 1\<rparr>, no_head, no_head, no_head], heap_top = 0, heapsize = 2\<rparr>"
  shows "\<exists>h' xs'. IncrementKey 1 h = Some h' \<and> heap_ok 2 xs' h' \<and> set xs' = {0, 1} \<and> hkey h' 1 = 1"
proof -
  have "heap_ok 2 [0, 1] h"
    by (auto simp: h_def heap_ok_def heads_ok_def head_of_def hkey_def no_head_def less_Suc_eq numeral_eq_Suc)
  then show ?thesis using unit_heap_typed[of 2 "[0, 1]" h 1] by (auto simp: h_def hkey_def)
qed

text \<open>C30: \<open>ExtractMax\<close> on a queue with vertices, in every case. If a single vertex is left and owes a decrease, the code reads
  \<open>LinkedList[-1]\<close>, which is undefined. Otherwise it returns a queued vertex and takes it out. Its score is the highest but for half of
  the decrease that it still owes; it is the highest if it owes at most one.\<close>

theorem ExtractMax_choice:
  assumes "queue_ok n M S sc h" "S \<noteq> {}"
  shows "if \<exists>v. S = {v} \<and> updates h ! v < 0 then ExtractMax h = None
    else \<exists>v h'. ExtractMax h = Some (int v, h') \<and> v \<in> S \<and>
      (\<forall>y \<in> S. sc y \<le> sc v - half (updates h' ! v)) \<and> (updates h' ! v \<in> {-1, 0} \<longrightarrow> (\<forall>y \<in> S. sc y \<le> sc v)) \<and>
      queue_ok n M (S - {v}) sc (h'\<lparr>updates := (updates h')[v := DONE]\<rparr>)"
proof (cases "lone_debt S h")
  case True
  then show ?thesis using ExtractMax_debt[OF assms(1)] by (simp add: lone_debt_def)
next
  case False
  have "half u = 0" if "u \<in> {-1, 0}" for u using that by (auto simp: half_def)
  then show ?thesis using ExtractMax_ok[OF assms False] False unfolding lone_debt_def by (metis diff_zero)
qed

theorem ExtractMax_choice_witness:
  defines "h \<equiv> \<lparr>updates = [-1, 0], LinkedList = [\<lparr>lkey = 1, lprev = -1, lnext = 1\<rparr>, \<lparr>lkey = 1, lprev = 0, lnext = -1\<rparr>],
     Header = [no_head, \<lparr>hfirst = 0, hsecond = 1\<rparr>, no_head, no_head], heap_top = 0, heapsize = 2\<rparr>"
  shows "\<exists>v h'. ExtractMax h = Some (int v, h') \<and> v \<in> {0, 1} \<and> (\<forall>y \<in> {0, 1 :: nat}. (if y = 0 then 0 else 1) \<le>
      (if v = 0 then 0 else 1) - half (updates h' ! v))"
proof -
  let ?sc = "\<lambda>v :: nat. if v = 0 then 0 else 1 :: int"
  have "heap_ok 2 [0, 1] h"
    by (auto simp: h_def heap_ok_def heads_ok_def head_of_def hkey_def no_head_def less_Suc_eq numeral_eq_Suc)
  then have q: "queue_ok 2 1 {0, 1} ?sc h"
    unfolding queue_ok_def by (auto simp: h_def hkey_def less_Suc_eq numeral_eq_Suc intro!: exI[of _ "[0, 1]"])
  have "\<not> (\<exists>v. {0, 1 :: nat} = {v} \<and> updates h ! v < 0)" by auto
  from ExtractMax_choice[OF q insert_not_empty, unfolded if_not_P[OF this]] show ?thesis by blast
qed

end
