(* ===== verification/Gorder_Scores.thy ===== *)
theory Gorder_Scores
  imports Gorder_Transform Unit_Heap
begin

text \<open>
  The scores of the vertices against a window of placed vertices (\<open>Graph::GorderGreedy\<close>), kept in a \<open>UnitHeap\<close>:
  the operations on a score, the loops over the edges of a vertex, and what they add up to.
\<close>

section \<open>The code\<close>

text \<open>\<open>update[w] == 0 ? IncrementKey(w) : update[w]++\<close>; \<open>update[w]--\<close> is \<open>DecrementKey\<close>.\<close>

definition bump :: "int \<Rightarrow> unit_heap \<Rightarrow> unit_heap option" where
  "bump w h = do {
     u \<leftarrow> iget (updates h) w;
     if u = 0 then IncrementKey w h
     else do {
       u \<leftarrow> int32 (u + 1);
       us \<leftarrow> iput (updates h) w u;
       Some (h\<lparr>updates := us\<rparr>)
     }
   }"

text \<open>The loops over the outgoing and the incoming edges of a vertex.\<close>

definition out_loop :: "go_graph \<Rightarrow> int \<Rightarrow> (int \<Rightarrow> 's \<Rightarrow> 's option) \<Rightarrow> 's \<Rightarrow> 's option" where
  "out_loop G v body s = do {
     x \<leftarrow> iget (vertices G) v;
     y \<leftarrow> iget (vertices G) (v + 1);
     int_for (outstart x) (outstart y) (\<lambda>j s. do { w \<leftarrow> iget (outedge G) j; body w s }) s
   }"

definition in_loop :: "go_graph \<Rightarrow> int \<Rightarrow> (int \<Rightarrow> 's \<Rightarrow> 's option) \<Rightarrow> 's \<Rightarrow> 's option" where
  "in_loop G v body s = do {
     x \<leftarrow> iget (vertices G) v;
     y \<leftarrow> iget (vertices G) (v + 1);
     int_for (instart x) (instart y) (\<lambda>j s. do { u \<leftarrow> iget (inedge G) j; body u s }) s
   }"

text \<open>\<open>std::binary_search\<close> on the entries \<open>first\<close> up to \<open>first + len - 1\<close>.\<close>

function lower_bound :: "int list \<Rightarrow> nat \<Rightarrow> nat \<Rightarrow> int \<Rightarrow> nat option" where
  "lower_bound xs first len v =
     (if len = 0 then Some first
      else do {
        x \<leftarrow> aget xs (first + len div 2);
        if x < v then lower_bound xs (first + len div 2 + 1) (len - len div 2 - 1) v
        else lower_bound xs first (len div 2) v
      })"
  by pat_completeness auto
termination by (relation "measure (\<lambda>(xs, first, len, v). len)") auto

declare lower_bound.simps [simp del]

definition binary_search :: "int list \<Rightarrow> int \<Rightarrow> int \<Rightarrow> int \<Rightarrow> bool option" where
  "binary_search xs a b v = do {
     i \<leftarrow> lower_bound xs (nat a) (nat (b - a)) v;
     if int i = b then Some False else do { x \<leftarrow> aget xs i; Some (\<not> v < x) }
   }"

text \<open>The first vertex of the order.\<close>

definition seed_vertex :: "go_graph \<Rightarrow> int \<Rightarrow> int \<Rightarrow> unit_heap \<Rightarrow> unit_heap option" where
  "seed_vertex G huge t h = do {
     h \<leftarrow> in_loop G t (\<lambda>u h. do {
       x \<leftarrow> iget (vertices G) u;
       if outdegree x \<le> huge then do {
         h \<leftarrow> bump u h;
         if outdegree x > 1 then out_loop G u bump h else Some h
       } else Some h
     }) h;
     x \<leftarrow> iget (vertices G) t;
     if outdegree x \<le> huge then out_loop G t bump h else Some h
   }"

text \<open>\<open>popv\<close> leaves the window when \<open>v\<close> enters it: the scores that \<open>popv\<close> and \<open>v\<close> give through a common in-neighbour
  \<open>u\<close> cancel, and \<open>popvexist[u]\<close> notes that.\<close>

definition leave_window :: "go_graph \<Rightarrow> int \<Rightarrow> int \<Rightarrow> int \<Rightarrow> unit_heap \<times> bool list \<Rightarrow> (unit_heap \<times> bool list) option" where
  "leave_window G huge popv v st = (case st of (h, popvexist) \<Rightarrow> do {
     x \<leftarrow> iget (vertices G) popv;
     h \<leftarrow> (if outdegree x \<le> huge then out_loop G popv DecrementKey h else Some h);
     in_loop G popv (\<lambda>u (h, popvexist). do {
       x \<leftarrow> iget (vertices G) u;
       if outdegree x \<le> huge then do {
         h \<leftarrow> DecrementKey u h;
         if outdegree x > 1 then do {
           y \<leftarrow> iget (vertices G) (u + 1);
           found \<leftarrow> binary_search (outedge G) (outstart x) (outstart y) v;
           if \<not> found then do { h \<leftarrow> out_loop G u DecrementKey h; Some (h, popvexist) }
           else do { popvexist \<leftarrow> iput popvexist u True; Some (h, popvexist) }
         } else Some (h, popvexist)
       } else Some (h, popvexist)
     }) (h, popvexist)
   })"

definition enter_window :: "go_graph \<Rightarrow> int \<Rightarrow> int \<Rightarrow> unit_heap \<times> bool list \<Rightarrow> (unit_heap \<times> bool list) option" where
  "enter_window G huge v st = (case st of (h, popvexist) \<Rightarrow> do {
     x \<leftarrow> iget (vertices G) v;
     h \<leftarrow> (if outdegree x \<le> huge then out_loop G v bump h else Some h);
     in_loop G v (\<lambda>u (h, popvexist). do {
       x \<leftarrow> iget (vertices G) u;
       if outdegree x \<le> huge then do {
         h \<leftarrow> bump u h;
         f \<leftarrow> iget popvexist u;
         if \<not> f then do {
           h \<leftarrow> (if outdegree x > 1 then out_loop G u bump h else Some h);
           Some (h, popvexist)
         } else do { popvexist \<leftarrow> iput popvexist u False; Some (h, popvexist) }
       } else Some (h, popvexist)
     }) (h, popvexist)
   })"


section \<open>The queue as an interface\<close>

text \<open>
  What the greedy loop needs of the queue: vertices \<open>S\<close> and the scores of all vertices, which change by one.
  Below, sequences of changes.
\<close>

locale score_queue =
  fixes n :: nat and M :: int
    and good :: "nat set \<Rightarrow> (nat \<Rightarrow> int) \<Rightarrow> 'q \<Rightarrow> bool"
    and inc :: "int \<Rightarrow> 'q \<Rightarrow> 'q option" and dec :: "int \<Rightarrow> 'q \<Rightarrow> 'q option"
  assumes inc_ok: "good S sc q \<Longrightarrow> x < n \<Longrightarrow> sc x < M \<Longrightarrow> \<exists>q'. inc (int x) q = Some q' \<and> good S (sc(x := sc x + 1)) q'"
    and dec_ok: "good S sc q \<Longrightarrow> x < n \<Longrightarrow> 0 < sc x \<Longrightarrow> \<exists>q'. dec (int x) q = Some q' \<and> good S (sc(x := sc x - 1)) q'"
begin

lemma incs_ok:
  assumes "good S sc q" "set ws \<subseteq> {..<n}" "\<And>x. x < n \<Longrightarrow> sc x + int (count_list ws x) \<le> M"
  shows "\<exists>q'. mfold (\<lambda>w. inc (int w)) ws q = Some q' \<and> good S (\<lambda>x. sc x + int (count_list ws x)) q'"
  using assms
proof (induction ws arbitrary: sc q)
  case (Cons w ws)
  have w: "w < n" "sc w < M" using Cons.prems(2) Cons.prems(3)[of w] by auto
  obtain q1 where q1: "inc (int w) q = Some q1" "good S (sc(w := sc w + 1)) q1"
    using inc_ok[OF Cons.prems(1) w] by blast
  have eq: "(\<lambda>x. (sc(w := sc w + 1)) x + int (count_list ws x)) = (\<lambda>x. sc x + int (count_list (w # ws) x))"
    by auto
  have "(sc(w := sc w + 1)) x + int (count_list ws x) \<le> M" if "x < n" for x
    using Cons.prems(3)[OF that] by (simp add: fun_upd_def split: if_splits)
  then show ?case using Cons.IH[OF q1(2)] Cons.prems(2) q1(1) unfolding eq by auto
qed simp

lemma decs_ok:
  assumes "good S sc q" "set ws \<subseteq> {..<n}" "\<And>x. x < n \<Longrightarrow> int (count_list ws x) \<le> sc x"
  shows "\<exists>q'. mfold (\<lambda>w. dec (int w)) ws q = Some q' \<and> good S (\<lambda>x. sc x - int (count_list ws x)) q'"
  using assms
proof (induction ws arbitrary: sc q)
  case (Cons w ws)
  have w: "w < n" "0 < sc w" using Cons.prems(2) Cons.prems(3)[of w] by auto
  obtain q1 where q1: "dec (int w) q = Some q1" "good S (sc(w := sc w - 1)) q1"
    using dec_ok[OF Cons.prems(1) w] by blast
  have eq: "(\<lambda>x. (sc(w := sc w - 1)) x - int (count_list ws x)) = (\<lambda>x. sc x - int (count_list (w # ws) x))"
    by auto
  have "int (count_list ws x) \<le> (sc(w := sc w - 1)) x" if "x < n" for x
    using Cons.prems(3)[OF that] by (simp add: fun_upd_def split: if_splits)
  then show ?case using Cons.IH[OF q1(2)] Cons.prems(2) q1(1) unfolding eq by auto
qed simp

end

text \<open>Queues that also hand out vertices, except a last one that is \<open>stuck\<close>.\<close>

locale extract_queue = score_queue n M good inc dec
  for n and M and good and inc and dec :: "int \<Rightarrow> 'q \<Rightarrow> 'q option" +
  fixes pull :: "'q \<Rightarrow> (int \<times> 'q) option" and stuck :: "nat set \<Rightarrow> 'q \<Rightarrow> bool"
  assumes pull_ok: "good S sc q \<Longrightarrow> S \<noteq> {} \<Longrightarrow> \<not> stuck S q \<Longrightarrow>
      \<exists>v q'. pull q = Some (int v, q') \<and> v \<in> S \<and> v < n \<and> good (S - {v}) sc q'"
    and pull_stuck: "good S sc q \<Longrightarrow> stuck S q \<Longrightarrow> pull q = None"
    and stuck_last: "stuck S q \<Longrightarrow> \<exists>v. S = {v}"
begin

lemma pull_two:
  assumes "good S sc q" "u \<in> S" "v \<in> S" "u \<noteq> v"
  shows "\<exists>v q'. pull q = Some (int v, q') \<and> v \<in> S \<and> v < n \<and> good (S - {v}) sc q'"
  using pull_ok[OF assms(1)] stuck_last[of S q] assms(2-4) by blast

lemma pull_last:
  assumes "good {v} sc q"
  shows "if stuck {v} q then pull q = None else \<exists>q'. pull q = Some (int v, q') \<and> good {} sc q'"
  using pull_ok[OF assms] pull_stuck[OF assms] by auto

end


section \<open>The unit heap is such a queue\<close>

definition take_max :: "unit_heap \<Rightarrow> (int \<times> unit_heap) option" where
  "take_max h = do { (v, h) \<leftarrow> ExtractMax h; h \<leftarrow> set_update v DONE h; Some (v, h) }"

lemma queue_okI:
  assumes "M < DONE" "heap_ok n xs h" "set xs = S" "\<And>x. x < n \<Longrightarrow> 0 \<le> sc x \<and> sc x \<le> M"
    "\<And>x. x < n \<Longrightarrow> x \<in> S \<Longrightarrow> updates h ! x \<le> 0 \<and> hkey h x + updates h ! x = sc x \<and> hkey h x \<le> M"
    "\<And>x. x < n \<Longrightarrow> x \<notin> S \<Longrightarrow> DONE - M \<le> updates h ! x - sc x \<and> updates h ! x - sc x \<le> DONE"
  shows "queue_ok n M S sc h"
  using assms unfolding queue_ok_def by auto

text \<open>A change of one entry of \<open>update\<close>, with the score.\<close>

lemma queue_ok_update:
  assumes q: "queue_ok n M S sc h" and x: "x < n" and d: "0 \<le> sc x + d" "sc x + d \<le> M" "x \<in> S \<Longrightarrow> updates h ! x + d \<le> 0"
  shows "queue_ok n M S (sc(x := sc x + d)) (h\<lparr>updates := (updates h)[x := updates h ! x + d]\<rparr>)"
proof -
  note w = queue_okD[OF q]
  obtain xs where xs: "heap_ok n xs h" "set xs = S" using q by (auto simp: queue_ok_def)
  let ?us = "(updates h)[x := updates h ! x + d]"
  have "heap_ok n xs (h\<lparr>updates := ?us\<rparr>)" using xs(1) by (simp add: heap_ok_updates)
  note ok = this
  have us: "?us ! y = (if y = x then updates h ! x + d else updates h ! y)" if "y < n" for y
    using w(10) that by (auto simp: nth_list_update)
  show ?thesis
  proof (rule queue_okI[OF w(1) ok xs(2)])
    fix y assume y: "y < n"
    show "0 \<le> (sc(x := sc x + d)) y \<and> (sc(x := sc x + d)) y \<le> M" using w(2,3)[OF y] d by simp
    show "updates (h\<lparr>updates := ?us\<rparr>) ! y \<le> 0 \<and> hkey (h\<lparr>updates := ?us\<rparr>) y + updates (h\<lparr>updates := ?us\<rparr>) ! y = (sc(x := sc x + d)) y \<and>
        hkey (h\<lparr>updates := ?us\<rparr>) y \<le> M" if "y \<in> S"
      using w(5-7)[OF that] us[OF y] d(3) that by auto
    show "DONE - M \<le> updates (h\<lparr>updates := ?us\<rparr>) ! y - (sc(x := sc x + d)) y \<and>
        updates (h\<lparr>updates := ?us\<rparr>) ! y - (sc(x := sc x + d)) y \<le> DONE" if "y \<notin> S"
      using w(8,9)[OF y that] us[OF y] by auto
  qed
qed

lemma bump_ok:
  assumes q: "queue_ok n M S sc h" and x: "x < n" "sc x < M"
  shows "\<exists>h'. bump (int x) h = Some h' \<and> queue_ok n M S (sc(x := sc x + 1)) h'"
proof (cases "updates h ! x = 0")
  case True
  note w = queue_okD[OF q]
  obtain xs where xs: "heap_ok n xs h" "set xs = S" using q by (auto simp: queue_ok_def)
  have S: "x \<in> S" using w(8)[OF x(1)] w(2)[OF x(1)] x(2) True w(1) by force
  have k: "hkey h x = sc x" using w(6)[OF S] True by simp
  obtain h' xs' where h': "IncrementKey (int x) h = Some h'" "heap_ok n xs' h'" "set xs' = set xs" "updates h' = updates h"
      "\<forall>y<n. hkey h' y = (if y = x then hkey h y + 1 else hkey h y)"
    using IncrementKey_ok[OF xs(1), of x] xs(2) S k x(2) w(1) by auto
  have "queue_ok n M S (sc(x := sc x + 1)) h'"
  proof (rule queue_okI[OF w(1) h'(2)])
    show "set xs' = S" using h'(3) xs(2) by simp
    fix y assume y: "y < n"
    show "0 \<le> (sc(x := sc x + 1)) y \<and> (sc(x := sc x + 1)) y \<le> M" using w(2,3)[OF y] x w(2)[OF x(1)] by auto
    show "updates h' ! y \<le> 0 \<and> hkey h' y + updates h' ! y = (sc(x := sc x + 1)) y \<and> hkey h' y \<le> M" if "y \<in> S"
      using w(5-7)[OF that] h'(4,5) y k x(2) True by auto
    show "DONE - M \<le> updates h' ! y - (sc(x := sc x + 1)) y \<and> updates h' ! y - (sc(x := sc x + 1)) y \<le> DONE" if "y \<notin> S"
      using w(8,9)[OF y that] h'(4) that S by auto
  qed
  then show ?thesis using h'(1) True x(1) w(10) by (auto simp: bump_def)
next
  case False
  note w = queue_okD[OF q]
  have b: "- 2147483648 \<le> updates h ! x + 1 \<and> updates h ! x + 1 \<le> INT_MAX"
  proof (cases "x \<in> S")
    case True
    then show ?thesis using w(5,6,7)[OF True] w(1) w(2)[OF x(1)] x by simp
  next
    case False
    then show ?thesis using w(8,9)[OF x(1) False] w(1) w(2,3)[OF x(1)] by simp
  qed
  have "queue_ok n M S (sc(x := sc x + 1)) (h\<lparr>updates := (updates h)[x := updates h ! x + 1]\<rparr>)"
    by (rule queue_ok_update[OF q x(1)]) (use w(2)[OF x(1)] x(2) False w(5)[of x] in auto)
  then show ?thesis using False b x(1) w(10) by (simp add: bump_def int32_in)
qed

lemma DecrementKey_ok:
  assumes q: "queue_ok n M S sc h" and x: "x < n" "0 < sc x"
  shows "\<exists>h'. DecrementKey (int x) h = Some h' \<and> queue_ok n M S (sc(x := sc x - 1)) h'"
proof -
  note w = queue_okD[OF q]
  have b: "- 2147483648 \<le> updates h ! x - 1 \<and> updates h ! x - 1 \<le> INT_MAX"
  proof (cases "x \<in> S")
    case True
    then show ?thesis using w(5,6,7)[OF True] w(1) w(2)[OF x(1)] x by simp
  next
    case False
    then show ?thesis using w(8,9)[OF x(1) False] w(1) w(2,3)[OF x(1)] by simp
  qed
  have "queue_ok n M S (sc(x := sc x + - 1)) (h\<lparr>updates := (updates h)[x := updates h ! x + - 1]\<rparr>)"
    by (rule queue_ok_update[OF q x(1)]) (use w(3)[OF x(1)] x(2) w(5)[of x] in auto)
  then show ?thesis using b x(1) w(10) by (simp add: DecrementKey_def int32_in)
qed

interpretation uh: extract_queue n M "queue_ok n M" bump DecrementKey take_max lone_debt
proof unfold_locales
  fix S sc h x assume "queue_ok n M S sc h" "x < n" "sc x < M"
  then show "\<exists>q'. bump (int x) h = Some q' \<and> queue_ok n M S (sc(x := sc x + 1)) q'" by (rule bump_ok)
next
  fix S sc h x assume "queue_ok n M S sc h" "x < n" "0 < sc x"
  then show "\<exists>q'. DecrementKey (int x) h = Some q' \<and> queue_ok n M S (sc(x := sc x - 1)) q'" by (rule DecrementKey_ok)
next
  fix S sc h assume q: "queue_ok n M S sc h" and "S \<noteq> {}" "\<not> lone_debt S h"
  then obtain v h' where "ExtractMax h = Some (int v, h')" "v \<in> S"
      "queue_ok n M (S - {v}) sc (h'\<lparr>updates := (updates h')[v := DONE]\<rparr>)" "length (updates h') = n"
    using ExtractMax_ok[of n M S sc h] by blast
  moreover have "v < n" using \<open>v \<in> S\<close> q queue_okD(4) by auto
  ultimately show "\<exists>v h'. take_max h = Some (int v, h') \<and> v \<in> S \<and> v < n \<and> queue_ok n M (S - {v}) sc h'"
    by (simp add: take_max_def set_update_ok)
next
  fix S sc h assume "queue_ok n M S sc h" "lone_debt S h"
  then show "take_max h = None" using ExtractMax_debt by (simp add: take_max_def)
next
  fix S :: "nat set" and h assume "lone_debt S h"
  then show "\<exists>v. S = {v}" by (auto simp: lone_debt_def)
qed

section \<open>The loops over the edges of a vertex\<close>

abbreviation ins :: "(nat \<times> nat) list \<Rightarrow> nat \<Rightarrow> nat list" where
  "ins es v \<equiv> bucket (swaps es) v"

lemma go_full_simps [simp]: "vertices (go_full n es) = vertices (go_of n es)" "vsize (go_full n es) = int n"
  "outedge (go_full n es) = map (int \<circ> snd) es" "inedge (go_full n es) = map int (csr_of n (swaps es))"
  by (simp_all add: go_full_def)

lemma edge_less_n:
  assumes "go_wf n es" "v < n"
  shows "w \<in> set (bucket es v) \<Longrightarrow> w < n" "u \<in> set (ins es v) \<Longrightarrow> u < n"
    "w \<in> set (bucket es v) \<longleftrightarrow> (v, w) \<in> set es" "u \<in> set (ins es v) \<longleftrightarrow> (u, v) \<in> set es"
  using go_wfD(6,7)[OF assms(1)] by (auto simp: bucket_def image_iff) force+

lemma out_loop_ok [simp]:
  assumes "go_wf n es" "v < n"
  shows "out_loop (go_full n es) (int v) body s = mfold (\<lambda>w. body (int w)) (bucket es v) s"
  using go_row[OF assms, of body s] assms(2) by (simp add: out_loop_def vert_simps)

lemma in_loop_ok [simp]:
  assumes "go_wf n es" "v < n"
  shows "in_loop (go_full n es) (int v) body s = mfold (\<lambda>u. body (int u)) (ins es v) s"
proof -
  let ?c = "csr_of n (swaps es)"
  have le: "starts (swaps es) (Suc v) \<le> length ?c"
  using starts_mono[of "Suc v" n "swaps es"] assms(2) by (simp add: length_csr_of)
  have "int_for (int (starts (swaps es) v)) (int (starts (swaps es) (Suc v))) (\<lambda>j s. do { u \<leftarrow> iget (map int ?c) j; body u s }) s =
    mfold (\<lambda>u. body (int u)) (slice ?c (starts (swaps es) v) (starts (swaps es) (Suc v))) s"
    unfolding int_for_int by (rule for_range_slice[OF le]) (use le in simp)
  then show ?thesis using slice_csr_of[OF assms(2), of "swaps es"] assms(2) by (simp add: in_loop_def vert_simps)
qed

text \<open>Binary search in a row.\<close>

lemma lower_bound_ok:
  assumes "\<And>k k'. first \<le> k \<Longrightarrow> k \<le> k' \<Longrightarrow> k' < first + len \<Longrightarrow> xs ! k \<le> xs ! k'" "first + len \<le> length xs"
  shows "\<exists>i. lower_bound xs first len v = Some i \<and> first \<le> i \<and> i \<le> first + len \<and>
    (\<forall>k. first \<le> k \<longrightarrow> k < i \<longrightarrow> xs ! k < v) \<and> (\<forall>k. i \<le> k \<longrightarrow> k < first + len \<longrightarrow> v \<le> xs ! k)"
  using assms
proof (induction xs first len v rule: lower_bound.induct)
  case (1 xs first len v)
  let ?m = "first + len div 2"
  show ?case
  proof (cases "len = 0")
    case True
    then show ?thesis by (subst lower_bound.simps) simp
  next
    case len: False
    then have m: "?m < first + len" "?m < length xs" "aget xs ?m = Some (xs ! ?m)" using 1(4) by auto
    show ?thesis
    proof (cases "xs ! ?m < v")
      case True
      have e: "?m + 1 + (len - len div 2 - 1) = first + len" using m(1) by simp
      obtain i where i: "lower_bound xs (?m + 1) (len - len div 2 - 1) v = Some i" "?m + 1 \<le> i" "i \<le> first + len"
          "\<forall>k. ?m + 1 \<le> k \<longrightarrow> k < i \<longrightarrow> xs ! k < v" "\<forall>k. i \<le> k \<longrightarrow> k < first + len \<longrightarrow> v \<le> xs ! k"
        using 1(1)[OF len m(3) True] 1(3,4) unfolding e by auto
      have "xs ! k < v" if "first \<le> k" "k < i" for k
        using i(4) 1(3)[OF that(1), of ?m] m(1) True that(2) by (cases "k \<le> ?m") auto
      then show ?thesis using i len m True by (subst lower_bound.simps) simp
    next
      case False
      obtain i where i: "lower_bound xs first (len div 2) v = Some i" "first \<le> i" "i \<le> ?m"
          "\<forall>k. first \<le> k \<longrightarrow> k < i \<longrightarrow> xs ! k < v" "\<forall>k. i \<le> k \<longrightarrow> k < ?m \<longrightarrow> v \<le> xs ! k"
        using 1(2)[OF len m(3) False] 1(3,4) m(1) by auto
      have "v \<le> xs ! k" if "i \<le> k" "k < first + len" for k
        using i(5) 1(3)[of ?m k] m(1) False that by (cases "k < ?m") auto
      then show ?thesis using i len m False by (subst lower_bound.simps) simp
    qed
  qed
qed

lemma binary_search_slice:
  assumes s: "sorted (slice xs a b)" and ab: "a \<le> b" "b \<le> length xs"
  shows "binary_search xs (int a) (int b) v = Some (v \<in> set (slice xs a b))"
proof -
  have mono: "xs ! k \<le> xs ! k'" if "a \<le> k" "k \<le> k'" "k' < a + (b - a)" for k k'
    using sorted_nth_mono[OF s, of "k - a" "k' - a"] that ab by simp
  then obtain i where i: "lower_bound xs a (b - a) v = Some i" "a \<le> i" "i \<le> b"
      "\<forall>k. a \<le> k \<longrightarrow> k < i \<longrightarrow> xs ! k < v" "\<forall>k. i \<le> k \<longrightarrow> k < b \<longrightarrow> v \<le> xs ! k"
    using lower_bound_ok[of a "b - a" xs v] ab by auto
  have mem: "v \<in> set (slice xs a b) \<longleftrightarrow> (\<exists>k. a \<le> k \<and> k < b \<and> xs ! k = v)"
  proof
    assume "v \<in> set (slice xs a b)"
    then obtain k where "k < b - a" "slice xs a b ! k = v" using ab(2) by (auto simp: in_set_conv_nth)
    then show "\<exists>k. a \<le> k \<and> k < b \<and> xs ! k = v" using ab by (intro exI[of _ "a + k"]) auto
  next
    assume "\<exists>k. a \<le> k \<and> k < b \<and> xs ! k = v"
    then obtain k where "a \<le> k" "k < b" "xs ! k = v" by blast
    then show "v \<in> set (slice xs a b)" using ab by (auto simp: in_set_conv_nth intro!: exI[of _ "k - a"])
  qed
  have mem: "v \<in> set (slice xs a b) \<longleftrightarrow> i < b \<and> xs ! i \<le> v"
    unfolding mem
  proof
    assume "\<exists>k. a \<le> k \<and> k < b \<and> xs ! k = v"
    then obtain k where k: "a \<le> k" "k < b" "xs ! k = v" by blast
    then have "i \<le> k" using i(4) by (metis less_irrefl not_le)
    then show "i < b \<and> xs ! i \<le> v" using k mono[OF i(2)] ab(1) by auto
  next
    assume "i < b \<and> xs ! i \<le> v"
    then show "\<exists>k. a \<le> k \<and> k < b \<and> xs ! k = v" using i(2,5) by (intro exI[of _ i]) (simp add: order_antisym)
  qed
  have n: "nat (int b - int a) = b - a" using ab(1) by simp
  show ?thesis
  proof (cases "i = b")
    case False
    then show ?thesis using i(1,3) mem ab(2) unfolding binary_search_def n nat_int by (auto simp: not_less)
  qed (use i(1) mem in \<open>simp add: binary_search_def n\<close>)
qed

lemma sorted_bucket: "go_wf n es \<Longrightarrow> sorted (bucket es u)"
  using bucket_sort[of es u] go_wfD(5)[of n es] by (metis sorted_sort sorted_sort_id)

lemma binary_search_ok:
  assumes wf: "go_wf n es" and u: "u < n"
  shows "binary_search (map (int \<circ> snd) es) (int (starts es u)) (int (starts es (Suc u))) (int v) = Some (v \<in> set (bucket es u))"
proof -
  have "csr_of n es = map snd es" by (rule csr_of_sorted) (use go_wfD[OF wf] in auto)
  then have r: "slice (map (int \<circ> snd) es) (starts es u) (starts es (Suc u)) = map int (bucket es u)"
    using slice_csr_of[OF u, of es] by (simp add: slice_map flip: map_map)
  have "sorted (map int (bucket es u))" using sorted_bucket[OF wf, of u] by (simp add: sorted_map)
  then show ?thesis
    using binary_search_slice[of "map (int \<circ> snd) es" "starts es u" "starts es (Suc u)" "int v"] r
      starts_mono[of u "Suc u" es] starts_le[of es "Suc u"] by auto
qed

section \<open>What a vertex gives to the others\<close>

text \<open>
  A vertex \<open>v\<close> in the window gives a point to its out-neighbours (unless it has more than \<open>K\<close>), to its in-neighbours
  with at most \<open>K\<close> outgoing edges, and to the other out-neighbours of these.
\<close>

definition light :: "(nat \<times> nat) list \<Rightarrow> nat \<Rightarrow> nat \<Rightarrow> bool" where
  "light es K u \<longleftrightarrow> length (bucket es u) \<le> K"

definition outs :: "(nat \<times> nat) list \<Rightarrow> nat \<Rightarrow> nat \<Rightarrow> nat list" where
  "outs es K v = (if light es K v then bucket es v else [])"

definition reach :: "(nat \<times> nat) list \<Rightarrow> nat \<Rightarrow> nat set \<Rightarrow> nat \<Rightarrow> nat list" where
  "reach es K F u = (if light es K u then u # (if 1 < length (bucket es u) \<and> u \<notin> F then bucket es u else []) else [])"

text \<open>The changes while the in-neighbours \<open>F\<close> are left out.\<close>

definition gives :: "(nat \<times> nat) list \<Rightarrow> nat \<Rightarrow> nat set \<Rightarrow> nat \<Rightarrow> nat list" where
  "gives es K F v = outs es K v @ concat (map (reach es K F) (ins es v))"

text \<open>The in-neighbours that \<open>popv\<close> and \<open>v\<close> share.\<close>

definition common :: "(nat \<times> nat) list \<Rightarrow> nat \<Rightarrow> nat \<Rightarrow> nat \<Rightarrow> nat set" where
  "common es K p v = {u \<in> set (ins es p). light es K u \<and> 1 < length (bucket es u) \<and> v \<in> set (bucket es u)}"

definition marks :: "nat \<Rightarrow> nat set \<Rightarrow> bool list" where
  "marks n F = map (\<lambda>u. u \<in> F) [0..<n]"

lemma marks_simps [simp]: "length (marks n F) = n" "u < n \<Longrightarrow> marks n F ! u \<longleftrightarrow> u \<in> F"
  "u < n \<Longrightarrow> (marks n F)[u := True] = marks n (insert u F)" "u < n \<Longrightarrow> (marks n F)[u := False] = marks n (F - {u})"
  by (auto simp: marks_def nth_list_update intro!: nth_equalityI split: if_splits)

lemma mfold_Nil: "mfold f [] = Some"
  by (simp add: fun_eq_iff)

lemma set_gives:
  assumes "go_wf n es" "v < n"
  shows "set (gives es K F v) \<subseteq> {..<n}"
proof -
  have "set (reach es K F u) \<subseteq> {..<n}" if "u < n" for u
    using that edge_less_n(1)[OF assms(1) that] by (auto simp: reach_def)
  then have "set (concat (map (reach es K F) (ins es v))) \<subseteq> {..<n}"
    using edge_less_n(2)[OF assms] unfolding set_concat set_map by blast
  moreover have "set (outs es K v) \<subseteq> {..<n}" using edge_less_n(1)[OF assms] by (auto simp: outs_def)
  ultimately show ?thesis unfolding gives_def set_append by blast
qed

lemma vertex_at [simp]: "u < n \<Longrightarrow> iget (vertices (go_of n es)) (int u) = Some (vert es u)"
  by simp

lemma outdegree_light: "outdegree (vert es u) \<le> int K \<longleftrightarrow> light es K u" "outdegree (vert es u) > 1 \<longleftrightarrow> 1 < length (bucket es u)"
  by (simp_all add: vert_simps light_def)

lemma mfold_if: "(if b then mfold f xs s else Some s) = mfold f (if b then xs else []) s"
  by simp

lemma mfold_if_nested: "(if b then if c then mfold f xs s else Some s else Some s) = mfold f (if b then if c then xs else [] else []) s"
  by simp

lemma seed_vertex_eq:
  assumes wf: "go_wf n es" and t: "t < n"
  shows "seed_vertex (go_full n es) (int K) (int t) h =
    mfold (\<lambda>w. bump (int w)) (concat (map (reach es K {}) (ins es t)) @ outs es K t) h"
proof -
  have "in_loop (go_full n es) (int t) (\<lambda>u h. do {
       x \<leftarrow> iget (vertices (go_full n es)) u;
       if outdegree x \<le> int K then do {
         h \<leftarrow> bump u h;
         if outdegree x > 1 then out_loop (go_full n es) u bump h else Some h
       } else Some h
     }) h = mfold (\<lambda>w. bump (int w)) (concat (map (reach es K {}) (ins es t))) h"
    unfolding in_loop_ok[OF wf t] mfold_concat mfold_map
  proof (rule mfold_cong[OF refl])
    fix u h assume "u \<in> set (ins es t)"
    then have u: "u < n" using edge_less_n(2)[OF wf t] by blast
    show "do {
       x \<leftarrow> iget (vertices (go_full n es)) (int u);
       if outdegree x \<le> int K then do {
         h \<leftarrow> bump (int u) h;
         if outdegree x > 1 then out_loop (go_full n es) (int u) bump h else Some h
       } else Some h
     } = (mfold (\<lambda>w. bump (int w)) \<circ> reach es K {}) u h"
      using u by (simp add: outdegree_light out_loop_ok[OF wf u] mfold_if reach_def mfold_Nil)
  qed
  then show ?thesis
    unfolding seed_vertex_def using t by (simp add: mfold_append outdegree_light out_loop_ok[OF wf t] outs_def)
qed

text \<open>A loop that changes the queue and notes which vertices it has seen.\<close>

lemma mfold_marks:
  assumes "\<And>u h F. u \<in> set us \<Longrightarrow> body u (h, marks n F) = do { h \<leftarrow> A u h; Some (h, marks n (if c u then insert u F else F)) }"
  shows "mfold body us (h, marks n F) = do { h \<leftarrow> mfold A us h; Some (h, marks n (F \<union> {u \<in> set us. c u})) }"
  using assms
proof (induction us arbitrary: h F)
  case (Cons u us)
  have "(if c u then insert u F else F) \<union> {w \<in> set us. c w} = F \<union> {w \<in> set (u # us). c w}" by auto
  then show ?case using Cons.IH[of _ "if c u then insert u F else F"] Cons.prems
    by (cases "A u h") (auto simp del: Un_insert_left)
qed simp

lemma mfold_unmark:
  assumes "distinct us" "\<And>u h F. u \<in> set us \<Longrightarrow> body u (h, marks n F) = do { h \<leftarrow> A (u \<in> F) u h; Some (h, marks n (if c u then F - {u} else F)) }"
  shows "mfold body us (h, marks n F) = do { h \<leftarrow> mfold (\<lambda>u. A (u \<in> F) u) us h; Some (h, marks n (F - {u \<in> set us. c u})) }"
  using assms
proof (induction us arbitrary: h F)
  case (Cons u us)
  let ?F = "if c u then F - {u} else F"
  have e: "?F - {w \<in> set us. c w} = F - {w \<in> set (u # us). c w}" by auto
  have "mfold (\<lambda>w. A (w \<in> ?F) w) us h = mfold (\<lambda>w. A (w \<in> F) w) us h" for h
  proof (rule mfold_cong[OF refl])
    fix w h assume "w \<in> set us"
    then have "w \<in> ?F \<longleftrightarrow> w \<in> F" using Cons.prems(1) by auto
    then show "A (w \<in> ?F) w h = A (w \<in> F) w h" by (simp only:)
  qed
  then show ?case using Cons.IH[of _ ?F] Cons.prems e
    by (cases "A (u \<in> F) u h") auto
qed simp

lemma leave_window_eq:
  assumes wf: "go_wf n es" and p: "p < n"
  shows "leave_window (go_full n es) (int K) (int p) (int v) (h, marks n {}) =
    do { h \<leftarrow> mfold (\<lambda>w. DecrementKey (int w)) (gives es K (common es K p v) p) h; Some (h, marks n (common es K p v)) }"
proof -
  let ?G = "go_full n es"
  let ?c = "\<lambda>u. light es K u \<and> 1 < length (bucket es u) \<and> v \<in> set (bucket es u)"
  let ?body = "\<lambda>u (h, popvexist). do {
       x \<leftarrow> iget (vertices ?G) u;
       if outdegree x \<le> int K then do {
         h \<leftarrow> DecrementKey u h;
         if outdegree x > 1 then do {
           y \<leftarrow> iget (vertices ?G) (u + 1);
           found \<leftarrow> binary_search (outedge ?G) (outstart x) (outstart y) (int v);
           if \<not> found then do { h \<leftarrow> out_loop ?G u DecrementKey h; Some (h, popvexist) }
           else do { popvexist \<leftarrow> iput popvexist u True; Some (h, popvexist) }
         } else Some (h, popvexist)
       } else Some (h, popvexist)
     }"
  have l: "in_loop ?G (int p) ?body (h, marks n {}) =
    do { h \<leftarrow> mfold (mfold (\<lambda>w. DecrementKey (int w)) \<circ> reach es K (common es K p v)) (ins es p) h;
         Some (h, marks n ({} \<union> {u \<in> set (ins es p). ?c u})) }" for h
    unfolding in_loop_ok[OF wf p]
  proof (rule mfold_marks)
    fix u h F assume ui: "u \<in> set (ins es p)"
    then have u: "u < n" using edge_less_n(2)[OF wf p] by blast
    show "?body (int u) (h, marks n F) = do { h \<leftarrow> (mfold (\<lambda>w. DecrementKey (int w)) \<circ> reach es K (common es K p v)) u h;
        Some (h, marks n (if ?c u then insert u F else F)) }"
      using u ui binary_search_ok[OF wf u, of v]
      by (simp add: outdegree_light out_loop_ok[OF wf u] reach_def common_def vert_simps(1) cong: if_cong)
  qed
  have "{} \<union> {u \<in> set (ins es p). ?c u} = common es K p v" by (auto simp: common_def)
  then show ?thesis
    unfolding leave_window_def using p l
    by (simp add: gives_def outs_def mfold_append outdegree_light out_loop_ok[OF wf p] mfold_concat mfold_map)
qed

lemma distinct_ins: "go_wf n es \<Longrightarrow> distinct (ins es v)"
  using go_wfD(4)[of n es] by (auto simp: bucket_def distinct_map inj_on_def filter_map)

lemma enter_window_eq:
  assumes wf: "go_wf n es" and v: "v < n" and F: "F \<subseteq> {u \<in> set (ins es v). light es K u}"
  shows "enter_window (go_full n es) (int K) (int v) (h, marks n F) =
    do { h \<leftarrow> mfold (\<lambda>w. bump (int w)) (gives es K F v) h; Some (h, marks n {}) }"
proof -
  let ?G = "go_full n es"
  let ?body = "\<lambda>u (h, popvexist). do {
       x \<leftarrow> iget (vertices ?G) u;
       if outdegree x \<le> int K then do {
         h \<leftarrow> bump u h;
         f \<leftarrow> iget popvexist u;
         if \<not> f then do {
           h \<leftarrow> (if outdegree x > 1 then out_loop ?G u bump h else Some h);
           Some (h, popvexist)
         } else do { popvexist \<leftarrow> iput popvexist u False; Some (h, popvexist) }
       } else Some (h, popvexist)
     }"
  have l: "in_loop ?G (int v) ?body (h, marks n F) =
    do { h \<leftarrow> mfold (\<lambda>u. mfold (\<lambda>w. bump (int w)) (reach es K (if u \<in> F then {u} else {}) u)) (ins es v) h;
         Some (h, marks n (F - {u \<in> set (ins es v). light es K u})) }" for h
    unfolding in_loop_ok[OF wf v]
  proof (rule mfold_unmark[OF distinct_ins[OF wf], where A = "\<lambda>b u. mfold (\<lambda>w. bump (int w)) (reach es K (if b then {u} else {}) u)"])
    fix u h F assume ui: "u \<in> set (ins es v)"
    then have u: "u < n" using edge_less_n(2)[OF wf v] by blast
    show "?body (int u) (h, marks n F) = do { h \<leftarrow> mfold (\<lambda>w. bump (int w)) (reach es K (if u \<in> F then {u} else {}) u) h;
        Some (h, marks n (if light es K u then F - {u} else F)) }"
      using u by (simp add: outdegree_light out_loop_ok[OF wf u] reach_def mfold_if cong: if_cong)
  qed
  have r: "reach es K (if u \<in> F then {u} else {}) u = reach es K F u" for u by (simp add: reach_def)
  have e: "F - {u \<in> set (ins es v). light es K u} = {}" using F by auto
  show ?thesis
    unfolding enter_window_def using v l[unfolded e]
    by (simp add: gives_def outs_def mfold_append outdegree_light out_loop_ok[OF wf v] mfold_concat mfold_map r comp_def)
qed

section \<open>Counting\<close>

definition pts :: "(nat \<times> nat) list \<Rightarrow> nat \<Rightarrow> nat \<Rightarrow> nat \<Rightarrow> nat" where
  "pts es K v x = count_list (gives es K {} v) x"

lemma count_concat_map: "count_list (concat (map f us)) x = sum_list (map (\<lambda>u. count_list (f u) x) us)"
  by (induction us) auto

lemma count_gives:
  assumes wf: "go_wf n es" and F: "F \<subseteq> {u \<in> set (ins es v). light es K u \<and> 1 < length (bucket es u)}"
  shows "pts es K v x = count_list (gives es K F v) x + (\<Sum>u \<in> F. count_list (bucket es u) x)"
proof -
  have "sum_list (map (\<lambda>u. count_list (reach es K {} u) x) us) =
      sum_list (map (\<lambda>u. count_list (reach es K F u) x) us) + (\<Sum>u \<in> F \<inter> set us. count_list (bucket es u) x)" if "distinct us" for us
    using that
  proof (induction us)
    case (Cons u us)
    show ?case
    proof (cases "u \<in> F")
      case True
      then have "light es K u" "1 < length (bucket es u)" using F by blast+
      then have "count_list (reach es K {} u) x = count_list (reach es K F u) x + count_list (bucket es u) x"
        using True by (simp add: reach_def)
      moreover have "F \<inter> set (u # us) = insert u (F \<inter> set us)" "u \<notin> F \<inter> set us" using True Cons.prems by auto
      ultimately show ?thesis using Cons by simp
    next
      case False
      then have "count_list (reach es K {} u) x = count_list (reach es K F u) x" by (simp add: reach_def)
      moreover have "F \<inter> set (u # us) = F \<inter> set us" using False by auto
      ultimately show ?thesis using Cons by simp
    qed
  qed simp
  moreover have "F \<inter> set (ins es v) = F" using F by auto
  ultimately show ?thesis
    using distinct_ins[OF wf, of v] by (simp add: pts_def gives_def count_concat_map)
qed

text \<open>Sums over the rows are sums over the edges.\<close>

lemma sum_rows:
  fixes f :: "nat \<Rightarrow> nat"
  assumes "\<And>p. p \<in> set ps \<Longrightarrow> fst p < n"
  shows "(\<Sum>v<n. sum_list (map f (bucket ps v))) = sum_list (map (f \<circ> snd) ps)"
  using assms
proof (induction ps)
  case (Cons p ps)
  obtain a b where p: "p = (a, b)" by force
  have "(\<Sum>v<n. sum_list (map f (bucket (p # ps) v))) = (\<Sum>v<n. (if a = v then f b else 0) + sum_list (map f (bucket ps v)))"
    by (rule sum.cong) (auto simp: p)
  also have "\<dots> = f b + (\<Sum>v<n. sum_list (map f (bucket ps v)))"
    using Cons.prems[of p] p by (simp add: sum.distrib)
  finally show ?case using Cons p by simp
qed simp

lemma count_as_sum: "count_list xs x = sum_list (map (\<lambda>y. of_bool (y = x)) xs)"
  by (induction xs) auto

lemma count_bucket_sum:
  "sum_list (map ((\<lambda>y. of_bool (y = x)) \<circ> snd) ps) = length (bucket (swaps ps) x)"
  by (induction ps) auto

lemma distinct_bucket: "go_wf n es \<Longrightarrow> distinct (bucket es v)"
  using go_wfD(4)[of n es] by (auto simp: bucket_def distinct_map inj_on_def)

lemma sum_pts:
  assumes wf: "go_wf n es"
  shows "(\<Sum>v<n. pts es K v x) \<le> 2 * length es"
proof -
  note w = go_wfD[OF wf]
  have w': "p \<in> set (swaps es) \<Longrightarrow> fst p < n" for p by (rule w(9))
  let ?row = "\<lambda>u. count_list (bucket es u) x"
  have one: "count_list (reach es K {} u) x \<le> of_bool (u = x) + ?row u" for u
    unfolding reach_def by (cases "light es K u"; cases "1 < length (bucket es u)"; cases "u = x") simp_all
  have "pts es K v x \<le> ?row v + (count_list (ins es v) x + sum_list (map ?row (ins es v)))" for v
  proof -
    have "sum_list (map (\<lambda>u. count_list (reach es K {} u) x) us) \<le> count_list us x + sum_list (map ?row us)" for us
    proof (induction us)
      case (Cons u us)
      then show ?case using add_mono[OF one[of u] Cons] by (cases "u = x") simp_all
    qed simp
    moreover have "count_list (outs es K v) x \<le> ?row v" by (simp add: outs_def)
    ultimately show ?thesis by (simp add: pts_def gives_def count_concat_map add_mono)
  qed
  then have "(\<Sum>v<n. pts es K v x) \<le> (\<Sum>v<n. ?row v + (count_list (ins es v) x + sum_list (map ?row (ins es v))))"
    by (intro sum_mono) blast
  also have "\<dots> = (\<Sum>v<n. ?row v) + ((\<Sum>v<n. count_list (ins es v) x) + (\<Sum>v<n. sum_list (map ?row (ins es v))))"
    by (simp add: sum.distrib)
  also have "(\<Sum>v<n. ?row v) = length (ins es x)"
    unfolding count_as_sum by (subst sum_rows) (use w in \<open>simp_all add: count_bucket_sum\<close>)
  also have "(\<Sum>v<n. count_list (ins es v) x) = length (bucket (swaps (swaps es)) x)"
    unfolding count_as_sum by (subst sum_rows[OF w']) (simp_all only: count_bucket_sum)
  also have "swaps (swaps es) = es" by simp
  also have "(\<Sum>v<n. sum_list (map ?row (ins es v))) \<le> length es"
  proof -
    have le1: "?row u \<le> 1" for u
      using distinct_bucket[OF wf, of u] by (cases "x \<in> set (bucket es u)") (simp_all add: count_list_distinct)
    have "sum_list (map (?row \<circ> snd) ps) \<le> length ps" for ps :: "(nat \<times> nat) list"
    proof (induction ps)
      case (Cons p ps)
      then show ?case using add_mono[OF le1[of "snd p"] Cons] by simp
    qed simp
    then have "sum_list (map (?row \<circ> snd) (swaps es)) \<le> length (swaps es)" by blast
    then show ?thesis by (subst sum_rows) (use w' in simp_all)
  qed
  also have "length (ins es x) + (length (bucket es x) + length es) \<le> 2 * length es"
  proof -
    have "\<forall>(a, b) \<in> set es. a \<noteq> b" using w(8) by fastforce
    then show ?thesis using degree_le[of es x] by (simp add: degree_def)
  qed
  finally show ?thesis by simp
qed

text \<open>The scores against a list of vertices.\<close>

definition points :: "(nat \<times> nat) list \<Rightarrow> nat \<Rightarrow> nat list \<Rightarrow> nat \<Rightarrow> int" where
  "points es K vs x = int (sum_list (map (\<lambda>v. pts es K v x) vs))"

lemma points_bounds:
  assumes wf: "go_wf n es" and "distinct vs" "set vs \<subseteq> {..<n}"
  shows "0 \<le> points es K vs x" "points es K vs x \<le> int (2 * length es)"
proof -
  have "sum_list (map (\<lambda>v. pts es K v x) vs) = (\<Sum>v \<in> set vs. pts es K v x)"
    using assms(2) by (rule sum_list_distinct_conv_sum_set)
  also have "\<dots> \<le> (\<Sum>v<n. pts es K v x)" using assms(3) by (intro sum_mono2) auto
  also have "\<dots> \<le> 2 * length es" by (rule sum_pts[OF wf])
  finally show "points es K vs x \<le> int (2 * length es)" by (simp add: points_def)
qed (simp add: points_def)

lemma points_simps [simp]: "points es K [] x = 0" "points es K (v # vs) x = int (pts es K v x) + points es K vs x"
  "points es K (vs @ ws) x = points es K vs x + points es K ws x"
  by (simp_all add: points_def)

section \<open>Moving the window\<close>

text \<open>\<open>ps\<close> is the window; the bound on the scores is twice the number of edges.\<close>

definition window_ok :: "nat \<Rightarrow> (nat \<times> nat) list \<Rightarrow> nat \<Rightarrow> nat set \<Rightarrow> nat list \<Rightarrow> unit_heap \<Rightarrow> bool" where
  "window_ok n es K S ps h \<longleftrightarrow> queue_ok n (int (2 * length es)) S (points es K ps) h"

lemma seed_vertex_ok:
  assumes wf: "go_wf n es" and t: "t < n" and q: "window_ok n es K S [] h"
  shows "\<exists>h'. seed_vertex (go_full n es) (int K) (int t) h = Some h' \<and> window_ok n es K S [t] h'"
proof -
  let ?ws = "concat (map (reach es K {}) (ins es t)) @ outs es K t"
  have c: "int (count_list ?ws x) = points es K [t] x" for x
    by (simp add: pts_def gives_def)
  have "\<exists>h'. mfold (\<lambda>w. bump (int w)) ?ws h = Some h' \<and> queue_ok n (int (2 * length es)) S (\<lambda>x. points es K [] x + int (count_list ?ws x)) h'"
  proof (rule uh.incs_ok[OF q[unfolded window_ok_def]])
    show "set ?ws \<subseteq> {..<n}" using set_gives[OF wf t, of K "{}"] by (auto simp: gives_def)
    show "points es K [] x + int (count_list ?ws x) \<le> int (2 * length es)" for x
      unfolding c using points_bounds(2)[OF wf, of "[t]" K x] t by simp
  qed
  moreover have "(\<lambda>x. points es K [] x + int (count_list ?ws x)) = points es K [t]" unfolding c by (simp add: fun_eq_iff)
  ultimately show ?thesis unfolding seed_vertex_eq[OF wf t] window_ok_def by simp
qed

lemma enter_ok:
  assumes wf: "go_wf n es" and v: "v < n" and ps: "distinct (ps @ [v])" "set ps \<subseteq> {..<n}" and q: "window_ok n es K S ps h"
  shows "\<exists>h'. enter_window (go_full n es) (int K) (int v) (h, marks n {}) = Some (h', marks n {}) \<and> window_ok n es K S (ps @ [v]) h'"
proof -
  let ?ws = "gives es K {} v"
  have eq: "(\<lambda>x. points es K ps x + int (count_list ?ws x)) = points es K (ps @ [v])"
    by (simp add: fun_eq_iff pts_def)
  have "\<exists>h'. mfold (\<lambda>w. bump (int w)) ?ws h = Some h' \<and> queue_ok n (int (2 * length es)) S (\<lambda>x. points es K ps x + int (count_list ?ws x)) h'"
  proof (rule uh.incs_ok[OF q[unfolded window_ok_def] set_gives[OF wf v]])
    show "points es K ps x + int (count_list ?ws x) \<le> int (2 * length es)" for x
      using points_bounds(2)[OF wf ps(1), of K x] ps(2) v by (simp add: pts_def)
  qed
  then show ?thesis unfolding enter_window_eq[OF wf v empty_subsetI] eq window_ok_def by auto
qed

lemma leave_enter_ok:
  assumes wf: "go_wf n es" and v: "v < n" and ps: "distinct (p # ps @ [v])" "set (p # ps) \<subseteq> {..<n}" and q: "window_ok n es K S (p # ps) h"
  shows "\<exists>h'. do { s \<leftarrow> leave_window (go_full n es) (int K) (int p) (int v) (h, marks n {}); enter_window (go_full n es) (int K) (int v) s } =
    Some (h', marks n {}) \<and> window_ok n es K S (ps @ [v]) h'"
proof -
  let ?M = "int (2 * length es)" and ?F = "common es K p v"
  let ?lv = "gives es K ?F p" and ?en = "gives es K ?F v"
  define X where "X x = (\<Sum>u \<in> ?F. count_list (bucket es u) x)" for x
  have p: "p < n" using ps(2) by simp
  have Fp: "?F \<subseteq> {u \<in> set (ins es p). light es K u \<and> 1 < length (bucket es u)}" by (auto simp: common_def)
  have Fv: "?F \<subseteq> {u \<in> set (ins es v). light es K u \<and> 1 < length (bucket es u)}"
  proof
    fix u assume u: "u \<in> ?F"
    then have "u < n" using edge_less_n(2)[OF wf p] by (auto simp: common_def)
    then show "u \<in> {u \<in> set (ins es v). light es K u \<and> 1 < length (bucket es u)}"
      using u edge_less_n(3)[OF wf, of u v] edge_less_n(4)[OF wf v, of u] by (simp add: common_def)
  qed
  have cp: "pts es K p x = count_list ?lv x + X x" and cv: "pts es K v x = count_list ?en x + X x" for x
    using count_gives[OF wf Fp] count_gives[OF wf Fv] by (simp_all add: X_def)
  let ?sc = "\<lambda>x. points es K (p # ps) x - int (count_list ?lv x)"
  have "\<exists>h1. mfold (\<lambda>w. DecrementKey (int w)) ?lv h = Some h1 \<and> queue_ok n ?M S ?sc h1"
  proof (rule uh.decs_ok[OF q[unfolded window_ok_def] set_gives[OF wf p]])
    show "int (count_list ?lv x) \<le> points es K (p # ps) x" for x
      using points_bounds(1)[OF wf, of ps K x] ps by (simp add: cp)
  qed
  then obtain h1 where h1: "mfold (\<lambda>w. DecrementKey (int w)) ?lv h = Some h1" "queue_ok n ?M S ?sc h1" by blast
  have eq: "(\<lambda>x. ?sc x + int (count_list ?en x)) = points es K (ps @ [v])"
    by (simp add: fun_eq_iff cp cv)
  have "\<exists>h2. mfold (\<lambda>w. bump (int w)) ?en h1 = Some h2 \<and> queue_ok n ?M S (\<lambda>x. ?sc x + int (count_list ?en x)) h2"
  proof (rule uh.incs_ok[OF h1(2) set_gives[OF wf v]])
    show "?sc x + int (count_list ?en x) \<le> ?M" for x
      using points_bounds(2)[OF wf, of "ps @ [v]" K x] ps v fun_cong[OF eq, of x] by simp
  qed
  then obtain h2 where h2: "mfold (\<lambda>w. bump (int w)) ?en h1 = Some h2" "queue_ok n ?M S (points es K (ps @ [v])) h2"
    unfolding eq by blast
  have "?F \<subseteq> {u \<in> set (ins es v). light es K u}" using Fv by auto
  then show ?thesis
    using leave_window_eq[OF wf p, of K v h] enter_window_eq[OF wf v, of ?F K h1] h1(1) h2 by (simp add: window_ok_def)
qed

text \<open>C29: The incremental scores are those from scratch: when \<open>p\<close> leaves the window and \<open>v\<close> enters it, the queue's scores
  against \<open>p, ps\<close> become the scores against \<open>ps, v\<close>, although what \<open>p\<close> and \<open>v\<close> give through a common in-neighbour is
  neither taken nor added; and no mark is left behind.\<close>

theorem window_scores:
  assumes "go_wf n es" "v < n" "distinct (p # ps @ [v])" "set (p # ps) \<subseteq> {..<n}"
    "queue_ok n (int (2 * length es)) S (points es K (p # ps)) h"
  shows "\<exists>h'. do {
      s \<leftarrow> leave_window (go_full n es) (int K) (int p) (int v) (h, replicate n False);
      enter_window (go_full n es) (int K) (int v) s } = Some (h', replicate n False) \<and>
    queue_ok n (int (2 * length es)) S (points es K (ps @ [v])) h'"
proof -
  have "replicate n False = marks n {}" by (rule nth_equalityI) auto
  then show ?thesis using leave_enter_ok[OF assms(1-4), of K S h] assms(5) by (simp add: window_ok_def)
qed

theorem window_scores_witness:
  defines "h \<equiv> \<lparr>updates = [DONE + 1, DONE + 1, DONE + 1], LinkedList = replicate 3 \<lparr>lkey = 0, lprev = -1, lnext = -1\<rparr>,
     Header = replicate 4 no_head, heap_top = -1, heapsize = 3\<rparr>"
  shows "\<exists>h'. do {
      s \<leftarrow> leave_window (go_full 3 [(0, 1), (0, 2)]) (int 2) (int 1) (int 2) (h, replicate 3 False);
      enter_window (go_full 3 [(0, 1), (0, 2)]) (int 2) (int 2) s } = Some (h', replicate 3 False) \<and>
    queue_ok 3 4 {} (points [(0, 1), (0, 2)] 2 [2]) h'"
proof -
  let ?es = "[(0, 1), (0, 2)] :: (nat \<times> nat) list"
  have wf: "go_wf 3 ?es" by (simp add: go_wf_def)
  have p: "points ?es 2 [1] x = 1" if "x < 3" for x
    using that by (auto simp: pts_def gives_def outs_def reach_def light_def bucket_def less_Suc_eq numeral_eq_Suc)
  have "heap_ok 3 [] h"
    by (auto simp: h_def heap_ok_def heads_ok_def head_of_def no_head_def)
  then have "queue_ok 3 4 {} (points ?es 2 [1]) h"
  proof (rule queue_okI[rotated])
    fix x :: nat assume x: "x < 3"
    show "0 \<le> points ?es 2 [1] x \<and> points ?es 2 [1] x \<le> 4" unfolding p[OF x] by simp
    show "DONE - 4 \<le> updates h ! x - points ?es 2 [1] x \<and> updates h ! x - points ?es 2 [1] x \<le> DONE"
      unfolding p[OF x] using x by (auto simp: h_def less_Suc_eq numeral_eq_Suc)
  qed simp_all
  then show ?thesis using window_scores[OF wf, of 2 1 "[]" "{}" 2 h] by simp
qed

end
