(* ===== verification/Gorder_Greedy.thy ===== *)
theory Gorder_Greedy
  imports Gorder_Scores
begin

text \<open>
  The greedy order of Gorder (\<open>Graph::GorderGreedy\<close>): the vertex with the highest score against the last \<open>window\<close>
  placed vertices comes next. The scores are kept in a \<open>UnitHeap\<close>.
\<close>

section \<open>The code\<close>

record greedy =
  gcount :: int
  gorder :: "int list"
  gheap :: unit_heap
  gexist :: "bool list"

definition greedy_step :: "go_graph \<Rightarrow> int \<Rightarrow> int \<Rightarrow> greedy \<Rightarrow> greedy option" where
  "greedy_step G huge window st = do {
     (v, h) \<leftarrow> ExtractMax (gheap st);
     count \<leftarrow> int32 (gcount st + 1);
     let order = gorder st @ [v];
     h \<leftarrow> set_update v DONE h;
     c \<leftarrow> int32 (count - window);
     popv \<leftarrow> (if c \<ge> 0 then iget order c else Some (-1));
     s \<leftarrow> (if popv \<ge> 0 then leave_window G huge popv v (h, gexist st) else Some (h, gexist st));
     s \<leftarrow> enter_window G huge v s;
     Some \<lparr>gcount = count, gorder = order, gheap = fst s, gexist = snd s\<rparr>
   }"

text \<open>\<open>count < vsize-1-zero.size()\<close>: the right-hand side is unsigned.\<close>

partial_function (option) greedy_loop :: "go_graph \<Rightarrow> int \<Rightarrow> int \<Rightarrow> int \<Rightarrow> greedy \<Rightarrow> greedy option" where
  "greedy_loop G huge window zeros st =
     (if gcount st < (vsize G - 1 - zeros) mod 2 ^ 64 then do {
        st \<leftarrow> greedy_step G huge window st;
        greedy_loop G huge window zeros st
      } else Some st)"

declare greedy_loop.simps [code]

text \<open>The keys are the in-degrees; the vertices without edges go to \<open>zero\<close>, the first vertex with the most incoming
  edges starts the order.\<close>

definition init_keys :: "go_graph \<Rightarrow> unit_heap \<Rightarrow> unit_heap option" where
  "init_keys G h = int_for 0 (vsize G) (\<lambda>i h. do {
     x \<leftarrow> iget (vertices G) i;
     LL \<leftarrow> modify (LinkedList h) i (\<lambda>e. e\<lparr>lkey := indeg x\<rparr>);
     set_update i (- indeg x) (h\<lparr>LinkedList := LL\<rparr>)
   }) h"

definition find_seed :: "go_graph \<Rightarrow> unit_heap \<Rightarrow> (unit_heap \<times> int list \<times> int option) option" where
  "find_seed G h = do {
     (h, zero, tmpindex, tmpweight) \<leftarrow> int_for 0 (vsize G) (\<lambda>i (h, zero, tmpindex, tmpweight). do {
       x \<leftarrow> iget (vertices G) i;
       if indeg x > tmpweight then Some (h, zero, Some i, indeg x)
       else do {
         d \<leftarrow> int32 (indeg x + outdegree x);
         if d = 0 then do {
           h \<leftarrow> set_update i DONE h;
           h \<leftarrow> DeleteElement i h;
           Some (h, zero @ [i], tmpindex, tmpweight)
         } else Some (h, zero, tmpindex, tmpweight)
       }
     }) (h, [], None, -1);
     Some (h, zero, tmpindex)
   }"

definition isqrt :: "nat \<Rightarrow> nat" where
  "isqrt n = length (takeWhile (\<lambda>k. Suc k * Suc k \<le> n) [0..<n])"

text \<open>Everything before the loop: its first state and the vertices without edges.\<close>

definition greedy_init :: "sorts \<Rightarrow> go_graph \<Rightarrow> (greedy \<times> int list) option" where
  "greedy_init lib G = do {
     let n = vsize G;
     h \<leftarrow> new_heap n;
     popvexist \<leftarrow> new_array n False;
     let huge = int (isqrt (nat n));
     h \<leftarrow> init_keys G h;
     h \<leftarrow> ReConstruct lib h;
     (h, zero, tmpindex) \<leftarrow> find_seed G h;
     t \<leftarrow> tmpindex;
     h \<leftarrow> set_update t DONE h;
     h \<leftarrow> DeleteElement t h;
     h \<leftarrow> seed_vertex G huge t h;
     Some (\<lparr>gcount = 0, gorder = [t], gheap = h, gexist = popvexist\<rparr>, zero)
   }"

definition GorderGreedy :: "sorts \<Rightarrow> go_graph \<Rightarrow> int \<Rightarrow> int list option" where
  "GorderGreedy lib G window = do {
     let n = vsize G;
     (st, zero) \<leftarrow> greedy_init lib G;
     st \<leftarrow> greedy_loop G (int (isqrt (nat n))) window (int (length zero)) st;
     let order = butlast (gorder st) @ zero @ [last (gorder st)];
     ret \<leftarrow> new_array n 0;
     int_for 0 n (\<lambda>i r. do { v \<leftarrow> iget order i; iput r v i }) ret
   }"


section \<open>The first vertex\<close>

lemma init_keys_ok:
  assumes wf: "go_wf n es" and h: "length (LinkedList h) = n" "length (updates h) = n"
  shows "\<exists>h'. init_keys (go_full n es) h = Some h' \<and> length (LinkedList h') = n \<and> length (updates h') = n \<and>
    Header h' = Header h \<and> heapsize h' = heapsize h \<and>
    (\<forall>v<n. hkey h' v = int (length (ins es v)) \<and> updates h' ! v = - int (length (ins es v)))"
proof -
  let ?P = "\<lambda>i h'. length (LinkedList h') = n \<and> length (updates h') = n \<and> Header h' = Header h \<and> heapsize h' = heapsize h \<and>
    (\<forall>v<i. hkey h' v = int (length (ins es v)) \<and> updates h' ! v = - int (length (ins es v)))"
  have "ok (init_keys (go_full n es) h) (?P n)"
    unfolding init_keys_def go_full_simps int_for_0
  proof (rule ok_for_range[where P = ?P])
    fix i h' assume i: "i < n" and P: "?P i h'"
    then show "ok (do {
        x \<leftarrow> iget (vertices (go_of n es)) (int i);
        LL \<leftarrow> modify (LinkedList h') (int i) (\<lambda>e. e\<lparr>lkey := indeg x\<rparr>);
        set_update (int i) (- indeg x) (h'\<lparr>LinkedList := LL\<rparr>)
      }) (?P (Suc i))"
      by (auto simp: set_update_ok vert_simps hkey_def nth_list_update less_Suc_eq)
  qed (use h in auto)
  then show ?thesis by (auto simp: ok_iff)
qed

text \<open>The state of the search after the vertices below \<open>i\<close>: \<open>zs\<close> have no edges and left the queue.\<close>

definition seeking :: "nat \<Rightarrow> (nat \<times> nat) list \<Rightarrow> nat \<Rightarrow> unit_heap \<Rightarrow> nat list \<Rightarrow> nat option \<Rightarrow> int \<Rightarrow> bool" where
  "seeking n es i h zs t wt \<longleftrightarrow>
     (\<exists>ys. heap_ok n ys h \<and> set ys = {..<n} - set zs) \<and> distinct zs \<and>
     (\<forall>v \<in> set zs. v < i \<and> ins es v = [] \<and> bucket es v = []) \<and>
     (\<forall>v<n. hkey h v = int (length (ins es v)) \<and> updates h ! v = (if v \<in> set zs then DONE else - int (length (ins es v)))) \<and>
     (case t of None \<Rightarrow> i = 0 \<and> wt = -1 | Some u \<Rightarrow> u < i \<and> u \<notin> set zs \<and> wt = int (length (ins es u)) \<and>
       (\<forall>v<i. length (ins es v) \<le> length (ins es u)))"

lemma drop_isolated:
  assumes s: "seeking n es i h zs t wt" and i: "i < n" "i \<notin> set zs" and z: "ins es i = []" "bucket es i = []"
    and t: "t = Some u"
  shows "\<exists>h'. do { h \<leftarrow> set_update (int i) DONE h; DeleteElement (int i) h } = Some h' \<and> seeking n es (Suc i) h' (zs @ [i]) t wt"
proof -
  obtain ys where ys: "heap_ok n ys h" "set ys = {..<n} - set zs" using s by (auto simp: seeking_def)
  have len: "length (updates h) = n" by (rule heap_okD(1)[OF ys(1)])
  let ?h = "h\<lparr>updates := (updates h)[i := DONE]\<rparr>"
  have ok: "heap_ok n ys ?h" using ys(1) by (simp add: heap_ok_updates)
  have "i \<in> set ys" using i ys(2) by simp
  then obtain h' where h': "DeleteElement (int i) ?h = Some h'" "heap_ok n (remove1 i ys) h'" "updates h' = updates ?h"
      "\<forall>y<n. hkey h' y = hkey ?h y"
    using DeleteElement_ok[OF ok] by blast
  have "set (remove1 i ys) = {..<n} - set (zs @ [i])" using heap_okD(3)[OF ys(1)] ys(2) by auto
  then have "\<exists>ys. heap_ok n ys h' \<and> set ys = {..<n} - set (zs @ [i])" using h'(2) by blast
  moreover have "hkey h' v = int (length (ins es v)) \<and>
      updates h' ! v = (if v \<in> set (zs @ [i]) then DONE else - int (length (ins es v)))" if "v < n" for v
    using s h'(3,4) that len by (auto simp: seeking_def nth_list_update)
  moreover have "u < Suc i" "u \<notin> set (zs @ [i])" "wt = int (length (ins es u))" "\<forall>v<Suc i. length (ins es v) \<le> length (ins es u)"
    using s t z(1) by (auto simp: seeking_def less_Suc_eq)
  ultimately have "seeking n es (Suc i) h' (zs @ [i]) t wt"
    using s t i z unfolding seeking_def by (auto simp: less_Suc_eq)
  then show ?thesis using h'(1) i len by (simp add: set_update_ok)
qed

lemma find_seed_ok:
  assumes wf: "go_wf n es" and s: "seeking n es 0 h [] None (-1)"
  shows "\<exists>h' zs t. find_seed (go_full n es) h = Some (h', map int zs, Some (int t)) \<and>
    seeking n es n h' zs (Some t) (int (length (ins es t)))"
proof -
  let ?G = "go_full n es"
  let ?body = "\<lambda>i (h, zero, tmpindex, tmpweight). do {
       x \<leftarrow> iget (vertices ?G) i;
       if indeg x > tmpweight then Some (h, zero, Some i, indeg x)
       else do {
         d \<leftarrow> int32 (indeg x + outdegree x);
         if d = 0 then do {
           h \<leftarrow> set_update i DONE h;
           h \<leftarrow> DeleteElement i h;
           Some (h, zero @ [i], tmpindex, tmpweight)
         } else Some (h, zero, tmpindex, tmpweight)
       }
     }"
  let ?P = "\<lambda>i s. \<exists>h zs t wt. s = (h, map int zs, map_option int t, wt) \<and> seeking n es i h zs t wt"
  have "ok (int_for 0 (int n) ?body (h, [], None, -1)) (?P n)"
    unfolding int_for_0
  proof (rule ok_for_range[where P = ?P])
    fix i st assume i: "i < n" and "?P i st"
    then obtain h zs t wt where st: "st = (h, map int zs, map_option int t, wt)" "seeking n es i h zs t wt" by blast
    have iz: "i \<notin> set zs" using st(2) by (auto simp: seeking_def)
    let ?d = "length (ins es i)" and ?e = "length (bucket es i)"
    have d: "int32 (int ?d + int ?e) = Some (int (?d + ?e))"
    proof -
      have "\<forall>(a, b) \<in> set es. a \<noteq> b" using go_wfD(8)[OF wf] by fastforce
      then have "?e + ?d \<le> length es" using degree_le[of es i] by (simp add: degree_def)
      then show ?thesis using go_wfD(3)[OF wf] by (simp add: int32_in)
    qed
    show "ok (?body (int i) st) (?P (Suc i))"
    proof (cases "wt < int ?d")
      case True
      then have "seeking n es (Suc i) h zs (Some i) (int ?d)"
        using st(2) iz by (auto simp: seeking_def less_Suc_eq split: option.splits)
      then show ?thesis using True i st(1) by (auto simp: vert_simps intro!: exI[of _ "Some i"])
    next
      case False
      then obtain u where u: "t = Some u" "wt = int (length (ins es u))" "u < i" using st(2) by (cases t) (auto simp: seeking_def)
      show ?thesis
      proof (cases "?d + ?e = 0")
        case True
        then have "ins es i = []" "bucket es i = []" by simp_all
        then obtain h' where h': "do { h \<leftarrow> set_update (int i) DONE h; DeleteElement (int i) h } = Some h'"
            "seeking n es (Suc i) h' (zs @ [i]) t wt"
          using drop_isolated[OF st(2) i iz _ _ u(1)] by blast
        then obtain h1 where h1: "set_update (int i) DONE h = Some h1" "DeleteElement (int i) h1 = Some h'"
          by (auto split: Option.bind_splits)
        have "?body (int i) st = Some (h', map int (zs @ [i]), map_option int t, wt)"
          using i False d True h1 by (simp add: st(1) vert_simps)
        then show ?thesis using h'(2) by (intro okI) blast+
      next
        case False
        have nz: "int ?d + int ?e \<noteq> 0" using False by linarith
        have "seeking n es (Suc i) h zs t wt"
          using st(2) u \<open>\<not> wt < int ?d\<close> by (auto simp: seeking_def less_Suc_eq)
        moreover have "?body (int i) st = Some (h, map int zs, map_option int t, wt)"
          using i \<open>\<not> wt < int ?d\<close> d nz by (simp add: st(1) vert_simps)
        ultimately show ?thesis by (intro okI) blast+
      qed
    qed
  qed (use s in \<open>auto intro!: exI[of _ "None :: nat option"]\<close>)
  then obtain h' zs t wt where r: "int_for 0 (int n) ?body (h, [], None, -1) = Some (h', map int zs, map_option int t, wt)"
      "seeking n es n h' zs t wt" by (auto simp: ok_iff)
  obtain u where u: "t = Some u" "wt = int (length (ins es u))" using r(2) go_wfD(1)[OF wf] by (cases t) (auto simp: seeking_def)
  then show ?thesis using r by (auto simp: find_seed_def)
qed



section \<open>The loop\<close>

text \<open>The placed vertices \<open>ord\<close> and the isolated ones \<open>zs\<close> are out of the queue, which holds the others; the scores are
  those against the last \<open>W\<close> placed vertices.\<close>

definition placing :: "nat \<Rightarrow> (nat \<times> nat) list \<Rightarrow> nat \<Rightarrow> nat \<Rightarrow> nat list \<Rightarrow> nat list \<Rightarrow> greedy \<Rightarrow> bool" where
  "placing n es K W zs ord st \<longleftrightarrow>
     distinct (ord @ zs) \<and> set (ord @ zs) \<subseteq> {..<n} \<and> ord \<noteq> [] \<and>
     gcount st = int (length ord) - 1 \<and> gorder st = map int ord \<and> gexist st = marks n {} \<and>
     window_ok n es K ({..<n} - set (ord @ zs)) (drop (length ord - W) ord) (gheap st)"

lemma greedy_step_ok:
  assumes wf: "go_wf n es" and W: "0 < W" "W < U32 div 2" and p: "placing n es K W zs ord st" and S: "{..<n} - set (ord @ zs) \<noteq> {}"
    and l: "\<not> lone_debt ({..<n} - set (ord @ zs)) (gheap st)"
  shows "\<exists>v st'. greedy_step (go_full n es) (int K) (int W) st = Some st' \<and> v \<in> {..<n} - set (ord @ zs) \<and>
    placing n es K W zs (ord @ [v]) st'"
proof -
  let ?G = "go_full n es" and ?S = "{..<n} - set (ord @ zs)" and ?l = "length ord"
  have d: "distinct (ord @ zs)" "set (ord @ zs) \<subseteq> {..<n}" "ord \<noteq> []" "gcount st = int ?l - 1" "gorder st = map int ord"
      "gexist st = marks n {}" "window_ok n es K ?S (drop (?l - W) ord) (gheap st)"
    using p unfolding placing_def by blast+
  obtain v h where v: "take_max (gheap st) = Some (int v, h)" "v \<in> ?S" "v < n" "window_ok n es K (?S - {v}) (drop (?l - W) ord) h"
    using uh.pull_ok[OF d(7)[unfolded window_ok_def] S l] unfolding window_ok_def by blast
  obtain h0 where h0: "ExtractMax (gheap st) = Some (int v, h0)" "set_update (int v) DONE h0 = Some h"
    using v(1) by (auto simp: take_max_def split: Option.bind_splits)
  have len: "?l \<le> n" using distinct_card[of ord] d(1,2) card_mono[of "{..<n}" "set ord"] by simp
  have c: "int32 (int ?l - 1 + 1) = Some (int ?l)" "int32 (int ?l - int W) = Some (int ?l - int W)"
    using len go_wfD(2)[OF wf] W by (simp_all add: int32_in)
  have S': "{..<n} - set ((ord @ [v]) @ zs) = ?S - {v}" by auto
  have dv: "distinct (drop (?l - W) ord @ [v])" "set (drop (?l - W) ord) \<subseteq> {..<n}"
    using d(1,2) v(2) by (auto dest: in_set_dropD)
  have "\<exists>h'. do {
       s \<leftarrow> do { popv \<leftarrow> (if int ?l - int W \<ge> 0 then iget (map int ord @ [int v]) (int ?l - int W) else Some (-1));
         if popv \<ge> 0 then leave_window ?G (int K) popv (int v) (h, marks n {}) else Some (h, marks n {}) };
       enter_window ?G (int K) (int v) s } = Some (h', marks n {}) \<and>
    window_ok n es K (?S - {v}) (drop (length (ord @ [v]) - W) (ord @ [v])) h'"
  proof (cases "W \<le> ?l")
    case True
    let ?p = "ord ! (?l - W)"
    have lt: "?l - W < ?l" using W(1) True d(3) by simp
    then have dr: "drop (?l - W) ord = ?p # drop (Suc (?l - W)) ord" by (rule Cons_nth_drop_Suc[symmetric])
    have pop: "iget (map int ord @ [int v]) (int ?l - int W) = Some (int ?p)"
      using lt True by (simp add: iget_def aget_def nth_append nat_diff_distrib)
    have e: "drop (length (ord @ [v]) - W) (ord @ [v]) = drop (Suc (?l - W)) ord @ [v]"
      using True lt by (simp add: Suc_diff_le)
    have "int ?l - int W \<ge> 0" using True by simp
    then show ?thesis
      using leave_enter_ok[OF wf v(3) dv(1)[unfolded dr append_Cons] dv(2)[unfolded dr] v(4)[unfolded dr]] pop unfolding e by simp
  next
    case False
    have "drop (length (ord @ [v]) - W) (ord @ [v]) = drop (?l - W) ord @ [v]" using False by simp
    then show ?thesis using enter_ok[OF wf v(3) dv v(4)] False by simp
  qed
  then obtain h' where h': "do {
       s \<leftarrow> do { popv \<leftarrow> (if int ?l - int W \<ge> 0 then iget (map int ord @ [int v]) (int ?l - int W) else Some (-1));
         if popv \<ge> 0 then leave_window ?G (int K) popv (int v) (h, marks n {}) else Some (h, marks n {}) };
       enter_window ?G (int K) (int v) s } = Some (h', marks n {})"
    "window_ok n es K (?S - {v}) (drop (length (ord @ [v]) - W) (ord @ [v])) h'" by blast
  let ?st = "\<lparr>gcount = int ?l, gorder = map int (ord @ [v]), gheap = h', gexist = marks n {}\<rparr>"
  have "greedy_step ?G (int K) (int W) st = Some ?st"
    using h'(1) h0 c d(4-6) by (auto simp: greedy_step_def Let_def split: Option.bind_splits if_splits)
  moreover have "placing n es K W zs (ord @ [v]) ?st"
    unfolding placing_def S' using d(1,2) v(2,3) h'(2) by auto
  ultimately show ?thesis using v(2) by blast
qed

lemma loop_guard:
  assumes "go_wf n es" "ord \<noteq> []" "length ord + k \<le> n"
  shows "int (length ord) - 1 < (int n - 1 - int k) mod 2 ^ 64 \<longleftrightarrow> length ord + k < n"
proof -
  have "1 \<le> length ord" using assms(2) by (cases ord) simp_all
  moreover have "int n < 2 ^ 64" using go_wfD(2)[OF assms(1)] by simp
  ultimately have "(int n - 1 - int k) mod 2 ^ 64 = int n - 1 - int k"
    using assms(3) by (intro mod_pos_pos_trivial) simp_all
  then show ?thesis using assms(3) by auto
qed

lemma placing_rest:
  assumes "placing n es K W zs ord st"
  shows "card ({..<n} - set (ord @ zs)) = n - length (ord @ zs)" "length (ord @ zs) \<le> n" "gcount st = int (length ord) - 1" "ord \<noteq> []"
proof -
  note d = assms[unfolded placing_def]
  have c: "card (set (ord @ zs)) = length (ord @ zs)" using d distinct_card by blast
  then show "card ({..<n} - set (ord @ zs)) = n - length (ord @ zs)" using d by (simp add: card_Diff_subset)
  show "length (ord @ zs) \<le> n" using c card_mono[of "{..<n}" "set (ord @ zs)"] d by simp
  show "gcount st = int (length ord) - 1" "ord \<noteq> []" using d by simp_all
qed

text \<open>The loop with its bound lowered by one stops before the last vertex; the loop of the code goes on from there.\<close>

lemma greedy_loop_most:
  assumes wf: "go_wf n es" and W: "0 < W" "W < U32 div 2" and p: "placing n es K W zs ord st" and S: "{..<n} - set (ord @ zs) \<noteq> {}"
  shows "\<exists>rest st' v. greedy_loop (go_full n es) (int K) (int W) (int (Suc (length zs))) st = Some st' \<and>
    placing n es K W zs (ord @ rest) st' \<and> {..<n} - set ((ord @ rest) @ zs) = {v} \<and>
    greedy_loop (go_full n es) (int K) (int W) (int (length zs)) st = greedy_loop (go_full n es) (int K) (int W) (int (length zs)) st'"
  using p S
proof (induction "n - length (ord @ zs)" arbitrary: ord st rule: less_induct)
  case less
  note r = placing_rest[OF less.prems(1)]
  let ?S = "{..<n} - set (ord @ zs)" and ?G = "go_full n es"
  have pos: "length ord + Suc (length zs) \<le> n" using r(1) less.prems(2) by (cases "card ?S") auto
  show ?case
  proof (cases "length ord + Suc (length zs) < n")
    case False
    then have "card ?S = 1" using r(1) pos by simp
    then obtain v where "?S = {v}" by (metis card_1_singletonE)
    moreover have g: "\<not> gcount st < (vsize ?G - 1 - int (Suc (length zs))) mod 2 ^ 64"
      using loop_guard[OF wf r(4) pos] False r(3) by simp
    have "greedy_loop ?G (int K) (int W) (int (Suc (length zs))) st = Some st" by (subst greedy_loop.simps) (rule if_not_P[OF g])
    ultimately show ?thesis
      using less.prems(1) by (intro exI[of _ "[]"] exI[of _ st] exI[of _ v]) simp
  next
    case True
    then have "card ?S \<noteq> 1" using r(1) by simp
    have l: "\<not> lone_debt ?S (gheap st)"
    proof
      assume "lone_debt ?S (gheap st)"
      then obtain u where "?S = {u}" unfolding lone_debt_def by blast
      then have "card ?S = 1" by (rule ssubst) simp
      with \<open>card ?S \<noteq> 1\<close> show False by (rule notE)
    qed
    obtain v st1 where st1: "greedy_step ?G (int K) (int W) st = Some st1" "placing n es K W zs (ord @ [v]) st1"
      using greedy_step_ok[OF wf W less.prems l] by blast
    note r1 = placing_rest[OF st1(2)]
    have "card ({..<n} - set ((ord @ [v]) @ zs)) \<noteq> 0" using r1(1) True by simp
    then have "{..<n} - set ((ord @ [v]) @ zs) \<noteq> {}" by (metis card.empty)
    moreover have "n - length ((ord @ [v]) @ zs) < n - length (ord @ zs)" using True by simp
    ultimately obtain rest st' w where h: "greedy_loop ?G (int K) (int W) (int (Suc (length zs))) st1 = Some st'"
        "placing n es K W zs ((ord @ [v]) @ rest) st'" "{..<n} - set (((ord @ [v]) @ rest) @ zs) = {w}"
        "greedy_loop ?G (int K) (int W) (int (length zs)) st1 = greedy_loop ?G (int K) (int W) (int (length zs)) st'"
      using less.hyps[OF _ st1(2)] by blast
    have g: "gcount st < (vsize ?G - 1 - int k) mod 2 ^ 64" if "k \<in> {length zs, Suc (length zs)}" for k
      using loop_guard[OF wf r(4), of k] that True r(3) by auto
    have eq: "greedy_loop ?G (int K) (int W) (int k) st = greedy_loop ?G (int K) (int W) (int k) st1" if "k \<in> {length zs, Suc (length zs)}" for k
      using g[OF that] st1(1) by (subst greedy_loop.simps) (simp only: if_True Option.bind.simps)
    show ?thesis
      using h eq[of "length zs"] eq[of "Suc (length zs)"]
      by (intro exI[of _ "v # rest"] exI[of _ st'] exI[of _ w]) (simp del: of_nat_Suc)
  qed
qed

text \<open>The last vertex.\<close>

lemma greedy_loop_last:
  assumes wf: "go_wf n es" and W: "0 < W" "W < U32 div 2" and p: "placing n es K W zs ord st" and S: "{..<n} - set (ord @ zs) = {v}"
  shows "if updates (gheap st) ! v < 0 then greedy_loop (go_full n es) (int K) (int W) (int (length zs)) st = None
    else \<exists>st'. greedy_loop (go_full n es) (int K) (int W) (int (length zs)) st = Some st' \<and> placing n es K W zs (ord @ [v]) st'"
proof -
  note r = placing_rest[OF p]
  let ?G = "go_full n es" and ?S = "{..<n} - set (ord @ zs)"
  have n: "length ord + Suc (length zs) = n" using r(1,2) S by simp
  then have g: "gcount st < (vsize ?G - 1 - int (length zs)) mod 2 ^ 64"
    using loop_guard[OF wf r(4), of "length zs"] r(3) by simp
  show ?thesis
  proof (cases "updates (gheap st) ! v < 0")
    case True
    have "queue_ok n (int (2 * length es)) ?S (points es K (drop (length ord - W) ord)) (gheap st)"
      using p by (simp add: placing_def window_ok_def)
    then have "ExtractMax (gheap st) = None" using ExtractMax_debt True S by (simp add: lone_debt_def)
    then have "greedy_step ?G (int K) (int W) st = None" by (simp add: greedy_step_def)
    then show ?thesis using True g by (subst greedy_loop.simps) simp
  next
    case False
    then have "\<not> lone_debt ?S (gheap st)" using S by (auto simp: lone_debt_def)
    then obtain u st1 where st1: "greedy_step ?G (int K) (int W) st = Some st1" "u \<in> ?S" "placing n es K W zs (ord @ [u]) st1"
      using greedy_step_ok[OF wf W p] S by blast
    have u: "u = v" using st1(2) S by blast
    have "gcount st1 = int (length (ord @ [v])) - 1" using placing_rest(3)[OF st1(3)] u by simp
    then have "\<not> gcount st1 < (vsize ?G - 1 - int (length zs)) mod 2 ^ 64"
      using loop_guard[OF wf, of "ord @ [v]" "length zs"] n by simp
    then have "greedy_loop ?G (int K) (int W) (int (length zs)) st1 = Some st1" by (subst greedy_loop.simps) simp
    then have "greedy_loop ?G (int K) (int W) (int (length zs)) st = Some st1"
      using g st1(1) by (subst greedy_loop.simps) (simp only: if_True Option.bind.simps)
    then show ?thesis using False st1(3) u by auto
  qed
qed

section \<open>The order\<close>

text \<open>
  Where \<open>GorderGreedy\<close> is defined: at least two vertices; few enough edges for \<open>INT_MAX/2\<close> to stay apart from the
  scores; in-degrees below the size of \<open>Header\<close>; a window.
\<close>

definition greedy_input :: "nat \<Rightarrow> (nat \<times> nat) list \<Rightarrow> bool" where
  "greedy_input n es \<longleftrightarrow> go_wf n es \<and> 2 \<le> n \<and> 2 * length es < 1073741823 \<and> (\<forall>v<n. length (ins es v) + 1 < max (n div 16) 4)"

lemma greedy_start:
  assumes lib: "sorts_ok lib" and i: "greedy_input n es"
  shows "\<exists>h0 h1 h2. new_heap (int n) = Some h0 \<and> init_keys (go_full n es) h0 = Some h1 \<and> ReConstruct lib h1 = Some h2 \<and>
    seeking n es 0 h2 [] None (-1)"
proof -
  have wf: "go_wf n es" and n: "2 \<le> n" and m: "2 * length es < 1073741823" and deg: "\<forall>v<n. length (ins es v) + 1 < max (n div 16) 4"
    using i by (simp_all add: greedy_input_def)
  obtain h0 where h0: "new_heap (int n) = Some h0" "heapsize h0 = int n" "length (LinkedList h0) = n" "updates h0 = replicate n 0"
      "length (Header h0) = max (n div 16) 4"
    using new_heap_ok[of n] n by auto
  obtain h1 where h1: "init_keys (go_full n es) h0 = Some h1" "length (LinkedList h1) = n" "length (updates h1) = n"
      "Header h1 = Header h0" "heapsize h1 = heapsize h0"
      "\<And>v. v < n \<Longrightarrow> hkey h1 v = int (length (ins es v)) \<and> updates h1 ! v = - int (length (ins es v))"
    using init_keys_ok[OF wf, of h0] h0 by auto
  have small: "hkey h1 v < 2 ^ 30" if "v < n" for v
    using h1(6)[OF that] m length_bucket_le[of "swaps es" v] by simp
  have "0 \<le> hkey h1 v \<and> hkey h1 v + 1 < int (length (Header h1))" if "v < n" for v
    using h1(4) h1(6)[OF that] deg that h0(5) by auto
  moreover have "4 \<le> length (Header h1)" using h1(4) h0(5) by simp
  ultimately obtain h2 xs where h2: "ReConstruct lib h1 = Some h2" "heap_ok n xs h2" "set xs = {..<n}" "updates h2 = updates h1"
      "\<forall>y<n. hkey h2 y = hkey h1 y"
    using ReConstruct_ok[OF lib n _ h1(2,3) _ _ small] h1(5) h0(2) by metis
  then have "seeking n es 0 h2 [] None (-1)" using h1(6) by (auto simp: seeking_def)
  then show ?thesis using h0(1) h1(1) h2(1) by blast
qed

lemma greedy_first:
  assumes wf: "go_wf n es" and m: "2 * length es < 1073741823" and s: "seeking n es n h zs (Some t) wt"
  shows "\<exists>h'. do { h \<leftarrow> set_update (int t) DONE h; DeleteElement (int t) h } = Some h' \<and> t < n \<and> t \<notin> set zs \<and>
    window_ok n es K ({..<n} - set ([t] @ zs)) [] h'"
proof -
  obtain ys where ys: "heap_ok n ys h" "set ys = {..<n} - set zs" using s by (auto simp: seeking_def)
  have t: "t < n" "t \<notin> set zs" using s by (simp_all add: seeking_def)
  have len: "length (updates h) = n" by (rule heap_okD(1)[OF ys(1)])
  let ?h = "h\<lparr>updates := (updates h)[t := DONE]\<rparr>"
  have ok: "heap_ok n ys ?h" using ys(1) by (simp add: heap_ok_updates)
  have "t \<in> set ys" using t ys(2) by simp
  then obtain h' where h': "DeleteElement (int t) ?h = Some h'" "heap_ok n (remove1 t ys) h'" "updates h' = updates ?h"
      "\<forall>y<n. hkey h' y = hkey ?h y"
    using DeleteElement_ok[OF ok] by blast
  have st: "set (remove1 t ys) = {..<n} - set ([t] @ zs)" using heap_okD(3)[OF ys(1)] ys(2) by auto
  have key: "hkey h' x = int (length (ins es x))" if "x < n" for x using s h'(4) that by (simp add: seeking_def)
  have up: "updates h' ! x = (if x = t \<or> x \<in> set zs then DONE else - int (length (ins es x)))" if "x < n" for x
    using s h'(3) that len by (auto simp: seeking_def nth_list_update)
  have "queue_ok n (int (2 * length es)) ({..<n} - set ([t] @ zs)) (points es K []) h'"
  proof (rule queue_okI[OF _ h'(2) st])
    fix x assume x: "x < n"
    have l: "length (ins es x) \<le> 2 * length es" using length_bucket_le[of "swaps es" x] by simp
    show "updates h' ! x \<le> 0 \<and> hkey h' x + updates h' ! x = points es K [] x \<and> hkey h' x \<le> int (2 * length es)"
      if "x \<in> {..<n} - set ([t] @ zs)"
      using that key[OF x] up[OF x] l by simp
    show "DONE - int (2 * length es) \<le> updates h' ! x - points es K [] x \<and> updates h' ! x - points es K [] x \<le> DONE"
      if "x \<notin> {..<n} - set ([t] @ zs)"
      using that x up[OF x] by auto
  qed (use m in auto)
  then show ?thesis using h'(1) t len by (auto simp: set_update_ok window_ok_def)
qed

lemma greedy_init_ok:
  assumes lib: "sorts_ok lib" and i: "greedy_input n es" and W: "0 < W"
  shows "\<exists>st zs t. greedy_init lib (go_full n es) = Some (st, map int zs) \<and> placing n es (isqrt n) W zs [t] st \<and>
    (\<forall>v \<in> set zs. ins es v = [] \<and> bucket es v = [])"
proof -
  have wf: "go_wf n es" and m: "2 * length es < 1073741823" using i by (simp_all add: greedy_input_def)
  let ?G = "go_full n es" and ?K = "isqrt n"
  obtain h0 h1 h2 where h: "new_heap (int n) = Some h0" "init_keys ?G h0 = Some h1" "ReConstruct lib h1 = Some h2"
      "seeking n es 0 h2 [] None (-1)"
    using greedy_start[OF lib i] by blast
  obtain h3 zs t where h3: "find_seed ?G h2 = Some (h3, map int zs, Some (int t))" "seeking n es n h3 zs (Some t) (int (length (ins es t)))"
    using find_seed_ok[OF wf h(4)] by blast
  obtain h4 h5 where h5: "set_update (int t) DONE h3 = Some h4" "DeleteElement (int t) h4 = Some h5" "t < n" "t \<notin> set zs"
      "window_ok n es ?K ({..<n} - set ([t] @ zs)) [] h5"
    using greedy_first[OF wf m h3(2), of ?K] unfolding bind_eq_Some_conv by blast
  obtain h6 where h6: "seed_vertex ?G (int ?K) (int t) h5 = Some h6" "window_ok n es ?K ({..<n} - set ([t] @ zs)) [t] h6"
    using seed_vertex_ok[OF wf h5(3,5)] by blast
  have z: "distinct ([t] @ zs)" "set ([t] @ zs) \<subseteq> {..<n}" "\<forall>v \<in> set zs. ins es v = [] \<and> bucket es v = []"
    using h3(2) h5(3,4) by (auto simp: seeking_def)
  let ?st = "\<lparr>gcount = 0, gorder = [int t], gheap = h6, gexist = replicate n False\<rparr>"
  have mk: "replicate n False = marks n {}" by (rule nth_equalityI) auto
  have dr: "drop (length [t] - W) [t] = [t]" using W by simp
  have "placing n es ?K W zs [t] ?st"
    unfolding placing_def dr using z h6(2) mk by simp
  moreover have "greedy_init lib ?G = Some (?st, map int zs)"
    unfolding greedy_init_def Let_def go_full_simps h(1-3) h3(1) h5(1,2) h6(1) nat_int Option.bind.simps new_array_int prod.case ..
  ultimately show ?thesis using z(3) by blast
qed

text \<open>From the end of the loop to the result.\<close>

lemma greedy_finish:
  assumes p: "placing n es K W zs (ord @ [v]) st" and all: "set ((ord @ [v]) @ zs) = {..<n}"
    and run: "GorderGreedy lib (go_full n es) window = do {
      let order = butlast (gorder st) @ map int zs @ [last (gorder st)];
      ret \<leftarrow> new_array (int n) 0;
      int_for 0 (int n) (\<lambda>i r. do { v \<leftarrow> iget order i; iput r v i }) ret }"
  shows "\<exists>r. GorderGreedy lib (go_full n es) window = Some (map int r) \<and> perm n r \<and> r ! v = n - 1"
proof -
  let ?all = "ord @ zs @ [v]"
  have d: "distinct ?all" "gorder st = map int (ord @ [v])" using p by (auto simp: placing_def)
  have set: "set ?all = {..<n}" using all by auto
  have len: "length ?all = n" using distinct_card[OF d(1)] unfolding set by simp
  have pm: "perm n ?all" by (rule distinct_perm) (use d set len in auto)
  have id: "bij_betw (\<lambda>i. i) {..<n} {..<n}" by (simp add: bij_betw_def)
  obtain r where r: "for_range 0 n (\<lambda>i r. do { v \<leftarrow> aget (map int ?all) i; iput r v (int i) }) (replicate n 0) = Some (map int r)"
    "perm n r" "\<And>i. i < n \<Longrightarrow> r ! (?all ! i) = i"
    using invert_loop[OF pm id] by blast
  have "?all ! (n - 1) = v" "n - 1 < n" using len by (auto simp: nth_append)
  then have "r ! v = n - 1" using r(3)[of "n - 1"] by simp
  moreover have "butlast (gorder st) @ map int zs @ [last (gorder st)] = map int ?all" by (simp add: d(2))
  then have "GorderGreedy lib (go_full n es) window = Some (map int r)"
    unfolding run Let_def new_array_int Option.bind.simps int_for_0 by (simp only: iget_int r(1))
  ultimately show ?thesis using r(2) by blast
qed

lemma GorderGreedy_ok:
  assumes lib: "sorts_ok lib" and i: "greedy_input n es" and es: "es \<noteq> []" and W: "0 < W" "W < U32 div 2"
  shows "\<exists>st zs st1 ord v. greedy_init lib (go_full n es) = Some (st, map int zs) \<and>
    greedy_loop (go_full n es) (int (isqrt n)) (int W) (int (Suc (length zs))) st = Some st1 \<and>
    placing n es (isqrt n) W zs ord st1 \<and> {..<n} - set (ord @ zs) = {v} \<and>
    (if updates (gheap st1) ! v < 0 then GorderGreedy lib (go_full n es) (int W) = None
     else \<exists>r. GorderGreedy lib (go_full n es) (int W) = Some (map int r) \<and> perm n r \<and> r ! v = n - 1)"
proof -
  have wf: "go_wf n es" using i by (simp add: greedy_input_def)
  let ?G = "go_full n es" and ?K = "isqrt n"
  obtain st zs t where st: "greedy_init lib ?G = Some (st, map int zs)" "placing n es ?K W zs [t] st"
      "\<And>v. v \<in> set zs \<Longrightarrow> ins es v = [] \<and> bucket es v = []"
    using greedy_init_ok[OF lib i W(1)] by blast
  obtain a b where ab: "(a, b) \<in> set es" using es by (cases es) auto
  have "a < n" "b < n" "a \<noteq> b" using go_wfD(6-8)[OF wf ab] by simp_all
  moreover have "b \<in> set (bucket es a)" "a \<in> set (ins es b)" using ab by (force simp: bucket_def)+
  then have "a \<notin> set zs" "b \<notin> set zs" using st(3)[of a] st(3)[of b] by auto
  ultimately have "a \<in> {..<n} - set ([t] @ zs) \<or> b \<in> {..<n} - set ([t] @ zs)" by auto
  then have "{..<n} - set ([t] @ zs) \<noteq> {}" by blast
  then obtain rest st1 v where l: "greedy_loop ?G (int ?K) (int W) (int (Suc (length zs))) st = Some st1"
      "placing n es ?K W zs ([t] @ rest) st1" "{..<n} - set (([t] @ rest) @ zs) = {v}"
      "greedy_loop ?G (int ?K) (int W) (int (length zs)) st = greedy_loop ?G (int ?K) (int W) (int (length zs)) st1"
    using greedy_loop_most[OF wf W st(2)] by blast
  have run: "GorderGreedy lib ?G (int W) = do {
      st \<leftarrow> greedy_loop ?G (int ?K) (int W) (int (length zs)) st1;
      let order = butlast (gorder st) @ map int zs @ [last (gorder st)];
      ret \<leftarrow> new_array (int n) 0;
      int_for 0 (int n) (\<lambda>i r. do { v \<leftarrow> iget order i; iput r v i }) ret }"
    unfolding GorderGreedy_def Let_def go_full_simps st(1) Option.bind.simps prod.case length_map nat_int l(4) ..
  have "if updates (gheap st1) ! v < 0 then GorderGreedy lib ?G (int W) = None
     else \<exists>r. GorderGreedy lib ?G (int W) = Some (map int r) \<and> perm n r \<and> r ! v = n - 1"
  proof (cases "updates (gheap st1) ! v < 0")
    case True
    then show ?thesis using greedy_loop_last[OF wf W l(2,3)] run by simp
  next
    case False
    then obtain st2 where st2: "greedy_loop ?G (int ?K) (int W) (int (length zs)) st1 = Some st2"
        "placing n es ?K W zs (([t] @ rest) @ [v]) st2"
      using greedy_loop_last[OF wf W l(2,3)] by auto
    have "set ((([t] @ rest) @ [v]) @ zs) = {..<n}"
    proof -
      have "set (([t] @ rest) @ zs) \<subseteq> {..<n}" using l(2) unfolding placing_def by blast
      then show ?thesis using l(3) by auto
    qed
    from greedy_finish[OF st2(2) this] False show ?thesis using run unfolding st2(1) Option.bind.simps by auto
  qed
  then show ?thesis using st(1) l(1-3) by blast
qed

text \<open>C28: \<open>GorderGreedy\<close> on a graph with edges, few enough of them for \<open>INT_MAX/2\<close>, and every in-degree below the size of the header;
  for every window. It starts, and its loop, stopped one round early, terminates without undefined behaviour: every vertex
  is placed once or has no edges, but for one, \<open>v\<close>. What then happens depends on \<open>v\<close> alone. If \<open>v\<close> owes a decrease, the code
  reads \<open>LinkedList[-1]\<close>, which is undefined; otherwise it returns a permutation of the vertices in which \<open>v\<close> is the last.\<close>

theorem GorderGreedy_permutation:
  assumes "sorts_ok lib" "go_wf n es" "es \<noteq> []" "2 * length es < 1073741823" "\<forall>v<n. length (bucket (swaps es) v) + 1 < max (n div 16) 4"
    "0 < W" "W < U32 div 2"
  shows "\<exists>st zs st1 v. greedy_init lib (go_full n es) = Some (st, zs) \<and>
    greedy_loop (go_full n es) (int (isqrt n)) (int W) (int (length zs) + 1) st = Some st1 \<and>
    distinct (gorder st1 @ zs @ [int v]) \<and> set (gorder st1 @ zs @ [int v]) = {0..<int n} \<and>
    (if updates (gheap st1) ! v < 0 then GorderGreedy lib (go_full n es) (int W) = None
     else \<exists>r. GorderGreedy lib (go_full n es) (int W) = Some (map int r) \<and>
       length r = n \<and> bij_betw ((!) r) {..<n} {..<n} \<and> r ! v = n - 1)"
proof -
  obtain a b where "(a, b) \<in> set es" using assms(3) by (cases es) auto
  then have "a < n" "b < n" "a \<noteq> b" using go_wfD(6-8)[OF assms(2)] by fastforce+
  then have i: "greedy_input n es" using assms by (simp add: greedy_input_def)
  obtain st zs st1 ord v where r: "greedy_init lib (go_full n es) = Some (st, map int zs)"
    "greedy_loop (go_full n es) (int (isqrt n)) (int W) (int (Suc (length zs))) st = Some st1"
    "placing n es (isqrt n) W zs ord st1" "{..<n} - set (ord @ zs) = {v}"
    "if updates (gheap st1) ! v < 0 then GorderGreedy lib (go_full n es) (int W) = None
     else \<exists>r. GorderGreedy lib (go_full n es) (int W) = Some (map int r) \<and> perm n r \<and> r ! v = n - 1"
    using GorderGreedy_ok[OF assms(1) i assms(3,6,7)] by blast
  have o: "gorder st1 @ map int zs @ [int v] = map int (ord @ zs @ [v])" "distinct (ord @ zs)" "set (ord @ zs) \<subseteq> {..<n}"
    using r(3) by (simp_all add: placing_def)
  have l: "distinct (ord @ zs @ [v])" "set (ord @ zs @ [v]) = {..<n}" using o(2,3) r(4) by auto
  have "distinct (map int (ord @ zs @ [v]))" unfolding distinct_map using l(1) by (simp only: inj_on_of_nat simp_thms)
  moreover have "set (map int (ord @ zs @ [v])) = {0..<int n}"
    unfolding set_map l(2) lessThan_atLeast0 image_int_atLeastLessThan by simp
  ultimately have c: "distinct (gorder st1 @ map int zs @ [int v])" "set (gorder st1 @ map int zs @ [int v]) = {0..<int n}"
    unfolding o(1) by blast+
  show ?thesis
    by (rule exI[of _ st], rule exI[of _ "map int zs"], rule exI[of _ st1], rule exI[of _ v])
      (use c r(1,2,5) in \<open>auto simp: perm_def add.commute split: if_splits\<close>)
qed

text \<open>On the same vertices, a graph whose last vertex owes nothing, and one whose last vertex owes a decrease.\<close>

theorem GorderGreedy_permutation_witness:
  "\<exists>st zs st1 v. greedy_init insertion_sorts (go_full 3 [(0, 1), (0, 2)]) = Some (st, zs) \<and>
    greedy_loop (go_full 3 [(0, 1), (0, 2)]) (int (isqrt 3)) 1 (int (length zs) + 1) st = Some st1 \<and>
    \<not> updates (gheap st1) ! v < 0 \<and>
    (\<exists>r. GorderGreedy insertion_sorts (go_full 3 [(0, 1), (0, 2)]) 1 = Some (map int r) \<and>
      length r = 3 \<and> bij_betw ((!) r) {..<3} {..<3} \<and> r ! v = 2)"
proof -
  let ?es = "[(0, 1), (0, 2)] :: (nat \<times> nat) list"
  have run: "GorderGreedy insertion_sorts (go_full 3 ?es) 1 = Some [2, 0, 1]" by code_simp
  have wf: "go_wf 3 ?es" by (simp add: go_wf_def)
  have d: "\<forall>v<3. length (bucket (swaps ?es) v) + 1 < max (3 div 16) 4" by (simp add: bucket_def)
  have m: "?es \<noteq> []" "2 * length ?es < 1073741823" "(1 :: nat) < U32 div 2" by simp_all
  obtain st zs st1 v where t: "greedy_init insertion_sorts (go_full 3 ?es) = Some (st, zs)"
    "greedy_loop (go_full 3 ?es) (int (isqrt 3)) 1 (int (length zs) + 1) st = Some st1"
    "if updates (gheap st1) ! v < 0 then GorderGreedy insertion_sorts (go_full 3 ?es) 1 = None
     else \<exists>r. GorderGreedy insertion_sorts (go_full 3 ?es) 1 = Some (map int r) \<and>
       length r = 3 \<and> bij_betw ((!) r) {..<3} {..<3} \<and> r ! v = 3 - 1"
    using GorderGreedy_permutation[OF insertion_sorts_ok wf m(1,2) d zero_less_one m(3), unfolded of_nat_1] by blast
  have n: "\<not> updates (gheap st1) ! v < 0" using t(3) run by auto
  then have "\<exists>r. GorderGreedy insertion_sorts (go_full 3 ?es) 1 = Some (map int r) \<and>
      length r = 3 \<and> bij_betw ((!) r) {..<3} {..<3} \<and> r ! v = 2" using t(3) by simp
  with t(1,2) n show ?thesis by blast
qed

theorem GorderGreedy_undefined:
  "GorderGreedy insertion_sorts (go_full 3 [(0, 1), (0, 2), (1, 0)]) 1 = None"
  by code_simp

end
