(* ===== verification/Gorder_Main.thy ===== *)
theory Gorder_Main
  imports Gorder_Greedy
begin

text \<open>
  The program \<open>Gorder\<close> (\<open>gorder/Gorder_code/main.cpp\<close>): from the command line to the file of the reordered graph.
\<close>

section \<open>The code\<close>

text \<open>The name without its extension; without a dot \<open>find_last_of\<close> gives \<open>npos\<close>, and \<open>substr\<close> keeps everything.\<close>

definition extractFilename :: "string \<Rightarrow> string" where
  "extractFilename s = (if CHR ''.'' \<in> set s then rev (tl (dropWhile (\<lambda>c. c \<noteq> CHR ''.'') (rev s))) else s)"

text \<open>The loop over the arguments. A call of \<open>quit\<close> is the inner \<open>None\<close>; \<open>-w\<close> as the last argument passes the null pointer
  \<open>argv[argc]\<close> to \<open>atoi\<close>.\<close>

fun go_args :: "string list \<Rightarrow> int \<Rightarrow> string \<Rightarrow> (int \<times> string) option option" where
  "go_args [] W filename = Some (Some (W, filename))"
| "go_args (a # as) W filename =
     (if a = ''-w'' then (case as of
        [] \<Rightarrow> None
      | b # bs \<Rightarrow> do {
          w \<leftarrow> atoi b;
          let W = to_int32 w;
          if W \<le> 0 then Some None else go_args bs W filename
        })
      else go_args as W a)"

definition go_main :: "sorts \<Rightarrow> file_system \<Rightarrow> (string \<Rightarrow> bool) \<Rightarrow> string list \<Rightarrow> outcome option" where
  "go_main lib fs writable argv = (
     if length argv = 1 then Some (0, [])
     else do {
       args \<leftarrow> go_args (tl argv) 5 [];
       case args of
         None \<Rightarrow> Some (0, [])
       | Some (W, filename) \<Rightarrow> do {
           let name = extractFilename filename;
           g \<leftarrow> readGraph lib (fs filename);
           case g of
             None \<Rightarrow> Some (0, [])
           | Some g \<Rightarrow> do {
               g \<leftarrow> Transform lib g;
               case g of
                 None \<Rightarrow> Some (0, [])
               | Some g \<Rightarrow> do {
                   order \<leftarrow> GorderGreedy lib g W;
                   s \<leftarrow> PrintReOrderedGraph lib g order;
                   let out = name @ ''_Gorder.txt'';
                   Some (0, if writable out then [(out, s)] else [])
                 }
             }
         }
     })"


section \<open>Renaming twice\<close>

lemma perm_comp:
  assumes "perm n r" "perm n q"
  shows "perm n (map (\<lambda>v. r ! (q ! v)) [0..<n])"
proof -
  have "bij_betw (\<lambda>v. r ! (q ! v)) {..<n} {..<n}"
    using bij_betw_trans[of "(!) q" "{..<n}" "{..<n}" "(!) r" "{..<n}"] assms by (simp add: perm_def comp_def)
  then have "bij_betw ((!) (map (\<lambda>v. r ! (q ! v)) [0..<n])) {..<n} {..<n}"
    by (rule bij_betw_cong[THEN iffD1, rotated]) simp
  then show ?thesis by (simp add: perm_def)
qed

lemma rename_rename:
  assumes "\<And>p. p \<in> set es \<Longrightarrow> fst p < n \<and> snd p < n"
  shows "rename r (rename q es) = rename (map (\<lambda>v. r ! (q ! v)) [0..<n]) es"
  using assms by (force simp: rename_def)

lemma sort_rename:
  assumes "mset qs = mset es"
  shows "sort (rename r qs) = sort (rename r es)"
  by (rule properties_for_sort) (simp_all add: rename_def assms)

lemma ins_sort: "length (ins (sort es) v) = length (ins es v)"
proof -
  have "mset (filter (\<lambda>p. fst p = v) (swaps (sort es))) = mset (filter (\<lambda>p. fst p = v) (swaps es))"
    by (simp only: mset_filter mset_map mset_sort)
  then show ?thesis unfolding bucket_def length_map by (rule mset_eq_length)
qed

lemma ins_rename:
  assumes "perm n q" "\<And>p. p \<in> set es \<Longrightarrow> snd p < n" "v < n"
  shows "length (ins (rename q es) (q ! v)) = length (ins es v)"
proof -
  have "length (ins (rename q ps) (q ! v)) = length (ins ps v)" if "\<forall>p \<in> set ps. snd p < n" for ps
    using that
  proof (induction ps)
    case (Cons p ps)
    then show ?case using permD(3)[OF assms(1) _ assms(3), of "snd p"] by (cases p) (simp add: rename_def)
  qed (simp add: rename_def)
  then show ?thesis using assms(2) by blast
qed

lemma greedy_input_rename:
  assumes i: "greedy_input n es" and q: "perm n q"
  shows "greedy_input n (sort (rename q es))"
proof -
  have wf: "go_wf n es" using i by (simp add: greedy_input_def)
  have "length (ins (sort (rename q es)) v) + 1 < max (n div 16) 4" if v: "v < n" for v
  proof -
    obtain u where u: "u < n" "q ! u = v" using permD(4)[OF q v] by blast
    then have "length (ins (sort (rename q es)) v) = length (ins es u)"
      using ins_sort ins_rename[OF q _ u(1), of es] go_wfD(7)[OF wf] by simp
    then show ?thesis using i u(1) by (simp add: greedy_input_def)
  qed
  then show ?thesis using i go_wf_rename[OF wf q] by (simp add: greedy_input_def rename_def)
qed

section \<open>The program\<close>

lemma atoi_less: "atoi s = Some x \<Longrightarrow> x < U32"
  using usub_less by (auto simp: atoi_def scan_d_def Let_def split: Option.bind_splits option.splits prod.splits if_splits)

lemma go_args_window: "go_args as W f = Some (Some (w, g)) \<Longrightarrow> 0 < W \<Longrightarrow> W < int (U32 div 2) \<Longrightarrow> 0 < w \<and> w < int (U32 div 2)"
proof (induction as W f rule: go_args.induct)
  case (2 a as W f)
  show ?case
  proof (cases "a = ''-w''")
    case True
    then obtain b bs x where b: "as = b # bs" "atoi b = Some x" "0 < to_int32 x" "go_args bs (to_int32 x) f = Some (Some (w, g))"
      using 2(3) by (auto split: list.splits Option.bind_splits if_splits simp: Let_def)
    then have "to_int32 x < int (U32 div 2)" using atoi_less[OF b(2)] by (simp add: to_int32_def)
    then show ?thesis using 2(1)[OF True b(1,2) refl] b by simp
  next
    case False
    then show ?thesis using 2 by simp
  qed
qed simp

lemma go_readable_input:
  assumes es: "go_readable es" "no_loops es \<noteq> []" "2 * length (no_loops es) < 1073741823"
    and n: "n = Suc (go_size 0 (no_loops es))" and deg: "\<forall>v<n. length (ins (no_loops es) v) + 1 < max (n div 16) 4"
  shows "greedy_input n (sort (no_loops es))"
proof -
  obtain a b where ab: "(a, b) \<in> set (no_loops es)" using es(2) by (metis list.set_sel(1) surj_pair)
  then have "a \<noteq> b" "a < n" "b < n" using go_size_ge[OF ab, of 0] n by (auto simp: no_loops_def)
  then have "2 \<le> n" by linarith
  then show ?thesis using go_wf_read[OF es(1)] es(3) n deg by (simp add: greedy_input_def ins_sort)
qed

text \<open>The program, from the command line to its output file, for a library that sorts different edges although their comparison is not
  allowed (\<open>edge_sort_ok\<close>): it reads and renames the graph, orders it, and, if the order returns, writes the edges of the input
  (without its self loops) with all vertices renamed by a permutation, in ascending order. Input: an edge list without duplicates; fewer
  in-edges per vertex than the smallest header has entries. The window comes from the command line.\<close>

theorem go_main_isomorphic:
  assumes "sorts_ok lib" "edge_sort_ok lib" "fs f = Some (edge_text c es)" "sep_ok c" "go_readable es" "no_loops es \<noteq> []"
    "2 * length (no_loops es) < 1073741823" "n = Suc (go_size 0 (no_loops es))"
    "\<forall>v<n. length (ins (no_loops es) v) + 1 < max (n div 16) 4" "go_args (a # as) 5 [] = Some (Some (W, f))"
  shows "\<exists>q. perm n q \<and> (case GorderGreedy lib (go_full n (sort (rename q (sort (no_loops es))))) W of
      None \<Rightarrow> go_main lib fs writable (p # a # as) = None
    | Some order \<Rightarrow> \<exists>r. perm n r \<and> go_main lib fs writable (p # a # as) =
        Some (0, if writable (extractFilename f @ ''_Gorder.txt'')
          then [(extractFilename f @ ''_Gorder.txt'', edge_text tab (sort (rename r (no_loops es))))] else []))"
proof -
  note lib = assms(1)
  let ?es = "sort (no_loops es)"
  have i: "greedy_input n ?es" by (rule go_readable_input) fact+
  then have wf: "go_wf n ?es" by (simp add: greedy_input_def)
  have read: "readGraph lib (fs f) = Some (Some (go_of n ?es))"
    using readGraph_text[OF assms(2,4,5)] assms(3,8) by simp
  obtain q where q: "perm n q" "Transform lib (go_of n ?es) = Some (Some (go_full n (sort (rename q ?es))))"
    using Transform_ok[OF lib assms(2) wf] by blast
  let ?qs = "sort (rename q ?es)" and ?out = "extractFilename f @ ''_Gorder.txt''"
  have i': "greedy_input n ?qs" by (rule greedy_input_rename[OF i q(1)])
  then have wf': "go_wf n ?qs" by (simp add: greedy_input_def)
  have "length ?qs = length (no_loops es)" by (simp add: rename_def)
  then have ne: "?qs \<noteq> []" using assms(6) by (metis length_0_conv)
  have "0 < W \<and> W < int (U32 div 2)" by (rule go_args_window[OF assms(10)]) simp_all
  then obtain w where w: "W = int w" "0 < w" "w < U32 div 2"
    by (metis nat_0_le of_nat_0_less_iff of_nat_less_iff order_less_imp_le)
  have main: "go_main lib fs writable (p # a # as) = do {
      order \<leftarrow> GorderGreedy lib (go_full n ?qs) W;
      s \<leftarrow> PrintReOrderedGraph lib (go_full n ?qs) order;
      Some (0, if writable ?out then [(?out, s)] else []) }"
    using assms(10) read q(2) by (simp add: go_main_def Let_def)
  have "case GorderGreedy lib (go_full n ?qs) W of
      None \<Rightarrow> go_main lib fs writable (p # a # as) = None
    | Some order \<Rightarrow> \<exists>r. perm n r \<and> go_main lib fs writable (p # a # as) =
        Some (0, if writable ?out then [(?out, edge_text tab (sort (rename r (no_loops es))))] else [])"
  proof (cases "GorderGreedy lib (go_full n ?qs) W")
    case None
    then show ?thesis by (simp add: main)
  next
    case (Some order)
    then obtain r where r: "GorderGreedy lib (go_full n ?qs) W = Some (map int r)" "perm n r"
      using GorderGreedy_ok[OF lib i' ne w(2,3)] unfolding w(1)[symmetric] by (metis option.distinct(1))
    let ?r = "map (\<lambda>v. r ! (q ! v)) [0..<n]"
    have "sort (rename r ?qs) = sort (rename r (rename q ?es))" by (rule sort_rename) simp
    also have "\<dots> = sort (rename ?r ?es)" using go_wfD(6,7)[OF wf] by (subst rename_rename) auto
    also have "\<dots> = sort (rename ?r (no_loops es))" by (rule sort_rename) simp
    finally have e: "sort (rename r ?qs) = sort (rename ?r (no_loops es))" .
    have "go_main lib fs writable (p # a # as) =
        Some (0, if writable ?out then [(?out, edge_text tab (sort (rename ?r (no_loops es))))] else [])"
      unfolding main r(1) Option.bind.simps PrintReOrderedGraph_ok[OF lib wf' r(2)] e ..
    then show ?thesis using perm_comp[OF r(2) q(1)] unfolding Some option.case by blast
  qed
  then show ?thesis using q(1) by blast
qed

end
