(* ===== verification/Gorder_Limits.thy ===== *)
theory Gorder_Limits
  imports Gorder_Greedy
begin

text \<open>
  Where \<open>GorderGreedy\<close> leaves the header of its queue. (It leaves the list at its last vertex, see \<open>ExtractMax_last\<close>.)
\<close>

text \<open>\<open>IncrementKey\<close> of a vertex whose key is the last index of the header writes past it. The test that would stop the program
  is left out of the release build.\<close>

lemma IncrementKey_full:
  assumes e: "iget (LinkedList h) x = Some e" and k: "int (length (Header h)) \<le> lkey e + 1"
  shows "IncrementKey x h = None"
proof -
  have "modify H (lkey e + 1) f = None" if "length H = length (Header h)" for H and f :: "head_end \<Rightarrow> head_end"
    using that k by (simp add: modify_def iget_def)
  moreover have "length H = length (Header h)" if "modify (Header h) i f = Some H" for i f H
    using that by (auto simp: modify_def iput_def aput_def split: Option.bind_splits if_splits)
  ultimately show ?thesis
    using e by (auto simp: IncrementKey_def int32_def Let_def split: Option.bind_splits if_splits)
qed

text \<open>Nine vertices, of which four are all joined: their in-degree 3 is the last index of the header, and the scores of the
  first vertex are written past it.\<close>

theorem greedy_init_full:
  "greedy_init insertion_sorts
     (go_full 9 [(5, 6), (5, 7), (5, 8), (6, 5), (6, 7), (6, 8), (7, 5), (7, 6), (7, 8), (8, 5), (8, 6), (8, 7)]) = None"
  by code_simp

end
