(* ===== verification/Gorder_Util.thy ===== *)
theory Gorder_Util
  imports "HOL-Library.Word" Gorder_Scores
begin

text \<open>
  The helpers of Gorder (\<open>Util.h\<close>, \<open>Util.cpp\<close>): the size of the intersection of two rows, and templates on sorted vectors.
\<close>

unbundle bit_operations_syntax

section \<open>The code\<close>

text \<open>\<open>std::upper_bound\<close> on the entries \<open>first\<close> up to \<open>first + len - 1\<close>.\<close>

function upper_bound :: "int list \<Rightarrow> nat \<Rightarrow> nat \<Rightarrow> int \<Rightarrow> nat option" where
  "upper_bound xs first len v =
     (if len = 0 then Some first
      else do {
        x \<leftarrow> aget xs (first + len div 2);
        if v < x then upper_bound xs first (len div 2) v
        else upper_bound xs (first + len div 2 + 1) (len - len div 2 - 1) v
      })"
  by pat_completeness auto
termination by (relation "measure (\<lambda>(xs, first, len, v). len)") auto

declare upper_bound.simps [simp del]

text \<open>The two runs start at \<open>a\<close> of \<open>xs\<close> and at \<open>b\<close> of \<open>ys\<close>. The entry \<open>v1[i]\<close> is read before it is known to be there.\<close>

function intersect_loop :: "int list \<Rightarrow> nat \<Rightarrow> nat \<Rightarrow> int list \<Rightarrow> nat \<Rightarrow> nat \<Rightarrow> nat \<Rightarrow> nat option" where
  "intersect_loop xs i ie ys j je cnt =
     (if i < ie \<and> j < je then do {
        x \<leftarrow> aget xs i;
        y \<leftarrow> aget ys j;
        if x < y then intersect_loop xs (i + 1) ie ys j je cnt
        else if x > y then intersect_loop xs i ie ys (j + 1) je cnt
        else intersect_loop xs (i + 1) ie ys (j + 1) je (cnt + 1)
      } else Some cnt)"
  by pat_completeness auto
termination by (relation "measure (\<lambda>(xs, i, ie, ys, j, je, cnt). (ie - i) + (je - j))") auto

declare intersect_loop.simps [simp del]

definition IntersectionSize :: "int list \<Rightarrow> nat \<Rightarrow> nat \<Rightarrow> int list \<Rightarrow> nat \<Rightarrow> nat \<Rightarrow> int \<Rightarrow> nat option" where
  "IntersectionSize xs a s1 ys b s2 u = do {
     i \<leftarrow> upper_bound xs a s1 u;
     x \<leftarrow> aget xs i;
     j \<leftarrow> lower_bound ys b s2 x;
     intersect_loop xs i (a + s1) ys j (b + s2) 0
   }"

text \<open>\<open>v.erase(v.begin() + k)\<close>\<close>

definition erase_at :: "nat \<Rightarrow> 'a list \<Rightarrow> 'a list" where
  "erase_at k v = take k v @ drop (Suc k) v"

fun erase_front :: "int \<Rightarrow> int list \<Rightarrow> int list option" where
  "erase_front u [] = None"
| "erase_front u (x # xs) = (if x = u then erase_front u xs else Some (x # xs))"

function erase_equal :: "int \<Rightarrow> int list \<Rightarrow> nat \<Rightarrow> nat \<Rightarrow> int list option" where
  "erase_equal u v p1 p2 =
     (if p2 < length v then do {
        y \<leftarrow> aget v p2;
        x \<leftarrow> aget v p1;
        if y = u \<or> x = y then erase_equal u (erase_at p2 v) p1 p2
        else erase_equal u v (p1 + 1) (p2 + 1)
      } else Some v)"
  by pat_completeness auto
termination by (relation "measure (\<lambda>(u, v, p1, p2). length v - p2)") (auto simp: erase_at_def)

declare erase_equal.simps [simp del]

definition VectorPreprocessing :: "sorts \<Rightarrow> int list \<Rightarrow> int \<Rightarrow> int list option" where
  "VectorPreprocessing lib v u =
     (if length v < 2 then Some v
      else do {
        v \<leftarrow> sort_ints lib (\<lambda>a b. a < b) v;
        v \<leftarrow> erase_front u v;
        erase_equal u v 0 1
      })"

definition VectorEq :: "'a list \<Rightarrow> 'a list \<Rightarrow> bool option" where
  "VectorEq v1 v2 =
     (if length v1 \<noteq> length v2 then Some False
      else for_range 0 (length v1) (\<lambda>i r. if \<not> r then Some r
        else do { x \<leftarrow> aget v1 i; y \<leftarrow> aget v2 i; Some (x = y) }) True)"

text \<open>The second comparison reads \<open>v1[i]\<close> after \<open>i\<close> may have been moved past the end.\<close>

function is_intersect :: "int list \<Rightarrow> int list \<Rightarrow> nat \<Rightarrow> nat \<Rightarrow> bool option" where
  "is_intersect v1 v2 i j =
     (if i < length v1 \<and> j < length v2 then do {
        x \<leftarrow> aget v1 i;
        y \<leftarrow> aget v2 j;
        if x = y then Some True
        else do {
          x' \<leftarrow> aget v1 (if x < y then i + 1 else i);
          is_intersect v1 v2 (if x < y then i + 1 else i) (if x' > y then j + 1 else j)
        }
      } else Some False)"
  by pat_completeness auto
termination by (relation "measure (\<lambda>(v1, v2, i, j). (length v1 - i) + (length v2 - j))") (auto split: if_splits)

declare is_intersect.simps [simp del]

definition IsIntersect :: "int list \<Rightarrow> int list \<Rightarrow> bool option" where
  "IsIntersect v1 v2 = is_intersect v1 v2 0 0"

definition PairCompare :: "bool \<Rightarrow> 'a \<times> 'b::linorder \<Rightarrow> 'a \<times> 'b \<Rightarrow> bool" where
  "PairCompare flag p1 p2 = (if flag then snd p1 < snd p2 else snd p1 > snd p2)"

definition PairComparePointer :: "('p \<Rightarrow> 'b::linorder) \<Rightarrow> 'a \<times> 'p \<Rightarrow> 'a \<times> 'p \<Rightarrow> bool" where
  "PairComparePointer deref p1 p2 = (deref (snd p1) > deref (snd p2))"

definition MyMin :: "'a::linorder \<Rightarrow> 'a \<Rightarrow> 'a" where
  "MyMin left right = (if left < right then left else right)"

definition ReRank :: "'a::linorder list \<Rightarrow> nat \<Rightarrow> nat \<Rightarrow> bool option" where
  "ReRank value left right = do { x \<leftarrow> aget value left; y \<leftarrow> aget value right; Some (x < y) }"

text \<open>The arguments are the results of the three calls of \<open>rand\<close>.\<close>

definition MyRand64 :: "64 word \<Rightarrow> 64 word \<Rightarrow> 64 word \<Rightarrow> 64 word" where
  "MyRand64 r1 r2 r3 = (push_bit 33 r1 OR push_bit 2 r2) OR drop_bit 29 r3"

section \<open>Intersections of sorted rows\<close>

lemma upper_bound_below:
  assumes "\<And>k. first \<le> k \<Longrightarrow> k < first + len \<Longrightarrow> v < xs ! k" "first + len \<le> length xs"
  shows "upper_bound xs first len v = Some first"
  using assms
proof (induction xs first len v rule: upper_bound.induct)
  case (1 xs first len v)
  show ?case
  proof (cases "len = 0")
    case False
    then have m: "first + len div 2 < length xs" "v < xs ! (first + len div 2)" using 1(3)[of "first + len div 2"] 1(4) by auto
    then show ?thesis using 1(1)[OF False _ m(2)] 1(3,4) False by (subst upper_bound.simps) simp
  qed (subst upper_bound.simps, simp)
qed

lemma intersect_loop_ok:
  assumes "sorted (slice xs i ie)" "distinct (slice xs i ie)" "sorted (slice ys j je)" "distinct (slice ys j je)"
    "ie \<le> length xs" "je \<le> length ys"
  shows "intersect_loop xs i ie ys j je cnt = Some (cnt + card (set (slice xs i ie) \<inter> set (slice ys j je)))"
  using assms
proof (induction xs i ie ys j je cnt rule: intersect_loop.induct)
  case (1 xs i ie ys j je cnt)
  show ?case
  proof (cases "i < ie \<and> j < je")
    case True
    then have ij: "i < ie" "j < je" by simp_all
    let ?x = "xs ! i" and ?y = "ys ! j" and ?xs = "slice xs (Suc i) ie" and ?ys = "slice ys (Suc j) je"
    note xs = slice_step[OF ij(1) 1(8)] and ys = slice_step[OF ij(2) 1(9)]
    have x: "\<forall>z \<in> set ?xs. ?x < z" and y: "\<forall>z \<in> set ?ys. ?y < z"
      using 1(4-7) unfolding xs ys by (auto simp: order_less_le)
    have g: "aget xs i = Some ?x" "aget ys j = Some ?y" using True 1(8,9) by simp_all
    have s: "sorted ?xs" "distinct ?xs" "sorted ?ys" "distinct ?ys" using 1(4-7) unfolding xs ys by simp_all
    consider "?x < ?y" | "?y < ?x" | "?x = ?y" by fastforce
    then show ?thesis
    proof cases
      case a: 1
      have "set (slice xs i ie) \<inter> set (slice ys j je) = set ?xs \<inter> set (slice ys j je)" using a y unfolding xs ys by auto
      then show ?thesis using 1(1)[OF True g a] s(1,2) 1(6-9) True g a by (subst intersect_loop.simps) simp
    next
      case a: 2
      have "set (slice xs i ie) \<inter> set (slice ys j je) = set (slice xs i ie) \<inter> set ?ys" using a x unfolding xs ys by auto
      then show ?thesis using 1(2)[OF True g _ a] s(3,4) 1(4,5,8,9) True g a by (subst intersect_loop.simps) simp
    next
      case a: 3
      have "set (slice xs i ie) \<inter> set (slice ys j je) = insert ?x (set ?xs \<inter> set ?ys)" "?x \<notin> set ?xs \<inter> set ?ys"
        using a x y unfolding xs ys by auto
      then show ?thesis using 1(3)[OF True g] s 1(8,9) True g a by (subst intersect_loop.simps) simp
    qed
  qed (subst intersect_loop.simps, auto)
qed

lemma slice_drop_below:
  assumes "sorted (slice ys b e)" "b \<le> j" "j \<le> e" "e \<le> length ys" "\<And>k. b \<le> k \<Longrightarrow> k < j \<Longrightarrow> ys ! k < x" "\<And>z. z \<in> A \<Longrightarrow> x \<le> z"
  shows "A \<inter> set (slice ys j e) = A \<inter> set (slice ys b e)"
proof -
  have "slice ys b e = slice ys b j @ slice ys j e" by (rule slice_split[OF assms(2,3), symmetric])
  moreover have "z < x" if z: "z \<in> set (slice ys b j)" for z
  proof -
    obtain k where "k < j - b" "z = slice ys b j ! k" using z assms(2-4) by (auto simp: in_set_conv_nth)
    then show ?thesis using assms(5)[of "b + k"] assms(2-4) by simp
  qed
  ultimately show ?thesis using assms(6) by fastforce
qed

text \<open>With \<open>u = -1\<close> (below every vertex) and a first row that can be read: the number of common entries.\<close>

lemma IntersectionSize_ok:
  assumes xs: "sorted (slice xs a (a + s1))" "distinct (slice xs a (a + s1))" and ys: "sorted (slice ys b (b + s2))" "distinct (slice ys b (b + s2))"
    and l: "a + s1 \<le> length xs" "a < length xs" "b + s2 \<le> length ys" and u: "\<And>z. z \<in> set xs \<Longrightarrow> u < z"
  shows "IntersectionSize xs a s1 ys b s2 u = Some (card (set (slice xs a (a + s1)) \<inter> set (slice ys b (b + s2))))"
proof -
  have ub: "upper_bound xs a s1 u = Some a" using l(1) u by (intro upper_bound_below) auto
  have "ys ! k \<le> ys ! k'" if "b \<le> k" "k \<le> k'" "k' < b + s2" for k k'
    using sorted_nth_mono[OF ys(1), of "k - b" "k' - b"] that l(3) by simp
  then obtain j where j: "lower_bound ys b s2 (xs ! a) = Some j" "b \<le> j" "j \<le> b + s2" "\<forall>k. b \<le> k \<longrightarrow> k < j \<longrightarrow> ys ! k < xs ! a"
    using lower_bound_ok[of b s2 ys "xs ! a"] l(3) by auto
  have below: "xs ! a \<le> z" if "z \<in> set (slice xs a (a + s1))" for z
  proof -
    have "a < a + s1" using that by (cases s1) auto
    then show ?thesis using slice_step[OF _ l(1)] xs(1) that by auto
  qed
  have "slice ys b (b + s2) = slice ys b j @ slice ys j (b + s2)" by (rule slice_split[OF j(2,3), symmetric])
  then have s: "sorted (slice ys j (b + s2))" "distinct (slice ys j (b + s2))" using ys by (auto simp: sorted_append)
  have "set (slice xs a (a + s1)) \<inter> set (slice ys j (b + s2)) = set (slice xs a (a + s1)) \<inter> set (slice ys b (b + s2))"
    by (rule slice_drop_below[OF ys(1) j(2,3) l(3)]) (use j(4) below in auto)
  then show ?thesis
    using intersect_loop_ok[OF xs s l(1,3), of 0] ub j(1) l(2) by (simp add: IntersectionSize_def)
qed

section \<open>Vectors\<close>

lemma erase_front_ok:
  assumes "sorted v" "set v \<noteq> {u}" "v \<noteq> []"
  shows "\<exists>w. erase_front u v = Some w \<and> w \<noteq> [] \<and> sorted w \<and> hd w \<noteq> u \<and> set w - {u} = set v - {u}"
  using assms
proof (induction v)
  case (Cons x v)
  show ?case
  proof (cases "x = u")
    case True
    then have "v \<noteq> []" "set v \<noteq> {u}" using Cons.prems(2) by auto
    then show ?thesis using Cons True by auto
  qed (use Cons.prems in auto)
qed simp

lemma erase_equal_ok:
  assumes "sorted v" "p2 = p1 + 1" "p1 < length v" "sorted_wrt (<) (take p2 v)" "u \<notin> set (take p2 v)"
  shows "\<exists>w. erase_equal u v p1 p2 = Some w \<and> sorted_wrt (<) w \<and> set w = set v - {u}"
  using assms
proof (induction u v p1 p2 rule: erase_equal.induct)
  case (1 u v p1 p2)
  show ?case
  proof (cases "p2 < length v")
    case False
    then show ?thesis using 1(3-7) by (subst erase_equal.simps) auto
  next
    case True
    let ?y = "v ! p2" and ?x = "v ! p1"
    have v: "v = take p2 v @ ?y # drop (Suc p2) v" using True by (simp add: id_take_nth_drop)
    have g: "aget v p2 = Some ?y" "aget v p1 = Some ?x" using True 1(4,5) by simp_all
    show ?thesis
    proof (cases "?y = u \<or> ?x = ?y")
      case e: True
      have t: "take p2 (erase_at p2 v) = take p2 v" using True by (simp add: erase_at_def)
      have "sorted (erase_at p2 v)"
        using 1(3) unfolding erase_at_def by (subst (asm) v) (auto simp: sorted_append)
      moreover have "p1 < length (erase_at p2 v)" using True 1(4) by (simp add: erase_at_def)
      ultimately obtain w where w: "erase_equal u (erase_at p2 v) p1 p2 = Some w" "sorted_wrt (<) w" "set w = set (erase_at p2 v) - {u}"
        using 1(1)[OF True g e] 1(4,6,7) t by auto
      have x: "?x \<in> set (take p2 v)" using 1(4) True by (auto simp: in_set_conv_nth intro!: exI[of _ p1])
      have "set v = insert ?y (set (erase_at p2 v))" by (subst v) (auto simp: erase_at_def)
      then have "set w = set v - {u}" using w(3) e x by (auto simp: erase_at_def)
      then show ?thesis using w(1,2) True g e by (subst erase_equal.simps) auto
    next
      case e: False
      have tk: "take (p2 + 1) v = take p2 v @ [?y]" using True by (simp add: take_Suc_conv_app_nth)
      have "z < ?y" if z: "z \<in> set (take p2 v)" for z
      proof -
        obtain k where k: "k < p2" "z = v ! k" using z True by (auto simp: in_set_conv_nth)
        have "z \<le> ?x" using k 1(3,4,5) by (auto intro: sorted_nth_mono)
        moreover have "?x \<le> ?y" using 1(3,4) True by (auto intro: sorted_nth_mono)
        ultimately show ?thesis using e by auto
      qed
      then have "sorted_wrt (<) (take (p2 + 1) v)" "u \<notin> set (take (p2 + 1) v)"
        using 1(6,7) e unfolding tk by (auto simp: sorted_wrt_append)
      then have "\<exists>w. erase_equal u v (p1 + 1) (p2 + 1) = Some w \<and> sorted_wrt (<) w \<and> set w = set v - {u}"
        using 1(2)[OF True g e 1(3)] 1(4) True by simp
      then show ?thesis using True g e by (subst erase_equal.simps) simp
    qed
  qed
qed

lemma VectorPreprocessing_ok:
  assumes lib: "sorts_ok lib" and v: "2 \<le> length v" "set v \<noteq> {u}"
  shows "VectorPreprocessing lib v u = Some (sorted_list_of_set (set v - {u}))"
proof -
  have s: "sort_ints lib (\<lambda>a b. a < b) v = Some (sort v)" by (rule sort_less_ok[OF lib])
  have "sort v \<noteq> []" using v(1) by (auto dest!: arg_cong[of _ _ length])
  then obtain w where w: "erase_front u (sort v) = Some w" "w \<noteq> []" "sorted w" "hd w \<noteq> u" "set w - {u} = set v - {u}"
    using erase_front_ok[of "sort v" u] v(2) by auto
  have "take 1 w = [hd w]" using w(2) by (cases w) auto
  then obtain z where z: "erase_equal u w 0 1 = Some z" "sorted_wrt (<) z" "set z = set w - {u}"
    using erase_equal_ok[of w 1 0 u] w(2-4) by auto
  have "sorted_list_of_set (set z) = z"
    using z(2) by (intro sorted_list_of_set.idem_if_sorted_distinct) (auto simp: strict_sorted_iff)
  then show ?thesis using s w z v(1) by (simp add: VectorPreprocessing_def)
qed

text \<open>A vector of at least two entries that are all \<open>u\<close> is emptied, and its first entry is read.\<close>

lemma VectorPreprocessing_all_equal:
  assumes lib: "sorts_ok lib" and v: "2 \<le> length v" "set v = {u}"
  shows "VectorPreprocessing lib v u = None"
proof -
  have s: "sort_ints lib (\<lambda>a b. a < b) v = Some (sort v)" by (rule sort_less_ok[OF lib])
  have "erase_front u w = None" if "set w \<subseteq> {u}" for w using that by (induction w) auto
  then have "erase_front u (sort v) = None" using v(2) by simp
  then show ?thesis using s v(1) by (simp add: VectorPreprocessing_def)
qed

lemma VectorEq_ok: "VectorEq v1 v2 = Some (v1 = v2)"
proof (cases "length v1 = length v2")
  case True
  have "ok (for_range 0 (length v1) (\<lambda>i r. if \<not> r then Some r else do { x \<leftarrow> aget v1 i; y \<leftarrow> aget v2 i; Some (x = y) }) True)
    (\<lambda>r. r \<longleftrightarrow> take (length v1) v1 = take (length v1) v2)"
    by (rule ok_for_range[where P = "\<lambda>i r. r \<longleftrightarrow> take i v1 = take i v2"]) (use True in \<open>auto simp: take_Suc_conv_app_nth\<close>)
  then show ?thesis using True by (auto simp: VectorEq_def ok_iff)
qed (auto simp: VectorEq_def)

lemma is_intersect_ok:
  assumes "sorted v1" "sorted v2" "v2 \<noteq> []" "last v2 \<le> last v1" "v1 \<noteq> []"
  shows "is_intersect v1 v2 i j = Some (set (drop i v1) \<inter> set (drop j v2) \<noteq> {})"
  using assms
proof (induction v1 v2 i j rule: is_intersect.induct)
  case (1 v1 v2 i j)
  show ?case
  proof (cases "i < length v1 \<and> j < length v2")
    case True
    let ?x = "v1 ! i" and ?y = "v2 ! j"
    let ?i = "if ?x < ?y then i + 1 else i"
    have d: "drop i v1 = ?x # drop (i + 1) v1" "drop j v2 = ?y # drop (j + 1) v2" using True by (simp_all add: Cons_nth_drop_Suc)
    have g: "aget v1 i = Some ?x" "aget v2 j = Some ?y" using True by simp_all
    have mono: "v1 ! i \<le> z" if "z \<in> set (drop i v1)" for z i
      using sorted_wrt_drop[OF 1(2), of i] that Cons_nth_drop_Suc[of i v1] by (cases "i < length v1") (auto simp: in_set_conv_nth nth_drop intro: sorted_nth_mono[OF 1(2)])
    have mono2: "v2 ! j \<le> z" if "z \<in> set (drop j v2)" for z j
      using that by (auto simp: in_set_conv_nth intro!: sorted_nth_mono[OF 1(3)])
    show ?thesis
    proof (cases "?x = ?y")
      case True
      then show ?thesis using g d \<open>i < length v1 \<and> j < length v2\<close> by (subst is_intersect.simps) auto
    next
      case ne: False
      have yl: "?y \<le> last v2" using True 1(3,4) by (auto simp: last_conv_nth intro!: sorted_nth_mono)
      have il: "?i < length v1"
      proof (rule ccontr)
        assume "\<not> ?i < length v1"
        then have "?x < ?y" "i = length v1 - 1" using True by (auto split: if_splits)
        then have "last v1 < ?y" using 1(6) by (simp add: last_conv_nth)
        then show False using yl 1(5) by simp
      qed
      let ?x' = "v1 ! ?i" let ?j = "if ?x' > ?y then j + 1 else j"
      have g': "aget v1 ?i = Some ?x'" using il by simp
      have "set (drop i v1) \<inter> set (drop j v2) = set (drop ?i v1) \<inter> set (drop j v2)"
      proof (cases "?x < ?y")
        case True
        then have "?x \<notin> set (drop j v2)" using mono2[of ?x j] by fastforce
        then show ?thesis using True unfolding d(1) by simp
      qed simp
      also have "\<dots> = set (drop ?i v1) \<inter> set (drop ?j v2)"
      proof (cases "?y < ?x'")
        case True
        then have "?y \<notin> set (drop ?i v1)" using mono[of ?y ?i] by fastforce
        then show ?thesis using True unfolding d(2) by simp
      qed simp
      finally show ?thesis
        using 1(1)[OF True g ne g'] 1(2-6) True g ne g' by (subst is_intersect.simps) simp
    qed
  qed (subst is_intersect.simps, auto)
qed

lemma IsIntersect_ok:
  assumes "sorted v1" "sorted v2" "v1 \<noteq> []" "v2 \<noteq> []" "last v2 \<le> last v1"
  shows "IsIntersect v1 v2 = Some (set v1 \<inter> set v2 \<noteq> {})"
  using is_intersect_ok[OF assms(1,2,4,5,3), of 0 0] by (simp add: IsIntersect_def)

text \<open>Otherwise the first vector may be read past its end.\<close>

lemma IsIntersect_past_end: "x < y \<Longrightarrow> IsIntersect [x] [y] = None"
  by (simp add: IsIntersect_def is_intersect.simps)

text \<open>With 31 bits from each call the three parts do not overlap.\<close>

lemma MyRand64_parts:
  assumes "\<And>i. 31 \<le> i \<Longrightarrow> \<not> bit r1 i" "\<And>i. 31 \<le> i \<Longrightarrow> \<not> bit r2 i" "\<And>i. 31 \<le> i \<Longrightarrow> \<not> bit r3 i" "i < 64"
  shows "bit (MyRand64 r1 r2 r3) i \<longleftrightarrow> (if i < 2 then bit r3 (i + 29) else if i < 33 then bit r2 (i - 2) else bit r1 (i - 33))"
  using assms by (auto simp: MyRand64_def bit_simps add.commute)

end
