(* ===== verification/Gorder_Stats.thy ===== *)
theory Gorder_Stats
  imports Gorder_Util PageRank
begin

text \<open>
  The statistics and string helpers of \<open>Graph.cpp\<close>: \<open>LocalityScore\<close>, which is the objective of the greedy order,
  \<open>GapCount\<close>, \<open>GapCost\<close>, \<open>GraphAnalysis\<close>, \<open>split\<close> and \<open>strTrimRight\<close>.
\<close>

section \<open>The code\<close>

text \<open>\<open>sum\<close> is an \<open>unsigned long long\<close>; \<open>j\<close> runs downwards.\<close>

definition locality_step :: "go_graph \<Rightarrow> int \<Rightarrow> int \<Rightarrow> nat \<Rightarrow> nat option" where
  "locality_step G i j acc = do {
     x \<leftarrow> iget (vertices G) i;
     y \<leftarrow> iget (vertices G) j;
     c \<leftarrow> IntersectionSize (inedge G) (nat (instart x)) (nat (indeg x)) (inedge G) (nat (instart y)) (nat (indeg y)) (-1);
     let acc = (acc + c) mod 2 ^ 64;
     f \<leftarrow> binary_search (inedge G) (instart x) (instart x + indeg x) j;
     let acc = (if f then (acc + 1) mod 2 ^ 64 else acc);
     g \<leftarrow> binary_search (inedge G) (instart y) (instart y + indeg y) i;
     Some (if g then (acc + 1) mod 2 ^ 64 else acc)
   }"

definition LocalityScore :: "go_graph \<Rightarrow> int \<Rightarrow> nat option" where
  "LocalityScore G w = int_for 0 (vsize G) (\<lambda>i acc. do {
     l \<leftarrow> int32 (i - w);
     mfold (locality_step G i) (rev [max l 0..i - 1]) acc
   }) 0"

text \<open>\<open>GapCount\<close>: how often every difference of neighbouring targets occurs, and the entropy of that. The arithmetic of
  \<open>double\<close> is a parameter.\<close>

record 'f log_floating = "'f floating" +
  flog :: "'f \<Rightarrow> 'f"
  flog2 :: "'f \<Rightarrow> 'f"

definition gap_bump :: "int \<Rightarrow> int list \<Rightarrow> int list option" where
  "gap_bump d gap = do { x \<leftarrow> iget gap d; x \<leftarrow> int32 (x + 1); iput gap d x }"

definition gap_counts :: "go_graph \<Rightarrow> int list option" where
  "gap_counts G = do {
     gap \<leftarrow> new_array (vsize G) 0;
     int_for 0 (vsize G) (\<lambda>i gap. do {
       x \<leftarrow> iget (vertices G) i;
       a \<leftarrow> int32 (outstart x + 1);
       limit \<leftarrow> int32 (outdegree x + outstart x);
       gap \<leftarrow> int_for a limit (\<lambda>j gap. do {
         p \<leftarrow> iget (outedge G) j;
         q \<leftarrow> iget (outedge G) (j - 1);
         d \<leftarrow> int32 (p - q);
         gap_bump d gap
       }) gap;
       f \<leftarrow> iget (outedge G) (outstart x);
       gap_bump f gap
     }) gap
   }"

definition GapCount :: "('f, 'x) log_floating_scheme \<Rightarrow> go_graph \<Rightarrow> 'f option" where
  "GapCount F G = do {
     gap \<leftarrow> gap_counts G;
     Some (foldl (\<lambda>e g. if g = 0 then e
       else let q = fdivide F (fint F g) (fint F (edgenum G)) in fplus F e (ftimes F q (flog2 F q))) (fzero F) gap)
   }"

text \<open>\<open>GapCost\<close>: the sums of the logarithms of the gaps before and after the order is applied; only the second is returned.\<close>

definition add_log :: "('f, 'x) log_floating_scheme \<Rightarrow> int \<Rightarrow> 'f \<Rightarrow> 'f" where
  "add_log F d g = (if d = 0 then g else fplus F g (fdivide F (flog F (fint F d)) (flog F (fint F 2))))"

definition GapCost :: "sorts \<Rightarrow> ('f, 'x) log_floating_scheme \<Rightarrow> go_graph \<Rightarrow> int list \<Rightarrow> ('f \<times> 'f) option" where
  "GapCost lib F G order = do {
     (gaplog, gaplog2) \<leftarrow> int_for 0 (vsize G) (\<lambda>i (gaplog, gaplog2). do {
       x \<leftarrow> iget (vertices G) i;
       a \<leftarrow> int32 (outstart x + 1);
       limit \<leftarrow> int32 (outdegree x + outstart x);
       gaplog \<leftarrow> int_for a limit (\<lambda>j gaplog. do {
         p \<leftarrow> iget (outedge G) j;
         q \<leftarrow> iget (outedge G) (j - 1);
         d \<leftarrow> int32 (p - q);
         Some (add_log F d gaplog)
       }) gaplog;
       edgelist \<leftarrow> int_for (outstart x) limit (\<lambda>j edgelist. do {
         w \<leftarrow> iget (outedge G) j;
         v \<leftarrow> iget order w;
         Some (edgelist @ [v])
       }) [];
       edgelist \<leftarrow> sort_ints lib (\<lambda>a b. a < b) edgelist;
       gaplog2 \<leftarrow> int_for 1 (int (length edgelist)) (\<lambda>j gaplog2. do {
         p \<leftarrow> iget edgelist j;
         q \<leftarrow> iget edgelist (j - 1);
         d \<leftarrow> int32 (p - q);
         Some (add_log F d gaplog2)
       }) gaplog2;
       Some (gaplog, gaplog2)
     }) (fzero F, fzero F);
     Some (fdivide F gaplog (fint F (edgenum G)), fdivide F gaplog2 (fint F (edgenum G)))
   }"

text \<open>\<open>GraphAnalysis\<close>: how many degrees are at most 1, up to 10, up to 100, and so on.\<close>

partial_function (option) analysis_loop :: "int list \<Rightarrow> int \<Rightarrow> int \<Rightarrow> nat \<Rightarrow> string \<Rightarrow> string option" where
  "analysis_loop tmp n i tmpit s =
     (if i < n then do {
        it \<leftarrow> upper_bound tmp 0 (length tmp) i;
        i' \<leftarrow> int32 (i * 10);
        analysis_loop tmp n i' it (s @ print_int i @ '': '' @ print_int (int it - int tmpit) @ [newline])
      } else Some s)"

declare analysis_loop.simps [code]

definition analyse :: "sorts \<Rightarrow> string \<Rightarrow> (vertex \<Rightarrow> int) \<Rightarrow> go_graph \<Rightarrow> string \<Rightarrow> string option" where
  "analyse lib name deg G s = do {
     tmp \<leftarrow> new_array (vsize G) 0;
     tmp \<leftarrow> int_for 0 (vsize G) (\<lambda>i tmp. do { x \<leftarrow> iget (vertices G) i; iput tmp i (deg x) }) tmp;
     tmp \<leftarrow> sort_ints lib (\<lambda>a b. a < b) tmp;
     analysis_loop tmp (vsize G) 1 0 (s @ name @ '':'' @ [newline])
   }"

definition GraphAnalysis :: "sorts \<Rightarrow> go_graph \<Rightarrow> string option" where
  "GraphAnalysis lib G = do {
     s \<leftarrow> analyse lib ''outdegree'' outdegree G [];
     analyse lib ''indegree'' indeg G s
   }"

text \<open>Strings, of a length that fits an \<open>int\<close>.\<close>

definition find_from :: "string \<Rightarrow> char \<Rightarrow> nat \<Rightarrow> nat option" where
  "find_from s c b = (let k = length (takeWhile (\<lambda>x. x \<noteq> c) (drop b s)) in if b + k < length s then Some (b + k) else None)"

lemma find_from_range: "find_from s c b = Some e \<Longrightarrow> b \<le> e \<and> e < length s"
  by (auto simp: find_from_def Let_def split: if_splits)

function split_from :: "string \<Rightarrow> char \<Rightarrow> nat \<Rightarrow> string list \<Rightarrow> string list" where
  "split_from s delim begin elems = (case find_from s delim begin of
     Some e \<Rightarrow> split_from s delim (e + 1) (elems @ [take (e - begin) (drop begin s)])
   | None \<Rightarrow> if begin \<noteq> length s then elems @ [drop begin s] else elems)"
  by pat_completeness auto
termination by (relation "measure (\<lambda>(s, delim, begin, elems). length s - begin)") (auto dest!: find_from_range)

declare split_from.simps [simp del]

definition go_split :: "string \<Rightarrow> char \<Rightarrow> string list" where
  "go_split s delim = split_from s delim 0 []"

definition strTrimRight :: "string \<Rightarrow> string" where
  "strTrimRight str = rev (dropWhile (\<lambda>c. c \<in> {CHR '' '', CHR 0x09, CHR 0x0D, CHR 0x0A}) (rev str))"

section \<open>The locality of an order\<close>

text \<open>The common in-neighbours of two vertices, and the edges between them.\<close>

definition locality :: "(nat \<times> nat) list \<Rightarrow> nat \<Rightarrow> nat \<Rightarrow> nat" where
  "locality es i j = card (set (ins es i) \<inter> set (ins es j)) + of_bool (j \<in> set (ins es i)) + of_bool (i \<in> set (ins es j))"

lemma sorted_ins: "go_wf n es \<Longrightarrow> sorted (ins es v)"
proof -
  assume wf: "go_wf n es"
  have "sorted (map fst es)"
    using go_wfD(5)[OF wf] by (rule sorted_wrt_map_mono) (auto simp: less_eq_prod_def)
  then have "sorted (map fst (filter (\<lambda>p. snd p = v) es))" by (rule sorted_filter)
  moreover have "ins es v = map fst (filter (\<lambda>p. snd p = v) es)" by (induction es) (auto simp: bucket_def)
  ultimately show ?thesis by simp
qed

lemma in_row_slice:
  assumes "go_wf n es" "v < n"
  shows "slice (map int (csr_of n (swaps es))) (starts (swaps es) v) (starts (swaps es) v + length (ins es v)) = map int (ins es v)"
    "starts (swaps es) v + length (ins es v) \<le> length es"
  using slice_csr_of[OF assms(2), of "swaps es"] starts_le[of "swaps es" "Suc v"] by (simp_all add: slice_map starts_Suc)

lemma in_search:
  assumes wf: "go_wf n es" and v: "v < n"
  shows "binary_search (map int (csr_of n (swaps es))) (int (starts (swaps es) v)) (int (starts (swaps es) v) + int (length (ins es v))) (int u) =
    Some (u \<in> set (ins es v))"
proof -
  have len: "length (csr_of n (swaps es)) = length es"
    using starts_all[of "swaps es" n n] go_wfD(9)[OF wf] by (simp add: length_csr_of)
  have "sorted (map int (ins es v))" using sorted_ins[OF wf] by (simp add: sorted_map)
  then have "binary_search (map int (csr_of n (swaps es))) (int (starts (swaps es) v)) (int (starts (swaps es) v + length (ins es v))) (int u) =
      Some (int u \<in> set (map int (ins es v)))"
    using in_row_slice[OF wf v] len
    by (subst binary_search_slice) simp_all
  then show ?thesis by auto
qed

lemma locality_step_ok:
  assumes wf: "go_wf n es" and l: "ins es (n - 1) \<noteq> []" and ij: "i < n" "j < n"
  shows "locality_step (go_full n es) (int i) (int j) s = Some ((s + locality es i j) mod 2 ^ 64)"
proof -
  let ?a = "starts (swaps es)" and ?in = "map int (csr_of n (swaps es))"
  have len: "length ?in = length es"
    using starts_all[of "swaps es" n n] go_wfD(9)[OF wf] by (simp add: length_csr_of)
  have "?a i \<le> ?a (n - 1)" using ij by (intro starts_mono) simp
  also have "\<dots> < length es" using in_row_slice(2)[OF wf, of "n - 1"] go_wfD(1)[OF wf] l by (cases "ins es (n - 1)") auto
  finally have a: "?a i < length es" .
  note r = in_row_slice[OF wf]
  have "IntersectionSize ?in (?a i) (length (ins es i)) ?in (?a j) (length (ins es j)) (-1) =
      Some (card (set (map int (ins es i)) \<inter> set (map int (ins es j))))"
    using sorted_ins[OF wf] distinct_ins[OF wf] r[OF ij(1)] r[OF ij(2)] a len
    by (subst IntersectionSize_ok) (auto simp: sorted_map distinct_map)
  also have "set (map int (ins es i)) \<inter> set (map int (ins es j)) = int ` (set (ins es i) \<inter> set (ins es j))" by auto
  also have "card (int ` (set (ins es i) \<inter> set (ins es j))) = card (set (ins es i) \<inter> set (ins es j))" by (intro card_image) simp
  finally have c: "IntersectionSize ?in (?a i) (length (ins es i)) ?in (?a j) (length (ins es j)) (-1) =
      Some (card (set (ins es i) \<inter> set (ins es j)))" .
  show ?thesis
    using ij c in_search[OF wf ij(1), of j] in_search[OF wf ij(2), of i]
    by (simp add: locality_step_def vert_simps Let_def locality_def mod_simps ac_simps)
qed

lemma mfold_add_mod:
  fixes m :: nat
  assumes "\<And>x s. x \<in> set xs \<Longrightarrow> s < m \<Longrightarrow> f x s = Some ((s + g x) mod m)" "s < m"
  shows "mfold f xs s = Some ((s + sum_list (map g xs)) mod m)"
  using assms
proof (induction xs arbitrary: s)
  case (Cons x xs)
  have "mfold f xs ((s + g x) mod m) = Some (((s + g x) mod m + sum_list (map g xs)) mod m)"
    using Cons.prems by (intro Cons.IH) auto
  moreover have "f x s = Some ((s + g x) mod m)" using Cons.prems by simp
  ultimately show ?case by (simp add: mod_simps ac_simps)
qed simp

text \<open>The last vertex needs an incoming edge: otherwise \<open>v1[i]\<close> in \<open>IntersectionSize\<close> may lie behind the array.\<close>

lemma LocalityScore_ok:
  assumes wf: "go_wf n es" and l: "ins es (n - 1) \<noteq> []" and W: "W < U32 div 2"
  shows "LocalityScore (go_full n es) (int W) = Some ((\<Sum>i<n. \<Sum>j \<in> {i - W..<i}. locality es i j) mod 2 ^ 64)"
proof -
  let ?g = "\<lambda>i. \<Sum>j \<in> {i - W..<i}. locality es i j"
  have row: "do { l \<leftarrow> int32 (int i - int W); mfold (locality_step (go_full n es) (int i)) (rev [max l 0..int i - 1]) s } =
      Some ((s + ?g i) mod 2 ^ 64)" if i: "i < n" and s: "s < 2 ^ 64" for i s
  proof -
    have r: "int32 (int i - int W) = Some (int i - int W)" using W i go_wfD(2)[OF wf] by (intro int32_in) simp_all
    have "max (int i - int W) 0 = int (i - W)" by simp
    then have u: "rev [max (int i - int W) 0..int i - 1] = map int (rev [i - W..<i])" by (simp only: upto_int rev_map)
    have "mfold (\<lambda>j. locality_step (go_full n es) (int i) (int j)) (rev [i - W..<i]) s =
        Some ((s + sum_list (map (locality es i) (rev [i - W..<i]))) mod 2 ^ 64)"
      by (rule mfold_add_mod[OF _ s], rule locality_step_ok[OF wf l i]) (use i in auto)
    moreover have "sum_list (map (locality es i) (rev [i - W..<i])) = ?g i"
      by (simp add: sum_list_rev interv_sum_list_conv_sum_set_nat flip: rev_map)
    ultimately show ?thesis unfolding r u mfold_map Option.bind.simps comp_def by simp
  qed
  have "LocalityScore (go_full n es) (int W) = mfold (\<lambda>i s. do { l \<leftarrow> int32 (int i - int W);
      mfold (locality_step (go_full n es) (int i)) (rev [max l 0..int i - 1]) s }) [0..<n] 0"
    by (simp add: LocalityScore_def int_for_0 for_range_def)
  also have "\<dots> = Some ((0 + sum_list (map ?g [0..<n])) mod 2 ^ 64)"
    by (rule mfold_add_mod) (use row in simp_all)
  finally show ?thesis by (simp add: interv_sum_list_conv_sum_set_nat atLeast0LessThan)
qed

text \<open>What a placed vertex gives to another one is their locality, where no vertex has too many outgoing edges.\<close>

lemma pts_locality:
  assumes wf: "go_wf n es" and light: "\<And>u. u < n \<Longrightarrow> light es K u" and v: "v < n" "x < n" "x \<noteq> v"
  shows "pts es K v x = locality es x v"
proof -
  note e = edge_less_n[OF wf]
  have one: "count_list (bucket es u) y = of_bool (y \<in> set (bucket es u))" for u y
    using distinct_bucket[OF wf, of u] by (cases "y \<in> set (bucket es u)") (simp_all add: count_list_distinct)
  have r: "count_list (reach es K {} u) x = of_bool (u = x) + of_bool (u \<in> set (ins es x))" if u: "u \<in> set (ins es v)" for u
  proof -
    have un: "u < n" by (rule e(2)[OF v(1) u])
    have vu: "v \<in> set (bucket es u)" using u e(4)[OF v(1)] e(3)[OF un] by simp
    have xu: "x \<in> set (bucket es u) \<longleftrightarrow> u \<in> set (ins es x)" using e(3)[OF un] e(4)[OF v(2)] by simp
    have long: "1 < length (bucket es u)" if "x \<in> set (bucket es u)"
    proof -
      have "{x, v} \<subseteq> set (bucket es u)" using vu that by simp
      then have "card {x, v} \<le> length (bucket es u)" by (meson List.finite_set card_length card_mono le_trans)
      then show ?thesis using v(3) by simp
    qed
    show ?thesis
    proof (cases "x \<in> set (bucket es u)")
      case True
      then have "count_list (reach es K {} u) x = of_bool (u = x) + count_list (bucket es u) x"
        using light[OF un] long[OF True] unfolding reach_def by (cases "u = x") simp_all
      then show ?thesis using True one[of u x] xu by simp
    next
      case False
      then have "count_list (reach es K {} u) x = of_bool (u = x)"
        using light[OF un] one[of u x] unfolding reach_def by (cases "1 < length (bucket es u)"; cases "u = x") simp_all
      then show ?thesis using False xu by simp
    qed
  qed
  have "sum_list (map (\<lambda>u. count_list (reach es K {} u) x) (ins es v)) =
      (\<Sum>u \<in> set (ins es v). of_bool (u = x) + of_bool (u \<in> set (ins es x)))"
    using distinct_ins[OF wf, of v] r by (subst sum_list_distinct_conv_sum_set) (auto intro: sum.cong)
  also have "\<dots> = of_bool (x \<in> set (ins es v)) + card (set (ins es x) \<inter> set (ins es v))"
    by (simp add: sum.distrib of_bool_def sum.If_cases Int_commute)
  finally have "sum_list (map (\<lambda>u. count_list (reach es K {} u) x) (ins es v)) =
      of_bool (x \<in> set (ins es v)) + card (set (ins es x) \<inter> set (ins es v))" .
  moreover have "count_list (outs es K v) x = of_bool (v \<in> set (ins es x))"
    using light[OF v(1)] one[of v x] e(3)[OF v(1), of x] e(4)[OF v(2), of v] by (simp add: outs_def)
  ultimately show ?thesis by (simp add: pts_def gives_def count_concat_map locality_def)
qed

text \<open>C35: The score that the greedy order maximises is the one that \<open>LocalityScore\<close> adds up: the score of the order
  \<open>0, 1, \<dots>\<close> is the sum, over all vertices, of their points against the \<open>W\<close> vertices before them (modulo \<open>2^64\<close>). No
  vertex has more than \<open>K\<close> outgoing edges; the last one has an incoming edge.\<close>

theorem LocalityScore_points:
  assumes "go_wf n es" "bucket (swaps es) (n - 1) \<noteq> []" "W < U32 div 2" "\<forall>u<n. length (bucket es u) \<le> K"
  shows "\<exists>s. LocalityScore (go_full n es) (int W) = Some s \<and> int s = (\<Sum>i<n. points es K [i - W..<i] i) mod 2 ^ 64"
proof -
  have "points es K [i - W..<i] i = int (\<Sum>j \<in> {i - W..<i}. locality es i j)" if i: "i < n" for i
  proof -
    have "pts es K j i = locality es i j" if "j \<in> set [i - W..<i]" for j
      using that i assms(4) by (intro pts_locality[OF assms(1)]) (auto simp: light_def)
    then have "map (\<lambda>j. pts es K j i) [i - W..<i] = map (locality es i) [i - W..<i]" by (intro map_cong) auto
    then show ?thesis by (simp add: points_def interv_sum_list_conv_sum_set_nat)
  qed
  then have "(\<Sum>i<n. points es K [i - W..<i] i) = int (\<Sum>i<n. \<Sum>j \<in> {i - W..<i}. locality es i j)" by simp
  then show ?thesis using LocalityScore_ok[OF assms(1-3)] by (simp add: zmod_int)
qed

theorem LocalityScore_points_witness:
  "\<exists>s. LocalityScore (go_full 3 [(0, 1), (0, 2), (1, 0)]) (int 2) = Some s \<and>
    int s = (\<Sum>i<3. points [(0, 1), (0, 2), (1, 0)] 2 [i - 2..<i] i) mod 2 ^ 64"
proof (rule LocalityScore_points)
  show "go_wf 3 [(0, 1), (0, 2), (1, 0)]" by (simp add: go_wf_def)
  show "bucket (swaps [(0, 1), (0, 2), (1, 0)]) (3 - 1) \<noteq> []" "2 < U32 div 2" by (simp_all add: bucket_def)
  show "\<forall>u<3. length (bucket [(0, 1), (0, 2), (1, 0)] u) \<le> 2" by (simp add: bucket_def)
qed

section \<open>The gaps\<close>

definition row_gaps :: "nat list \<Rightarrow> nat list" where
  "row_gaps ws = map (\<lambda>k. ws ! Suc k - ws ! k) [0..<length ws - 1] @ [hd ws]"

definition counts :: "nat \<Rightarrow> nat list \<Rightarrow> int list" where
  "counts n ds = map (\<lambda>d. int (count_list ds d)) [0..<n]"

lemma count_list_le_length: "count_list ds d \<le> length ds"
  by (induction ds) auto

lemma mfold_bumps:
  assumes "set ds \<subseteq> {..<n}" "length (qs @ ds) < U32 div 2"
  shows "mfold (\<lambda>d. gap_bump (int d)) ds (counts n qs) = Some (counts n (qs @ ds))"
  using assms
proof (induction ds arbitrary: qs)
  case (Cons d ds)
  have "(counts n qs)[d := int (count_list qs d) + 1] = counts n (qs @ [d])"
    using Cons.prems(1) by (intro nth_equalityI) (auto simp: counts_def nth_list_update)
  moreover have "int32 (int (count_list qs d) + 1) = Some (int (count_list qs d) + 1)"
    using Cons.prems(2) count_list_le_length[of qs d] by (intro int32_in) simp_all
  ultimately have "gap_bump (int d) (counts n qs) = Some (counts n (qs @ [d]))"
    using Cons.prems(1) by (simp add: gap_bump_def counts_def)
  then show ?case using Cons.IH[of "qs @ [d]"] Cons.prems by simp
qed simp

lemma out_row_nth:
  assumes "go_wf n es" "v < n" "k < length (bucket es v)"
  shows "map (int \<circ> snd) es ! (starts es v + k) = int (bucket es v ! k)" "starts es v + k < length es"
proof -
  have "csr_of n es = map snd es" by (rule csr_of_sorted) (use go_wfD[OF assms(1)] in auto)
  then have s: "bucket es v = slice (map snd es) (starts es v) (starts es (Suc v))" using slice_csr_of[OF assms(2), of es] by simp
  show l: "starts es v + k < length es" using starts_le[of es "Suc v"] assms(3) unfolding starts_Suc by simp
  have "slice (map snd es) (starts es v) (starts es (Suc v)) ! k = map snd es ! (starts es v + k)"
    using assms(3) starts_le[of es "Suc v"] by (intro nth_slice) (simp_all add: starts_Suc)
  then show "map (int \<circ> snd) es ! (starts es v + k) = int (bucket es v ! k)" using s l by simp
qed

text \<open>The loop over the gaps of a row, for any use \<open>f\<close> of a gap.\<close>

lemma gap_loop:
  assumes wf: "go_wf n es" and v: "v < n" and ne: "bucket es v \<noteq> []"
  shows "int_for (int (starts es v) + 1) (int (starts es (Suc v))) (\<lambda>j s. do {
       p \<leftarrow> iget (map (int \<circ> snd) es) j;
       q \<leftarrow> iget (map (int \<circ> snd) es) (j - 1);
       d \<leftarrow> int32 (p - q);
       f d s
     }) s = mfold (\<lambda>k. f (int (bucket es v ! Suc k - bucket es v ! k))) [0..<length (bucket es v) - 1] s"
proof -
  let ?ws = "bucket es v" and ?a = "starts es v" and ?es = "map (int \<circ> snd) es"
  let ?body = "\<lambda>j s. do { p \<leftarrow> iget ?es j; q \<leftarrow> iget ?es (j - 1); d \<leftarrow> int32 (p - q); f d s }"
  have e: "?a + length ?ws = Suc ?a + (length ?ws - 1)" using ne by (cases ?ws) auto
  have "[Suc ?a..<Suc ?a + m] = map (\<lambda>k. Suc (?a + k)) [0..<m]" for m
    by (induction m) simp_all
  then have "int_for (int (Suc ?a)) (int (starts es (Suc v))) ?body s = mfold (\<lambda>k. ?body (int (Suc (?a + k)))) [0..<length ?ws - 1] s"
    unfolding int_for_int for_range_def starts_Suc e by (simp add: mfold_map comp_def del: of_nat_Suc)
  also have "\<dots> = mfold (\<lambda>k. f (int (?ws ! Suc k - ?ws ! k))) [0..<length ?ws - 1] s"
  proof (rule mfold_cong[OF refl])
    fix k s assume "k \<in> set [0..<length ?ws - 1]"
    then have k: "Suc k < length ?ws" "k < length ?ws" by simp_all
    have "?ws ! k \<le> ?ws ! Suc k" using sorted_bucket[OF wf, of v] k by (intro sorted_nth_mono) simp_all
    moreover have "?ws ! Suc k < n" using edge_less_n(1)[OF wf v] k(1) by simp
    ultimately have "int32 (int (?ws ! Suc k) - int (?ws ! k)) = Some (int (?ws ! Suc k - ?ws ! k))"
      using go_wfD(2)[OF wf] by (simp add: int32_in of_nat_diff)
    moreover have "iget ?es (int (Suc (?a + k))) = Some (int (?ws ! Suc k))" "iget ?es (int (Suc (?a + k)) - 1) = Some (int (?ws ! k))"
      using out_row_nth[OF wf v k(1)] out_row_nth[OF wf v k(2)] iget_int[of ?es "Suc (?a + k)"] iget_int[of ?es "?a + k"] by simp_all
    ultimately show "?body (int (Suc (?a + k))) s = f (int (?ws ! Suc k - ?ws ! k)) s" by simp
  qed
  finally show ?thesis by (simp add: add.commute)
qed

definition all_gaps :: "nat \<Rightarrow> (nat \<times> nat) list \<Rightarrow> nat list" where
  "all_gaps n es = concat (map (\<lambda>v. row_gaps (bucket es v)) [0..<n])"

lemma length_all_gaps:
  assumes "\<And>v. v < k \<Longrightarrow> bucket es v \<noteq> []"
  shows "length (all_gaps k es) = starts es k"
  using assms
proof (induction k)
  case (Suc k)
  have "length (row_gaps (bucket es k)) = length (bucket es k)" using Suc.prems[of k] by (cases "bucket es k") (simp_all add: row_gaps_def)
  then show ?case using Suc by (simp add: all_gaps_def starts_Suc)
qed (simp add: all_gaps_def starts_def)

lemma mfold_snoc: "mfold f (xs @ [x]) s = do { s \<leftarrow> mfold f xs s; f x s }"
  by (simp add: mfold_append mfold_Nil)

text \<open>Every row has an edge: the histogram of the gaps.\<close>

lemma gap_counts_ok:
  assumes wf: "go_wf n es" and ne: "\<And>v. v < n \<Longrightarrow> bucket es v \<noteq> []"
  shows "gap_counts (go_of n es) = Some (counts n (all_gaps n es))"
proof -
  let ?body = "\<lambda>i gap. do {
       x \<leftarrow> iget (vertices (go_of n es)) (int i);
       a \<leftarrow> int32 (outstart x + 1);
       limit \<leftarrow> int32 (outdegree x + outstart x);
       gap \<leftarrow> int_for a limit (\<lambda>j gap. do {
         p \<leftarrow> iget (map (int \<circ> snd) es) j;
         q \<leftarrow> iget (map (int \<circ> snd) es) (j - 1);
         d \<leftarrow> int32 (p - q);
         gap_bump d gap
       }) gap;
       f \<leftarrow> iget (map (int \<circ> snd) es) (outstart x);
       gap_bump f gap
     }"
  have row: "?body v (counts n qs) = Some (counts n (qs @ row_gaps (bucket es v)))"
    if v: "v < n" and q: "length (qs @ row_gaps (bucket es v)) < U32 div 2" for v qs
  proof -
    let ?ws = "bucket es v"
    let ?ds = "map (\<lambda>k. ?ws ! Suc k - ?ws ! k) [0..<length ?ws - 1]"
    have w: "?ws ! k < n" if "k < length ?ws" for k using edge_less_n(1)[OF wf v] that by simp
    have ds: "set ?ds \<subseteq> {..<n}" "hd ?ws < n" using w ne[OF v] by (auto simp: hd_conv_nth less_imp_diff_less)
    have q': "length (qs @ ?ds) < U32 div 2" "length ((qs @ ?ds) @ [hd ?ws]) < U32 div 2" using q by (simp_all add: row_gaps_def)
    have "mfold (\<lambda>k. gap_bump (int (?ws ! Suc k - ?ws ! k))) [0..<length ?ws - 1] (counts n qs) = Some (counts n (qs @ ?ds))"
      using mfold_bumps[OF ds(1) q'(1)] by (simp add: mfold_map comp_def)
    moreover have "gap_bump (int (hd ?ws)) (counts n (qs @ ?ds)) = Some (counts n (qs @ row_gaps ?ws))"
      using mfold_bumps[of "[hd ?ws]" n "qs @ ?ds"] ds(2) q'(2) by (simp add: row_gaps_def mfold_Nil)
    moreover have "iget (map (int \<circ> snd) es) (int (starts es v)) = Some (int (hd ?ws))"
      using out_row_nth[OF wf v, of 0] ne[OF v] by (simp add: hd_conv_nth)
    moreover have "int32 (int (starts es v) + 1) = Some (int (starts es v) + 1)"
      using out_row_nth(2)[OF wf v, of 0] ne[OF v] go_wfD(3)[OF wf] by (intro int32_in) simp_all
    ultimately show ?thesis
      using v by (simp add: vert_simps row_end[OF wf] gap_loop[OF wf v ne[OF v]])
  qed
  have "mfold ?body [0..<k] (counts n []) = Some (counts n (all_gaps k es))" if "k \<le> n" for k
    using that
  proof (induction k)
    case (Suc k)
    have "length (all_gaps (Suc k) es) \<le> length es" using Suc.prems ne by (subst length_all_gaps) (simp_all add: starts_le)
    then have r: "?body k (counts n (all_gaps k es)) = Some (counts n (all_gaps k es @ row_gaps (bucket es k)))"
      using Suc.prems go_wfD(3)[OF wf] by (intro row) (simp_all add: all_gaps_def)
    have g: "all_gaps (Suc k) es = all_gaps k es @ row_gaps (bucket es k)" by (simp add: all_gaps_def)
    have IH: "mfold ?body [0..<k] (counts n []) = Some (counts n (all_gaps k es))"
      by (rule Suc.IH) (use Suc.prems in simp)
    show ?case unfolding upt_Suc_append[OF le0] mfold_snoc IH Option.bind.simps r g ..
  qed (simp add: all_gaps_def)
  moreover have "replicate n 0 = counts n []" by (simp add: counts_def map_replicate_const)
  ultimately show ?thesis by (simp add: gap_counts_def int_for_0 for_range_def)
qed

text \<open>The last vertex has no edge: the first target of its row is read behind the array.\<close>

lemma gap_counts_last_empty:
  assumes wf: "go_wf n es" and e: "bucket es (n - 1) = []"
  shows "gap_counts (go_of n es) = None"
proof -
  obtain m where m: "n = Suc m" using go_wfD(1)[OF wf] by (cases n) auto
  have "bucket es n = []" using go_wfD(6)[OF wf] by (force simp: bucket_def filter_empty_conv)
  have "starts es m = length es" using starts_Suc[of es m] e starts_all[of es n "Suc m"] go_wfD(6)[OF wf] m by simp
  then have o: "iget (map (int \<circ> snd) es) (outstart (vert es m)) = None" by (simp add: vert_simps)
  have "length (vertices (go_of n es)) = Suc n" by simp
  then have b: "do {
       x \<leftarrow> iget (vertices (go_of n es)) (int m);
       a \<leftarrow> int32 (outstart x + 1);
       limit \<leftarrow> int32 (outdegree x + outstart x);
       gap \<leftarrow> L x a limit;
       f \<leftarrow> iget (map (int \<circ> snd) es) (outstart x);
       gap_bump f gap
     } = None" for L :: "vertex \<Rightarrow> int \<Rightarrow> int \<Rightarrow> int list option"
    using m o by simp
  show ?thesis
    unfolding gap_counts_def go_of_simps int_for_0 new_array_int Option.bind.simps for_range_def m upt_Suc_append[OF le0] mfold_append
      mfold.simps b[unfolded m] by simp
qed

text \<open>The sum of the logarithms of the gaps of a row.\<close>

definition gap_sum :: "('f, 'x) log_floating_scheme \<Rightarrow> 'f \<Rightarrow> nat list \<Rightarrow> 'f" where
  "gap_sum F g ws = foldl (\<lambda>g k. add_log F (int (ws ! Suc k - ws ! k)) g) g [0..<length ws - 1]"

lemma row_gap_sum:
  assumes wf: "go_wf n es" and v: "v < n"
  shows "int_for (int (starts es v) + 1) (int (starts es (Suc v))) (\<lambda>j s. do {
       p \<leftarrow> iget (map (int \<circ> snd) es) j;
       q \<leftarrow> iget (map (int \<circ> snd) es) (j - 1);
       d \<leftarrow> int32 (p - q);
       Some (add_log F d s)
     }) s = Some (gap_sum F s (bucket es v))"
proof (cases "bucket es v = []")
  case True
  then show ?thesis by (simp add: int_for_def starts_Suc gap_sum_def)
next
  case False
  show ?thesis
    unfolding gap_loop[OF wf v False, of "\<lambda>d s. Some (add_log F d s)"] gap_sum_def by (rule mfold_foldl) simp
qed

lemma list_gap_sum:
  assumes s: "sorted ws" and n: "set ws \<subseteq> {..<n}" "n < U32 div 2"
  shows "int_for 1 (int (length (map int ws))) (\<lambda>j s. do {
       p \<leftarrow> iget (map int ws) j;
       q \<leftarrow> iget (map int ws) (j - 1);
       d \<leftarrow> int32 (p - q);
       Some (add_log F d s)
     }) s = Some (gap_sum F s ws)"
proof -
  have "[1..<length ws] = map Suc [0..<length ws - 1]" by (cases ws) (simp_all add: map_Suc_upt)
  then have "int_for 1 (int (length (map int ws))) (\<lambda>j s. do {
       p \<leftarrow> iget (map int ws) j;
       q \<leftarrow> iget (map int ws) (j - 1);
       d \<leftarrow> int32 (p - q);
       Some (add_log F d s)
     }) s = mfold (\<lambda>k s. do {
       p \<leftarrow> iget (map int ws) (int (Suc k));
       q \<leftarrow> iget (map int ws) (int (Suc k) - 1);
       d \<leftarrow> int32 (p - q);
       Some (add_log F d s)
     }) [0..<length ws - 1] s"
    unfolding int_for_1 length_map for_range_def by (simp add: mfold_map comp_def del: of_nat_Suc)
  also have "\<dots> = Some (gap_sum F s ws)"
    unfolding gap_sum_def
  proof (rule mfold_foldl)
    fix k s assume "k \<in> set [0..<length ws - 1]"
    then have k: "Suc k < length ws" "k < length ws" by simp_all
    have "ws ! k \<le> ws ! Suc k" using s k by (intro sorted_nth_mono) simp_all
    moreover have "ws ! Suc k < n" using n(1) k(1) by (meson lessThan_iff nth_mem subsetD)
    ultimately have "int32 (int (ws ! Suc k) - int (ws ! k)) = Some (int (ws ! Suc k - ws ! k))"
      using n(2) by (simp add: int32_in of_nat_diff)
    moreover have "iget (map int ws) (int (Suc k) - 1) = Some (int (ws ! k))"
      using k(2) iget_int[of "map int ws" k] by simp
    moreover have "iget (map int ws) (int (Suc k)) = Some (int (ws ! Suc k))" using k(1) by (simp del: of_nat_Suc)
    ultimately show "do {
       p \<leftarrow> iget (map int ws) (int (Suc k));
       q \<leftarrow> iget (map int ws) (int (Suc k) - 1);
       d \<leftarrow> int32 (p - q);
       Some (add_log F d s)
     } = Some (add_log F (int (ws ! Suc k - ws ! k)) s)" by simp
  qed
  finally show ?thesis .
qed

text \<open>The cost before an order is applied and after it: the second is the cost of the rows of the renamed graph.\<close>

lemma foldl_pair:
  "foldl (\<lambda>g v. (f (fst g) (a v), f (snd g) (b v))) (x, y) vs = (foldl f x (map a vs), foldl f y (map b vs))"
  by (induction vs arbitrary: x y) simp_all

lemma GapCost_ok:
  assumes lib: "sorts_ok lib" and wf: "go_wf n es" and ord: "perm n ord" and room: "length es < U32 div 2 - 1"
  shows "GapCost lib F (go_of n es) (map int ord) =
    Some (fdivide F (foldl (gap_sum F) (fzero F) (map (bucket es) [0..<n])) (fint F (int (length es))),
      fdivide F (foldl (gap_sum F) (fzero F) (map (\<lambda>v. bucket (sort (rename ord es)) (ord ! v)) [0..<n])) (fint F (int (length es))))"
proof -
  note p = permD[OF ord]
  have n: "n < U32 div 2" using go_wfD(2)[OF wf] by simp
  let ?row = "\<lambda>v. bucket (sort (rename ord es)) (ord ! v)"
  let ?body = "\<lambda>i (gaplog, gaplog2). do {
       x \<leftarrow> iget (vertices (go_of n es)) (int i);
       a \<leftarrow> int32 (outstart x + 1);
       limit \<leftarrow> int32 (outdegree x + outstart x);
       gaplog \<leftarrow> int_for a limit (\<lambda>j gaplog. do {
         p \<leftarrow> iget (map (int \<circ> snd) es) j;
         q \<leftarrow> iget (map (int \<circ> snd) es) (j - 1);
         d \<leftarrow> int32 (p - q);
         Some (add_log F d gaplog)
       }) gaplog;
       edgelist \<leftarrow> int_for (outstart x) limit (\<lambda>j edgelist. do {
         w \<leftarrow> iget (map (int \<circ> snd) es) j;
         v \<leftarrow> iget (map int ord) w;
         Some (edgelist @ [v])
       }) [];
       edgelist \<leftarrow> sort_ints lib (\<lambda>a b. a < b) edgelist;
       gaplog2 \<leftarrow> int_for 1 (int (length edgelist)) (\<lambda>j gaplog2. do {
         p \<leftarrow> iget edgelist j;
         q \<leftarrow> iget edgelist (j - 1);
         d \<leftarrow> int32 (p - q);
         Some (add_log F d gaplog2)
       }) gaplog2;
       Some (gaplog, gaplog2)
     }"
  have body: "?body v g = Some (gap_sum F (fst g) (bucket es v), gap_sum F (snd g) (?row v))" if v: "v \<in> set [0..<n]" for v g
  proof -
    have vn: "v < n" using v by simp
    have b: "set (bucket es v) \<subseteq> {..<n}" using edge_less_n(1)[OF wf vn] by auto
    have "mfold (\<lambda>w row. do { v \<leftarrow> aget (map int ord) w; Some (row @ [v]) }) ws s = Some (s @ map (\<lambda>w. int (ord ! w)) ws)"
      if "set ws \<subseteq> {..<n}" for ws s
      using that by (induction ws arbitrary: s) (auto simp: p(1))
    then have l: "int_for (int (starts es v)) (int (starts es (Suc v))) (\<lambda>j edgelist. do {
         w \<leftarrow> iget (map (int \<circ> snd) es) j;
         v \<leftarrow> iget (map int ord) w;
         Some (edgelist @ [v])
       }) [] = Some (map (\<lambda>w. int (ord ! w)) (bucket es v))"
      using go_row[OF wf vn, of "\<lambda>w row. do { v \<leftarrow> iget (map int ord) w; Some (row @ [v]) }"] b by simp
    have "map (\<lambda>w. int (ord ! w)) (bucket es v) = map int (map ((!) ord) (bucket es v))" by simp
    then have so: "sort_ints lib (\<lambda>a b. a < b) (map (\<lambda>w. int (ord ! w)) (bucket es v)) = Some (map int (?row v))"
      by (simp only: sort_less_ok[OF lib] sort_map_int bucket_sort bucket_rename[OF wf ord vn])
    have r: "sorted (?row v)" "set (?row v) \<subseteq> {..<n}"
      using b p(2) by (auto simp: bucket_sort bucket_rename[OF wf ord vn])
    have "starts es v < U32 div 2 - 1" using starts_le[of es v] room by (rule le_less_trans)
    then have st: "int32 (int (starts es v) + 1) = Some (int (starts es v) + 1)" by (simp add: int32_in)
    have i: "iget (vertices (go_of n es)) (int v) = Some (vert es v)" using vn by simp
    show ?thesis
      unfolding i Option.bind.simps case_prod_unfold vert_simps row_end[OF wf] st
        row_gap_sum[OF wf vn] l so list_gap_sum[OF r n] ..
  qed
  have "mfold ?body [0..<n] (fzero F, fzero F) =
      Some (foldl (\<lambda>g v. (gap_sum F (fst g) (bucket es v), gap_sum F (snd g) (?row v))) (fzero F, fzero F) [0..<n])"
    by (rule mfold_foldl) (rule body)
  then show ?thesis
    by (simp add: GapCost_def int_for_0 for_range_def case_prod_unfold foldl_pair[where f = "gap_sum F" and b = ?row])
qed

section \<open>The histogram of the degrees\<close>

lemma upper_bound_ok:
  assumes "\<And>k k'. first \<le> k \<Longrightarrow> k \<le> k' \<Longrightarrow> k' < first + len \<Longrightarrow> xs ! k \<le> xs ! k'" "first + len \<le> length xs"
  shows "\<exists>i. upper_bound xs first len v = Some i \<and> first \<le> i \<and> i \<le> first + len \<and>
    (\<forall>k. first \<le> k \<longrightarrow> k < i \<longrightarrow> xs ! k \<le> v) \<and> (\<forall>k. i \<le> k \<longrightarrow> k < first + len \<longrightarrow> v < xs ! k)"
  using assms
proof (induction xs first len v rule: upper_bound.induct)
  case (1 xs first len v)
  let ?m = "first + len div 2"
  show ?case
  proof (cases "len = 0")
    case True
    then show ?thesis by (subst upper_bound.simps) simp
  next
    case len: False
    then have m: "?m < first + len" "aget xs ?m = Some (xs ! ?m)" using 1(4) by auto
    show ?thesis
    proof (cases "v < xs ! ?m")
      case True
      obtain i where i: "upper_bound xs first (len div 2) v = Some i" "first \<le> i" "i \<le> ?m"
          "\<forall>k. first \<le> k \<longrightarrow> k < i \<longrightarrow> xs ! k \<le> v" "\<forall>k. i \<le> k \<longrightarrow> k < ?m \<longrightarrow> v < xs ! k"
        using 1(1)[OF len m(2) True] 1(3,4) m(1) by auto
      have "v < xs ! k" if "i \<le> k" "k < first + len" for k
        using i(5) 1(3)[of ?m k] m(1) True that by (cases "k < ?m") auto
      then show ?thesis using i len m True by (subst upper_bound.simps) simp
    next
      case False
      have e: "?m + 1 + (len - len div 2 - 1) = first + len" using m(1) by simp
      obtain i where i: "upper_bound xs (?m + 1) (len - len div 2 - 1) v = Some i" "?m + 1 \<le> i" "i \<le> first + len"
          "\<forall>k. ?m + 1 \<le> k \<longrightarrow> k < i \<longrightarrow> xs ! k \<le> v" "\<forall>k. i \<le> k \<longrightarrow> k < first + len \<longrightarrow> v < xs ! k"
        using 1(2)[OF len m(2) False] 1(3,4) unfolding e by auto
      have "xs ! k \<le> v" if "first \<le> k" "k < i" for k
        using i(4) 1(3)[OF that(1), of ?m] m(1) False that(2) by (cases "k \<le> ?m") auto
      then show ?thesis using i len m False by (subst upper_bound.simps) simp
    qed
  qed
qed

lemma upper_bound_count:
  assumes "sorted xs"
  shows "upper_bound xs 0 (length xs) v = Some (length (filter (\<lambda>x. x \<le> v) xs))"
proof -
  obtain i where i: "upper_bound xs 0 (length xs) v = Some i" "i \<le> length xs" "\<forall>k<i. xs ! k \<le> v" "\<forall>k. i \<le> k \<longrightarrow> k < length xs \<longrightarrow> v < xs ! k"
    using upper_bound_ok[of 0 "length xs" xs v] sorted_nth_mono[OF assms] by auto
  have "filter (\<lambda>x. x \<le> v) (take i xs) = take i xs" using i(2,3) by (auto simp: filter_id_conv in_set_conv_nth)
  moreover have "filter (\<lambda>x. x \<le> v) (drop i xs) = []" using i(4) by (fastforce simp: filter_empty_conv in_set_conv_nth not_le)
  moreover have "filter (\<lambda>x. x \<le> v) xs = filter (\<lambda>x. x \<le> v) (take i xs) @ filter (\<lambda>x. x \<le> v) (drop i xs)"
    by (metis append_take_drop_id filter_append)
  ultimately show ?thesis using i(1,2) by simp
qed

text \<open>A line for every power of ten below \<open>n\<close>: how many of \<open>ds\<close> are at most that and more than the power before.\<close>

definition upto_power :: "nat list \<Rightarrow> nat \<Rightarrow> nat" where
  "upto_power ds k = length (filter (\<lambda>d. d \<le> 10 ^ k) ds)"

definition analysis_line :: "nat list \<Rightarrow> nat \<Rightarrow> string" where
  "analysis_line ds k = to_string (10 ^ k) @ '': '' @ to_string (upto_power ds k - (if k = 0 then 0 else upto_power ds (k - 1))) @ [newline]"

lemma analysis_loop_ok:
  assumes "sorted ds" "n \<le> 10 ^ 9" "k \<le> K" "n \<le> 10 ^ K" "\<forall>i<K. 10 ^ i < n"
  shows "analysis_loop (map int ds) (int n) (int (10 ^ k)) (if k = 0 then 0 else upto_power ds (k - 1)) s =
    Some (s @ concat (map (analysis_line ds) [k..<K]))"
  using assms(3)
proof (induction "K - k" arbitrary: k s)
  case 0
  then have "k = K" by simp
  then show ?case using assms(4) by (subst analysis_loop.simps) simp
next
  case (Suc m)
  then have k: "k < K" "10 ^ k < n" using assms(5) by auto
  have f: "filter (\<lambda>x. x \<le> int (10 ^ k)) (map int ds) = map int (filter (\<lambda>d. d \<le> 10 ^ k) ds)"
    unfolding filter_map comp_def of_nat_le_iff ..
  have u: "upper_bound (map int ds) 0 (length (map int ds)) (int (10 ^ k)) = Some (upto_power ds k)"
    using assms(1) by (subst upper_bound_count) (simp_all only: f upto_power_def length_map sorted_map comp_def of_nat_le_iff sorted_wrt_map)
  have "10 ^ k < (10 :: nat) ^ 9" using k(2) assms(2) by linarith
  then have "k \<le> 8" by (simp add: power_strict_increasing_iff[of 10 k 9, simplified] del: power_strict_increasing_iff)
  then have "(10 :: nat) ^ k \<le> 10 ^ 8" by (intro power_increasing) simp_all
  moreover have "(10 :: nat) ^ 8 = 100000000" by simp
  ultimately have "int (10 ^ k) \<le> 100000000" by linarith
  moreover have "0 \<le> int (10 ^ k)" by (rule of_nat_0_le_iff)
  ultimately have "int32 (int (10 ^ k) * 10) = Some (int (10 ^ k) * 10)" by (intro int32_in) linarith+
  moreover have "int (10 ^ Suc k) = int (10 ^ k) * 10" by simp
  ultimately have i: "int32 (int (10 ^ k) * 10) = Some (int (10 ^ Suc k))" by (simp only:)
  let ?p = "if k = 0 then 0 else upto_power ds (k - 1)"
  have "?p \<le> upto_power ds k"
  proof -
    have "filter (\<lambda>d. d \<le> 10 ^ (k - 1)) ds = filter (\<lambda>d. d \<le> 10 ^ (k - 1)) (filter (\<lambda>d. d \<le> 10 ^ k) ds)"
      by (auto intro!: filter_cong elim!: order_trans intro: power_increasing)
    then have "upto_power ds (k - 1) \<le> upto_power ds k" unfolding upto_power_def by (metis length_filter_le)
    then show ?thesis by simp
  qed
  then have pr: "print_int (int (upto_power ds k) - int ?p) = to_string (upto_power ds k - ?p)"
    using print_int[of "upto_power ds k - ?p"] by (simp only: of_nat_diff)
  have IH: "analysis_loop (map int ds) (int n) (int (10 ^ Suc k)) (upto_power ds k) (s @ analysis_line ds k) =
      Some ((s @ analysis_line ds k) @ concat (map (analysis_line ds) [Suc k..<K]))"
    using Suc(1)[of "Suc k" "s @ analysis_line ds k"] Suc(2) k(1) by simp
  have less: "int (10 ^ k) < int n" using k(2) by (simp only: of_nat_less_iff)
  have "[k..<K] = k # [Suc k..<K]" using k(1) by (rule upt_conv_Cons)
  then have r: "s @ concat (map (analysis_line ds) [k..<K]) = (s @ analysis_line ds k) @ concat (map (analysis_line ds) [Suc k..<K])" by simp
  show ?case
    unfolding r IH[symmetric]
    by (subst analysis_loop.simps) (simp only: less if_True u Option.bind.simps i pr print_int analysis_line_def append_assoc)
qed

lemma analysis_line_sort: "analysis_line (sort ds) = analysis_line ds"
proof -
  have "upto_power (sort ds) k = upto_power ds k" for k
    unfolding upto_power_def by (rule mset_eq_length) (simp only: mset_filter mset_sort)
  then show ?thesis by (simp add: analysis_line_def fun_eq_iff)
qed

lemma analyse_ok:
  assumes lib: "sorts_ok lib" and n: "n \<le> 10 ^ 9" "n \<le> 10 ^ K" "\<forall>i<K. 10 ^ i < n"
    and deg: "\<And>v. v < n \<Longrightarrow> deg (vert es v) = int (f v)"
  shows "analyse lib name deg (go_of n es) s = Some (s @ name @ '':'' @ [newline] @ concat (map (analysis_line (map f [0..<n])) [0..<K]))"
proof -
  let ?ds = "map f [0..<n]"
  have "ok (for_range 0 n (\<lambda>i tmp. do { x \<leftarrow> iget (vertices (go_of n es)) (int i); iput tmp (int i) (deg x) }) (replicate n 0))
    (\<lambda>tmp. length tmp = n \<and> (\<forall>v<n. tmp ! v = int (f v)))"
    by (rule ok_for_range[where P = "\<lambda>i tmp. length tmp = n \<and> (\<forall>v<i. tmp ! v = int (f v))"])
      (auto simp: deg nth_list_update less_Suc_eq)
  then obtain tmp where t: "for_range 0 n (\<lambda>i tmp. do { x \<leftarrow> iget (vertices (go_of n es)) (int i); iput tmp (int i) (deg x) }) (replicate n 0) = Some tmp"
      "length tmp = n" "\<forall>v<n. tmp ! v = int (f v)"
    by (auto simp: ok_iff)
  have tm: "tmp = map int ?ds" using t(2,3) by (intro nth_equalityI) simp_all
  have so: "sort_ints lib (\<lambda>a b. a < b) tmp = Some (map int (sort ?ds))"
    unfolding sort_less_ok[OF lib] tm sort_map_int ..
  have "analysis_loop (map int (sort ?ds)) (int n) 1 0 s' = Some (s' @ concat (map (analysis_line (sort ?ds)) [0..<K]))" for s'
    using analysis_loop_ok[of "sort ?ds" n 0 K s'] n by simp
  then show ?thesis
    unfolding analyse_def go_of_simps new_array_int Option.bind.simps int_for_0 t(1) so by (simp add: analysis_line_sort)
qed

lemma GraphAnalysis_ok:
  assumes lib: "sorts_ok lib" and n: "n \<le> 10 ^ 9" "n \<le> 10 ^ K" "\<forall>i<K. 10 ^ i < n"
  shows "GraphAnalysis lib (go_of n es) = Some (
    ''outdegree:'' @ [newline] @ concat (map (analysis_line (map (\<lambda>v. length (bucket es v)) [0..<n])) [0..<K]) @
    ''indegree:'' @ [newline] @ concat (map (analysis_line (map (\<lambda>v. length (ins es v)) [0..<n])) [0..<K]))"
  using analyse_ok[OF assms, of outdegree es "\<lambda>v. length (bucket es v)" "''outdegree''" "[]"]
    analyse_ok[OF assms, of indeg es "\<lambda>v. length (ins es v)" "''indegree''"]
  by (simp add: GraphAnalysis_def vert_simps)

section \<open>Strings\<close>

lemma split_from_ok:
  assumes "b \<le> length s"
  shows "\<exists>ws. split_from s c b elems = elems @ ws \<and> (\<forall>w \<in> set ws. c \<notin> set w) \<and>
    concat (map (\<lambda>w. w @ [c]) ws) = (if drop b s = [] \<or> last s = c then drop b s else drop b s @ [c])"
  using assms
proof (induction s c b elems rule: split_from.induct)
  case (1 s c b elems)
  let ?w = "takeWhile (\<lambda>x. x \<noteq> c) (drop b s)"
  show ?case
  proof (cases "find_from s c b")
    case None
    then have "\<not> b + length ?w < length s" by (simp add: find_from_def Let_def split: if_splits)
    then have "length ?w = length (drop b s)" using length_takeWhile_le[of "\<lambda>x. x \<noteq> c" "drop b s"] 1(2) by simp
    then have w: "?w = drop b s" by (metis length_drop takeWhile_eq_take take_all order.refl)
    then have c: "c \<notin> set (drop b s)" by (metis set_takeWhileD)
    show ?thesis
    proof (cases "b = length s")
      case True
      then show ?thesis using None by (subst split_from.simps) simp
    next
      case False
      then have ne: "drop b s \<noteq> []" using 1(2) by simp
      then have "last s \<in> set (drop b s)" by (metis last_drop last_in_set drop_eq_Nil not_le)
      then have "last s \<noteq> c" using c by auto
      then show ?thesis using None False c ne by (subst split_from.simps) (auto intro!: exI[of _ "[drop b s]"])
    qed
  next
    case (Some e)
    then have e: "e = b + length ?w" "e < length s" by (auto simp: find_from_def Let_def split: if_splits)
    then obtain x r where r: "dropWhile (\<lambda>x. x \<noteq> c) (drop b s) = x # r"
      using takeWhile_dropWhile_id[of "\<lambda>x. x \<noteq> c" "drop b s"] arg_cong[OF takeWhile_dropWhile_id[of "\<lambda>x. x \<noteq> c" "drop b s"], of length]
      by (cases "dropWhile (\<lambda>x. x \<noteq> c) (drop b s)") auto
    then have x: "x = c" using hd_dropWhile[of "\<lambda>x. x \<noteq> c" "drop b s"] by simp
    have d: "drop b s = ?w @ c # r" using takeWhile_dropWhile_id[of "\<lambda>x. x \<noteq> c" "drop b s"] r x by simp
    have t: "take (e - b) (drop b s) = ?w" "drop (e + 1) s = r"
    proof -
      show "take (e - b) (drop b s) = ?w" using e(1) by (simp add: takeWhile_eq_take[symmetric])
      have "drop (e + 1) s = drop (Suc (length ?w)) (drop b s)" using e(1) by (simp add: add.commute add.left_commute)
      also have "\<dots> = r" by (subst d) simp
      finally show "drop (e + 1) s = r" .
    qed
    have "e + 1 \<le> length s" using e(2) by simp
    then obtain ws where ws: "split_from s c (e + 1) (elems @ [?w]) = (elems @ [?w]) @ ws" "\<forall>w \<in> set ws. c \<notin> set w"
        "concat (map (\<lambda>w. w @ [c]) ws) = (if r = [] \<or> last s = c then r else r @ [c])"
      using 1(1)[OF Some] unfolding t by blast
    have ls: "last s = (if r = [] then c else last r)"
    proof -
      have "last s = last (drop b s)" using e by (metis last_drop d append_is_Nil_conv list.distinct(1) drop_eq_Nil not_le)
      also have "\<dots> = last (c # r)" by (subst d) simp
      finally show ?thesis by simp
    qed
    have "split_from s c b elems = elems @ (?w # ws)"
      using Some ws(1) t(1) by (subst split_from.simps) simp
    moreover have "concat (map (\<lambda>w. w @ [c]) (?w # ws)) = (if drop b s = [] \<or> last s = c then drop b s else drop b s @ [c])"
      using ws(3) ls d by (auto split: if_splits)
    moreover have "c \<notin> set ?w" by (auto dest: set_takeWhileD)
    ultimately show ?thesis using ws(2) by (intro exI[of _ "?w # ws"]) auto
  qed
qed

text \<open>The parts hold no delimiter, and give the string back, up to a delimiter at its end.\<close>

lemma go_split_ok:
  "\<forall>w \<in> set (go_split s c). c \<notin> set w"
  "concat (map (\<lambda>w. w @ [c]) (go_split s c)) = (if s = [] \<or> last s = c then s else s @ [c])"
  using split_from_ok[of 0 s c "[]"] by (auto simp: go_split_def)

lemma strTrimRight_ok:
  "\<exists>t. str = strTrimRight str @ t \<and> set t \<subseteq> {CHR '' '', CHR 0x09, CHR 0x0D, CHR 0x0A}"
  "strTrimRight str \<noteq> [] \<Longrightarrow> last (strTrimRight str) \<notin> {CHR '' '', CHR 0x09, CHR 0x0D, CHR 0x0A}"
proof -
  let ?P = "\<lambda>c. c \<in> {CHR '' '', CHR 0x09, CHR 0x0D, CHR 0x0A}"
  have "str = rev (dropWhile ?P (rev str)) @ rev (takeWhile ?P (rev str))"
    by (metis rev_append rev_rev_ident takeWhile_dropWhile_id)
  moreover have "set (rev (takeWhile ?P (rev str))) \<subseteq> {CHR '' '', CHR 0x09, CHR 0x0D, CHR 0x0A}"
    using set_takeWhileD[of _ ?P "rev str"] by auto
  ultimately show "\<exists>t. str = strTrimRight str @ t \<and> set t \<subseteq> {CHR '' '', CHR 0x09, CHR 0x0D, CHR 0x0A}"
    unfolding strTrimRight_def by blast
  assume "strTrimRight str \<noteq> []"
  then have "dropWhile ?P (rev str) \<noteq> []" by (simp add: strTrimRight_def)
  then have "\<not> ?P (hd (dropWhile ?P (rev str)))" by (rule hd_dropWhile)
  then show "last (strTrimRight str) \<notin> {CHR '' '', CHR 0x09, CHR 0x0D, CHR 0x0A}" by (simp only: strTrimRight_def last_rev not_False_eq_True)
qed

end
