(* ===== verification/Python_IO.thy ===== *)
theory Python_IO
  imports Stdio "HOL-Library.AList"
begin

text \<open>
  What the Python programs use of their language. An exception is a value of \<open>py_error\<close>, a computation that may raise one
  has the type \<open>'a py\<close> (\<open>Inl\<close> the exception). A \<open>dict\<close> is an association list in the order of insertion, which is
  the order in which Python iterates over it. A text file is a string of ASCII characters; reading translates the ends
  of lines. \<open>int\<close> and \<open>str\<close> of integers are unbounded.
\<close>

section \<open>Exceptions\<close>

datatype py_error = ValueError | IndexError | KeyError | ZeroDivisionError | OSError

type_synonym 'a py = "py_error + 'a"

definition py_bind :: "'a py \<Rightarrow> ('a \<Rightarrow> 'b py) \<Rightarrow> 'b py" where
  "py_bind m f = (case m of Inl e \<Rightarrow> Inl e | Inr x \<Rightarrow> f x)"

lemma py_bind_simps [simp]: "py_bind (Inl e) f = Inl e" "py_bind (Inr x) f = f x"
  by (simp_all add: py_bind_def)

fun py_fold :: "('a \<Rightarrow> 's \<Rightarrow> 's py) \<Rightarrow> 'a list \<Rightarrow> 's \<Rightarrow> 's py" where
  "py_fold f [] s = Inr s"
| "py_fold f (x # xs) s = py_bind (f x s) (py_fold f xs)"

fun py_map :: "('a \<Rightarrow> 'b py) \<Rightarrow> 'a list \<Rightarrow> 'b list py" where
  "py_map f [] = Inr []"
| "py_map f (x # xs) = py_bind (f x) (\<lambda>y. py_bind (py_map f xs) (\<lambda>ys. Inr (y # ys)))"

lemma py_fold_append: "py_fold f (xs @ ys) s = py_bind (py_fold f xs s) (py_fold f ys)"
proof (induction xs arbitrary: s)
  case (Cons x xs)
  then show ?case by (cases "f x s") simp_all
qed simp

lemma py_fold_fold: "(\<And>x s. x \<in> set xs \<Longrightarrow> f x s = Inr (g x s)) \<Longrightarrow> py_fold f xs s = Inr (fold g xs s)"
  by (induction xs arbitrary: s) simp_all

lemma py_map_map: "(\<And>x. x \<in> set xs \<Longrightarrow> f x = Inr (g x)) \<Longrightarrow> py_map f xs = Inr (map g xs)"
  by (induction xs) simp_all

lemma py_map_of_map: "py_map f (map g xs) = py_map (\<lambda>x. f (g x)) xs"
  by (induction xs) simp_all

section \<open>Dictionaries\<close>

text \<open>\<open>d[k]\<close>\<close>

definition py_item :: "('k \<times> 'v) list \<Rightarrow> 'k \<Rightarrow> 'v py" where
  "py_item d k = (case map_of d k of None \<Rightarrow> Inl KeyError | Some v \<Rightarrow> Inr v)"

text \<open>\<open>d[k].append(v)\<close> of a \<open>defaultdict(list)\<close>\<close>

definition py_append :: "'k \<Rightarrow> 'v \<Rightarrow> ('k \<times> 'v list) list \<Rightarrow> ('k \<times> 'v list) list" where
  "py_append k v d = AList.update k ((case map_of d k of None \<Rightarrow> [] | Some vs \<Rightarrow> vs) @ [v]) d"

lemma update_fresh: "k \<notin> fst ` set d \<Longrightarrow> AList.update k v d = d @ [(k, v)]"
  by (induction d) auto

lemma dict_keys: "map_of d k = None \<longleftrightarrow> k \<notin> fst ` set d" "map_of d k \<noteq> None \<longleftrightarrow> k \<in> fst ` set d"
  by (simp_all add: map_of_eq_None_iff)

lemma py_append_keys: "fst ` set (py_append k v d) = insert k (fst ` set d)"
  by (simp add: py_append_def AList.dom_update)

lemma py_append_distinct: "distinct (map fst d) \<Longrightarrow> distinct (map fst (py_append k v d))"
  by (simp add: py_append_def AList.distinct_update)

lemma py_append_lookup:
  "map_of (py_append k v d) x = (if x = k then Some ((case map_of d k of None \<Rightarrow> [] | Some vs \<Rightarrow> vs) @ [v]) else map_of d x)"
  by (simp add: py_append_def AList.update_conv')

section \<open>Numbers\<close>

definition py_str :: "int \<Rightarrow> string" where
  "py_str z = (if z < 0 then CHR ''-'' # to_string (nat (- z)) else to_string (nat z))"

text \<open>Digits with single underscores between them.\<close>

fun digit_groups :: "string \<Rightarrow> bool" where
  "digit_groups [] = False"
| "digit_groups [c] = is_digit c"
| "digit_groups (c # d # cs) = (is_digit c \<and> (if d = CHR ''_'' then digit_groups cs else digit_groups (d # cs)))"

definition py_int :: "string \<Rightarrow> int py" where
  "py_int s = (let (neg, ds) = scan_sign s in
     if digit_groups ds then let v = int (decimal_value (filter is_digit ds)) in Inr (if neg then - v else v)
     else Inl ValueError)"

lemma digit_groups_digits: "ds \<noteq> [] \<Longrightarrow> \<forall>c \<in> set ds. is_digit c \<Longrightarrow> digit_groups ds"
proof (induction ds rule: digit_groups.induct)
  case (3 c d cs)
  have "\<not> is_digit (CHR ''_'')" by (simp add: is_digit_def)
  then have "d \<noteq> CHR ''_''" using 3(4) by auto
  then show ?case using 3 by simp
qed simp_all

lemma py_int_str [simp]: "py_int (py_str z) = Inr z"
proof -
  have g: "digit_groups (to_string n)" "filter is_digit (to_string n) = to_string n" for n
    using digit_groups_digits[of "to_string n"] to_string_digits[of n] to_string_Cons[of n] by auto
  have s: "scan_sign (to_string n) = (False, to_string n)" for n
  proof -
    obtain c cs where c: "to_string n = c # cs" "is_digit c" using to_string_Cons by blast
    then show ?thesis using digit_not_sign[OF c(2)] by (simp add: scan_sign_def)
  qed
  show ?thesis
  proof (cases "z < 0")
    case True
    then have "py_str z = CHR ''-'' # to_string (nat (- z))" by (simp add: py_str_def)
    moreover have "scan_sign (CHR ''-'' # to_string (nat (- z))) = (True, to_string (nat (- z)))" by (simp add: scan_sign_def)
    ultimately show ?thesis using True g by (simp add: py_int_def Let_def)
  next
    case False
    then show ?thesis using s g by (simp add: py_int_def py_str_def Let_def)
  qed
qed

section \<open>Lines and words\<close>

text \<open>Text mode translates \<open>\r\n\<close> and \<open>\r\<close> to \<open>\n\<close>.\<close>

definition carriage_return :: char where "carriage_return = CHR 0x0D"

fun newlines :: "string \<Rightarrow> string" where
  "newlines [] = []"
| "newlines [c] = [if c = carriage_return then newline else c]"
| "newlines (c # d # cs) = (if c = carriage_return then newline # newlines (if d = newline then cs else d # cs)
     else c # newlines (d # cs))"

text \<open>The lines that \<open>readline\<close> returns, without the end of the line: the callers pass them to \<open>split\<close> or \<open>int\<close>, which
  drop it.\<close>

function cut_lines :: "string \<Rightarrow> string list" where
  "cut_lines s = (if s = [] then []
     else takeWhile (\<lambda>c. c \<noteq> newline) s # cut_lines (drop 1 (dropWhile (\<lambda>c. c \<noteq> newline) s)))"
  by pat_completeness auto
termination
proof (relation "measure length")
  fix s :: string assume "s \<noteq> []"
  then have "length (drop 1 (dropWhile (\<lambda>c. c \<noteq> newline) s)) < length s"
    using length_dropWhile_le[of "\<lambda>c. c \<noteq> newline" s] by (cases s) (simp_all add: le_less_trans)
  then show "(drop 1 (dropWhile (\<lambda>c. c \<noteq> newline) s), s) \<in> measure length" by simp
qed simp

declare cut_lines.simps [simp del]

definition py_lines :: "string \<Rightarrow> string list" where
  "py_lines s = cut_lines (newlines s)"

text \<open>\<open>str.split()\<close>: the white space of Python contains four separator characters besides that of C.\<close>

definition py_space :: "char \<Rightarrow> bool" where
  "py_space c \<longleftrightarrow> is_space c \<or> 28 \<le> (of_char c :: nat) \<and> (of_char c :: nat) \<le> 31"

function py_split :: "string \<Rightarrow> string list" where
  "py_split s = (let t = dropWhile py_space s in
     if t = [] then [] else takeWhile (\<lambda>c. \<not> py_space c) t # py_split (dropWhile (\<lambda>c. \<not> py_space c) t))"
  by pat_completeness auto
termination
proof (relation "measure length")
  fix s t assume t: "t = dropWhile py_space s" "t \<noteq> []"
  then have "\<not> py_space (hd t)" using hd_dropWhile by metis
  then have "length (dropWhile (\<lambda>c. \<not> py_space c) t) < length t"
    using t(2) length_dropWhile_le[of "\<lambda>c. \<not> py_space c" "tl t"] by (cases t) simp_all
  also have "length t \<le> length s" using t(1) length_dropWhile_le[of py_space s] by simp
  finally show "(dropWhile (\<lambda>c. \<not> py_space c) t, s) \<in> measure length" by simp
qed simp

declare py_split.simps [simp del]

definition token :: "string \<Rightarrow> bool" where
  "token w \<longleftrightarrow> w \<noteq> [] \<and> (\<forall>c \<in> set w. \<not> py_space c)"

lemma py_spaces [simp]: "py_space (CHR '' '')" "py_space newline" "py_space carriage_return"
  by (simp_all add: py_space_def is_space_def newline_def carriage_return_def)

lemma py_split_Nil [simp]: "py_split [] = []"
  by (subst py_split.simps) simp

lemma py_split_token: "token w \<Longrightarrow> py_split w = [w]"
proof -
  assume w: "token w"
  have d: "dropWhile py_space w = w" using w by (cases w) (auto simp: token_def)
  have e: "takeWhile (\<lambda>c. \<not> py_space c) w = w" "dropWhile (\<lambda>c. \<not> py_space c) w = []" "w \<noteq> []"
    using w by (auto simp: token_def)
  show ?thesis by (subst py_split.simps) (simp add: d e)
qed

lemma py_split_Cons: "token w \<Longrightarrow> py_space c \<Longrightarrow> py_split (w @ c # s) = w # py_split s"
proof -
  assume w: "token w" "py_space c"
  have sp: "py_split (c # s) = py_split s" using w(2) by (subst (1 2) py_split.simps) simp
  have "dropWhile py_space (w @ c # s) = w @ c # s" using w by (cases w) (auto simp: token_def)
  moreover have "takeWhile (\<lambda>c. \<not> py_space c) (w @ c # s) = w" "dropWhile (\<lambda>c. \<not> py_space c) (w @ c # s) = c # s"
    using w by (auto simp: token_def takeWhile_append2 dropWhile_append2)
  ultimately show ?thesis using sp w(1) by (subst py_split.simps) (simp add: token_def)
qed

lemma str_chars: "c \<in> set (py_str z) \<Longrightarrow> is_digit c \<or> c = CHR ''-''"
  using to_string_digits by (auto simp: py_str_def split: if_splits)

lemma str_token [simp]: "token (py_str z)"
proof -
  have "\<not> py_space c" if "is_digit c \<or> c = CHR ''-''" for c
    using that by (auto simp: py_space_def is_space_def is_digit_def)
  moreover have "py_str z \<noteq> []" using to_string_Cons[of "nat z"] by (auto simp: py_str_def)
  ultimately show ?thesis using str_chars[of _ z] by (simp add: token_def)
qed

lemma str_plain: "c \<in> set (py_str z) \<Longrightarrow> c \<noteq> newline \<and> c \<noteq> carriage_return"
  using str_chars[of c z] by (auto simp: is_digit_def newline_def carriage_return_def)

text \<open>Lines without control characters.\<close>

lemma newlines_id: "carriage_return \<notin> set s \<Longrightarrow> newlines s = s"
  by (induction s rule: newlines.induct) auto

lemma cut_lines_Nil [simp]: "cut_lines [] = []"
  by (subst cut_lines.simps) simp

lemma cut_lines_line: "newline \<notin> set l \<Longrightarrow> cut_lines (l @ newline # s) = l # cut_lines s"
proof -
  assume n: "newline \<notin> set l"
  have t: "takeWhile (\<lambda>c. c \<noteq> newline) (l @ newline # s) = l" using n by (subst takeWhile_append2) auto
  have d: "dropWhile (\<lambda>c. c \<noteq> newline) (l @ newline # s) = newline # s" using n by (subst dropWhile_append2) auto
  show ?thesis by (subst cut_lines.simps) (simp add: t d)
qed

lemma py_lines_concat:
  assumes "\<And>l. l \<in> set ls \<Longrightarrow> newline \<notin> set l \<and> carriage_return \<notin> set l"
  shows "py_lines (concat (map (\<lambda>l. l @ [newline]) ls)) = ls"
proof -
  have "newline \<noteq> carriage_return" by (simp add: newline_def carriage_return_def)
  then have "carriage_return \<notin> set (concat (map (\<lambda>l. l @ [newline]) ls))" using assms by auto
  moreover have "cut_lines (concat (map (\<lambda>l. l @ [newline]) ls)) = ls"
    using assms by (induction ls) (auto simp: cut_lines_line)
  ultimately show ?thesis by (simp add: py_lines_def newlines_id)
qed

end
