(* ===== verification/Python_Orders.thy ===== *)
theory Python_Orders
  imports Python_IO Complex_Main
begin

text \<open>
  The orders that are computed by Python scripts: \<open>degree/degree.py\<close> (by the number of edges) and \<open>cluster/hub.py\<close> (the
  vertices with at least the average number of edges first). The result of a script is the list of the files it has
  written, in that order, and the exception that ended it, if any.
\<close>

section \<open>The code\<close>

text \<open>What \<open>argparse\<close> makes of the options; \<open>-s\<close> is an option of \<open>hub.py\<close>.\<close>

record py_args =
  opt_maintain :: bool
  opt_weighted :: bool
  opt_ascending :: bool
  opt_indegree :: bool
  opt_sort :: bool

type_synonym py_row = "int \<times> int \<times> int option"

record order_input =
  edge_weights :: "((int \<times> int) \<times> int) list"
  edges_by_node :: "(int \<times> int list) list"
  edge_list :: "py_row list"

record hub_input = order_input +
  hub_vertices :: "int set"

type_synonym py_outcome = "(string \<times> string) list \<times> py_error option"

definition read_row :: "bool \<Rightarrow> string \<Rightarrow> py_row py" where
  "read_row weighted line =
     (if weighted then (case py_split line of
        [s, d, w] \<Rightarrow> py_bind (py_int s) (\<lambda>s. py_bind (py_int d) (\<lambda>d. py_bind (py_int w) (\<lambda>w. Inr (s, d, Some w))))
      | _ \<Rightarrow> Inl ValueError)
      else (case py_split line of
        [s, d] \<Rightarrow> py_bind (py_int s) (\<lambda>s. py_bind (py_int d) (\<lambda>d. Inr (s, d, None)))
      | _ \<Rightarrow> Inl ValueError))"

definition collect_edge :: "py_args \<Rightarrow> int \<Rightarrow> int \<Rightarrow> int option \<Rightarrow> 'x order_input_scheme \<Rightarrow> 'x order_input_scheme" where
  "collect_edge args src dst w st = st\<lparr>
     edges_by_node := (if opt_indegree args then py_append dst src (edges_by_node st) else py_append src dst (edges_by_node st)),
     edge_weights := (case w of Some w \<Rightarrow> AList.update (src, dst) w (edge_weights st) | None \<Rightarrow> edge_weights st)\<rparr>"

definition degree_read :: "py_args \<Rightarrow> string \<Rightarrow> order_input \<Rightarrow> order_input py" where
  "degree_read args line st = py_bind (read_row (opt_weighted args) line) (\<lambda>(src, dst, w).
     Inr (collect_edge args src dst w (st\<lparr>edge_list := edge_list st @ [(src, dst, w)]\<rparr>)))"

text \<open>\<open>sorted\<close> is stable, with \<open>reverse\<close> too.\<close>

definition by_length :: "bool \<Rightarrow> ('a \<Rightarrow> nat) \<Rightarrow> 'a list \<Rightarrow> 'a list" where
  "by_length ascending len xs = sort_key (\<lambda>x. if ascending then int (len x) else - int (len x)) xs"

definition place_label :: "bool \<Rightarrow> int \<Rightarrow> (int \<times> int) list \<times> int \<Rightarrow> (int \<times> int) list \<times> int" where
  "place_label maintain v s = (case s of (mapping, cnt) \<Rightarrow>
     if maintain \<and> v = 0 then (AList.update v v mapping, cnt)
     else (AList.update v cnt mapping, cnt + 1))"

definition fresh_label :: "int \<Rightarrow> (int \<times> int) list \<times> int \<Rightarrow> (int \<times> int) list \<times> int" where
  "fresh_label v s = (case s of (mapping, cnt) \<Rightarrow>
     if map_of mapping v = None then (AList.update v cnt mapping, cnt + 1) else (mapping, cnt))"

definition degree_edge :: "py_args \<Rightarrow> ((int \<times> int) \<times> int) list \<Rightarrow> py_row \<Rightarrow>
    ((int \<times> int) list \<times> int) \<times> (int option \<times> int option \<times> int option) list \<Rightarrow>
    ((int \<times> int) list \<times> int) \<times> (int option \<times> int option \<times> int option) list" where
  "degree_edge args weights edge s = (case edge of (src, dst, _) \<Rightarrow> case s of (labels, sorted_output) \<Rightarrow>
     let labels = fresh_label dst (fresh_label src labels) in
     (labels, sorted_output @ [(map_of (fst labels) src, map_of (fst labels) dst,
        if opt_weighted args then map_of weights (src, dst) else None)]))"

fun new_order_lines :: "(int \<times> int) list \<Rightarrow> nat list \<Rightarrow> string \<Rightarrow> string \<times> py_error option" where
  "new_order_lines mapping [] s = (s, None)"
| "new_order_lines mapping (i # is) s = (case py_item mapping (int i) of
     Inl e \<Rightarrow> (s, Some e)
   | Inr v \<Rightarrow> new_order_lines mapping is (s @ py_str v @ [newline]))"

definition py_show :: "int option \<Rightarrow> string" where
  "py_show x = (case x of None \<Rightarrow> ''None'' | Some v \<Rightarrow> py_str v)"

definition out_line :: "bool \<Rightarrow> int option \<times> int option \<times> int option \<Rightarrow> string" where
  "out_line weighted row = (case row of (src, dst, w) \<Rightarrow>
     py_show src @ '' '' @ py_show dst @ (if weighted then '' '' @ py_show w else []) @ [newline])"

text \<open>A file that is left by an exception keeps what was written to it.\<close>

definition write_order :: "(string \<Rightarrow> bool) \<Rightarrow> bool \<Rightarrow> string \<Rightarrow> (int \<times> int) list \<Rightarrow>
    (int option \<times> int option \<times> int option) list \<Rightarrow> py_outcome" where
  "write_order writable weighted output mapping rows =
     (if \<not> writable ''new_order.el'' then ([], Some OSError)
      else case new_order_lines mapping [0..<length mapping] [] of
        (s, Some e) \<Rightarrow> ([(''new_order.el'', s)], Some e)
      | (s, None) \<Rightarrow> if \<not> writable output then ([(''new_order.el'', s)], Some OSError)
          else ([(''new_order.el'', s), (output, concat (map (out_line weighted) rows))], None))"

definition degree_main :: "py_args \<Rightarrow> (string \<Rightarrow> string option) \<Rightarrow> (string \<Rightarrow> bool) \<Rightarrow> string \<Rightarrow> string \<Rightarrow> py_outcome" where
  "degree_main args fs writable input output = (case fs input of
     None \<Rightarrow> ([], Some OSError)
   | Some text \<Rightarrow> (case py_fold (degree_read args) (py_lines text) \<lparr>edge_weights = [], edges_by_node = [], edge_list = []\<rparr> of
       Inl e \<Rightarrow> ([], Some e)
     | Inr st \<Rightarrow>
         let ordered = by_length (opt_ascending args) (\<lambda>x. length (snd x)) (edges_by_node st);
           labels = fold (place_label (opt_maintain args)) (map fst ordered) ([], if opt_maintain args then 1 else 0);
           (labels, sorted_output) = fold (degree_edge args (edge_weights st)) (edge_list st) (labels, [])
         in write_order writable (opt_weighted args) output (fst labels) sorted_output))"

text \<open>\<open>hub.py\<close>. Parameters are the orders in which the sets \<open>hub_nodes\<close> and \<open>vertices - hub_nodes\<close> are iterated over. The comparison
  \<open>len >= edge_count / n\<close> with a quotient of type \<open>float\<close> is written without the quotient; \<open>float_comparison\<close> says that the
  rounding does not matter below \<open>2^53\<close> edges.\<close>

definition hub_read :: "py_args \<Rightarrow> string \<Rightarrow> hub_input \<Rightarrow> hub_input py" where
  "hub_read args line st = py_bind (read_row (opt_weighted args) line) (\<lambda>(src, dst, w).
     Inr (collect_edge args src dst w (st\<lparr>edge_list := edge_list st @ [(src, dst, None)],
       hub_vertices := insert dst (insert src (hub_vertices st))\<rparr>)))"

definition is_hub :: "(int \<times> int list) list \<Rightarrow> nat \<Rightarrow> nat \<Rightarrow> int \<Rightarrow> bool" where
  "is_hub d edge_count n v = (case map_of d v of
     None \<Rightarrow> False
   | Some es \<Rightarrow> es \<noteq> [] \<and> edge_count \<le> length es * n)"

definition hub_nodes :: "(int \<Rightarrow> bool) \<Rightarrow> py_row list \<Rightarrow> int set" where
  "hub_nodes hub rows = fold (\<lambda>(src, dst, _) H.
     let H = (if hub src then insert src H else H) in if hub dst then insert dst H else H) rows {}"

definition hub_labels :: "(int set \<Rightarrow> int list) \<Rightarrow> (int set \<Rightarrow> int list) \<Rightarrow> py_args \<Rightarrow> (int \<times> int list) list \<Rightarrow>
    int set \<Rightarrow> int set \<Rightarrow> (int \<times> int) list \<times> int" where
  "hub_labels iterate iterate' args d hubs vs =
     (let hub_list = (if opt_sort args
          then by_length (opt_ascending args) (\<lambda>x. case map_of d x of None \<Rightarrow> 0 | Some es \<Rightarrow> length es) (iterate hubs)
          else iterate hubs);
        labels = fold (place_label (opt_maintain args)) hub_list ([], if opt_maintain args then 1 else 0)
      in fold (place_label (opt_maintain args)) (iterate' (vs - hubs)) labels)"

definition hub_row :: "py_args \<Rightarrow> ((int \<times> int) \<times> int) list \<Rightarrow> (int \<times> int) list \<Rightarrow> py_row \<Rightarrow>
    (int option \<times> int option \<times> int option) py" where
  "hub_row args weights mapping edge = (case edge of (s, d, _) \<Rightarrow>
     py_bind (py_item mapping s) (\<lambda>x. py_bind (py_item mapping d) (\<lambda>y.
       Inr (Some x, Some y, if opt_weighted args then map_of weights (s, d) else None))))"

definition hub_main :: "(int set \<Rightarrow> int list) \<Rightarrow> (int set \<Rightarrow> int list) \<Rightarrow> py_args \<Rightarrow>
    (string \<Rightarrow> string option) \<Rightarrow> (string \<Rightarrow> bool) \<Rightarrow> string \<Rightarrow> string \<Rightarrow> py_outcome" where
  "hub_main iterate iterate' args fs writable input output = (case fs input of
     None \<Rightarrow> ([], Some OSError)
   | Some text \<Rightarrow> (case py_fold (hub_read args) (py_lines text)
         \<lparr>edge_weights = [], edges_by_node = [], edge_list = [], hub_vertices = {}\<rparr> of
       Inl e \<Rightarrow> ([], Some e)
     | Inr st \<Rightarrow>
         if card (hub_vertices st) = 0 then ([], Some ZeroDivisionError)
         else let hubs = hub_nodes (is_hub (edges_by_node st) (length (edge_list st)) (card (hub_vertices st))) (edge_list st);
           labels = hub_labels iterate iterate' args (edges_by_node st) hubs (hub_vertices st)
         in (case py_map (hub_row args (edge_weights st) (fst labels)) (edge_list st) of
             Inl e \<Rightarrow> ([], Some e)
           | Inr hub_ordered \<Rightarrow> write_order writable (opt_weighted args) output (fst labels) hub_ordered)))"

section \<open>Reading\<close>

definition row_text :: "py_row \<Rightarrow> string" where
  "row_text r = (case r of (a, b, w) \<Rightarrow>
     py_str a @ '' '' @ py_str b @ (case w of None \<Rightarrow> [] | Some w \<Rightarrow> '' '' @ py_str w))"

definition rows_text :: "py_row list \<Rightarrow> string" where
  "rows_text rs = concat (map (\<lambda>r. row_text r @ [newline]) rs)"

definition has_weights :: "bool \<Rightarrow> py_row list \<Rightarrow> bool" where
  "has_weights weighted rs \<longleftrightarrow> (\<forall>(a, b, w) \<in> set rs. (w \<noteq> None) = weighted)"

lemma read_row_text:
  assumes "(snd (snd r) \<noteq> None) = weighted"
  shows "read_row weighted (row_text r) = Inr r"
proof -
  obtain a b w where r: "r = (a, b, w)" by (cases r)
  show ?thesis
    using assms by (cases w) (auto simp: r row_text_def read_row_def py_split_Cons py_split_token)
qed

lemma row_text_plain: "newline \<notin> set (row_text r) \<and> carriage_return \<notin> set (row_text r)"
proof -
  have "CHR '' '' \<noteq> newline" "CHR '' '' \<noteq> carriage_return" by (simp_all add: newline_def carriage_return_def)
  then show ?thesis using str_plain by (cases r) (fastforce simp: row_text_def split: option.splits)
qed

lemma lines_of_rows: "py_lines (rows_text rs) = map row_text rs"
proof -
  have "rows_text rs = concat (map (\<lambda>l. l @ [newline]) (map row_text rs))" by (simp add: rows_text_def comp_def)
  then show ?thesis using row_text_plain by (simp only:) (rule py_lines_concat, auto)
qed

text \<open>The dictionaries after the edges \<open>rs\<close>.\<close>

definition node_key :: "py_args \<Rightarrow> py_row \<Rightarrow> int" where
  "node_key args r = (if opt_indegree args then fst (snd r) else fst r)"

definition node_degree :: "py_args \<Rightarrow> py_row list \<Rightarrow> int \<Rightarrow> nat" where
  "node_degree args rs v = length (filter (\<lambda>r. node_key args r = v) rs)"

fun last_weight :: "py_row list \<Rightarrow> int \<Rightarrow> int \<Rightarrow> int option" where
  "last_weight [] a b = None"
| "last_weight ((x, y, w) # rs) a b = (case last_weight rs a b of Some v \<Rightarrow> Some v | None \<Rightarrow> if x = a \<and> y = b then w else None)"

lemma last_weight_snoc:
  "last_weight (rs @ [(x, y, w)]) a b = (if x = a \<and> y = b \<and> w \<noteq> None then w else last_weight rs a b)"
  by (induction rs a b rule: last_weight.induct) (auto split: option.splits)

definition dict_len :: "(int \<times> int list) list \<Rightarrow> int \<Rightarrow> nat" where
  "dict_len d v = (case map_of d v of None \<Rightarrow> 0 | Some es \<Rightarrow> length es)"

definition lists_dict :: "(int \<times> int list) list \<Rightarrow> bool" where
  "lists_dict d \<longleftrightarrow> distinct (map fst d) \<and> (\<forall>v. map_of d v \<noteq> Some [])"

lemma dict_append:
  "dict_len (py_append k x d) v = dict_len d v + (if k = v then 1 else 0)"
  "lists_dict d \<Longrightarrow> lists_dict (py_append k x d)"
  by (simp_all add: dict_len_def lists_dict_def py_append_lookup py_append_distinct del: map_of_eq_Some_iff split: option.splits)

lemma dict_len_keys: "lists_dict d \<Longrightarrow> 0 < dict_len d v \<longleftrightarrow> v \<in> fst ` set d"
  unfolding dict_len_def lists_dict_def dict_keys(2)[symmetric] by (cases "map_of d v") auto

definition dicts_ok :: "py_args \<Rightarrow> py_row list \<Rightarrow> 'x order_input_scheme \<Rightarrow> bool" where
  "dicts_ok args rs st \<longleftrightarrow> lists_dict (edges_by_node st) \<and> dict_len (edges_by_node st) = node_degree args rs \<and>
     (\<forall>a b. map_of (edge_weights st) (a, b) = last_weight rs a b)"

lemma collect_edge_ok:
  assumes "dicts_ok args rs st"
  shows "dicts_ok args (rs @ [(a, b, w)]) (collect_edge args a b w st)"
  using assms
  by (cases w) (auto simp: dicts_ok_def collect_edge_def dict_append fun_eq_iff node_degree_def node_key_def last_weight_snoc
      AList.update_conv')

lemma degree_read_rows:
  assumes "has_weights (opt_weighted args) rs"
  shows "\<exists>st. py_fold (degree_read args) (map row_text rs) \<lparr>edge_weights = [], edges_by_node = [], edge_list = []\<rparr> = Inr st \<and>
    edge_list st = rs \<and> dicts_ok args rs st"
  using assms
proof (induction rs rule: rev_induct)
  case Nil
  show ?case by (simp add: dicts_ok_def lists_dict_def fun_eq_iff dict_len_def node_degree_def)
next
  case (snoc r rs)
  obtain a b w where r: "r = (a, b, w)" by (cases r)
  obtain st where st: "py_fold (degree_read args) (map row_text rs) \<lparr>edge_weights = [], edges_by_node = [], edge_list = []\<rparr> = Inr st"
    "edge_list st = rs" "dicts_ok args rs st"
    using snoc by (auto simp: has_weights_def)
  have "(snd (snd r) \<noteq> None) = opt_weighted args" using snoc.prems by (auto simp: has_weights_def r)
  then have "degree_read args (row_text r) st = Inr (collect_edge args a b w (st\<lparr>edge_list := rs @ [r]\<rparr>))"
    by (simp add: degree_read_def read_row_text st(2)) (simp add: r)
  moreover have "dicts_ok args rs (st\<lparr>edge_list := rs @ [r]\<rparr>)" using st(3) by (simp add: dicts_ok_def)
  then have "dicts_ok args (rs @ [r]) (collect_edge args a b w (st\<lparr>edge_list := rs @ [r]\<rparr>))"
    unfolding r by (rule collect_edge_ok)
  moreover have "edge_list (collect_edge args a b w (st\<lparr>edge_list := rs @ [r]\<rparr>)) = rs @ [r]" by (simp add: collect_edge_def)
  ultimately show ?case by (simp add: py_fold_append st(1))
qed

section \<open>Labels\<close>

text \<open>The labels count up from \<open>c0\<close> in the order of insertion; with \<open>z\<close>, vertex 0 is left out and keeps its label.\<close>

definition numbered :: "int \<Rightarrow> bool \<Rightarrow> (int \<times> int) list \<Rightarrow> int \<Rightarrow> bool" where
  "numbered c0 z mp c \<longleftrightarrow> distinct (map fst mp) \<and> c0 \<le> c \<and>
     map snd (filter (\<lambda>p. \<not> (z \<and> fst p = 0)) mp) = [c0..c - 1] \<and> (z \<longrightarrow> (\<forall>p \<in> set mp. fst p = 0 \<longrightarrow> snd p = 0))"

lemma numbered_snoc:
  assumes "numbered c0 z mp c" "v \<notin> fst ` set mp"
  shows "\<not> (z \<and> v = 0) \<Longrightarrow> numbered c0 z (mp @ [(v, c)]) (c + 1)" "z \<Longrightarrow> v = 0 \<Longrightarrow> numbered c0 z (mp @ [(v, 0)]) c"
  using assms upto_rec2[of c0 c] by (auto simp: numbered_def)

lemma place_labels:
  assumes "numbered c0 z mp c" "distinct vs" "set vs \<inter> fst ` set mp = {}" "z = m \<or> \<not> z \<and> 0 \<notin> set vs"
  shows "\<exists>mp' c'. fold (place_label m) vs (mp, c) = (mp', c') \<and> numbered c0 z mp' c' \<and> map fst mp' = map fst mp @ vs"
  using assms
proof (induction vs arbitrary: mp c)
  case (Cons v vs)
  have v: "v \<notin> fst ` set mp" using Cons.prems(3) by auto
  define q where "q = (if m \<and> v = 0 then (mp @ [(v, 0)], c) else (mp @ [(v, c)], c + 1))"
  have s: "place_label m v (mp, c) = q" using update_fresh[OF v] by (auto simp: place_label_def q_def)
  have "numbered c0 z (fst q) (snd q)" "map fst (fst q) = map fst mp @ [v]"
    using numbered_snoc[OF Cons.prems(1) v] Cons.prems(4) by (auto simp: q_def)
  moreover have "set vs \<inter> fst ` set (fst q) = {}" using Cons.prems(2,3) by (auto simp: q_def)
  moreover have "z = m \<or> \<not> z \<and> 0 \<notin> set vs" using Cons.prems(4) by auto
  moreover have "distinct vs" using Cons.prems(2) by simp
  ultimately obtain mp' c' where "fold (place_label m) vs (fst q, snd q) = (mp', c')" "numbered c0 z mp' c'"
    "map fst mp' = map fst (fst q) @ vs"
    using Cons.IH[of "fst q" "snd q"] by blast
  then show ?case using \<open>map fst (fst q) = map fst mp @ [v]\<close> by (simp add: s)
qed simp

lemma fresh_label_ok:
  assumes "numbered c0 z mp c" "z \<longrightarrow> 0 \<in> fst ` set mp"
  shows "\<exists>mp' c' e. fresh_label v (mp, c) = (mp', c') \<and> numbered c0 z mp' c' \<and> map fst mp' = map fst mp @ e \<and>
    set e = {v} - fst ` set mp \<and> map_le (map_of mp) (map_of mp')"
proof (cases "v \<in> fst ` set mp")
  case True
  then have "fresh_label v (mp, c) = (mp, c)" by (simp add: fresh_label_def dict_keys)
  then show ?thesis using assms True by auto
next
  case False
  then have "fresh_label v (mp, c) = (mp @ [(v, c)], c + 1)" by (simp add: fresh_label_def dict_keys update_fresh)
  moreover have "map_le (map_of mp) (map_of (mp @ [(v, c)]))" by (auto simp: map_le_def map_add_def)
  moreover have "numbered c0 z (mp @ [(v, c)]) (c + 1)" using numbered_snoc(1)[OF assms(1) False] assms(2) False by auto
  moreover have "{v} - fst ` set mp = {v}" using False by blast
  ultimately show ?thesis by (intro exI[of _ "mp @ [(v, c)]"] exI[of _ "c + 1"] exI[of _ "[v]"]) simp
qed

definition py_ends :: "py_row list \<Rightarrow> int set" where
  "py_ends rs = (\<Union>(a, b, w) \<in> set rs. {a, b})"

lemma degree_edge_ok:
  assumes "numbered c0 z mp c" "z \<longrightarrow> 0 \<in> fst ` set mp"
  shows "\<exists>mp' c' e. degree_edge args W (a, b, w) ((mp, c), out) =
      ((mp', c'), out @ [(map_of mp' a, map_of mp' b, if opt_weighted args then map_of W (a, b) else None)]) \<and>
    numbered c0 z mp' c' \<and> map fst mp' = map fst mp @ e \<and> set e = {a, b} - fst ` set mp \<and> map_le (map_of mp) (map_of mp')"
proof -
  obtain m1 c1 e1 where 1: "fresh_label a (mp, c) = (m1, c1)" "numbered c0 z m1 c1" "map fst m1 = map fst mp @ e1"
    "set e1 = {a} - fst ` set mp" "map_le (map_of mp) (map_of m1)"
    using fresh_label_ok[OF assms] by blast
  have k1: "fst ` set m1 = insert a (fst ` set mp)"
    using arg_cong[OF 1(3), of set] 1(4) by auto
  obtain m2 c2 e2 where 2: "fresh_label b (m1, c1) = (m2, c2)" "numbered c0 z m2 c2" "map fst m2 = map fst m1 @ e2"
    "set e2 = {b} - fst ` set m1" "map_le (map_of m1) (map_of m2)"
    using fresh_label_ok[OF 1(2), of b] assms(2) k1 by auto
  have "set (e1 @ e2) = {a, b} - fst ` set mp" using 1(4) 2(4) k1 by auto
  then show ?thesis
    using 1 2 map_le_trans[OF 1(5) 2(5)]
    by (intro exI[of _ m2] exI[of _ c2] exI[of _ "e1 @ e2"]) (simp add: degree_edge_def)
qed

lemma degree_edges_ok:
  assumes "numbered c0 z mp c" "z \<longrightarrow> 0 \<in> fst ` set mp"
  shows "\<exists>mp' c' e. fold (degree_edge args W) rs ((mp, c), out) = ((mp', c'), out @ map (\<lambda>(a, b, w).
      (map_of mp' a, map_of mp' b, if opt_weighted args then map_of W (a, b) else None)) rs) \<and>
    numbered c0 z mp' c' \<and> map fst mp' = map fst mp @ e \<and> set e = py_ends rs - fst ` set mp \<and> map_le (map_of mp) (map_of mp')"
  using assms
proof (induction rs arbitrary: mp c out)
  case Nil
  then show ?case by (simp add: py_ends_def)
next
  case (Cons r rs)
  obtain a b w where r: "r = (a, b, w)" by (cases r)
  let ?w = "if opt_weighted args then map_of W (a, b) else None"
  obtain m1 c1 e1 where 1: "degree_edge args W r ((mp, c), out) = ((m1, c1), out @ [(map_of m1 a, map_of m1 b, ?w)])"
    "numbered c0 z m1 c1" "map fst m1 = map fst mp @ e1" "set e1 = {a, b} - fst ` set mp" "map_le (map_of mp) (map_of m1)"
    using degree_edge_ok[OF Cons.prems, of args W a b w out, folded r] by (elim exE conjE) (rule that)
  have k1: "fst ` set m1 = {a, b} \<union> fst ` set mp" using arg_cong[OF 1(3), of set] 1(4) by auto
  have z: "z \<longrightarrow> 0 \<in> fst ` set m1" using Cons.prems(2) k1 by blast
  obtain m2 c2 e2 where 2: "fold (degree_edge args W) rs ((m1, c1), out @ [(map_of m1 a, map_of m1 b, ?w)]) =
      ((m2, c2), (out @ [(map_of m1 a, map_of m1 b, ?w)]) @ map (\<lambda>(a, b, w).
        (map_of m2 a, map_of m2 b, if opt_weighted args then map_of W (a, b) else None)) rs)"
    "numbered c0 z m2 c2" "map fst m2 = map fst m1 @ e2" "set e2 = py_ends rs - fst ` set m1" "map_le (map_of m1) (map_of m2)"
    using Cons.IH[OF 1(2) z] by blast
  have "map_of m1 v = map_of m2 v" if "v \<in> {a, b}" for v
    using 2(5) k1 that by (auto simp: map_le_def dom_map_of_conv_image_fst)
  then have "map_of m1 a = map_of m2 a" "map_of m1 b = map_of m2 b" by auto
  moreover have "set (e1 @ e2) = py_ends (r # rs) - fst ` set mp"
    using 1(4) 2(4) k1 by (auto simp: py_ends_def r)
  ultimately show ?case
    using 1(1,3) 2 map_le_trans[OF 1(5) 2(5)]
    by (intro exI[of _ m2] exI[of _ c2] exI[of _ "e1 @ e2"]) (simp add: r)
qed

text \<open>The label of a vertex.\<close>

definition label_in :: "(int \<times> int) list \<Rightarrow> int \<Rightarrow> int" where
  "label_in mp v = the (map_of mp v)"

lemma numbered_labels:
  assumes "numbered c0 z mp c"
  defines "S \<equiv> {v \<in> fst ` set mp. \<not> (z \<and> v = 0)}"
  shows "bij_betw (label_in mp) S {c0..c - 1}"
    and "sorted_wrt R (map fst mp) \<Longrightarrow> u \<in> S \<Longrightarrow> v \<in> S \<Longrightarrow> label_in mp u < label_in mp v \<Longrightarrow> R u v"
proof -
  define F where "F = filter (\<lambda>p. \<not> (z \<and> fst p = 0)) mp"
  have d: "distinct (map fst mp)" and f: "map snd F = [c0..c - 1]" using assms(1) by (auto simp: numbered_def F_def)
  have l: "label_in mp (fst (F ! i)) = c0 + int i" if i: "i < length F" for i
  proof -
    have "F ! i \<in> set mp" using nth_mem[OF i] by (simp add: F_def)
    then have "map_of mp (fst (F ! i)) = Some (snd (F ! i))" using d by simp
    moreover have "length F = nat (c - c0)" using arg_cong[OF f, of length] by simp
    then have "snd (F ! i) = c0 + int i" using arg_cong[OF f, of "\<lambda>xs. xs ! i"] i by (simp add: nth_upto)
    ultimately show ?thesis by (simp add: label_in_def)
  qed
  have S: "S = fst ` set F" by (auto simp: S_def F_def)
  have e: "\<exists>i < length F. v = fst (F ! i) \<and> label_in mp v = c0 + int i" if "v \<in> S" for v
    using that l unfolding S by (fastforce simp: in_set_conv_nth)
  have "inj_on (label_in mp) S"
  proof (rule inj_onI)
    fix u v assume h: "u \<in> S" "v \<in> S" "label_in mp u = label_in mp v"
    obtain i j where "u = fst (F ! i)" "label_in mp u = c0 + int i" "v = fst (F ! j)" "label_in mp v = c0 + int j"
      using e[OF h(1)] e[OF h(2)] by auto
    then show "u = v" using h(3) by simp
  qed
  moreover have "label_in mp ` S = set (map snd F)"
  proof -
    have "label_in mp (fst q) = snd q" if q: "q \<in> set F" for q
    proof -
      have "(fst q, snd q) \<in> set mp" using q by (simp add: F_def)
      then show ?thesis using map_of_is_SomeI[OF d, of "fst q" "snd q"] by (simp add: label_in_def)
    qed
    then show ?thesis unfolding S by (simp add: image_image)
  qed
  ultimately show "bij_betw (label_in mp) S {c0..c - 1}" unfolding f by (simp add: bij_betw_def)
  show "R u v" if R: "sorted_wrt R (map fst mp)" and u: "u \<in> S" and v: "v \<in> S" and lt: "label_in mp u < label_in mp v"
  proof -
    obtain i j where "i < length F" "u = fst (F ! i)" "label_in mp u = c0 + int i"
      "j < length F" "v = fst (F ! j)" "label_in mp v = c0 + int j" using e[OF u] e[OF v] by auto
    moreover have "sorted_wrt R (map fst F)"
      using R by (simp add: F_def sorted_wrt_map sorted_wrt_filter)
    ultimately show ?thesis using lt sorted_wrt_nth_less[of R "map fst F" i j] by simp
  qed
qed

lemma numbered_zero: "numbered c0 True mp c \<Longrightarrow> 0 \<in> fst ` set mp \<Longrightarrow> label_in mp 0 = 0"
  by (auto simp: numbered_def label_in_def map_of_eq_Some_iff)

lemma numbered_bij:
  assumes "numbered (if m then 1 else 0) z mp c" "z = (m \<and> 0 \<in> K)" "K = fst ` set mp"
  shows "m \<longrightarrow> 0 \<in> K \<Longrightarrow> bij_betw (label_in mp) K {0..<int (card K)}"
    and "m \<Longrightarrow> 0 \<notin> K \<Longrightarrow> bij_betw (label_in mp) K {1..int (card K)}"
proof -
  define S where "S = {v \<in> K. \<not> (z \<and> v = 0)}"
  have b: "bij_betw (label_in mp) S {if m then 1 else 0..c - 1}"
    using numbered_labels(1)[OF assms(1)] by (simp add: S_def assms(3))
  have fin: "finite K" by (simp add: assms(3))
  have le: "(if m then 1 else 0) \<le> c" using assms(1) by (simp add: numbered_def)
  have card: "card S = nat (c - (if m then 1 else 0))" using bij_betw_same_card[OF b] by simp
  show "bij_betw (label_in mp) K {0..<int (card K)}" if h: "m \<longrightarrow> 0 \<in> K"
  proof (cases m)
    case True
    then have z: "z" "0 \<in> K" using h assms(2) by auto
    have K: "K = S \<union> {0}" "0 \<notin> S" using z by (auto simp: S_def)
    have l: "label_in mp 0 = 0" using numbered_zero[of 1 mp c] assms(1,3) z True by simp
    have "bij_betw (label_in mp) (S \<union> {0}) ({1..c - 1} \<union> {label_in mp 0})"
      using b True notIn_Un_bij_betw3[of 0 S "label_in mp" "{1..c - 1}"] K(2) l by simp
    moreover have "card K = Suc (card S)" using K fin by simp
    then have "{1..c - 1} \<union> {label_in mp 0} = {0..<int (card K)}" using card True le l by auto
    ultimately show ?thesis using K(1) by simp
  next
    case False
    then have "S = K" "{0..c - 1} = {0..<int (card K)}" using assms(2) card le by (auto simp: S_def)
    then show ?thesis using b False by simp
  qed
  show "bij_betw (label_in mp) K {1..int (card K)}" if h: "m" "0 \<notin> K"
  proof -
    have "S = K" using h by (auto simp: S_def)
    then show ?thesis using b card le h(1) by simp
  qed
qed

lemma new_order_ok:
  assumes "\<forall>i \<in> set is. int i \<in> fst ` set mp"
  shows "new_order_lines mp is s = (s @ concat (map (\<lambda>i. py_str (label_in mp (int i)) @ [newline]) is), None)"
  using assms
proof (induction "is" arbitrary: s)
  case (Cons i "is")
  then have "map_of mp (int i) = Some (label_in mp (int i))"
    by (auto simp: label_in_def dict_keys(2)[symmetric])
  then show ?case using Cons by (simp add: py_item_def)
qed simp

lemma new_order_missing:
  assumes "\<exists>i \<in> set is. int i \<notin> fst ` set mp"
  shows "\<exists>s'. new_order_lines mp is s = (s', Some KeyError)"
  using assms
proof (induction "is" arbitrary: s)
  case (Cons i "is")
  show ?case
  proof (cases "map_of mp (int i)")
    case None
    then show ?thesis by (simp add: py_item_def)
  next
    case (Some v)
    then have "int i \<in> fst ` set mp" using dict_keys(2)[of mp "int i"] by simp
    then show ?thesis using Cons Some by (simp add: py_item_def)
  qed
qed simp

section \<open>The order by degrees\<close>

text \<open>The vertices without an entry come last, whatever the direction.\<close>

definition degree_less :: "py_args \<Rightarrow> py_row list \<Rightarrow> int \<Rightarrow> int \<Rightarrow> bool" where
  "degree_less args rs u v \<longleftrightarrow> node_degree args rs v = 0 \<or> 0 < node_degree args rs u \<and>
     (if opt_ascending args then node_degree args rs u \<le> node_degree args rs v else node_degree args rs v \<le> node_degree args rs u)"

definition renamed_rows :: "(int \<times> int) list \<Rightarrow> py_row list \<Rightarrow> (int option \<times> int option \<times> int option) list" where
  "renamed_rows mp rs = map (\<lambda>(a, b, w). (map_of mp a, map_of mp b, last_weight rs a b)) rs"

lemma no_weights: "has_weights False rs \<Longrightarrow> last_weight rs a b = None"
  by (induction rs) (auto simp: has_weights_def)

lemma by_length_sorted: "sorted_wrt (\<lambda>x y. if a then len x \<le> len y else len y \<le> len x) (by_length a len xs)"
proof -
  have "sorted (map (\<lambda>x. if a then int (len x) else - int (len x)) (by_length a len xs))" by (simp add: by_length_def)
  then show ?thesis unfolding sorted_map by (rule sorted_wrt_mono_rel[rotated]) (auto split: if_splits)
qed

lemma by_length_set [simp]: "set (by_length a len xs) = set xs" "distinct (by_length a len xs) \<longleftrightarrow> distinct xs"
  "distinct (map f (by_length a len xs)) \<longleftrightarrow> distinct (map f xs)"
proof -
  have m: "mset (by_length a len xs) = mset xs" by (simp add: by_length_def)
  then show "set (by_length a len xs) = set xs" by (metis set_mset_mset)
  show "distinct (by_length a len xs) \<longleftrightarrow> distinct xs" using m by (metis mset_eq_imp_distinct_iff)
  have "mset (map f (by_length a len xs)) = mset (map f xs)" using m by simp
  then show "distinct (map f (by_length a len xs)) \<longleftrightarrow> distinct (map f xs)" by (rule mset_eq_imp_distinct_iff)
qed

lemma node_degree_keys: "0 < node_degree args rs v \<longleftrightarrow> v \<in> node_key args ` set rs"
  by (auto simp: node_degree_def filter_empty_conv)

lemma node_key_ends: "node_key args ` set rs \<subseteq> py_ends rs"
  by (auto simp: node_key_def py_ends_def split: if_splits)

lemma degree_main_labels:
  assumes "fs inp = Some (rows_text rs)" "has_weights (opt_weighted args) rs"
  defines "z \<equiv> opt_maintain args \<and> 0 < node_degree args rs 0"
  shows "\<exists>mp c. degree_main args fs writable inp out = write_order writable (opt_weighted args) out mp (renamed_rows mp rs) \<and>
    numbered (if opt_maintain args then 1 else 0) z mp c \<and> fst ` set mp = py_ends rs \<and>
    sorted_wrt (degree_less args rs) (map fst mp)"
proof -
  let ?c0 = "if opt_maintain args then 1 else 0 :: int"
  obtain st where st: "py_fold (degree_read args) (map row_text rs) \<lparr>edge_weights = [], edges_by_node = [], edge_list = []\<rparr> = Inr st"
    "edge_list st = rs" "dicts_ok args rs st" using degree_read_rows[OF assms(2)] by blast
  let ?d = "edges_by_node st"
  have d: "lists_dict ?d" "dict_len ?d = node_degree args rs" using st(3) by (simp_all add: dicts_ok_def)
  define os where "os = by_length (opt_ascending args) (\<lambda>x. length (snd x)) ?d"
  have keys: "fst ` set os = node_key args ` set rs" "distinct (map fst os)"
    using dict_len_keys[OF d(1)] d node_degree_keys[of args rs] by (auto simp: os_def lists_dict_def)
  have "numbered ?c0 z [] ?c0" by (simp add: numbered_def)
  moreover have "z = opt_maintain args \<or> \<not> z \<and> 0 \<notin> set (map fst os)"
    using keys(1) node_degree_keys[of args rs 0] by (auto simp: z_def)
  ultimately obtain m1 c1 where 1: "fold (place_label (opt_maintain args)) (map fst os) ([], ?c0) = (m1, c1)"
    "numbered ?c0 z m1 c1" "map fst m1 = map fst os"
    using place_labels[of ?c0 z "[]" ?c0 "map fst os" "opt_maintain args"] keys(2) by auto
  have k1: "fst ` set m1 = node_key args ` set rs" using arg_cong[OF 1(3), of set] keys(1) by simp
  then have "z \<longrightarrow> 0 \<in> fst ` set m1" using node_degree_keys[of args rs 0] by (simp add: z_def)
  from degree_edges_ok[OF 1(2) this, of args "edge_weights st" rs "[]"]
  obtain m2 c2 e where 2: "fold (degree_edge args (edge_weights st)) rs ((m1, c1), []) = ((m2, c2), map (\<lambda>(a, b, w).
      (map_of m2 a, map_of m2 b, if opt_weighted args then map_of (edge_weights st) (a, b) else None)) rs)"
    "numbered ?c0 z m2 c2" "map fst m2 = map fst m1 @ e" "set e = py_ends rs - fst ` set m1" by auto
  have "(if opt_weighted args then map_of (edge_weights st) (a, b) else None) = last_weight rs a b" for a b
    using st(3) no_weights[of rs a b] assms(2) by (cases "opt_weighted args") (simp_all add: dicts_ok_def)
  then have out: "map (\<lambda>(a, b, w). (map_of m2 a, map_of m2 b, if opt_weighted args then map_of (edge_weights st) (a, b) else None)) rs =
      renamed_rows m2 rs"
    by (simp add: renamed_rows_def)
  have "fst ` set m2 = py_ends rs"
    using arg_cong[OF 2(3), of set] 2(4) k1 node_key_ends[of args rs] by auto
  moreover have "sorted_wrt (degree_less args rs) (map fst os @ e)"
  proof -
    have len: "length (snd q) = node_degree args rs (fst q) \<and> 0 < node_degree args rs (fst q)" if q: "q \<in> set os" for q
    proof -
      have "(fst q, snd q) \<in> set ?d" using q by (simp add: os_def)
      then have "map_of ?d (fst q) = Some (snd q)" using d(1) by (simp add: lists_dict_def)
      then have "dict_len ?d (fst q) = length (snd q)" by (simp add: dict_len_def)
      moreover have "0 < dict_len ?d (fst q)" using dict_len_keys[OF d(1)] q by (simp add: os_def)
      ultimately show ?thesis unfolding d(2) by simp
    qed
    have "sorted_wrt (\<lambda>x y. degree_less args rs (fst x) (fst y)) os"
      using by_length_sorted[of "opt_ascending args" "\<lambda>x. length (snd x)" ?d]
      unfolding os_def[symmetric] by (rule sorted_wrt_mono_rel[rotated]) (use len in \<open>auto simp: degree_less_def\<close>)
    moreover have zero: "node_degree args rs v = 0" if "v \<in> set e" for v
      using that 2(4) k1 node_degree_keys[of args rs v] by auto
    moreover have "sorted_wrt (degree_less args rs) e"
      by (rule sorted_wrt_mono_rel[of _ "\<lambda>_ _. True"]) (auto simp: degree_less_def zero)
    ultimately show ?thesis by (simp add: sorted_wrt_append sorted_wrt_map degree_less_def)
  qed
  ultimately show ?thesis
    using 1(1) 2 out st(1,2) assms(1)
    by (intro exI[of _ m2] exI[of _ c2]) (simp add: degree_main_def lines_of_rows os_def 1(3) Let_def)
qed

text \<open>The files that are written.\<close>

lemma has_weights_last: "has_weights weighted rs \<Longrightarrow> (a, b, w) \<in> set rs \<Longrightarrow> (last_weight rs a b \<noteq> None) = weighted"
proof (induction rs)
  case (Cons r rs)
  obtain x y v where r: "r = (x, y, v)" by (cases r)
  have IH: "(a, b, w) \<in> set rs \<Longrightarrow> (last_weight rs a b \<noteq> None) = weighted" and v: "(v \<noteq> None) = weighted"
    using Cons by (auto simp: has_weights_def r)
  have "\<not> weighted \<Longrightarrow> last_weight rs a b = None"
    using no_weights[of rs] Cons.prems(1) by (simp add: has_weights_def)
  then show ?case using IH v Cons.prems(2) by (auto simp: r split: option.splits)
qed simp

definition relabelled :: "(int \<Rightarrow> int) \<Rightarrow> py_row list \<Rightarrow> py_row list" where
  "relabelled p rs = map (\<lambda>(a, b, w). (p a, p b, last_weight rs a b)) rs"

definition order_text :: "(int \<Rightarrow> int) \<Rightarrow> nat \<Rightarrow> string" where
  "order_text p n = concat (map (\<lambda>i. py_str (p (int i)) @ [newline]) [0..<n])"

lemma out_lines:
  assumes "has_weights weighted rs" "py_ends rs \<subseteq> fst ` set mp"
  shows "concat (map (out_line weighted) (renamed_rows mp rs)) = rows_text (relabelled (label_in mp) rs)"
proof -
  have "out_line weighted (map_of mp a, map_of mp b, last_weight rs a b) =
      row_text (label_in mp a, label_in mp b, last_weight rs a b) @ [newline]" if r: "(a, b, w) \<in> set rs" for a b w
  proof -
    have "a \<in> fst ` set mp" "b \<in> fst ` set mp" using r assms(2) by (auto simp: py_ends_def)
    then obtain x y where "map_of mp a = Some x" "map_of mp b = Some y" unfolding dict_keys(2)[symmetric] by blast
    moreover have "(last_weight rs a b \<noteq> None) = weighted" using has_weights_last[OF assms(1) r] .
    ultimately show ?thesis
      by (cases "last_weight rs a b") (auto simp: out_line_def py_show_def row_text_def label_in_def)
  qed
  then show ?thesis
    unfolding renamed_rows_def relabelled_def rows_text_def map_map by (intro arg_cong[of _ _ concat] map_cong) auto
qed

lemma write_order_ok:
  assumes "has_weights weighted rs" "py_ends rs = fst ` set mp" "distinct (map fst mp)" "fst ` set mp = int ` {..<n}"
    "writable ''new_order.el''" "writable out"
  shows "write_order writable weighted out mp (renamed_rows mp rs) =
    ([(''new_order.el'', order_text (label_in mp) n), (out, rows_text (relabelled (label_in mp) rs))], None)"
proof -
  have "length mp = card (fst ` set mp)" using distinct_card[OF assms(3)] by simp
  then have "length mp = n" unfolding assms(4) by (simp add: card_image)
  then show ?thesis
    using new_order_ok[of "[0..<n]" mp "[]"] assms by (simp add: write_order_def out_lines order_text_def)
qed

lemma write_order_missing:
  assumes "distinct (map fst mp)" "fst ` set mp \<noteq> int ` {..<card (fst ` set mp)}" "writable ''new_order.el''"
  shows "\<exists>s. write_order writable weighted out mp rows = ([(''new_order.el'', s)], Some KeyError)"
proof -
  have l: "length mp = card (fst ` set mp)" using distinct_card[OF assms(1)] by simp
  have "\<exists>i \<in> set [0..<length mp]. int i \<notin> fst ` set mp"
  proof (rule ccontr)
    assume "\<not> ?thesis"
    then have "int ` {..<length mp} \<subseteq> fst ` set mp" by auto
    then have "int ` {..<length mp} = fst ` set mp"
      using l by (intro card_subset_eq) (simp_all add: card_image)
    then show False using assms(2) l by simp
  qed
  then obtain s where "new_order_lines mp [0..<length mp] [] = (s, Some KeyError)" using new_order_missing by blast
  then show ?thesis using assms(3) by (simp add: write_order_def)
qed

lemma card_ints [simp]: "card (int ` {..<n}) = n"
  by (simp add: card_image)

lemma ints_interval: "{0..<int n} = int ` {..<n}"
  using image_int_atLeastLessThan[of 0 n] by (simp add: lessThan_atLeast0)

text \<open>C36: \<open>degree.py\<close>, from the text of its input to its files: if the vertices are \<open>0, \<dots>, n - 1\<close> (and with \<open>-m\<close>
  vertex 0 is the source of an edge), the script writes a permutation \<open>p\<close> of the vertices and the edges renamed by it, in the
  order of the input. Labels ascend with the order asked for: by falling degree, or by rising degree with \<open>-a\<close>, where vertices
  without an edge are always last. With \<open>-m\<close>, vertex 0 keeps its number.\<close>

theorem degree_main_isomorphic:
  assumes "fs inp = Some (rows_text rs)" "has_weights (opt_weighted args) rs" "py_ends rs = int ` {..<n}"
    "opt_maintain args \<longrightarrow> 0 < node_degree args rs 0" "writable ''new_order.el''" "writable out"
  shows "\<exists>p. degree_main args fs writable inp out =
      ([(''new_order.el'', order_text p n), (out, rows_text (relabelled p rs))], None) \<and>
    bij_betw p (int ` {..<n}) (int ` {..<n}) \<and> (opt_maintain args \<longrightarrow> p 0 = 0) \<and>
    (\<forall>u \<in> int ` {..<n}. \<forall>v \<in> int ` {..<n}. \<not> (opt_maintain args \<and> (u = 0 \<or> v = 0)) \<and> p u < p v \<longrightarrow> degree_less args rs u v)"
proof -
  let ?z = "opt_maintain args \<and> 0 < node_degree args rs 0"
  obtain mp c where m: "degree_main args fs writable inp out = write_order writable (opt_weighted args) out mp (renamed_rows mp rs)"
    "numbered (if opt_maintain args then 1 else 0) ?z mp c" "fst ` set mp = py_ends rs" "sorted_wrt (degree_less args rs) (map fst mp)"
    using degree_main_labels[of fs inp rs args writable out, OF assms(1,2)] by blast
  have k: "fst ` set mp = int ` {..<n}" using m(3) assms(3) by simp
  have z: "?z = opt_maintain args" "opt_maintain args \<longrightarrow> 0 \<in> int ` {..<n}"
    using assms(3,4) node_degree_keys[of args rs 0] node_key_ends[of args rs] by auto
  have d: "distinct (map fst mp)" using m(2) by (simp add: numbered_def)
  have "degree_main args fs writable inp out =
      ([(''new_order.el'', order_text (label_in mp) n), (out, rows_text (relabelled (label_in mp) rs))], None)"
    unfolding m(1) by (rule write_order_ok[OF assms(2) m(3)[symmetric] d k assms(5,6)])
  moreover have "?z = (opt_maintain args \<and> 0 \<in> int ` {..<n})" using z by blast
  from numbered_bij(1)[OF m(2) this k[symmetric] z(2)]
  have "bij_betw (label_in mp) (int ` {..<n}) (int ` {..<n})" unfolding card_ints ints_interval .
  moreover have "opt_maintain args \<longrightarrow> label_in mp 0 = 0"
    using numbered_zero[of 1 mp c] m(2) z(2) unfolding z(1) k by presburger
  moreover have "degree_less args rs u v" if "u \<in> int ` {..<n}" "v \<in> int ` {..<n}"
    "\<not> (opt_maintain args \<and> (u = 0 \<or> v = 0))" "label_in mp u < label_in mp v" for u v
    using numbered_labels(2)[OF m(2,4) _ _ that(4)] that(1-3) unfolding k z(1) by blast
  ultimately show ?thesis by (intro exI[of _ "label_in mp"]) blast
qed

theorem degree_main_isomorphic_witness:
  "\<exists>p. degree_main \<lparr>opt_maintain = True, opt_weighted = True, opt_ascending = False, opt_indegree = False, opt_sort = False\<rparr>
      [''in'' \<mapsto> rows_text [(0, 1, Some 5), (2, 1, Some 7), (2, 0, Some 1)]] (\<lambda>_. True) ''in'' ''out'' =
      ([(''new_order.el'', order_text p 3), (''out'', rows_text [(p 0, p 1, Some 5), (p 2, p 1, Some 7), (p 2, p 0, Some 1)])], None) \<and>
    bij_betw p (int ` {..<3}) (int ` {..<3}) \<and> p 0 = 0"
proof -
  let ?rs = "[(0, 1, Some 5), (2, 1, Some 7), (2, 0, Some 1)] :: py_row list"
  let ?args = "\<lparr>opt_maintain = True, opt_weighted = True, opt_ascending = False, opt_indegree = False, opt_sort = False\<rparr>"
  have "int ` {..<3} = {0, 1, 2}" by (simp add: lessThan_nat_numeral lessThan_Suc insert_commute)
  then have e: "py_ends ?rs = int ` {..<3}" by (auto simp: py_ends_def)
  have r: "relabelled p ?rs = [(p 0, p 1, Some 5), (p 2, p 1, Some 7), (p 2, p 0, Some 1)]" for p by (simp add: relabelled_def)
  have h: "has_weights (opt_weighted ?args) ?rs" "0 < node_degree ?args ?rs 0"
    by (simp_all add: has_weights_def node_degree_def node_key_def)
  obtain p where "degree_main ?args [''in'' \<mapsto> rows_text ?rs] (\<lambda>_. True) ''in'' ''out'' =
      ([(''new_order.el'', order_text p 3), (''out'', rows_text (relabelled p ?rs))], None)"
    "bij_betw p (int ` {..<3}) (int ` {..<3})" "opt_maintain ?args \<longrightarrow> p 0 = 0"
    using degree_main_isomorphic[of "[''in'' \<mapsto> rows_text ?rs]" "''in''" ?rs ?args 3 "\<lambda>_. True" "''out''", OF _ h(1) e] h(2) by auto
  then show ?thesis unfolding r by (intro exI[of _ p]) simp
qed

text \<open>C38: If the vertices are not numbered \<open>0, \<dots>, n - 1\<close>, \<open>degree.py\<close> ends with a \<open>KeyError\<close> while it writes
  \<open>new_order.el\<close>, and does not write the ordered graph.\<close>

theorem degree_main_gap:
  assumes "fs inp = Some (rows_text rs)" "has_weights (opt_weighted args) rs" "py_ends rs \<noteq> int ` {..<card (py_ends rs)}"
    "writable ''new_order.el''"
  shows "\<exists>s. degree_main args fs writable inp out = ([(''new_order.el'', s)], Some KeyError)"
proof -
  obtain mp c where m: "degree_main args fs writable inp out = write_order writable (opt_weighted args) out mp (renamed_rows mp rs)"
    "numbered (if opt_maintain args then 1 else 0) (opt_maintain args \<and> 0 < node_degree args rs 0) mp c" "fst ` set mp = py_ends rs"
    using degree_main_labels[of fs inp rs args writable out, OF assms(1,2)] by blast
  have "distinct (map fst mp)" using m(2) by (simp add: numbered_def)
  then show ?thesis unfolding m(1) by (rule write_order_missing) (use assms(3,4) m(3) in simp_all)
qed

theorem degree_main_gap_witness:
  "\<exists>s. degree_main \<lparr>opt_maintain = False, opt_weighted = False, opt_ascending = False, opt_indegree = False, opt_sort = False\<rparr>
      [''in'' \<mapsto> rows_text [(1, 2, None)]] (\<lambda>_. True) ''in'' ''out'' = ([(''new_order.el'', s)], Some KeyError)"
proof -
  have e: "py_ends [(1, 2, None)] = {1, 2}" by (auto simp: py_ends_def)
  have "(0 :: int) \<in> int ` {..<card {1, 2 :: int}}" by simp
  moreover have "(0 :: int) \<notin> {1, 2}" by simp
  ultimately have "py_ends [(1, 2, None)] \<noteq> int ` {..<card (py_ends [(1, 2, None)])}" unfolding e by metis
  then show ?thesis by (intro degree_main_gap[where rs = "[(1, 2, None)]"]) (simp_all add: has_weights_def)
qed

text \<open>With \<open>-m\<close>, a vertex 0 that is the source of no edge is numbered after the others: its number changes, and
  the number 0 is not used.\<close>

theorem degree_main_moves_zero:
  assumes "fs inp = Some (rows_text rs)" "has_weights (opt_weighted args) rs" "py_ends rs = int ` {..<n}"
    "opt_maintain args" "node_degree args rs 0 = 0" "writable ''new_order.el''" "writable out"
  shows "\<exists>p. degree_main args fs writable inp out =
      ([(''new_order.el'', order_text p n), (out, rows_text (relabelled p rs))], None) \<and>
    bij_betw p (int ` {..<n}) {1..int n}"
proof -
  let ?z = "opt_maintain args \<and> 0 < node_degree args rs 0"
  obtain mp c where m: "degree_main args fs writable inp out = write_order writable (opt_weighted args) out mp (renamed_rows mp rs)"
    "numbered (if opt_maintain args then 1 else 0) ?z mp c" "fst ` set mp = py_ends rs"
    using degree_main_labels[of fs inp rs args writable out, OF assms(1,2)] by blast
  have k: "fst ` set mp = int ` {..<n}" using m(3) assms(3) by simp
  have d: "distinct (map fst mp)" using m(2) by (simp add: numbered_def)
  have "numbered 1 False mp c" using m(2) assms(4,5) by simp
  from numbered_labels(1)[OF this] have b: "bij_betw (label_in mp) (int ` {..<n}) {1..c - 1}" unfolding k by simp
  have "c - 1 = int n \<or> n = 0 \<and> c - 1 < 1" using bij_betw_same_card[OF b] by auto
  then have "bij_betw (label_in mp) (int ` {..<n}) {1..int n}" using b by auto
  then show ?thesis
    unfolding m(1) using write_order_ok[OF assms(2) m(3)[symmetric] d k assms(6,7)] by blast
qed

section \<open>Hubs first\<close>

lemma hub_read_rows:
  assumes "has_weights (opt_weighted args) rs"
  shows "\<exists>st. py_fold (hub_read args) (map row_text rs)
      \<lparr>edge_weights = [], edges_by_node = [], edge_list = [], hub_vertices = {}\<rparr> = Inr st \<and>
    edge_list st = map (\<lambda>(a, b, w). (a, b, None)) rs \<and> hub_vertices st = py_ends rs \<and> dicts_ok args rs st"
  using assms
proof (induction rs rule: rev_induct)
  case Nil
  show ?case by (simp add: dicts_ok_def lists_dict_def fun_eq_iff dict_len_def node_degree_def py_ends_def)
next
  case (snoc r rs)
  obtain a b w where r: "r = (a, b, w)" by (cases r)
  obtain st where st: "py_fold (hub_read args) (map row_text rs)
      \<lparr>edge_weights = [], edges_by_node = [], edge_list = [], hub_vertices = {}\<rparr> = Inr st"
    "edge_list st = map (\<lambda>(a, b, w). (a, b, None)) rs" "hub_vertices st = py_ends rs" "dicts_ok args rs st"
    using snoc by (auto simp: has_weights_def)
  let ?st = "st\<lparr>edge_list := edge_list st @ [(a, b, None)], hub_vertices := insert b (insert a (hub_vertices st))\<rparr>"
  have "(snd (snd r) \<noteq> None) = opt_weighted args" using snoc.prems by (auto simp: has_weights_def r)
  then have "hub_read args (row_text r) st = Inr (collect_edge args a b w ?st)"
    by (simp add: hub_read_def read_row_text) (simp add: r)
  moreover have "dicts_ok args rs ?st" using st(4) by (simp add: dicts_ok_def)
  then have "dicts_ok args (rs @ [r]) (collect_edge args a b w ?st)" unfolding r by (rule collect_edge_ok)
  moreover have "edge_list (collect_edge args a b w ?st) = map (\<lambda>(a, b, w). (a, b, None)) (rs @ [r])"
    "hub_vertices (collect_edge args a b w ?st) = py_ends (rs @ [r])"
    using st(2,3) by (auto simp: collect_edge_def py_ends_def r)
  ultimately show ?case by (simp add: py_fold_append st(1))
qed

lemma hub_nodes_ok: "hub_nodes hub (map (\<lambda>(a, b, w). (a, b, None)) rs) = {v \<in> py_ends rs. hub v}"
proof (induction rs rule: rev_induct)
  case (snoc r rs)
  then show ?case by (cases r) (auto simp: hub_nodes_def py_ends_def Let_def)
qed (simp add: hub_nodes_def py_ends_def)

text \<open>What Python promises of the iteration over a set.\<close>

definition iterates :: "(int set \<Rightarrow> int list) \<Rightarrow> bool" where
  "iterates it \<longleftrightarrow> (\<forall>S. finite S \<longrightarrow> set (it S) = S \<and> distinct (it S))"

lemma finite_py_ends [simp]: "finite (py_ends rs)"
  by (auto simp: py_ends_def)

text \<open>The comparison of the code, for a rounding \<open>fl\<close> of the quotient that is monotone, exact on the integers that fit, and off by
  at most one part in \<open>2^53\<close>, as the rounding of \<open>float\<close> is.\<close>

lemma float_comparison:
  fixes fl :: "real \<Rightarrow> real"
  assumes mono: "\<And>x y. x \<le> y \<Longrightarrow> fl x \<le> fl y" and int: "\<And>k. k < 2 ^ 53 \<Longrightarrow> fl (real k) = real k"
    and near: "\<And>x. 0 \<le> x \<Longrightarrow> x - x / 2 ^ 53 \<le> fl x" and n: "0 < n" and e: "k \<le> e" "e < 2 ^ 53"
  shows "fl (real e / real n) \<le> real k \<longleftrightarrow> e \<le> k * n"
proof
  assume "e \<le> k * n"
  then have "real e \<le> real k * real n" by (metis of_nat_le_iff of_nat_mult)
  then have "real e / real n \<le> real k" using n by (simp add: divide_le_eq)
  from mono[OF this] show "fl (real e / real n) \<le> real k" using int[of k] e by simp
next
  assume f: "fl (real e / real n) \<le> real k"
  show "e \<le> k * n"
  proof (rule ccontr)
    assume "\<not> e \<le> k * n"
    then have "real k * real n + 1 \<le> real e" by (metis Suc_leI not_le of_nat_Suc of_nat_le_iff of_nat_mult add.commute)
    then have "real k \<le> (real e - 1) / real n" using n by (simp add: le_divide_eq)
    also have "\<dots> < (real e - real e / 2 ^ 53) / real n"
    proof (rule divide_strict_right_mono)
      have "real e < 2 ^ 53" using e(2) by (metis of_nat_less_numeral_power_cancel_iff)
      then show "real e - 1 < real e - real e / 2 ^ 53" by (simp add: field_simps)
    qed (use n in simp)
    also have "\<dots> = real e / real n - (real e / real n) / 2 ^ 53" by (simp add: diff_divide_distrib)
    also have "\<dots> \<le> fl (real e / real n)" by (rule near) simp
    finally show False using f by simp
  qed
qed

definition hub_in :: "py_args \<Rightarrow> py_row list \<Rightarrow> int \<Rightarrow> bool" where
  "hub_in args rs v \<longleftrightarrow> 0 < node_degree args rs v \<and> length rs \<le> node_degree args rs v * card (py_ends rs)"

text \<open>Hubs before the others, sorted among themselves with \<open>-s\<close>.\<close>

definition hub_less :: "py_args \<Rightarrow> py_row list \<Rightarrow> int \<Rightarrow> int \<Rightarrow> bool" where
  "hub_less args rs u v \<longleftrightarrow> (hub_in args rs v \<longrightarrow> hub_in args rs u) \<and>
     (opt_sort args \<and> hub_in args rs v \<longrightarrow>
       (if opt_ascending args then node_degree args rs u \<le> node_degree args rs v else node_degree args rs v \<le> node_degree args rs u))"

lemma hub_labels_ok:
  assumes it: "iterates it" "iterates it'" and d: "lists_dict d" "dict_len d = node_degree args rs"
  defines "H \<equiv> {v \<in> py_ends rs. hub_in args rs v}" and "z \<equiv> opt_maintain args \<and> 0 \<in> py_ends rs"
  shows "\<exists>mp c. hub_labels it it' args d H (py_ends rs) = (mp, c) \<and>
    numbered (if opt_maintain args then 1 else 0) z mp c \<and> fst ` set mp = py_ends rs \<and>
    sorted_wrt (hub_less args rs) (map fst mp)"
proof -
  let ?c0 = "if opt_maintain args then 1 else 0 :: int" and ?m = "opt_maintain args" and ?R = "hub_less args rs"
  define hs where "hs = (if opt_sort args then by_length (opt_ascending args) (dict_len d) (it H) else it H)"
  have H: "finite H" "H \<subseteq> py_ends rs" by (auto simp: H_def)
  have hs: "set hs = H" "distinct hs" using it(1) H(1) by (auto simp: hs_def iterates_def)
  have vs: "set (it' (py_ends rs - H)) = py_ends rs - H" "distinct (it' (py_ends rs - H))" using it(2) by (simp_all add: iterates_def)
  have n: "numbered ?c0 z [] ?c0" by (simp add: numbered_def)
  have z: "z = ?m \<or> \<not> z \<and> 0 \<notin> S" if "S \<subseteq> py_ends rs" for S using that by (auto simp: z_def)
  obtain m1 c1 where 1: "fold (place_label ?m) hs ([], ?c0) = (m1, c1)" "numbered ?c0 z m1 c1" "map fst m1 = hs"
    using place_labels[OF n hs(2) _ z[of "set hs"]] hs(1) H(2) by auto
  have k1: "fst ` set m1 = H" using arg_cong[OF 1(3), of set] hs(1) by simp
  obtain m2 c2 where 2: "fold (place_label ?m) (it' (py_ends rs - H)) (m1, c1) = (m2, c2)" "numbered ?c0 z m2 c2"
    "map fst m2 = hs @ it' (py_ends rs - H)"
    using place_labels[OF 1(2) vs(2) _ z[of "set (it' (py_ends rs - H))"]] vs(1) k1 1(3) by auto
  have "fst ` set m2 = py_ends rs" using arg_cong[OF 2(3), of set] hs(1) vs(1) H(2) by auto
  moreover have "sorted_wrt ?R hs"
  proof (cases "opt_sort args")
    case True
    have "sorted_wrt (\<lambda>x y. if opt_ascending args then dict_len d x \<le> dict_len d y else dict_len d y \<le> dict_len d x) hs"
      using by_length_sorted[of "opt_ascending args" "dict_len d" "it H"] unfolding hs_def if_P[OF True] .
    then show ?thesis by (rule sorted_wrt_mono_rel[rotated]) (use hs(1) in \<open>auto simp: hub_less_def H_def d(2)\<close>)
  next
    case False
    have "?R u v" if "u \<in> set hs" for u v using that False hs(1) by (auto simp: hub_less_def H_def)
    then show ?thesis using sorted_wrt_mono_rel[of hs "\<lambda>_ _. True" ?R] by simp
  qed
  moreover have "sorted_wrt ?R (it' (py_ends rs - H))"
    by (rule sorted_wrt_mono_rel[of _ "\<lambda>_ _. True"]) (use vs(1) in \<open>auto simp: hub_less_def H_def\<close>)
  moreover have "?R u v" if "u \<in> H" "v \<in> py_ends rs - H" for u v using that by (auto simp: hub_less_def H_def)
  ultimately have "fst ` set m2 = py_ends rs" "sorted_wrt ?R (map fst m2)"
    using hs(1) vs(1) by (auto simp: 2(3) sorted_wrt_append)
  moreover have "hub_labels it it' args d H (py_ends rs) = (m2, c2)"
    using 1(1) 2(1) unfolding hub_labels_def Let_def hs_def dict_len_def[abs_def] by simp
  ultimately show ?thesis using 2(2) by blast
qed

lemma hub_main_labels:
  assumes "fs inp = Some (rows_text rs)" "has_weights (opt_weighted args) rs" "rs \<noteq> []" "iterates it" "iterates it'"
  shows "\<exists>mp c. hub_main it it' args fs writable inp out = write_order writable (opt_weighted args) out mp (renamed_rows mp rs) \<and>
    numbered (if opt_maintain args then 1 else 0) (opt_maintain args \<and> 0 \<in> py_ends rs) mp c \<and> fst ` set mp = py_ends rs \<and>
    sorted_wrt (hub_less args rs) (map fst mp)"
proof -
  obtain st where st: "py_fold (hub_read args) (map row_text rs)
      \<lparr>edge_weights = [], edges_by_node = [], edge_list = [], hub_vertices = {}\<rparr> = Inr st"
    "edge_list st = map (\<lambda>(a, b, w). (a, b, None)) rs" "hub_vertices st = py_ends rs" "dicts_ok args rs st"
    using hub_read_rows[OF assms(2)] by blast
  let ?d = "edges_by_node st" and ?H = "{v \<in> py_ends rs. hub_in args rs v}"
  have d: "lists_dict ?d" "dict_len ?d = node_degree args rs" using st(4) by (simp_all add: dicts_ok_def)
  have "is_hub ?d (length rs) (card (py_ends rs)) v = hub_in args rs v" for v
  proof (cases "map_of ?d v")
    case None
    then show ?thesis using fun_cong[OF d(2), of v] by (simp add: is_hub_def hub_in_def dict_len_def)
  next
    case (Some es)
    then have "node_degree args rs v = length es" using fun_cong[OF d(2), of v] by (simp add: dict_len_def)
    moreover have "es \<noteq> []" using d(1) Some by (metis lists_dict_def)
    ultimately show ?thesis by (simp add: is_hub_def hub_in_def Some del: map_of_eq_Some_iff)
  qed
  then have h: "hub_nodes (is_hub ?d (length rs) (card (py_ends rs))) (edge_list st) = ?H"
    unfolding st(2) hub_nodes_ok by simp
  obtain mp c where l: "hub_labels it it' args ?d ?H (py_ends rs) = (mp, c)"
    "numbered (if opt_maintain args then 1 else 0) (opt_maintain args \<and> 0 \<in> py_ends rs) mp c" "fst ` set mp = py_ends rs"
    "sorted_wrt (hub_less args rs) (map fst mp)"
    using hub_labels_ok[OF assms(4,5) d] by blast
  have "hub_row args (edge_weights st) mp (a, b, None) = Inr (map_of mp a, map_of mp b, last_weight rs a b)"
    if r: "(a, b, w) \<in> set rs" for a b w
  proof -
    have "a \<in> fst ` set mp" "b \<in> fst ` set mp" using r l(3) by (auto simp: py_ends_def)
    then obtain x y where "map_of mp a = Some x" "map_of mp b = Some y" unfolding dict_keys(2)[symmetric] by blast
    moreover have "(if opt_weighted args then map_of (edge_weights st) (a, b) else None) = last_weight rs a b"
      using st(4) no_weights[of rs a b] assms(2) by (cases "opt_weighted args") (simp_all add: dicts_ok_def)
    ultimately show ?thesis by (simp add: hub_row_def py_item_def)
  qed
  then have "py_map (\<lambda>r. hub_row args (edge_weights st) mp (case r of (a, b, w) \<Rightarrow> (a, b, None))) rs = Inr (renamed_rows mp rs)"
    unfolding renamed_rows_def by (intro py_map_map) auto
  then have r: "py_map (hub_row args (edge_weights st) mp) (edge_list st) = Inr (renamed_rows mp rs)"
    unfolding st(2) by (simp add: py_map_of_map comp_def)
  have "py_ends rs \<noteq> {}" using assms(3) by (cases rs) (auto simp: py_ends_def)
  then have "card (py_ends rs) \<noteq> 0" by simp
  then have "hub_main it it' args fs writable inp out = write_order writable (opt_weighted args) out mp (renamed_rows mp rs)"
    using st(2) h l(1) r by (simp add: hub_main_def assms(1) lines_of_rows st(1,3) Let_def)
  then show ?thesis using l(2-4) by blast
qed

text \<open>C37: \<open>hub.py\<close>, from the text of its input to its files, for every order of the iteration over sets: if the vertices are \<open>0, \<dots>, n - 1\<close>, the script writes a permutation \<open>p\<close> of the
  vertices and the edges renamed by it. The hubs (the vertices whose degree times the
  number of vertices is at least the number of edges) are numbered before the other vertices, and with \<open>-s\<close> by their degrees. With \<open>-m\<close>,
  vertex 0 keeps its number.\<close>

theorem hub_main_isomorphic:
  assumes "fs inp = Some (rows_text rs)" "has_weights (opt_weighted args) rs" "py_ends rs = int ` {..<n}" "0 < n"
    "iterates it" "iterates it'" "writable ''new_order.el''" "writable out"
  shows "\<exists>p. hub_main it it' args fs writable inp out =
      ([(''new_order.el'', order_text p n), (out, rows_text (relabelled p rs))], None) \<and>
    bij_betw p (int ` {..<n}) (int ` {..<n}) \<and> (opt_maintain args \<longrightarrow> p 0 = 0) \<and>
    (\<forall>u \<in> int ` {..<n}. \<forall>v \<in> int ` {..<n}. \<not> (opt_maintain args \<and> (u = 0 \<or> v = 0)) \<and> p u < p v \<longrightarrow>
      hub_less args rs u v)"
proof -
  have "rs \<noteq> []" using assms(3,4) by (auto simp: py_ends_def)
  then obtain mp c where m: "hub_main it it' args fs writable inp out =
      write_order writable (opt_weighted args) out mp (renamed_rows mp rs)"
    "numbered (if opt_maintain args then 1 else 0) (opt_maintain args \<and> 0 \<in> py_ends rs) mp c" "fst ` set mp = py_ends rs"
    "sorted_wrt (hub_less args rs) (map fst mp)"
    using hub_main_labels[of fs inp rs args it it' writable out, OF assms(1,2) _ assms(5,6)] by blast
  have k: "fst ` set mp = int ` {..<n}" using m(3) assms(3) by simp
  have z: "(0 :: int) \<in> int ` {..<n}" using assms(4) by force
  have d: "distinct (map fst mp)" using m(2) by (simp add: numbered_def)
  have "hub_main it it' args fs writable inp out =
      ([(''new_order.el'', order_text (label_in mp) n), (out, rows_text (relabelled (label_in mp) rs))], None)"
    unfolding m(1) by (rule write_order_ok[OF assms(2) m(3)[symmetric] d k assms(7,8)])
  moreover have "bij_betw (label_in mp) (int ` {..<n}) (int ` {..<n})"
    using numbered_bij(1)[OF m(2) refl m(3)[symmetric]] z unfolding assms(3) card_ints ints_interval by blast
  moreover have "opt_maintain args \<longrightarrow> label_in mp 0 = 0"
    using numbered_zero[of 1 mp c] m(2) z k assms(3) by auto
  moreover have "hub_less args rs u v" if "u \<in> int ` {..<n}" "v \<in> int ` {..<n}"
    "\<not> (opt_maintain args \<and> (u = 0 \<or> v = 0))" "label_in mp u < label_in mp v" for u v
    using numbered_labels(2)[OF m(2,4) _ _ that(4)] that(1-3) unfolding k by blast
  ultimately show ?thesis by (intro exI[of _ "label_in mp"]) blast
qed

theorem hub_main_isomorphic_witness:
  "\<exists>p. hub_main sorted_list_of_set sorted_list_of_set
      \<lparr>opt_maintain = True, opt_weighted = False, opt_ascending = False, opt_indegree = False, opt_sort = True\<rparr>
      [''in'' \<mapsto> rows_text [(0, 1, None), (2, 1, None), (2, 0, None)]] (\<lambda>_. True) ''in'' ''out'' =
      ([(''new_order.el'', order_text p 3), (''out'', rows_text [(p 0, p 1, None), (p 2, p 1, None), (p 2, p 0, None)])], None) \<and>
    bij_betw p (int ` {..<3}) (int ` {..<3}) \<and> p 0 = 0"
proof -
  let ?rs = "[(0, 1, None), (2, 1, None), (2, 0, None)] :: py_row list"
  let ?args = "\<lparr>opt_maintain = True, opt_weighted = False, opt_ascending = False, opt_indegree = False, opt_sort = True\<rparr>"
  have "int ` {..<3} = {0, 1, 2}" by (simp add: lessThan_nat_numeral lessThan_Suc insert_commute)
  then have e: "py_ends ?rs = int ` {..<3}" by (auto simp: py_ends_def)
  have r: "relabelled p ?rs = [(p 0, p 1, None), (p 2, p 1, None), (p 2, p 0, None)]" for p by (simp add: relabelled_def)
  have h: "has_weights (opt_weighted ?args) ?rs" "iterates sorted_list_of_set" by (simp_all add: has_weights_def iterates_def)
  obtain p where "hub_main sorted_list_of_set sorted_list_of_set ?args [''in'' \<mapsto> rows_text ?rs] (\<lambda>_. True) ''in'' ''out'' =
      ([(''new_order.el'', order_text p 3), (''out'', rows_text (relabelled p ?rs))], None)"
    "bij_betw p (int ` {..<3}) (int ` {..<3})" "opt_maintain ?args \<longrightarrow> p 0 = 0"
    using hub_main_isomorphic[of "[''in'' \<mapsto> rows_text ?rs]" "''in''" ?rs ?args 3 sorted_list_of_set sorted_list_of_set
        "\<lambda>_. True" "''out''", OF _ h(1) e _ h(2) h(2)] by auto
  then show ?thesis unfolding r by (intro exI[of _ p]) simp
qed

text \<open>An empty input: \<open>hub.py\<close> divides by zero, \<open>degree.py\<close> writes two empty files.\<close>

theorem hub_main_empty:
  assumes "fs inp = Some []"
  shows "hub_main it it' args fs writable inp out = ([], Some ZeroDivisionError)"
    and "writable ''new_order.el'' \<Longrightarrow> writable out \<Longrightarrow>
      degree_main args fs writable inp out = ([(''new_order.el'', []), (out, [])], None)"
  by (simp_all add: hub_main_def degree_main_def assms py_lines_def by_length_def write_order_def Let_def)

end
