(* ===== verification/Python_Wrappers.thy ===== *)
theory Python_Wrappers
  imports Python_Orders Block_Main PH_Reorder
begin

text \<open>
  The scripts that run a reordering program and rename the edges by the order that the program has written:
  \<open>br/br.py\<close>, \<open>ph/ph.py\<close>, \<open>rabbit/rabbit.py\<close> and \<open>br/block_reordering/br_weighted.py\<close>. The program is a parameter, and is
  instantiated with the models of \<open>br\<close> and \<open>ph\<close>; of Rabbit the repository has only the executable.
\<close>

section \<open>The code\<close>

type_synonym program = "file_system \<Rightarrow> string list \<Rightarrow> outcome option"

type_synonym wrap_edge = "int \<times> int \<times> string option"

text \<open>Which different paths name the same file (\<open>input.el\<close> and \<open>./input.el\<close>, absolute paths, links) depends on the file system
  and the current directory: \<open>links\<close> says it, and is a parameter.\<close>

type_synonym links = "string \<Rightarrow> string \<Rightarrow> bool"

definition same_file :: "links \<Rightarrow> string \<Rightarrow> string \<Rightarrow> bool" where
  "same_file links p q \<longleftrightarrow> p = q \<or> links p q"

definition put_file :: "links \<Rightarrow> string \<times> string \<Rightarrow> file_system \<Rightarrow> file_system" where
  "put_file links f fs = (\<lambda>p. if same_file links (fst f) p then Some (snd f) else fs p)"

definition wrap_row :: "bool \<Rightarrow> string \<Rightarrow> wrap_edge py" where
  "wrap_row weighted line = (case py_split line of
     s # d # ws \<Rightarrow> py_bind (py_int s) (\<lambda>s. py_bind (py_int d) (\<lambda>d.
       if weighted then (case ws of [] \<Rightarrow> Inl IndexError | w # _ \<Rightarrow> Inr (s, d, Some w)) else Inr (s, d, None)))
   | [s] \<Rightarrow> py_bind (py_int s) (\<lambda>_. Inl IndexError)
   | [] \<Rightarrow> Inl IndexError)"

record order_map =
  om_mapping :: "(int \<times> int) list"
  om_node :: int
  om_zeros :: "int option"
  om_to_zero :: "int option"

text \<open>\<open>int\<close> drops the white space around the number.\<close>

definition order_line :: "string \<Rightarrow> order_map \<Rightarrow> order_map py" where
  "order_line line om = (case py_split line of
     [w] \<Rightarrow> py_bind (py_int w) (\<lambda>k. Inr \<lparr>om_mapping = AList.update (om_node om) k (om_mapping om), om_node = om_node om + 1,
       om_zeros = (if om_zeros om = None then Some k else om_zeros om),
       om_to_zero = (if k = 0 then Some (om_node om) else om_to_zero om)\<rparr>)
   | _ \<Rightarrow> Inl ValueError)"

text \<open>If no line is 0 the first assignment makes an entry for the key \<open>None\<close>, which is never looked up.\<close>

definition set_to_zero :: "order_map \<Rightarrow> (int \<times> int) list \<Rightarrow> (int \<times> int) list" where
  "set_to_zero om mp = (case (om_to_zero om, om_zeros om) of (Some k, Some z) \<Rightarrow> AList.update k z mp | _ \<Rightarrow> mp)"

definition keep_zero_weighted :: "order_map \<Rightarrow> (int \<times> int) list" where
  "keep_zero_weighted om = AList.update 0 0 (set_to_zero om (om_mapping om))"

definition keep_zero :: "order_map \<Rightarrow> (int \<times> int) list" where
  "keep_zero om = set_to_zero om (AList.update 0 0 (om_mapping om))"

definition wrap_line :: "int \<Rightarrow> int \<Rightarrow> string option \<Rightarrow> string" where
  "wrap_line a b w = py_str a @ '' '' @ py_str b @ (case w of None \<Rightarrow> [] | Some w \<Rightarrow> '' '' @ w) @ [newline]"

fun rename_lines :: "(int \<times> int) list \<Rightarrow> wrap_edge list \<Rightarrow> string \<Rightarrow> string \<times> py_error option" where
  "rename_lines mp [] s = (s, None)"
| "rename_lines mp ((a, b, w) # el) s = (case py_bind (py_item mp a) (\<lambda>x. py_bind (py_item mp b) (\<lambda>y. Inr (x, y))) of
     Inl e \<Rightarrow> (s, Some e)
   | Inr (x, y) \<Rightarrow> rename_lines mp el (s @ wrap_line x y w))"

definition rename_file :: "links \<Rightarrow> (order_map \<Rightarrow> (int \<times> int) list) \<Rightarrow> (string \<Rightarrow> bool) \<Rightarrow> file_system \<Rightarrow> string \<Rightarrow>
    wrap_edge list \<Rightarrow> (string \<times> string) list \<Rightarrow> py_outcome" where
  "rename_file links mapping writable fs output el files = (case fs ''new_order.el'' of
     None \<Rightarrow> (files, Some OSError)
   | Some text \<Rightarrow>
       if \<not> writable output then (files, Some OSError)
       else let text = (if same_file links output ''new_order.el'' then [] else text) in
       (case py_fold order_line (py_lines text) \<lparr>om_mapping = [], om_node = 0, om_zeros = None, om_to_zero = None\<rparr> of
         Inl e \<Rightarrow> (files @ [(output, [])], Some e)
       | Inr om \<Rightarrow> (case rename_lines (mapping om) el [] of (s, e) \<Rightarrow> (files @ [(output, s)], e))))"

definition wrap_main :: "links \<Rightarrow> program \<Rightarrow> string list \<Rightarrow> bool \<Rightarrow> bool \<Rightarrow> string \<Rightarrow> file_system \<Rightarrow> (string \<Rightarrow> bool) \<Rightarrow>
    string \<Rightarrow> string \<Rightarrow> py_outcome option" where
  "wrap_main links run params weighted maintain program fs writable input output = (case fs input of
     None \<Rightarrow> Some ([], Some OSError)
   | Some text \<Rightarrow> (case py_map (wrap_row weighted) (py_lines text) of
       Inl e \<Rightarrow> Some ([], Some e)
     | Inr el \<Rightarrow>
         if weighted then
           if \<not> writable ''input.el'' then Some ([], Some OSError)
           else do {
             let unweighted = (''input.el'', concat (map (\<lambda>(s, d, w). wrap_line s d None) el));
             (status, files) \<leftarrow> run (put_file links unweighted fs) ([program] @ params @ [''./input.el'', ''./output.el'']);
             let fs = fold (put_file links) files (put_file links unweighted fs);
             Some (rename_file links (if maintain then keep_zero_weighted else om_mapping) writable fs output el (unweighted # files))
           }
         else do {
           (status, files) \<leftarrow> run fs ([program] @ params @ [input, if maintain then ''output.el'' else output]);
           Some (if maintain then rename_file links keep_zero writable (fold (put_file links) files fs) output el files else (files, None))
         }))"

definition br_py :: "links \<Rightarrow> program \<Rightarrow> bool \<Rightarrow> bool \<Rightarrow> string \<Rightarrow> file_system \<Rightarrow> (string \<Rightarrow> bool) \<Rightarrow> string \<Rightarrow> string \<Rightarrow> py_outcome option" where
  "br_py links run = wrap_main links run [''64'', ''532480'']"

definition ph_py :: "links \<Rightarrow> program \<Rightarrow> bool \<Rightarrow> bool \<Rightarrow> string \<Rightarrow> file_system \<Rightarrow> (string \<Rightarrow> bool) \<Rightarrow> string \<Rightarrow> string \<Rightarrow> py_outcome option" where
  "ph_py links run = wrap_main links run [''532480'']"

text \<open>\<open>rabbit.py\<close>: the program prints the order, and an edge of a vertex that has no number keeps it.\<close>

definition rabbit_row :: "bool \<Rightarrow> string \<Rightarrow> wrap_edge py" where
  "rabbit_row weighted line = (case py_split line of
     s # d # ws \<Rightarrow> py_bind (py_int s) (\<lambda>s. py_bind (py_int d) (\<lambda>d.
       if weighted then (case ws of [] \<Rightarrow> Inl IndexError | w # _ \<Rightarrow> py_bind (py_int w) (\<lambda>w. Inr (s, d, Some (py_str w))))
       else Inr (s, d, None)))
   | [s] \<Rightarrow> py_bind (py_int s) (\<lambda>_. Inl IndexError)
   | [] \<Rightarrow> Inl IndexError)"

definition py_get :: "(int \<times> int) list \<Rightarrow> int \<Rightarrow> int" where
  "py_get mp v = (case map_of mp v of None \<Rightarrow> v | Some x \<Rightarrow> x)"

definition rabbit_main :: "links \<Rightarrow> (file_system \<Rightarrow> string list \<Rightarrow> string) \<Rightarrow> bool \<Rightarrow> bool \<Rightarrow> file_system \<Rightarrow> (string \<Rightarrow> bool) \<Rightarrow>
    string \<Rightarrow> string \<Rightarrow> py_outcome" where
  "rabbit_main links run weighted maintain fs writable input output = (case fs input of
     None \<Rightarrow> ([], Some OSError)
   | Some text \<Rightarrow> (case py_map (rabbit_row weighted) (py_lines text) of
       Inl e \<Rightarrow> ([], Some e)
     | Inr el \<Rightarrow>
         let unweighted = (''input.el'', concat (map (\<lambda>(s, d, w). wrap_line s d None) el));
           files = (if weighted then [unweighted] else []);
           fs = (if weighted then put_file links unweighted fs else fs)
         in if weighted \<and> \<not> writable ''input.el'' then ([], Some OSError)
         else if \<not> writable ''rabbit_output.txt'' then (files, Some OSError)
         else let printed = run fs [''rabbit/reorder'', if weighted then ''./input.el'' else input];
           files = files @ [(''rabbit_output.txt'', printed)]
         in if \<not> writable output then (files, Some OSError)
         else (case py_fold order_line (py_lines (if same_file links output ''rabbit_output.txt'' then [] else printed))
             \<lparr>om_mapping = [], om_node = 0, om_zeros = None, om_to_zero = None\<rparr> of
           Inl e \<Rightarrow> (files @ [(output, [])], Some e)
         | Inr om \<Rightarrow>
             let mp = (if maintain then keep_zero_weighted om else om_mapping om)
             in (files @ [(output, concat (map (\<lambda>(s, d, w). wrap_line (py_get mp s) (py_get mp d) w) el))], None))))"

text \<open>\<open>block_reordering/br_weighted.py\<close>, with the command line \<open>sys.argv\<close>.\<close>

definition br_weighted :: "links \<Rightarrow> program \<Rightarrow> file_system \<Rightarrow> (string \<Rightarrow> bool) \<Rightarrow> string list \<Rightarrow> py_outcome option" where
  "br_weighted links run fs writable argv = (case argv of
     _ # input # output # program # _ \<Rightarrow> (case fs input of
       None \<Rightarrow> Some ([], Some OSError)
     | Some text \<Rightarrow> (case py_map (read_row True) (py_lines text) of
         Inl e \<Rightarrow> Some ([], Some e)
       | Inr el \<Rightarrow>
           if \<not> writable ''input.el'' then Some ([], Some OSError)
           else do {
             let unweighted = (''input.el'', concat (map (\<lambda>(s, d, w). wrap_line s d None) el));
             (status, files) \<leftarrow> run (put_file links unweighted fs) [program, ''input.el'', ''output.el''];
             let fs = fold (put_file links) files (put_file links unweighted fs);
             let files = unweighted # files;
             (case fs ''new_order.el'' of
               None \<Rightarrow> Some (files, Some OSError)
             | Some text \<Rightarrow>
                 if \<not> writable output then Some (files, Some OSError)
                 else (case py_fold order_line (py_lines (if same_file links output ''new_order.el'' then [] else text))
                     \<lparr>om_mapping = [], om_node = 0, om_zeros = None, om_to_zero = None\<rparr> of
                   Inl e \<Rightarrow> Some (files @ [(output, [])], Some e)
                 | Inr om \<Rightarrow> Some (files @ [(output, concat (map (\<lambda>(s, d, w).
                     wrap_line (py_get (om_mapping om) s) (py_get (om_mapping om) d) (map_option py_str w)) el))], None)))
           }))
   | _ \<Rightarrow> Some ([], None))"

section \<open>Reading the order\<close>

definition order_start :: order_map where
  "order_start = \<lparr>om_mapping = [], om_node = 0, om_zeros = None, om_to_zero = None\<rparr>"

definition order_lines :: "nat list \<Rightarrow> string" where
  "order_lines nm = concat (map (\<lambda>x. print_d x @ [newline]) nm)"

lemma print_d_str: "v < U32 div 2 \<Longrightarrow> print_d v = py_str (int v)"
  by (simp add: print_d_def py_str_def)

lemma order_lines_ok: "\<forall>x \<in> set nm. x < U32 div 2 \<Longrightarrow> py_lines (order_lines nm) = map (\<lambda>x. py_str (int x)) nm"
proof -
  assume nm: "\<forall>x \<in> set nm. x < U32 div 2"
  then have "order_lines nm = concat (map (\<lambda>l. l @ [newline]) (map (\<lambda>x. py_str (int x)) nm))"
    by (simp add: order_lines_def comp_def print_d_str cong: map_cong)
  then show ?thesis using str_plain by (simp only:) (rule py_lines_concat, auto)
qed

definition indexed :: "nat list \<Rightarrow> (int \<times> int) list" where
  "indexed nm = map (\<lambda>i. (int i, int (nm ! i))) [0..<length nm]"

lemma indexed_snoc: "indexed (nm @ [x]) = indexed nm @ [(int (length nm), int x)]"
  by (simp add: indexed_def nth_append cong: map_cong)

lemma indexed_lookup: "map_of (indexed nm) (int i) = (if i < length nm then Some (int (nm ! i)) else None)"
proof -
  have "distinct (map fst (indexed nm))" by (simp add: indexed_def comp_def distinct_map inj_on_def)
  moreover have "i < length nm \<Longrightarrow> (int i, int (nm ! i)) \<in> set (indexed nm)" by (simp add: indexed_def image_iff)
  moreover have "i \<ge> length nm \<Longrightarrow> int i \<notin> fst ` set (indexed nm)" by (auto simp: indexed_def)
  ultimately show ?thesis by (auto simp: dict_keys)
qed

lemma read_order_ok:
  "\<exists>om. py_fold order_line (map (\<lambda>x. py_str (int x)) nm) order_start = Inr om \<and> om_mapping om = indexed nm \<and>
    om_node om = int (length nm) \<and> om_zeros om = (if nm = [] then None else Some (int (nm ! 0))) \<and>
    (distinct nm \<longrightarrow> (\<forall>j < length nm. nm ! j = 0 \<longrightarrow> om_to_zero om = Some (int j)))"
proof (induction nm rule: rev_induct)
  case Nil
  show ?case by (simp add: order_start_def indexed_def)
next
  case (snoc x nm)
  then obtain om where om: "py_fold order_line (map (\<lambda>x. py_str (int x)) nm) order_start = Inr om" "om_mapping om = indexed nm"
    "om_node om = int (length nm)" "om_zeros om = (if nm = [] then None else Some (int (nm ! 0)))"
    "distinct nm \<longrightarrow> (\<forall>j < length nm. nm ! j = 0 \<longrightarrow> om_to_zero om = Some (int j))" by blast
  have "int (length nm) \<notin> fst ` set (indexed nm)" by (auto simp: indexed_def)
  then have l: "order_line (py_str (int x)) om = Inr \<lparr>om_mapping = indexed (nm @ [x]), om_node = int (length nm) + 1,
      om_zeros = (if nm = [] then Some (int x) else om_zeros om),
      om_to_zero = (if x = 0 then Some (int (length nm)) else om_to_zero om)\<rparr>"
    using om(4) by (simp add: order_line_def py_split_token om(2,3) update_fresh indexed_snoc)
  have "(if x = 0 then Some (int (length nm)) else om_to_zero om) = Some (int j)"
    if "distinct (nm @ [x])" "j < length (nm @ [x])" "(nm @ [x]) ! j = 0" for j
  proof (cases "j < length nm")
    case True
    then have j: "nm ! j = 0" using that(3) by (simp add: nth_append)
    have "0 \<in> set nm" "x \<notin> set nm" using j nth_mem[OF True] that(1) by simp_all
    then have "x \<noteq> 0" by metis
    then show ?thesis using om(5) that(1) True j by simp
  next
    case False
    then show ?thesis using that by (simp add: nth_append less_Suc_eq)
  qed
  then show ?case using om(1,4) l by (simp add: py_fold_append nth_append)
qed

section \<open>Vertex 0 keeps its number\<close>

definition swapped :: "nat list \<Rightarrow> nat \<Rightarrow> nat" where
  "swapped nm v = (if v = 0 then 0 else if nm ! v = 0 then nm ! 0 else nm ! v)"

lemma swapped_bij:
  assumes "bij_betw ((!) nm) {..<n} {..<n}" "0 < n"
  shows "bij_betw (swapped nm) {..<n} {..<n}"
proof -
  have inj: "nm ! i = nm ! j \<longleftrightarrow> i = j" if "i < n" "j < n" for i j
    using assms(1) that by (auto simp: bij_betw_def inj_on_def)
  have less: "nm ! i < n" if "i < n" for i using assms(1) that by (auto simp: bij_betw_def)
  have "inj_on (swapped nm) {..<n}"
  proof (rule inj_onI)
    fix i j assume h: "i \<in> {..<n}" "j \<in> {..<n}" "swapped nm i = swapped nm j"
    then show "i = j" using inj[of i j] inj[of i 0] inj[of j 0] assms(2) by (auto simp: swapped_def split: if_splits)
  qed
  moreover have "swapped nm ` {..<n} \<subseteq> {..<n}" using less assms(2) by (auto simp: swapped_def)
  ultimately show ?thesis by (simp add: bij_betw_def endo_inj_surj)
qed

lemma keep_zero_lookup:
  assumes "bij_betw ((!) nm) {..<n} {..<n}" "0 < n" "length nm = n"
    "om_mapping om = indexed nm" "om_zeros om = Some (int (nm ! 0))" "\<forall>j < length nm. nm ! j = 0 \<longrightarrow> om_to_zero om = Some (int j)"
    "v < n"
  shows "map_of (keep_zero om) (int v) = Some (int (swapped nm v))" "map_of (keep_zero_weighted om) (int v) = Some (int (swapped nm v))"
proof -
  have "0 \<in> (!) nm ` {..<n}" using assms(1,2) by (simp add: bij_betw_def)
  then obtain j where j: "j < n" "nm ! j = 0" by auto
  have z: "om_to_zero om = Some (int j)" using assms(3,6) j by simp
  have inj: "nm ! v = 0 \<longleftrightarrow> v = j" using assms(1,7) j by (auto simp: bij_betw_def inj_on_def)
  have l: "map_of (indexed nm) (int v) = Some (int (nm ! v))" using assms(3,7) by (simp add: indexed_lookup)
  have "j = 0 \<Longrightarrow> nm ! 0 = 0" using j(2) by simp
  then show "map_of (keep_zero om) (int v) = Some (int (swapped nm v))"
    "map_of (keep_zero_weighted om) (int v) = Some (int (swapped nm v))"
    using inj l by (auto simp: keep_zero_def keep_zero_weighted_def set_to_zero_def z assms(4,5) AList.update_conv' swapped_def)
qed

lemma rename_lines_ok:
  assumes "\<forall>(a, b, w) \<in> set el. map_of mp a = Some (p a) \<and> map_of mp b = Some (p b)"
  shows "rename_lines mp el s = (s @ concat (map (\<lambda>(a, b, w). wrap_line (p a) (p b) w) el), None)"
  using assms
proof (induction el arbitrary: s)
  case (Cons r el)
  then show ?case by (cases r) (simp add: py_item_def)
qed simp

text \<open>The file that a wrapper writes, given the order of the program.\<close>

lemma rename_file_ok:
  assumes "fs ''new_order.el'' = Some (order_lines nm)" "writable out" "\<not> same_file links out ''new_order.el''"
    "bij_betw ((!) nm) {..<n} {..<n}" "0 < n" "length nm = n" "n < U32 div 2"
    "\<forall>(a, b, w) \<in> set el. a \<in> int ` {..<n} \<and> b \<in> int ` {..<n}"
    "mapping \<in> {keep_zero, keep_zero_weighted} \<and> p = swapped nm \<or> mapping = om_mapping \<and> p = (!) nm"
  shows "rename_file links mapping writable fs out el files =
    (files @ [(out, concat (map (\<lambda>(a, b, w). wrap_line (int (p (nat a))) (int (p (nat b))) w) el))], None)"
proof -
  have "distinct nm" using assms(4,6) by (auto simp: distinct_conv_nth bij_betw_def inj_on_def)
  then obtain om where om: "py_fold order_line (map (\<lambda>x. py_str (int x)) nm) order_start = Inr om" "om_mapping om = indexed nm"
    "om_zeros om = Some (int (nm ! 0))" "\<forall>j < length nm. nm ! j = 0 \<longrightarrow> om_to_zero om = Some (int j)"
    using read_order_ok[of nm] assms(5,6) by auto
  have "\<forall>x \<in> set nm. x < U32 div 2"
  proof
    fix x assume "x \<in> set nm"
    then obtain i where "i < n" "x = nm ! i" using assms(6) by (metis in_set_conv_nth)
    then have "x < n" using assms(4) by (auto simp: bij_betw_def)
    then show "x < U32 div 2" using assms(7) by simp
  qed
  note lines = order_lines_ok[OF this]
  have "map_of (mapping om) a = Some (int (p (nat a)))" if "a \<in> int ` {..<n}" for a
    using that assms(6,9) keep_zero_lookup[OF assms(4,5,6) om(2-4)] by (auto simp: om(2) indexed_lookup)
  then have "rename_lines (mapping om) el [] =
      ([] @ concat (map (\<lambda>(a, b, w). wrap_line (int (p (nat a))) (int (p (nat b))) w) el), None)"
    using assms(8) by (intro rename_lines_ok) auto
  then show ?thesis
    using assms(1-3) lines om(1) by (simp add: rename_file_def order_start_def)
qed

section \<open>Reading the edges\<close>

type_synonym labelled_edge = "nat \<times> nat \<times> string option"

definition edge_lines :: "labelled_edge list \<Rightarrow> string" where
  "edge_lines rows = concat (map (\<lambda>(a, b, w). wrap_line (int a) (int b) w) rows)"

definition edge_ends :: "labelled_edge list \<Rightarrow> (nat \<times> nat) list" where
  "edge_ends rows = map (\<lambda>(a, b, w). (a, b)) rows"

definition wrap_rows :: "labelled_edge list \<Rightarrow> wrap_edge list" where
  "wrap_rows rows = map (\<lambda>(a, b, w). (int a, int b, w)) rows"

definition rename_ends :: "(nat \<Rightarrow> nat) \<Rightarrow> labelled_edge list \<Rightarrow> labelled_edge list" where
  "rename_ends p rows = map (\<lambda>(a, b, w). (p a, p b, w)) rows"

definition row_fits :: "bool \<Rightarrow> labelled_edge \<Rightarrow> bool" where
  "row_fits weighted r = (case snd (snd r) of None \<Rightarrow> \<not> weighted | Some w \<Rightarrow> weighted \<and> token w)"

lemma edge_lines_unweighted:
  assumes "\<forall>(a, b) \<in> set (edge_ends rows). a < U32 div 2 \<and> b < U32 div 2"
  shows "concat (map (\<lambda>(s, d, w). wrap_line s d None) (wrap_rows rows)) = print_edges (edge_ends rows)"
    and "list_all (row_fits False) rows \<Longrightarrow> edge_lines rows = print_edges (edge_ends rows)"
proof -
  have "wrap_line (int a) (int b) None = edge_line a b" if "(a, b, w) \<in> set rows" for a b w
    using that assms by (force simp: wrap_line_def edge_line_def print_d_str edge_ends_def)
  then show "concat (map (\<lambda>(s, d, w). wrap_line s d None) (wrap_rows rows)) = print_edges (edge_ends rows)"
    unfolding print_edges_def wrap_rows_def edge_ends_def map_map by (intro arg_cong[of _ _ concat] map_cong) auto
  then show "edge_lines rows = print_edges (edge_ends rows)" if f: "list_all (row_fits False) rows"
  proof -
    have "w = None" if "(a, b, w) \<in> set rows" for a b w
      using f that by (cases w) (auto simp: list_all_iff row_fits_def)
    then have "edge_lines rows = concat (map (\<lambda>(s, d, w). wrap_line s d None) (wrap_rows rows))"
      unfolding edge_lines_def wrap_rows_def map_map by (intro arg_cong[of _ _ concat] map_cong) auto
    then show ?thesis
      using \<open>concat (map (\<lambda>(s, d, w). wrap_line s d None) (wrap_rows rows)) = print_edges (edge_ends rows)\<close> by simp
  qed
qed

lemma wrap_rows_ok:
  assumes "list_all (row_fits weighted) rows"
  shows "py_map (wrap_row weighted) (py_lines (edge_lines rows)) = Inr (wrap_rows rows)"
proof -
  let ?line = "\<lambda>(a, b, w). py_str (int a) @ '' '' @ py_str (int b) @ (case w of None \<Rightarrow> [] | Some w \<Rightarrow> '' '' @ w) :: string"
  have l: "newline \<notin> set (?line r) \<and> carriage_return \<notin> set (?line r) \<and>
      wrap_row weighted (?line r) = Inr (case r of (a, b, w) \<Rightarrow> (int a, int b, w))" if r: "r \<in> set rows" for r
  proof -
    obtain a b w where e: "r = (a, b, w)" by (cases r)
    have f: "row_fits weighted r" using assms r by (simp add: list_all_iff)
    have w: "w = Some t \<Longrightarrow> weighted \<and> token t \<and> newline \<notin> set t \<and> carriage_return \<notin> set t" for t
      using f by (auto simp: e row_fits_def token_def)
    have "CHR '' '' \<noteq> newline" "CHR '' '' \<noteq> carriage_return" by (simp_all add: newline_def carriage_return_def)
    then have "newline \<notin> set (?line r) \<and> carriage_return \<notin> set (?line r)"
      using w str_plain[of newline "int a"] str_plain[of newline "int b"] str_plain[of carriage_return "int a"]
        str_plain[of carriage_return "int b"] by (cases w) (auto simp: e)
    moreover have "wrap_row weighted (?line r) = Inr (int a, int b, w)"
      using f w by (cases w) (simp_all add: e row_fits_def wrap_row_def py_split_Cons py_split_token)
    ultimately show ?thesis by (simp add: e)
  qed
  have "edge_lines rows = concat (map (\<lambda>l. l @ [newline]) (map ?line rows))"
    unfolding edge_lines_def map_map by (intro arg_cong[of _ _ concat] map_cong) (auto simp: wrap_line_def)
  moreover have "newline \<notin> set t \<and> carriage_return \<notin> set t" if "t \<in> set (map ?line rows)" for t
    using that l by auto
  ultimately have "py_lines (edge_lines rows) = map ?line rows" by (simp only:) (rule py_lines_concat)
  then show ?thesis
    unfolding wrap_rows_def using l by (simp only: py_map_of_map) (rule py_map_map, blast)
qed

lemma rename_edges:
  assumes "fs ''new_order.el'' = Some (order_lines nm)" "writable out" "\<not> same_file links out ''new_order.el''"
    "bij_betw ((!) nm) {..<n} {..<n}" "0 < n" "length nm = n" "n < U32 div 2" "\<forall>(a, b) \<in> set (edge_ends rows). a < n \<and> b < n"
    "mapping \<in> {keep_zero, keep_zero_weighted} \<and> p = swapped nm \<or> mapping = om_mapping \<and> p = (!) nm"
  shows "rename_file links mapping writable fs out (wrap_rows rows) files = (files @ [(out, edge_lines (rename_ends p rows))], None)"
proof -
  have el: "\<forall>(a, b, w) \<in> set (wrap_rows rows). a \<in> int ` {..<n} \<and> b \<in> int ` {..<n}"
    using assms(8) by (auto simp: wrap_rows_def edge_ends_def)
  have t: "concat (map (\<lambda>(a, b, w). wrap_line (int (p (nat a))) (int (p (nat b))) w) (wrap_rows rows)) = edge_lines (rename_ends p rows)"
    unfolding wrap_rows_def edge_lines_def rename_ends_def map_map by (intro arg_cong[of _ _ concat] map_cong) auto
  show ?thesis
    using rename_file_ok[where fs = fs and writable = writable and out = out and el = "wrap_rows rows",
        OF assms(1-7) el assms(9)] unfolding t by blast
qed

section \<open>Programs that write an order\<close>

text \<open>What the scripts need of the program that they run: on the edges \<open>es\<close> of a graph with the vertices \<open>0, \<dots>, n - 1\<close>
  that it accepts, it ends, and leaves a permutation in \<open>new_order.el\<close>.\<close>

locale order_program =
  fixes links :: links and run :: program and params :: "string list" and accepts :: "nat \<Rightarrow> (nat \<times> nat) list \<Rightarrow> bool" and places :: "string \<Rightarrow> bool"
  assumes bounds: "accepts n es \<Longrightarrow> 0 < n \<and> n < U32 div 2 \<and> (\<forall>(a, b) \<in> set es. a < n \<and> b < n)"
    and writes_order: "accepts n es \<Longrightarrow> fs inp = Some (print_edges es) \<Longrightarrow> places out \<Longrightarrow>
      \<exists>status files nm. run fs ([prog] @ params @ [inp, out]) = Some (status, files) \<and>
        (\<forall>fs. fold (put_file links) files fs ''new_order.el'' = Some (order_lines nm)) \<and>
        length nm = n \<and> bij_betw ((!) nm) {..<n} {..<n}"
begin

text \<open>Without weights, and \<open>-m\<close>.\<close>

lemma renames_keep_zero:
  assumes a: "accepts n (edge_ends rows)" and i: "fs inp = Some (edge_lines rows)" and f: "list_all (row_fits False) rows"
    and w: "places ''output.el''" "writable out" "\<not> same_file links out ''new_order.el''"
  shows "\<exists>p files. wrap_main links run params False True prog fs writable inp out =
      Some (files @ [(out, edge_lines (rename_ends p rows))], None) \<and> bij_betw p {..<n} {..<n} \<and> p 0 = 0"
proof -
  have n: "0 < n" "n < U32 div 2" "\<forall>(a, b) \<in> set (edge_ends rows). a < n \<and> b < n" using bounds[OF a] by auto
  then have "\<forall>(a, b) \<in> set (edge_ends rows). a < U32 div 2 \<and> b < U32 div 2" by fastforce
  then have e: "edge_lines rows = print_edges (edge_ends rows)" using edge_lines_unweighted(2)[OF _ f] by blast
  obtain status files nm where r: "run fs ([prog] @ params @ [inp, ''output.el'']) = Some (status, files)"
    "fold (put_file links) files fs ''new_order.el'' = Some (order_lines nm)" "length nm = n" "bij_betw ((!) nm) {..<n} {..<n}"
    using writes_order[where fs = fs and inp = inp and prog = prog, OF a i[unfolded e] w(1)] by blast
  have "rename_file links keep_zero writable (fold (put_file links) files fs) out (wrap_rows rows) files =
      (files @ [(out, edge_lines (rename_ends (swapped nm) rows))], None)"
    by (rule rename_edges[where fs = "fold (put_file links) files fs" and writable = writable and out = out, OF r(2) w(2,3) r(4) n(1) r(3) n(2,3)]) simp
  then have "wrap_main links run params False True prog fs writable inp out =
      Some (files @ [(out, edge_lines (rename_ends (swapped nm) rows))], None)"
    using r(1) by (simp add: wrap_main_def i wrap_rows_ok[OF f])
  then show ?thesis using swapped_bij[OF r(4) n(1)] by (intro exI[of _ "swapped nm"] exI[of _ files]) (simp add: swapped_def)
qed

text \<open>With weights, which the program does not see.\<close>

lemma renames_weighted:
  assumes a: "accepts n (edge_ends rows)" and i: "fs inp = Some (edge_lines rows)" and f: "list_all (row_fits True) rows"
    and w: "places ''./output.el''" "writable out" "\<not> same_file links out ''new_order.el''" "writable ''input.el''" "links ''input.el'' ''./input.el''"
  shows "\<exists>p files. wrap_main links run params True maintain prog fs writable inp out =
      Some (files @ [(out, edge_lines (rename_ends p rows))], None) \<and> bij_betw p {..<n} {..<n} \<and> (maintain \<longrightarrow> p 0 = 0)"
proof -
  have n: "0 < n" "n < U32 div 2" "\<forall>(a, b) \<in> set (edge_ends rows). a < n \<and> b < n" using bounds[OF a] by auto
  then have b: "\<forall>(a, b) \<in> set (edge_ends rows). a < U32 div 2 \<and> b < U32 div 2" by fastforce
  let ?u = "(''input.el'', print_edges (edge_ends rows))"
  have "put_file links ?u fs ''./input.el'' = Some (print_edges (edge_ends rows))" using w(5) by (simp add: put_file_def same_file_def)
  from writes_order[where prog = prog, where fs = "put_file links ?u fs" and inp = "''./input.el''", OF a this w(1)] obtain status files nm where
    r: "run (put_file links ?u fs) ([prog] @ params @ [''./input.el'', ''./output.el'']) = Some (status, files)"
    "\<forall>fs. fold (put_file links) files fs ''new_order.el'' = Some (order_lines nm)" "length nm = n" "bij_betw ((!) nm) {..<n} {..<n}"
    by blast
  let ?mapping = "if maintain then keep_zero_weighted else om_mapping" and ?p = "if maintain then swapped nm else (!) nm"
  have "rename_file links ?mapping writable (fold (put_file links) files (put_file links ?u fs)) out (wrap_rows rows) (?u # files) =
      ((?u # files) @ [(out, edge_lines (rename_ends ?p rows))], None)"
    by (rule rename_edges[where fs = "fold (put_file links) files (put_file links ?u fs)" and writable = writable and out = out, OF spec[OF r(2)] w(2,3) r(4) n(1) r(3) n(2,3)]) simp
  then have "wrap_main links run params True maintain prog fs writable inp out =
      Some ((?u # files) @ [(out, edge_lines (rename_ends ?p rows))], None)"
    using r(1) w(4) by (simp add: wrap_main_def i wrap_rows_ok[OF f] edge_lines_unweighted(1)[OF b] Let_def split del: if_split)
  then show ?thesis
    using swapped_bij[OF r(4) n(1)] r(4) by (intro exI[of _ ?p] exI[of _ "?u # files"]) (simp add: swapped_def)
qed

end

text \<open>The program \<open>br\<close> with blocks of 64 vertices.\<close>

definition br_accepts :: "nat \<Rightarrow> (nat \<times> nat) list \<Rightarrow> bool" where
  "br_accepts n es \<longleftrightarrow> (\<forall>(a, b) \<in> set es. a < n \<and> b < n) \<and> ends (no_loops es) = {..<n} \<and> 64 < n \<and> n < U32 div 2 - 1 \<and>
     length es \<le> U32 div 2 \<and> (\<exists>(a, b) \<in> set (no_loops es). a < 64)"

lemma vertex_rank_all: "v < n \<Longrightarrow> vertex_rank {..<n} v = v"
proof -
  assume "v < n"
  then have "{u \<in> {..<n}. u < v} = {..<v}" by auto
  then show ?thesis by (simp add: vertex_rank_def)
qed

lemma atoi_params: "atoi ''64'' = Some 64" "atoi ''532480'' = Some 532480" "(532480 :: nat) < U32"
  by (simp_all add: atoi_def scan_d_def scan_sign_def is_space_def is_digit_def decimal_value_def digit_val_def)

lemma br_writes_order:
  assumes "br_accepts n es" "fs inp = Some (print_edges es)" "writable ''new_order.el''" "writable out"
  shows "\<exists>s nm. br_main fs writable [prog, ''64'', ''532480'', inp, out] = Some (0, [(out, s), (''new_order.el'', order_lines nm)]) \<and>
    length nm = n \<and> bij_betw ((!) nm) {..<n} {..<n}"
proof -
  have b: "\<forall>(a, b) \<in> set es. a < n \<and> b < n" "ends (no_loops es) = {..<n}" "64 < n" "n < U32 div 2 - 1" "length es \<le> U32 div 2"
    "\<exists>(a, b) \<in> set (no_loops es). a < 64"
    using assms(1) by (simp_all add: br_accepts_def)
  obtain a b' where ab: "(a, b') \<in> set (no_loops es)" "a < 64" using b(6) by blast
  then have "a < n" using b(1) by (auto simp: no_loops_def)
  then have "vertex_rank {..<n} a < 64" using ab(2) vertex_rank_all by simp
  then have first: "\<exists>(a, b) \<in> set (no_loops es). vertex_rank (ends (no_loops es)) a < 64" unfolding b(2) using ab(1) by blast
  have c: "card (ends (no_loops es)) = n" "64 < card (ends (no_loops es))" using b(2,3) by simp_all
  have es: "\<forall>(a, b) \<in> set es. a < U32 div 2 - 1 \<and> b < U32 div 2 - 1" using b(1,4) by fastforce
  show ?thesis
    using br_main_ok[where fs = fs and inp = inp and writable = writable and out = out and argv = "[prog, ''64'', ''532480'', inp, out]",
        OF assms(2) _ atoi_params(3) es b(5) first c(2) assms(3,4)] atoi_params(1,2)
    unfolding c(1) order_lines_def[symmetric] by blast
qed

interpretation br: order_program links "\<lambda>fs. br_main fs writable" "[''64'', ''532480'']" br_accepts
  "\<lambda>out. writable out \<and> writable ''new_order.el''" for links writable
proof unfold_locales
  show "0 < n \<and> n < U32 div 2 \<and> (\<forall>(a, b) \<in> set es. a < n \<and> b < n)" if "br_accepts n es" for n es
    using that by (auto simp: br_accepts_def)
  show "\<exists>status files nm. br_main fs writable ([prog] @ [''64'', ''532480''] @ [inp, out]) = Some (status, files) \<and>
      (\<forall>fs. fold (put_file links) files fs ''new_order.el'' = Some (order_lines nm)) \<and> length nm = n \<and> bij_betw ((!) nm) {..<n} {..<n}"
    if a: "br_accepts n es" "fs inp = Some (print_edges es)" and w: "writable out \<and> writable ''new_order.el''"
    for n es fs inp out prog
  proof -
    obtain s nm where "br_main fs writable [prog, ''64'', ''532480'', inp, out] = Some (0, [(out, s), (''new_order.el'', order_lines nm)])"
      "length nm = n" "bij_betw ((!) nm) {..<n} {..<n}"
      using br_writes_order[of n es fs inp writable out prog] a w by blast
    moreover have "fold (put_file links) [(out, s), (''new_order.el'', order_lines nm)] g ''new_order.el'' = Some (order_lines nm)" for g
      by (simp add: put_file_def same_file_def)
    ultimately show ?thesis by (intro exI[of _ 0] exI[of _ "[(out, s), (''new_order.el'', order_lines nm)]"] exI[of _ nm]) simp
  qed
qed

section \<open>Properties\<close>

text \<open>C39: \<open>br.py -m\<close> with the program \<open>br\<close>: if the vertices are \<open>0, \<dots>, n - 1\<close>, each with an edge to another vertex, and
  more than 64, one of the first 64 with an outgoing edge, it runs \<open>br\<close>, reads the order back and writes the edges of the
  input, in their order, renamed by a permutation that keeps vertex 0.\<close>

theorem br_py_keeps_zero:
  assumes "br_accepts n (edge_ends rows)" "fs inp = Some (edge_lines rows)" "list_all (row_fits False) rows"
    "writable ''new_order.el''" "writable ''output.el''" "writable out" "\<not> same_file links out ''new_order.el''"
  shows "\<exists>p files. br_py links (\<lambda>fs. br_main fs writable) False True prog fs writable inp out =
      Some (files @ [(out, edge_lines (rename_ends p rows))], None) \<and> bij_betw p {..<n} {..<n} \<and> p 0 = 0"
  unfolding br_py_def using br.renames_keep_zero[where links = links and n = n and rows = rows and fs = fs and inp = inp and out = out and prog = prog and writable = writable] assms by simp

theorem br_py_keeps_zero_witness:
  "\<exists>p files. br_py (\<lambda>p q. p = ''./'' @ q \<or> q = ''./'' @ p) (\<lambda>fs. br_main fs (\<lambda>_. True)) False True ''br/br'' [''in'' \<mapsto> edge_lines (map (\<lambda>i. (i, Suc i, None)) [0..<65])] (\<lambda>_. True) ''in'' ''out'' =
      Some (files @ [(''out'', edge_lines (rename_ends p (map (\<lambda>i. (i, Suc i, None)) [0..<65])))], None) \<and>
    bij_betw p {..<66} {..<66} \<and> p 0 = 0"
proof -
  let ?rows = "map (\<lambda>i. (i, Suc i, None)) [0..<65] :: labelled_edge list" and ?es = "map (\<lambda>i. (i, Suc i)) [0..<65]"
  have r: "edge_ends ?rows = ?es" by (simp add: edge_ends_def)
  have l: "no_loops ?es = ?es" unfolding no_loops_def by (rule filter_True) auto
  have "ends ?es = {..<65} \<union> Suc ` {..<65}" by (simp add: ends_def image_image lessThan_atLeast0)
  also have "\<dots> = {..<66}"
  proof -
    have "v \<in> {..<65} \<union> Suc ` {..<65} \<longleftrightarrow> v < 66" for v by (cases v) auto
    then show ?thesis by blast
  qed
  finally have e: "ends (no_loops ?es) = {..<66}" unfolding l .
  have "(0, 1) \<in> set ?es" by force
  then have f: "\<exists>(a, b) \<in> set (no_loops ?es). a < 64" unfolding l by (rule bexI[rotated]) simp
  have b: "\<forall>(a, b) \<in> set ?es. a < 66 \<and> b < (66 :: nat)" by auto
  have "br_accepts 66 (edge_ends ?rows)" unfolding br_accepts_def r using b e f by simp
  then show ?thesis
    by (rule br_py_keeps_zero[where rows = ?rows and n = 66]) (simp_all add: list_all_iff row_fits_def same_file_def)
qed

text \<open>The same with \<open>-w\<close>: the weights stay with their edges.\<close>

theorem br_py_weighted:
  assumes "br_accepts n (edge_ends rows)" "fs inp = Some (edge_lines rows)" "list_all (row_fits True) rows"
    "writable ''new_order.el''" "writable ''./output.el''" "writable out" "\<not> same_file links out ''new_order.el''" "writable ''input.el''"
    "links ''input.el'' ''./input.el''"
  shows "\<exists>p files. br_py links (\<lambda>fs. br_main fs writable) True maintain prog fs writable inp out =
      Some (files @ [(out, edge_lines (rename_ends p rows))], None) \<and> bij_betw p {..<n} {..<n} \<and> (maintain \<longrightarrow> p 0 = 0)"
  unfolding br_py_def using br.renames_weighted[where links = links and n = n and rows = rows and fs = fs and inp = inp and out = out and prog = prog and maintain = maintain and writable = writable] assms by simp

text \<open>C40: \<open>ph.py -m\<close> with the program \<open>ph\<close> cannot work: \<open>ph\<close> writes its order to \<open>ph/new_order.el\<close>, and the script
  opens \<open>new_order.el\<close>. For every input of \<open>ph\<close>, in a directory without an old file of that name, the script ends with
  an error and does not write its output.\<close>

theorem ph_py_no_order:
  assumes "fs inp = Some (edge_lines rows)" "list_all (row_fits False) rows"
    "\<forall>(a, b) \<in> set (edge_ends rows). a < U32 div 2 - 1 \<and> b < U32 div 2 - 1" "length rows < U32 - 1"
    "no_loops (edge_ends rows) \<noteq> []" "fs ''new_order.el'' = None" "writable ''ph/new_order.el''" "writable ''output.el''"
    "\<not> links ''ph/new_order.el'' ''new_order.el''" "\<not> links ''output.el'' ''new_order.el''"
  shows "\<exists>s t. ph_py links (\<lambda>fs. ph_main fs writable) False True prog fs writable inp out =
    Some ([(''ph/new_order.el'', t), (''output.el'', s)], Some OSError)"
proof -
  have "\<forall>(a, b) \<in> set (edge_ends rows). a < U32 div 2 \<and> b < U32 div 2" using assms(3) by fastforce
  then have "fs inp = Some (print_edges (edge_ends rows))" using edge_lines_unweighted(2)[OF _ assms(2)] assms(1) by simp
  moreover have "length (edge_ends rows) < U32 - 1" using assms(4) by (simp add: edge_ends_def)
  ultimately obtain s t where r: "ph_main fs writable [prog, ''532480'', inp, ''output.el''] =
      Some (0, [(''ph/new_order.el'', t), (''output.el'', s)])"
    using ph_main_ok[where fs = fs and inp = inp and writable = writable and out = "''output.el''"
        and argv = "[prog, ''532480'', inp, ''output.el'']", OF _ _ atoi_params(3) assms(3) _ assms(5,7,8)] atoi_params(2) by blast
  have "fold (put_file links) [(''ph/new_order.el'', t), (''output.el'', s)] fs ''new_order.el'' = None"
    using assms(6,9,10) by (simp add: put_file_def same_file_def)
  then have f: "rename_file links keep_zero writable (fold (put_file links) [(''ph/new_order.el'', t), (''output.el'', s)] fs) out el fl = (fl, Some OSError)" for el fl
    by (simp add: rename_file_def)
  have "ph_py links (\<lambda>fs. ph_main fs writable) False True prog fs writable inp out =
      Some (rename_file links keep_zero writable (fold (put_file links) [(''ph/new_order.el'', t), (''output.el'', s)] fs) out
        (wrap_rows rows) [(''ph/new_order.el'', t), (''output.el'', s)])"
    unfolding ph_py_def wrap_main_def assms(1) option.case wrap_rows_ok[OF assms(2)] sum.case using r by simp
  then show ?thesis unfolding f by blast
qed

theorem ph_py_no_order_witness:
  "\<exists>s t. ph_py (\<lambda>p q. p = ''./'' @ q \<or> q = ''./'' @ p) (\<lambda>fs. ph_main fs (\<lambda>_. True)) False True ''ph/ph'' [''in'' \<mapsto> edge_lines [(0, 1, None)]] (\<lambda>_. True) ''in'' ''out'' =
    Some ([(''ph/new_order.el'', t), (''output.el'', s)], Some OSError)"
  by (rule ph_py_no_order[where rows = "[(0, 1, None)]"]) (simp_all add: no_loops_def edge_ends_def row_fits_def)

section \<open>The script for Rabbit\<close>

text \<open>If the program prints a permutation of \<open>0, \<dots>, n - 1\<close> the edges are renamed by it, with vertex 0 kept by \<open>-m\<close>.\<close>

theorem rabbit_main_ok:
  fixes maintain :: bool
  assumes "fs inp = Some (edge_lines rows)" "list_all (row_fits False) rows" "\<forall>(a, b) \<in> set (edge_ends rows). a < n \<and> b < n"
    "n < U32 div 2" "0 < n" "run fs [''rabbit/reorder'', inp] = order_lines nm" "length nm = n" "bij_betw ((!) nm) {..<n} {..<n}"
    "writable ''rabbit_output.txt''" "writable out" "\<not> same_file links out ''rabbit_output.txt''"
  defines "p \<equiv> if maintain then swapped nm else (!) nm"
  shows "rabbit_main links run False maintain fs writable inp out =
      ([(''rabbit_output.txt'', order_lines nm), (out, edge_lines (rename_ends p rows))], None)"
    "bij_betw p {..<n} {..<n}" "maintain \<longrightarrow> p 0 = 0"
proof -
  show b: "bij_betw p {..<n} {..<n}" using assms(8) swapped_bij[OF assms(8,5)] by (simp add: p_def)
  show "maintain \<longrightarrow> p 0 = 0" by (simp add: p_def swapped_def)
  have "distinct nm" using assms(7,8) by (auto simp: distinct_conv_nth bij_betw_def inj_on_def)
  then obtain om where om: "py_fold order_line (map (\<lambda>x. py_str (int x)) nm) order_start = Inr om" "om_mapping om = indexed nm"
    "om_zeros om = Some (int (nm ! 0))" "\<forall>j < length nm. nm ! j = 0 \<longrightarrow> om_to_zero om = Some (int j)"
    using read_order_ok[of nm] assms(5,7) by auto
  let ?mp = "if maintain then keep_zero_weighted om else om_mapping om"
  have get: "py_get ?mp (int v) = int (p v)" if "v < n" for v
    using keep_zero_lookup(2)[OF assms(8,5,7) om(2-4) that] assms(7) that
    by (simp add: py_get_def p_def om(2) indexed_lookup)
  have "x < U32 div 2" if x: "x \<in> set nm" for x
  proof -
    obtain i where "i < n" "x = nm ! i" using x assms(7) by (metis in_set_conv_nth)
    then show ?thesis using bij_betw_apply[OF assms(8), of i] assms(4) by simp
  qed
  then have lines: "py_lines (order_lines nm) = map (\<lambda>x. py_str (int x)) nm" by (intro order_lines_ok) blast
  have "rabbit_row False l = wrap_row False l" for l unfolding rabbit_row_def wrap_row_def if_False ..
  then have "rabbit_row False = wrap_row False" by (rule ext)
  then have rows: "py_map (rabbit_row False) (py_lines (edge_lines rows)) = Inr (wrap_rows rows)"
    using wrap_rows_ok[OF assms(2)] by simp
  have "a < n \<and> b < n" if "(a, b, w) \<in> set rows" for a b w using assms(3) that by (force simp: edge_ends_def)
  then have "concat (map (\<lambda>(s, d, w). wrap_line (py_get ?mp s) (py_get ?mp d) w) (wrap_rows rows)) = edge_lines (rename_ends p rows)"
    unfolding wrap_rows_def edge_lines_def rename_ends_def map_map
    using get by (intro arg_cong[of _ _ concat] map_cong) auto
  then show "rabbit_main links run False maintain fs writable inp out =
      ([(''rabbit_output.txt'', order_lines nm), (out, edge_lines (rename_ends p rows))], None)"
    using assms(9-11) lines om(1) by (simp add: rabbit_main_def assms(1,6) rows order_start_def Let_def split del: if_split)
qed

end
