(* ===== verification/Spec2Isabelle.thy ===== *)
theory Spec2Isabelle
  imports Block_Main Weighted_Main PageRank_Threads Gorder_Main Gorder_Limits Gorder_Stats Python_Wrappers
begin

text \<open>
  A verification library of the graph reordering programs of this repository.

  The programs read a graph, compute a new order of its vertices that keeps vertices with common
  neighbours close together (so that a cache holds them), and write the renamed graph. They are:
  \<open>br/block_reordering\<close> (orders blocks of consecutive vertices), \<open>ph/pH\<close> (orders single vertices), their
  copies with edge weights and options in \<open>graphReordering\<close>, the converter \<open>graphReordering/csr_gen\<close> from edge
  lists to binary graphs, the page-rank programs \<open>graphReordering/examples/pagerank\<close> that use those graphs,
  \<open>gorder/Gorder_code\<close> (a greedy order by common in-neighbours, on a priority queue of its own), the Python scripts
  \<open>degree/degree.py\<close> and \<open>cluster/hub.py\<close> (orders by degree), and the scripts \<open>br.py\<close>, \<open>ph.py\<close> and
  \<open>rabbit.py\<close> that run a program and rename the edges by the order it has written.

  Conventions (\<open>Prelude\<close>, \<open>Signed\<close>). A function of the code is a HOL function into \<open>option\<close>; \<open>None\<close> is
  undefined behaviour (an index outside its array, signed overflow) or a loop that does not end. Hence
  \<open>f x = Some y\<close> says that the code terminates, stays inside its arrays and returns \<open>y\<close>. The loops are
  \<open>for_range\<close> (counting), \<open>int_for\<close> (with a signed counter) or \<open>partial_function (option)\<close>; no fuel is used.
  An \<open>unsigned int\<close> is a natural number below \<open>2^32\<close> with the wrap-around written out, an \<open>int\<close> is either such
  a number in two's complement (in the edge lists) or an integer with a range check. Arrays are lists.

  Theories, from the bottom:

  \<^item> \<open>Prelude\<close>: unsigned arithmetic, checked arrays, counting loops, total correctness (\<open>ok\<close>). \<open>Signed\<close>: the same for \<open>int\<close>.
  \<^item> \<open>Merge_Sort\<close>: \<open>sort.cpp\<close>, for every element type and comparison (locale \<open>rank_order\<close>, interpreted for the
    orders the copies use). \<open>Int_Sort\<close>: the copies with \<open>int\<close> bounds, which refine the former.
  \<^item> \<open>CSR\<close>: the compressed graphs of \<open>graph.cpp\<close>: \<open>filter\<close>, \<open>csr_convert\<close>, \<open>createReverseCSR\<close>. A graph
    stands for the list of its edges (\<open>edges\<close>), \<open>wf_csr\<close> is its invariant.
  \<^item> \<open>Stdio\<close>, \<open>Graph_IO\<close>: \<open>fscanf\<close> and \<open>fprintf\<close> of numbers, reading and writing of edge lists and
    binary files, with the round trips.
  \<^item> \<open>Cache_Model\<close>: \<open>cachefunc.cpp\<close>: the nodes sorted by their number of cached parents, moved one place at a time.
    Its invariant ties the order, the index \<open>CI\<close> of the costs and the inverse permutations to the simulated cache.
    The reordering loops use it through a locale whose laws are those lemmas.
  \<^item> \<open>Init_Model\<close>, \<open>Reorder_Loop\<close>: the initial state and the placement loop of \<open>main.cpp\<close>.
  \<^item> \<open>Relabel\<close>: applying an order to a graph gives an isomorphic graph. \<open>Program\<close>: what the \<open>main\<close>s share
    (command line, files, the composition of reading, renaming and writing).
  \<^item> \<open>Block_Reorder\<close>, \<open>Block_Main\<close>: \<open>br/block_reordering/main.cpp\<close>. \<open>PH_Reorder\<close>: \<open>ph/pH/main.cpp\<close>.
  \<^item> \<open>Weighted_Graph\<close>, \<open>Weighted_Main\<close>: the copies in \<open>graphReordering\<close> with weights, options and the
    choice of the direction.
  \<^item> \<open>CSR_Gen\<close>: the converter. \<open>PageRank\<close>: \<open>prST.cpp\<close>, with the arithmetic of \<open>double\<close> as a parameter.
    \<open>PageRank_Threads\<close>: \<open>prMT.cpp\<close> as a step relation over all interleavings of its threads.
  \<^item> \<open>Gorder_Graph\<close>: \<open>Graph.cpp\<close> of Gorder: \<open>readGraph\<close> (with \<open>fgets\<close> and its buffer), \<open>writeGraph\<close>,
    \<open>RemoveDuplicate\<close>; the graph of an edge list (\<open>go_of\<close>, \<open>go_wf\<close>). \<open>Gorder_Transform\<close>: the reverse
    Cuthill-McKee order \<open>RCMOrder\<close>, \<open>Transform\<close> and \<open>PrintReOrderedGraph\<close>.
  \<^item> \<open>Unit_Heap\<close>: \<open>UnitHeap.h\<close> and \<open>UnitHeap.cpp\<close>: the doubly linked list sorted by keys, with a header per key
    and the decreases that are put off (\<open>update\<close>). \<open>Gorder_Scores\<close>: the scores of the vertices outside the window. Its
    locale \<open>score_queue\<close>, extended by \<open>extract_queue\<close>, states what the greedy order needs of a queue, and is
    interpreted on the unit heap. \<open>Gorder_Greedy\<close>: the loop of \<open>GorderGreedy\<close>. \<open>Gorder_Main\<close>: \<open>main.cpp\<close>.
    \<open>Gorder_Limits\<close>: where the queue leaves its arrays.
  \<^item> \<open>Gorder_Util\<close>: \<open>Util.h\<close> and \<open>Util.cpp\<close>. \<open>Gorder_Stats\<close>: the statistics of \<open>Graph.cpp\<close>; the locality
    score is the objective of the greedy order.
  \<^item> \<open>Python_IO\<close>: exceptions, dictionaries, lines, words and numbers of Python. \<open>Python_Orders\<close>: \<open>degree.py\<close> and
    \<open>hub.py\<close>. \<open>Python_Wrappers\<close>: \<open>br.py\<close>, \<open>ph.py\<close>, \<open>rabbit.py\<close> and \<open>br_weighted.py\<close>. What they
    need of the program that they run is the locale \<open>order_program\<close>, interpreted on the model of \<open>br\<close>; that of \<open>ph\<close>
    writes the order to another file.
  \<^item> This theory: programs run one after the other.

  What the main theorems show. For each reordering program: started on the text of an edge list it terminates
  without undefined behaviour and writes the text of a graph isomorphic to the input, under a permutation that
  \<open>br\<close>, \<open>ph\<close> and the weighted \<open>ph\<close> also write. (Their READMEs document a binary CSR file as the output. The code has \<open>write_csr\<close>, which is
  modelled, but the \<open>main\<close>s do not call it: they write text, an edge list or rows with weights.) Block reordering asks for an
  edge in the first block and, without weights, for more than one block. Each operation of the cache model keeps its invariant; the node placed next has the
  largest number of cached parents. The sorts are stable sorts. The converter stores exactly the edges of its
  input and \<open>read_csr\<close> reads back what \<open>write_csr\<close> wrote. Page rank with one thread is twelve passes
  of the rank equation; with threads, every schedule gives ten passes, provided that the division covers the
  vertices. Of Gorder: reading back what was written and renaming by the reverse Cuthill-McKee order give, up to the call of \<open>std::sort\<close> in them,
  the edges that the call is to sort, with the degrees and starts of their graph; the scores that are kept
  while vertices enter and leave the window are those computed from scratch, and the vertex taken out of the queue has the highest
  score, up to the decreases that were put off; the greedy order is defined up to its last vertex, is a
  permutation if that vertex owes no decrease, and is undefined if it does (both happen: witness of
  \<open>GorderGreedy_permutation\<close>, and \<open>GorderGreedy_undefined\<close>); what is printed under a permutation is the renamed graph, sorted.
  \<open>go_main_isomorphic\<close> puts the parts together, for a \<open>std::sort\<close> that sorts also with the comparison of Gorder. The Python orders are permutations sorted by degree, or with the hubs
  first, and \<open>br.py\<close> with \<open>br\<close> keeps vertex 0 where it was asked to.
  The remaining theorems say where the programs are undefined, fail or lose data (empty first block, a
  single block, rows without target, negative or largest numbers, more threads than vertices, a full header of the
  queue of Gorder or a last vertex that owes a decrease, gaps in the vertex numbers, an order file of another name).

  Parameters. \<open>std::sort\<close> is a parameter \<open>sorts\<close> where its comparison matters (Gorder), with the law \<open>sorts_ok\<close> that the standard gives: for a
  strict weak order (\<open>cmp_ok\<close>: irreflexive, transitive, with transitive incomparability) it returns a sorted permutation. The comparison
  of edges in \<open>readGraph\<close> and \<open>Transform\<close> uses \<open>\<le>\<close> and is none for any edge (\<open>edge_less_reflexive\<close>), so the law says nothing
  of it: the theorems stop at that call, and only \<open>readGraph_text\<close>, \<open>Transform_ok\<close> and \<open>go_main_isomorphic\<close> assume, as \<open>edge_sort_ok\<close>, that the
  library sorts nevertheless. Arithmetic of \<open>double\<close> is a record of operations (\<open>floating\<close>, \<open>log_floating\<close>), of
  which only the laws named in a theorem are used. The iteration over a Python set is any function that
  lists the set (\<open>iterates\<close>). \<open>hub.py\<close> compares an \<open>int\<close> with a \<open>float\<close> quotient; the model compares exactly, which is the same below
  \<open>2^53\<close> (\<open>float_comparison\<close>). The program that a script runs is an argument of the script, and so is the relation \<open>links\<close>, which paths name the
  same file. The options that \<open>argparse\<close> returns are a record.

  Errors. In C++ \<open>None\<close> is undefined behaviour; the exit codes of \<open>main\<close> are in the result (\<open>outcome\<close>), and
  \<open>quit()\<close> of Gorder is an inner \<open>None\<close>. A Python exception is a value of \<open>py_error\<close>, next to the files that were written
  before it.

  Bounds: the results on whole programs hold for vertex numbers and numbers of edges below the limits of
  \<open>int\<close> that each theorem states; the sorts with \<open>int\<close> bounds for up to \<open>2^30\<close> elements. Gorder is modelled as its
  makefile builds it (with \<open>-DRelease\<close>, which removes the checks of \<open>UnitHeap.h\<close>); the theorem on its greedy order asks for a graph
  with edges, without duplicates, and in-degrees below the size of the header of the queue (at that size it is undefined:
  \<open>IncrementKey_full\<close>, \<open>greedy_init_full\<close>).

  Not modelled: exhaustion of memory, messages to the terminal, the clock and the timings, \<open>freeMem\<close> and destructors;
  Python's limit on the length of numbers and non-ASCII input; \<open>logger.cpp\<close>, which writes one number to a log; the
  GraphIt algorithms (\<open>.gt\<close>), whose language has no semantics here; the shell scripts, which start the programs; Rabbit, of
  which the repository has only an executable; the simulator and compiler under \<open>src/omega\<close> (gem5 and GraphIt, third-party
  code with generated sources).
\<close>

section \<open>Programs in sequence\<close>

text \<open>The graph that the generator writes is one the page-rank programs take.\<close>

lemma generated_graph_ok:
  assumes "\<forall>(a, b) \<in> set es. a < U32 div 2 - 2 \<and> b < U32 div 2 - 2" "length es < U32 div 2"
  defines "G \<equiv> csr_graph (top_vertex es + 1) (top_vertex es + 1) (no_loops es)"
  shows "pr_ok G" "mset (edges G) = filter_mset (\<lambda>(a, b). a \<noteq> b) (mset es)" "numVertex G = top_vertex es + 1"
proof -
  let ?n = "top_vertex es + 1" and ?ps = "no_loops es"
  have n: "?n < U32 div 2 - 1" using top_vertex_bounds(2)[of es "U32 div 2 - 2"] assms(1) by simp
  have l: "length ?ps < U32 div 2"
    using assms(2) length_filter_le[of "\<lambda>(a, b). a \<noteq> b" es] unfolding no_loops_def by linarith
  have q: "fst q < ?n" "snd q < ?n" if "q \<in> set ?ps" for q
    using top_vertex_bounds(1)[of "fst q" "snd q" es] that by (auto simp: no_loops_def)
  have n32: "?n < U32 - 1" "length ?ps < U32" "?n < U32" using n l by simp_all
  have u: "snd q < U32" if "q \<in> set ?ps" for q using q(2)[OF that] n32(3) by linarith
  note g = csr_graph[of ?n ?ps ?n, OF _ n32(1,2) order.refl q(1)]
  note v = csr_graph_values[of ?n ?ps, OF n32(3,2) u q(1)]
  have t: "e < ?n" if "e \<in> set (EI G)" for e
    using that csr_of_targets[of ?ps ?n e ?n] q(2) unfolding G_def csr_graph_def by simp
  have nm: "numVertex G = ?n" "numEdges G = length ?ps" by (simp_all add: G_def csr_graph_def)
  then show "numVertex G = top_vertex es + 1" by simp
  show "pr_ok G"
    unfolding pr_ok_def using g(1)[folded G_def] v(3,4)[folded G_def] n l t nm by auto
  show "mset (edges G) = filter_mset (\<lambda>(a, b). a \<noteq> b) (mset es)"
    unfolding G_def by (subst g(3)) (simp_all add: no_loops_def)
qed

text \<open>C26: The generator followed by the page rank: from the text of an edge list to the file of ranks. The ranks are
  those of a graph that has exactly the edges of the list, without its self loops.\<close>

theorem generate_then_rank:
  assumes "\<forall>(a, b) \<in> set es. a < 2 ^ 30 \<and> b < 2 ^ 30" "length es < 2 ^ 31" "fs i = Some (print_edges es)"
    "linear F" "writable f" "writable ''dumpPR.txt''"
  shows "\<exists>bs G. cg_main [p, i, f] fs writable = Some (0, [(f, bs)]) \<and>
    mset (edges G) = filter_mset (\<lambda>(a, b). a \<noteq> b) (mset es) \<and>
    prST_main F [q, f] [f \<mapsto> bs] writable = Some (0, [(''dumpPR.txt'',
      concat (map (\<lambda>x. print_lf F x @ [newline])
        (take 1000 (rev (sort ((pr_step F G ^^ 12) (replicate (numVertex G) (fone F))))))))])"
proof -
  let ?G = "csr_graph (top_vertex es + 1) (top_vertex es + 1) (no_loops es)"
  have es: "\<forall>(a, b) \<in> set es. a < U32 div 2 - 2 \<and> b < U32 div 2 - 2" "length es < U32 div 2"
    "\<forall>(a, b) \<in> set es. a < U32 div 2 - 1 \<and> b < U32 div 2 - 1" using assms(1,2) by fastforce+
  note g = generated_graph_ok[OF es(1,2)]
  have top: "top_vertex es < 2 ^ 30" using top_vertex_bounds(2)[of es "2 ^ 30"] assms(1) by simp
  then have n: "numVertex ?G \<le> 1073741824" unfolding g(3) by simp
  note G = pr_okD[OF g(1)]
  have "\<forall>v \<in> set (VI ?G) \<union> set (EI ?G). v < U32"
    using pr_ok_VI[OF g(1)] G(3) G(6) n by fastforce
  then obtain bs where bs: "cg_write_csr ?G = Some bs"
    using cg_read_write[of ?G] G(2-5) by auto
  have "cg_main [p, i, f] fs writable = Some (0, [(f, bs)])"
    using cg_main_ok(1)[of es fs i p f writable, OF es(3,2) assms(3)] bs assms(5) by simp
  moreover have "prST_main F [q, f] [f \<mapsto> bs] writable = Some (0, [(''dumpPR.txt'',
      rank_lines F ((pr_step F ?G ^^ 12) (ones F ?G)))])"
    using prST_main_ok[OF assms(4) g(1) n bs, of "[f \<mapsto> bs]" f q writable] assms(6) by simp
  ultimately show ?thesis using g(2) unfolding rank_lines_def by blast
qed

theorem generate_then_rank_witness:
  "\<exists>bs G. cg_main [''csr_gen'', ''in'', ''out''] (\<lambda>_. Some (print_edges [(0, 1), (1, 0), (1, 1)])) (\<lambda>_. True) = Some (0, [(''out'', bs)]) \<and>
    mset (edges G) = {#(0, 1), (1, 0)#} \<and>
    prST_main int_floating [''prST'', ''out''] [''out'' \<mapsto> bs] (\<lambda>_. True) = Some (0, [(''dumpPR.txt'',
      concat (map (\<lambda>x. print_lf int_floating x @ [newline])
        (take 1000 (rev (sort ((pr_step int_floating G ^^ 12) (replicate (numVertex G) (fone int_floating))))))))])"
proof -
  let ?es = "[(0, 1), (1, 0), (1, 1)] :: (nat \<times> nat) list"
  have m: "filter_mset (\<lambda>(a, b). a \<noteq> b) (mset ?es) = {#(0, 1), (1, 0)#}" by simp
  have e: "\<forall>(a, b) \<in> set ?es. a < 2 ^ 30 \<and> b < 2 ^ 30" "length ?es < 2 ^ 31" "linear int_floating"
    by (simp_all add: linear_def int_floating_def)
  show ?thesis
    using generate_then_rank[where es = ?es and fs = "\<lambda>_. Some (print_edges ?es)" and i = "''in''" and F = int_floating
      and writable = "\<lambda>_. True" and f = "''out''" and p = "''csr_gen''" and q = "''prST''", OF e(1,2) refl e(3)]
    unfolding m by simp
qed

end
